(* ===== verification/C99_Prelude.thy ===== *)
theory C99_Prelude
  imports Main "HOL-Library.Word" "HOL-Library.Monad_Syntax" "HOL-Library.Multiset"
begin

text \<open>
  Shared vocabulary of the development of c99rt, the C runtime under \<open>rt/\<close>: the machine
  integer types the sources use, C's conversions to a signed type of a given width, and the
  few facts on lists, options and words that several components need.
\<close>

unbundle bit_operations_syntax

section \<open>Machine integers\<close>

type_synonym u8 = "8 word"
type_synonym u16 = "16 word"
type_synonym u32 = "32 word"
type_synonym u64 = "64 word"

text \<open>
  A signed C integer is an \<open>int\<close>; \<open>wrap_s8\<close>, \<open>wrap_s16\<close>, \<open>wrap_s32\<close> and
  \<open>wrap_s64\<close> are the conversions to \<open>signed char\<close>, \<open>short\<close>, \<open>int\<close> (and the
  Windows \<open>long\<close>) and \<open>long long\<close>: keep the low bits, read them as two's complement.
\<close>

abbreviation wrap_s8 :: "int \<Rightarrow> int" where "wrap_s8 x \<equiv> signed_take_bit 7 x"
abbreviation wrap_s16 :: "int \<Rightarrow> int" where "wrap_s16 x \<equiv> signed_take_bit 15 x"
abbreviation wrap_s32 :: "int \<Rightarrow> int" where "wrap_s32 x \<equiv> signed_take_bit 31 x"
abbreviation wrap_s64 :: "int \<Rightarrow> int" where "wrap_s64 x \<equiv> signed_take_bit 63 x"

lemma wrap_s32_id: "- (2 ^ 31) \<le> x \<Longrightarrow> x < 2 ^ 31 \<Longrightarrow> wrap_s32 x = x"
  by (simp add: signed_take_bit_int_eq_self)

lemma wrap_s64_id: "- (2 ^ 63) \<le> x \<Longrightarrow> x < 2 ^ 63 \<Longrightarrow> wrap_s64 x = x"
  by (simp add: signed_take_bit_int_eq_self)

text \<open>The bytes of a string literal.\<close>

definition lit :: "string \<Rightarrow> u8 list" where
  "lit s = map of_char s"

lemma lit_Nil [simp]: "lit [] = []"
  by (simp add: lit_def)

lemma lit_Cons [simp]: "lit (c # s) = of_char c # lit s"
  by (simp add: lit_def)

lemma length_lit [simp]: "length (lit s) = length s"
  by (simp add: lit_def)

section \<open>Fact collections\<close>

named_theorems mem_simps \<open>reads and writes of the byte memory\<close>
named_theorems limb_simps \<open>values of base-1000000000 limb lists\<close>

section \<open>Lists and options\<close>

lemma bind_eq_Some: "(m \<bind> f = Some y) \<longleftrightarrow> (\<exists>x. m = Some x \<and> f x = Some y)"
  by (cases m) auto

lemma nth_append_first: "i < length xs \<Longrightarrow> (xs @ ys) ! i = xs ! i"
  by (simp add: nth_append)

lemma take_Suc_nth: "i < length xs \<Longrightarrow> take (Suc i) xs = take i xs @ [xs ! i]"
  by (simp add: take_Suc_conv_app_nth)

section \<open>Unsigned values of words\<close>

lemma unat_of_nat_small: "n < 2 ^ LENGTH('a::len) \<Longrightarrow> unat (of_nat n :: 'a word) = n"
  by (simp add: unat_of_nat take_bit_nat_eq_self)

lemma unat_add_small:
  "unat (a :: 'a::len word) + unat b < 2 ^ LENGTH('a) \<Longrightarrow> unat (a + b) = unat a + unat b"
  by (simp add: unat_word_ariths)

lemma unat_mult_small:
  "unat (a :: 'a::len word) * unat b < 2 ^ LENGTH('a) \<Longrightarrow> unat (a * b) = unat a * unat b"
  by (simp add: unat_word_ariths)

lemma unat_ucast_small: "unat w < 2 ^ LENGTH('b) \<Longrightarrow>
    unat (ucast (w :: 'a::len word) :: 'b::len word) = unat w"
  by (simp add: unsigned_ucast_eq take_bit_nat_eq_self)

lemma unat_ucast_up: "LENGTH('a) \<le> LENGTH('b) \<Longrightarrow>
    unat (ucast (w :: 'a::len word) :: 'b::len word) = unat w"
  by (rule unat_ucast_small) (meson less_le_trans one_le_numeral power_increasing unsigned_less)

lemma unat_push_bit_small: "unat w * 2 ^ n < 2 ^ LENGTH('a) \<Longrightarrow>
    unat (push_bit n (w :: 'a::len word)) = unat w * 2 ^ n"
  by (subst unsigned_push_bit_eq) (simp add: push_bit_eq_mult take_bit_nat_eq_self)

text \<open>Clearing the low bits rounds down to a multiple.\<close>

lemma unat_and_not_mask: "unat ((w :: 'a::len word) AND NOT (mask k)) = unat w div 2 ^ k * 2 ^ k"
proof -
  have "w AND NOT (mask k) = push_bit k (drop_bit k w)"
    by (rule bit_word_eqI) (auto simp: bit_and_iff bit_not_iff bit_mask_iff bit_push_bit_iff bit_drop_bit_eq not_less)
  moreover have d: "unat (drop_bit k w) = unat w div 2 ^ k"
    by (subst unsigned_drop_bit_eq) (simp add: drop_bit_eq_div take_bit_nat_eq_self)
  moreover have "unat w div 2 ^ k * 2 ^ k < 2 ^ LENGTH('a)"
    using unsigned_less [of w, where ?'a = nat] by (intro order.strict_trans1 [OF div_times_less_eq_dividend])
  ultimately show ?thesis using unat_push_bit_small [of "drop_bit k w" k] by simp
qed

end
