(* ===== verification/Memory.thy ===== *)
theory Memory
  imports C99_Prelude
begin

text \<open>
  The byte-addressed memory the runtime's pointer code reads and writes. A pointer is its
  address; a \<open>mem\<close> maps each address the program may touch to its byte, and an
  access to any other address is a fault, the value \<open>None\<close> of the option monad. Reads
  and writes of eight bytes at once are the little-endian \<open>unsigned long long\<close> accesses
  of \<open>rt_string.c\<close>. \<open>cells\<close> is over the type of the unit an address names: the wide
  strings of \<open>rt_wstring.c\<close> live in memories of 16-bit units.
\<close>

type_synonym 'a cells = "nat \<rightharpoonup> 'a"
type_synonym mem = "u8 cells"

section \<open>Reading and writing\<close>

definition put8 :: "'a cells \<Rightarrow> nat \<Rightarrow> 'a \<Rightarrow> 'a cells" where
  "put8 m p b = m(p \<mapsto> b)"

definition st8 :: "'a cells \<Rightarrow> nat \<Rightarrow> 'a \<Rightarrow> 'a cells option" where
  "st8 m p b = (if m p = None then None else Some (put8 m p b))"

fun ldn :: "'a cells \<Rightarrow> nat \<Rightarrow> nat \<Rightarrow> 'a list option" where
  "ldn m p 0 = Some []"
| "ldn m p (Suc n) = do { b \<leftarrow> m p; bs \<leftarrow> ldn m (Suc p) n; Some (b # bs) }"

fun stn :: "'a cells \<Rightarrow> nat \<Rightarrow> 'a list \<Rightarrow> 'a cells option" where
  "stn m p [] = Some m"
| "stn m p (b # bs) = do { m' \<leftarrow> st8 m p b; stn m' (Suc p) bs }"

text \<open>Little-endian words: the first byte is the lowest.\<close>

fun u64_of_bytes :: "u8 list \<Rightarrow> u64" where
  "u64_of_bytes [] = 0"
| "u64_of_bytes (b # bs) = ucast b OR push_bit 8 (u64_of_bytes bs)"

fun bytes_of_u64 :: "nat \<Rightarrow> u64 \<Rightarrow> u8 list" where
  "bytes_of_u64 0 w = []"
| "bytes_of_u64 (Suc n) w = ucast w # bytes_of_u64 n (drop_bit 8 w)"

definition ld64 :: "mem \<Rightarrow> nat \<Rightarrow> u64 option" where
  "ld64 m p = do { bs \<leftarrow> ldn m p 8; Some (u64_of_bytes bs) }"

definition st64 :: "mem \<Rightarrow> nat \<Rightarrow> u64 \<Rightarrow> mem option" where
  "st64 m p w = stn m p (bytes_of_u64 8 w)"

section \<open>What a memory holds\<close>

definition bytes_at :: "'a cells \<Rightarrow> nat \<Rightarrow> 'a list \<Rightarrow> bool" where
  "bytes_at m p bs \<longleftrightarrow> (\<forall>i<length bs. m (p + i) = Some (bs ! i))"

definition mapped :: "'a cells \<Rightarrow> nat \<Rightarrow> nat \<Rightarrow> bool" where
  "mapped m p n \<longleftrightarrow> (\<forall>i<n. m (p + i) \<noteq> None)"

definition cstr :: "('a::zero) cells \<Rightarrow> nat \<Rightarrow> 'a list \<Rightarrow> bool" where
  "cstr m p s \<longleftrightarrow> bytes_at m p (s @ [0]) \<and> 0 \<notin> set s"

definition put_bytes :: "'a cells \<Rightarrow> nat \<Rightarrow> 'a list \<Rightarrow> 'a cells" where
  "put_bytes m p bs = (\<lambda>a. if p \<le> a \<and> a < p + length bs then Some (bs ! (a - p)) else m a)"

lemma put8_same [simp]: "put8 m p b p = Some b"
  by (simp add: put8_def)

lemma put8_other [simp]: "a \<noteq> p \<Longrightarrow> put8 m p b a = m a"
  by (simp add: put8_def)

lemma put8_apply: "put8 m p b a = (if a = p then Some b else m a)"
  by simp

lemma put_bytes_Nil [simp]: "put_bytes m p [] = m"
  unfolding put_bytes_def by (rule ext) (metis add.right_neutral leD list.size(3))

lemma put_bytes_Cons: "put_bytes m p (b # bs) = put_bytes (put8 m p b) (Suc p) bs"
  by (rule ext) (auto simp: put_bytes_def put8_def nth_Cons' Suc_diff_Suc)

lemma put_bytes_append: "put_bytes m p (bs @ cs) = put_bytes (put_bytes m p bs) (p + length bs) cs"
proof (induction bs arbitrary: m p)
  case (Cons b bs)
  then show ?case by (simp add: put_bytes_Cons)
qed simp

lemma put_bytes_snoc: "put_bytes m p (bs @ [c]) = put8 (put_bytes m p bs) (p + length bs) c"
  by (simp add: put_bytes_append put_bytes_Cons)

lemma put_bytes_other [simp]: "a < p \<or> p + length bs \<le> a \<Longrightarrow> put_bytes m p bs a = m a"
  by (auto simp: put_bytes_def)

lemma put_bytes_in [simp]: "i < length bs \<Longrightarrow> put_bytes m p bs (p + i) = Some (bs ! i)"
  by (simp add: put_bytes_def)

lemma put_bytes_mono: "m a \<noteq> None \<Longrightarrow> put_bytes m p bs a \<noteq> None"
  by (simp add: put_bytes_def)

lemma put_bytes_overwrite:
  "length bs = length cs \<Longrightarrow> put_bytes (put_bytes m p bs) p cs = put_bytes m p cs"
  by (rule ext) (simp add: put_bytes_def)

lemma put_bytes_same: "bytes_at m p bs \<Longrightarrow> put_bytes m p bs = m"
proof
  fix a
  assume at: "bytes_at m p bs"
  show "put_bytes m p bs a = m a"
  proof (cases "p \<le> a \<and> a < p + length bs")
    case True
    then have "a - p < length bs" and "a = p + (a - p)" by auto
    with at show ?thesis by (metis bytes_at_def put_bytes_in)
  next
    case False
    then show ?thesis by (auto simp: put_bytes_def)
  qed
qed

text \<open>\<open>mem_of p bs\<close>: a memory holding just \<open>bs\<close> at \<open>p\<close>.\<close>

definition mem_of :: "nat \<Rightarrow> 'a list \<Rightarrow> 'a cells" where
  "mem_of p bs = put_bytes (\<lambda>_. None) p bs"

lemma bytes_at_Nil [simp]: "bytes_at m p []"
  by (simp add: bytes_at_def)

lemma bytes_at_Cons [simp]:
  "bytes_at m p (b # bs) \<longleftrightarrow> m p = Some b \<and> bytes_at m (Suc p) bs"
proof
  assume l: "bytes_at m p (b # bs)"
  have "m (Suc p + i) = Some (bs ! i)" if "i < length bs" for i
    using l that unfolding bytes_at_def by (auto dest: spec [of _ "Suc i"])
  with l show "m p = Some b \<and> bytes_at m (Suc p) bs"
    unfolding bytes_at_def by (auto dest: spec [of _ 0])
next
  assume r: "m p = Some b \<and> bytes_at m (Suc p) bs"
  show "bytes_at m p (b # bs)"
    unfolding bytes_at_def
  proof (intro allI impI)
    fix i assume "i < length (b # bs)"
    with r show "m (p + i) = Some ((b # bs) ! i)"
      by (cases i) (auto simp: bytes_at_def)
  qed
qed

lemma bytes_at_append [simp]:
  "bytes_at m p (bs @ cs) \<longleftrightarrow> bytes_at m p bs \<and> bytes_at m (p + length bs) cs"
  by (induction bs arbitrary: p) auto

lemma bytes_at_nth: "bytes_at m p bs \<Longrightarrow> i < length bs \<Longrightarrow> m (p + i) = Some (bs ! i)"
  by (simp add: bytes_at_def)

lemma bytes_at_take: "bytes_at m p bs \<Longrightarrow> bytes_at m p (take n bs)"
  by (simp add: bytes_at_def)

lemma bytes_at_drop: "bytes_at m p bs \<Longrightarrow> n \<le> length bs \<Longrightarrow> bytes_at m (p + n) (drop n bs)"
  by (simp add: bytes_at_def add.assoc)

lemma bytes_at_unique:
  "bytes_at m p bs \<Longrightarrow> bytes_at m p cs \<Longrightarrow> length bs = length cs \<Longrightarrow> bs = cs"
  by (rule nth_equalityI) (auto simp: bytes_at_def)

lemma mapped_0 [simp]: "mapped m p 0"
  by (simp add: mapped_def)

lemma mapped_Suc [simp]: "mapped m p (Suc n) \<longleftrightarrow> m p \<noteq> None \<and> mapped m (Suc p) n"
  unfolding mapped_def by (auto simp: less_Suc_eq_0_disj)

lemma mapped_add: "mapped m p (a + b) \<longleftrightarrow> mapped m p a \<and> mapped m (p + a) b"
  by (induction a arbitrary: p) auto

lemma mapped_nth: "mapped m p n \<Longrightarrow> i < n \<Longrightarrow> \<exists>b. m (p + i) = Some b"
  by (simp add: mapped_def)

lemma mapped_le: "mapped m p n \<Longrightarrow> k \<le> n \<Longrightarrow> mapped m p k"
  by (simp add: mapped_def)

lemma bytes_at_mapped: "bytes_at m p bs \<Longrightarrow> mapped m p (length bs)"
  by (simp add: bytes_at_def mapped_def)

lemma mapped_put_bytes [simp]: "mapped m q n \<Longrightarrow> mapped (put_bytes m p bs) q n"
  unfolding mapped_def by (metis put_bytes_mono)

lemma mapped_upd [simp]: "mapped m q n \<Longrightarrow> mapped (put8 m p b) q n"
  by (simp add: mapped_def put8_apply)

lemma put_bytes_dom: "mapped m p (length bs) \<Longrightarrow> dom (put_bytes m p bs) = dom m"
proof (rule set_eqI)
  fix a
  assume "mapped m p (length bs)"
  then have "\<exists>b. m a = Some b" if "p \<le> a" "a < p + length bs"
    using mapped_nth [of m p "length bs" "a - p"] that by auto
  then show "a \<in> dom (put_bytes m p bs) \<longleftrightarrow> a \<in> dom m" by (auto simp: put_bytes_def split: if_splits)
qed

lemma mapped_bytes: "mapped m p n \<Longrightarrow> \<exists>bs. length bs = n \<and> bytes_at m p bs"
proof (induction n arbitrary: p)
  case (Suc n)
  then obtain b where "m p = Some b" and "mapped m (Suc p) n" by auto
  with Suc.IH obtain bs where "m p = Some b" "length bs = n" "bytes_at m (Suc p) bs" by blast
  then show ?case by (intro exI [of _ "b # bs"]) simp
qed simp

lemma bytes_at_put_bytes_same: "bytes_at (put_bytes m p bs) p bs"
  by (simp add: bytes_at_def)

lemma bytes_at_put_bytes_other:
  "bytes_at m q cs \<Longrightarrow> q + length cs \<le> p \<or> p + length bs \<le> q \<Longrightarrow>
   bytes_at (put_bytes m p bs) q cs"
  unfolding bytes_at_def by auto

lemma bytes_at_upd_other:
  "bytes_at m q cs \<Longrightarrow> p < q \<or> q + length cs \<le> p \<Longrightarrow> bytes_at (put8 m p b) q cs"
  unfolding bytes_at_def by auto

lemma cstr_Nil [simp]: "cstr m p [] \<longleftrightarrow> m p = Some 0"
  by (simp add: cstr_def)

lemma cstr_Cons [simp]: "cstr m p (c # s) \<longleftrightarrow> m p = Some c \<and> c \<noteq> 0 \<and> cstr m (Suc p) s"
  by (auto simp: cstr_def)

lemma cstr_bytes: "cstr m p s \<Longrightarrow> bytes_at m p s"
  by (simp add: cstr_def)

lemma cstr_end: "cstr m p s \<Longrightarrow> m (p + length s) = Some 0"
  by (simp add: cstr_def)

lemma cstr_append: "cstr m p (s @ t) \<Longrightarrow> cstr m (p + length s) t"
  by (simp add: cstr_def add.assoc)

lemma cstr_drop: "cstr m p s \<Longrightarrow> n \<le> length s \<Longrightarrow> cstr m (p + n) (drop n s)"
  using cstr_append [of m p "take n s" "drop n s"] by simp

lemma cstr_mapped: "cstr m p s \<Longrightarrow> mapped m p (length s + 1)"
  unfolding cstr_def using bytes_at_mapped by fastforce

lemma cstr_unique: "cstr m p s \<Longrightarrow> cstr m p t \<Longrightarrow> s = t"
proof (induction s arbitrary: t p)
  case Nil
  then show ?case by (cases t) auto
next
  case (Cons c s)
  then show ?case by (cases t) auto
qed

section \<open>The access operations\<close>

lemma st8_mapped: "m p \<noteq> None \<Longrightarrow> st8 m p b = Some (put8 m p b)"
  by (simp add: st8_def)

lemma ldn_bytes: "bytes_at m p bs \<Longrightarrow> length bs = n \<Longrightarrow> ldn m p n = Some bs"
  by (induction bs arbitrary: p n) auto

lemma ldn_Some: "ldn m p n = Some bs \<longleftrightarrow> length bs = n \<and> bytes_at m p bs"
proof (induction n arbitrary: p bs)
  case (Suc n)
  then show ?case by (cases bs) (auto simp: bind_eq_Some)
qed auto

lemma stn_mapped: "mapped m p (length bs) \<Longrightarrow> stn m p bs = Some (put_bytes m p bs)"
proof (induction bs arbitrary: m p)
  case (Cons b bs)
  then have "m p \<noteq> None" and "mapped (put8 m p b) (Suc p) (length bs)" by auto
  with Cons.IH show ?case by (simp add: st8_mapped put_bytes_Cons)
qed simp

lemma length_bytes_of_u64 [simp]: "length (bytes_of_u64 n w) = n"
  by (induction n arbitrary: w) auto

lemma ucast_low_byte: "(ucast (ucast (b::u8) OR push_bit 8 w :: u64) :: u8) = b"
  by (rule bit_word_eqI) (simp add: bit_simps)

lemma drop_low_byte:
  "take_bit 56 w = w \<Longrightarrow> drop_bit 8 (ucast (b::u8) OR push_bit 8 w :: u64) = w"
proof (rule bit_word_eqI)
  fix n assume w: "take_bit 56 w = w" and n: "n < LENGTH(64)"
  have "bit w n \<longleftrightarrow> n < 56 \<and> bit w n" using w by (metis bit_take_bit_iff)
  moreover have "\<not> bit b (8 + n)" by (auto dest: bit_imp_le_length)
  ultimately show "bit (drop_bit 8 (ucast b OR push_bit 8 w)) n = bit w n"
    using n by (auto simp: bit_simps)
qed

lemma u64_of_bytes_small: "length bs \<le> 7 \<Longrightarrow> take_bit (8 * length bs) (u64_of_bytes bs) = u64_of_bytes bs"
proof (induction bs)
  case (Cons b bs)
  then have IH: "take_bit (8 * length bs) (u64_of_bytes bs) = u64_of_bytes bs" by simp
  show ?case
  proof (rule bit_word_eqI)
    fix n assume "n < LENGTH(64)"
    have "bit (u64_of_bytes bs) (n - 8) \<Longrightarrow> n - 8 < 8 * length bs"
      using IH by (metis bit_take_bit_iff)
    then show "bit (take_bit (8 * length (b # bs)) (u64_of_bytes (b # bs))) n =
        bit (u64_of_bytes (b # bs)) n"
      by (auto simp: bit_simps dest: bit_imp_le_length)
  qed
qed simp

lemma bytes_of_u64_of_bytes: "length bs \<le> 8 \<Longrightarrow> bytes_of_u64 (length bs) (u64_of_bytes bs) = bs"
proof (induction bs)
  case (Cons b bs)
  then have small: "take_bit (8 * length bs) (u64_of_bytes bs) = u64_of_bytes bs"
    and le: "8 * length bs \<le> 56" by (simp_all add: u64_of_bytes_small)
  have "take_bit 56 (u64_of_bytes bs) = take_bit 56 (take_bit (8 * length bs) (u64_of_bytes bs))"
    by (simp only: small)
  also have "\<dots> = u64_of_bytes bs"
    by (subst take_bit_take_bit) (simp only: min_absorb2 [OF le] small)
  finally have "take_bit 56 (u64_of_bytes bs) = u64_of_bytes bs" .
  with Cons show ?case by (simp add: ucast_low_byte drop_low_byte del: drop_bit_or)
qed simp

lemma ld64_bytes: "bytes_at m p bs \<Longrightarrow> length bs = 8 \<Longrightarrow> ld64 m p = Some (u64_of_bytes bs)"
  by (simp add: ld64_def ldn_bytes)

text \<open>A word loaded and stored elsewhere carries its eight bytes over unchanged.\<close>

lemma st64_ld64:
  "bytes_at m p bs \<Longrightarrow> length bs = 8 \<Longrightarrow> mapped m q 8 \<Longrightarrow>
   ld64 m p \<bind> st64 m q = Some (put_bytes m q bs)"
  using bytes_of_u64_of_bytes [of bs]
  by (simp add: ld64_bytes st64_def stn_mapped)

end
