(* ===== verification/Ctype.thy ===== *)
theory Ctype
  imports C99_Prelude
begin

text \<open>
  \<open>rt/rt_ctype.c\<close>: the C-locale character classes. The argument is an \<open>int\<close>, as in
  C; a test that yields 0 or 1 there is a \<open>bool\<close> here.
\<close>

definition rt_in :: "int \<Rightarrow> int \<Rightarrow> int \<Rightarrow> bool" where
  "rt_in c lo hi \<longleftrightarrow> lo \<le> c \<and> c \<le> hi"

definition isdigit :: "int \<Rightarrow> bool" where
  "isdigit c = rt_in c 48 57"

definition isupper :: "int \<Rightarrow> bool" where
  "isupper c = rt_in c 65 90"

definition islower :: "int \<Rightarrow> bool" where
  "islower c = rt_in c 97 122"

definition isalpha :: "int \<Rightarrow> bool" where
  "isalpha c = (isupper c \<or> islower c)"

definition isalnum :: "int \<Rightarrow> bool" where
  "isalnum c = (isalpha c \<or> isdigit c)"

definition isxdigit :: "int \<Rightarrow> bool" where
  "isxdigit c = (isdigit c \<or> rt_in c 97 102 \<or> rt_in c 65 70)"

definition isspace :: "int \<Rightarrow> bool" where
  "isspace c = (c = 32 \<or> c = 9 \<or> c = 10 \<or> c = 11 \<or> c = 12 \<or> c = 13)"

definition isblank :: "int \<Rightarrow> bool" where
  "isblank c = (c = 32 \<or> c = 9)"

definition iscntrl :: "int \<Rightarrow> bool" where
  "iscntrl c = (rt_in c 0 31 \<or> c = 127)"

definition isprint :: "int \<Rightarrow> bool" where
  "isprint c = rt_in c 32 126"

definition isgraph :: "int \<Rightarrow> bool" where
  "isgraph c = rt_in c 33 126"

definition ispunct :: "int \<Rightarrow> bool" where
  "ispunct c = (isgraph c \<and> \<not> isalnum c)"

definition tolower :: "int \<Rightarrow> int" where
  "tolower c = (if isupper c then wrap_s32 (c + 32) else c)"

definition toupper :: "int \<Rightarrow> int" where
  "toupper c = (if islower c then wrap_s32 (c - 32) else c)"

lemmas ctype_defs = rt_in_def isdigit_def isupper_def islower_def isalpha_def isalnum_def
  isxdigit_def isspace_def isblank_def iscntrl_def isprint_def isgraph_def ispunct_def

lemma tolower_upper: "isupper c \<Longrightarrow> tolower c = c + 32"
  by (simp add: tolower_def ctype_defs signed_take_bit_int_eq_self)

lemma toupper_lower: "islower c \<Longrightarrow> toupper c = c - 32"
  by (simp add: toupper_def ctype_defs signed_take_bit_int_eq_self)

lemma tolower_other: "\<not> isupper c \<Longrightarrow> tolower c = c"
  by (simp add: tolower_def)

lemma toupper_other: "\<not> islower c \<Longrightarrow> toupper c = c"
  by (simp add: toupper_def)

lemma islower_tolower: "isalpha c \<Longrightarrow> islower (tolower c)"
  by (cases "isupper c") (auto simp: tolower_upper tolower_other ctype_defs)

lemma isupper_toupper: "isalpha c \<Longrightarrow> isupper (toupper c)"
  by (cases "islower c") (auto simp: toupper_lower toupper_other ctype_defs)

lemma toupper_tolower: "isupper c \<Longrightarrow> toupper (tolower c) = c"
  using islower_tolower [of c] by (simp add: tolower_upper toupper_lower isalpha_def)

lemma tolower_toupper: "islower c \<Longrightarrow> tolower (toupper c) = c"
  using isupper_toupper [of c] by (simp add: tolower_upper toupper_lower isalpha_def)

text \<open>
  The classes partition the seven-bit range: each character is a control character, the
  space, a letter, a digit or punctuation, and no two of these at once.
\<close>

lemma ctype_cover: "0 \<le> c \<Longrightarrow> c < 128 \<Longrightarrow>
    iscntrl c \<or> c = 32 \<or> isalpha c \<or> isdigit c \<or> ispunct c"
  by (auto simp: ctype_defs)

lemma ctype_disjoint:
  "\<not> (iscntrl c \<and> isprint c)" "\<not> (isalpha c \<and> isdigit c)" "\<not> (ispunct c \<and> isalnum c)"
  "\<not> (isupper c \<and> islower c)"
  by (auto simp: ctype_defs)

section \<open>Properties\<close>

text \<open>
  Every seven-bit character is in exactly one of the classes control, space, letter,
  digit and punctuation.
\<close>

theorem ctype_partition:
  assumes "0 \<le> c" "c < 128"
  shows "length (filter id [iscntrl c, c = 32, isalpha c, isdigit c, ispunct c]) = 1"
  using assms by (auto simp: ctype_defs)

lemma ctype_partition_witness:
  "length (filter id [iscntrl 65, (65::int) = 32, isalpha 65, isdigit 65, ispunct 65]) = 1"
  by (rule ctype_partition) simp_all

text \<open>
  Case conversion, for every int: \<open>tolower\<close> and \<open>toupper\<close> undo each other on letters,
  change nothing else, and are idempotent.
\<close>

theorem case_conversion:
  "toupper (tolower c) = toupper c \<and> tolower (toupper c) = tolower c \<and>
   tolower (tolower c) = tolower c \<and> toupper (toupper c) = toupper c \<and>
   (tolower c \<noteq> c \<longleftrightarrow> isupper c) \<and> (toupper c \<noteq> c \<longleftrightarrow> islower c)"
proof -
  consider "isupper c" | "islower c" | "\<not> isupper c" "\<not> islower c" by blast
  then show ?thesis
  proof cases
    case 1
    then have "\<not> islower c" "islower (c + 32)" "\<not> isupper (c + 32)" by (auto simp: ctype_defs)
    then show ?thesis using 1
      by (simp add: tolower_upper toupper_other toupper_lower tolower_other)
  next
    case 2
    then have "\<not> isupper c" "isupper (c - 32)" "\<not> islower (c - 32)" by (auto simp: ctype_defs)
    then show ?thesis using 2
      by (simp add: tolower_upper toupper_other toupper_lower tolower_other)
  next
    case 3
    then show ?thesis by (simp add: toupper_other tolower_other)
  qed
qed

end
