(* ===== verification/RtString.thy ===== *)
theory RtString
  imports Memory Ctype
begin

text \<open>
  \<open>rt/rt_string.c\<close>: the \<open>mem*\<close> and \<open>str*\<close> routines over the byte memory. A loop
  that counts down is a recursive function; a loop that runs to a terminator is a
  \<open>partial_function (option)\<close>, whose \<open>None\<close> is a fault or a loop that does not end.
  A routine that writes returns the new memory; a returned pointer that may be null is an
  option of its own.
\<close>

section \<open>Copying and filling\<close>

fun memcpy_tail :: "mem \<Rightarrow> nat \<Rightarrow> nat \<Rightarrow> nat \<Rightarrow> mem option" where
  "memcpy_tail m d s 0 = Some m"
| "memcpy_tail m d s (Suc n) =
     do { b \<leftarrow> m s; m' \<leftarrow> st8 m d b; memcpy_tail m' (d + 1) (s + 1) n }"

function memcpy_loop :: "mem \<Rightarrow> nat \<Rightarrow> nat \<Rightarrow> nat \<Rightarrow> mem option" where
  "memcpy_loop m d s n =
     (if n \<ge> 8
      then do { w \<leftarrow> ld64 m s; m' \<leftarrow> st64 m d w; memcpy_loop m' (d + 8) (s + 8) (n - 8) }
      else memcpy_tail m d s n)"
  by pat_completeness auto
termination
  by (relation "measure (\<lambda>(m, d, s, n). n)") auto

declare memcpy_loop.simps [simp del]

definition memcpy :: "mem \<Rightarrow> nat \<Rightarrow> nat \<Rightarrow> nat \<Rightarrow> (nat \<times> mem) option" where
  "memcpy m dst src n = do { m' \<leftarrow> memcpy_loop m dst src n; Some (dst, m') }"

fun memmove_back :: "mem \<Rightarrow> nat \<Rightarrow> nat \<Rightarrow> nat \<Rightarrow> mem option" where
  "memmove_back m d s 0 = Some m"
| "memmove_back m d s (Suc n) =
     do { b \<leftarrow> m (s - 1); m' \<leftarrow> st8 m (d - 1) b; memmove_back m' (d - 1) (s - 1) n }"

definition memmove :: "mem \<Rightarrow> nat \<Rightarrow> nat \<Rightarrow> nat \<Rightarrow> (nat \<times> mem) option" where
  "memmove m dst src n =
     (if dst = src \<or> n = 0 then Some (dst, m)
      else if dst < src then memcpy m dst src n
      else do { m' \<leftarrow> memmove_back m (dst + n) (src + n) n; Some (dst, m') })"

fun memset_tail :: "mem \<Rightarrow> nat \<Rightarrow> u8 \<Rightarrow> nat \<Rightarrow> mem option" where
  "memset_tail m d b 0 = Some m"
| "memset_tail m d b (Suc n) = do { m' \<leftarrow> st8 m d b; memset_tail m' (d + 1) b n }"

function memset_loop :: "mem \<Rightarrow> nat \<Rightarrow> u8 \<Rightarrow> u64 \<Rightarrow> nat \<Rightarrow> mem option" where
  "memset_loop m d b w n =
     (if n \<ge> 8 then do { m' \<leftarrow> st64 m d w; memset_loop m' (d + 8) b w (n - 8) }
      else memset_tail m d b n)"
  by pat_completeness auto
termination
  by (relation "measure (\<lambda>(m, d, b, w, n). n)") auto

declare memset_loop.simps [simp del]

definition memset_word :: "u8 \<Rightarrow> u64" where
  "memset_word b =
     (let w = ucast b; w = w OR push_bit 8 w; w = w OR push_bit 16 w in w OR push_bit 32 w)"

definition memset :: "mem \<Rightarrow> nat \<Rightarrow> int \<Rightarrow> nat \<Rightarrow> (nat \<times> mem) option" where
  "memset m dst c n =
     (let b = word_of_int c
      in do { m' \<leftarrow> memset_loop m dst b (memset_word b) n; Some (dst, m') })"

section \<open>Comparing and searching bytes\<close>

fun memcmp :: "mem \<Rightarrow> nat \<Rightarrow> nat \<Rightarrow> nat \<Rightarrow> int option" where
  "memcmp m a b 0 = Some 0"
| "memcmp m a b (Suc n) =
     do { x \<leftarrow> m a; y \<leftarrow> m b;
          if x \<noteq> y then Some (uint x - uint y) else memcmp m (a + 1) (b + 1) n }"

fun memchr_loop :: "mem \<Rightarrow> nat \<Rightarrow> u8 \<Rightarrow> nat \<Rightarrow> nat option option" where
  "memchr_loop m s b 0 = Some None"
| "memchr_loop m s b (Suc n) =
     do { x \<leftarrow> m s; if x = b then Some (Some s) else memchr_loop m (s + 1) b n }"

definition memchr :: "mem \<Rightarrow> nat \<Rightarrow> int \<Rightarrow> nat \<Rightarrow> nat option option" where
  "memchr m p c n = memchr_loop m p (word_of_int c) n"

section \<open>Strings\<close>

partial_function (option) strlen_loop :: "mem \<Rightarrow> nat \<Rightarrow> nat option" where
  [code]: "strlen_loop m p = do { c \<leftarrow> m p; if c \<noteq> 0 then strlen_loop m (p + 1) else Some p }"

definition strlen :: "mem \<Rightarrow> nat \<Rightarrow> nat option" where
  "strlen m s = do { p \<leftarrow> strlen_loop m s; Some (p - s) }"

partial_function (option) strcmp :: "mem \<Rightarrow> nat \<Rightarrow> nat \<Rightarrow> int option" where
  [code]: "strcmp m a b =
     do { x \<leftarrow> m a;
          if x = 0 then do { y \<leftarrow> m b; Some (uint x - uint y) }
          else do { y \<leftarrow> m b;
                    if x = y then strcmp m (a + 1) (b + 1) else Some (uint x - uint y) } }"

text \<open>
  \<open>strncmp\<close> tests \<open>n\<close> before it reads, and its final comparison only reads when
  \<open>n\<close> has not run out.
\<close>

fun strncmp :: "mem \<Rightarrow> nat \<Rightarrow> nat \<Rightarrow> nat \<Rightarrow> int option" where
  "strncmp m a b 0 = Some 0"
| "strncmp m a b (Suc n) =
     do { x \<leftarrow> m a; y \<leftarrow> m b;
          if x \<noteq> 0 \<and> x = y then strncmp m (a + 1) (b + 1) n
          else Some (uint x - uint y) }"

partial_function (option) strcpy_loop :: "mem \<Rightarrow> nat \<Rightarrow> nat \<Rightarrow> mem option" where
  [code]: "strcpy_loop m d s =
     do { c \<leftarrow> m s; m' \<leftarrow> st8 m d c;
          if c \<noteq> 0 then strcpy_loop m' (d + 1) (s + 1) else Some m' }"

definition strcpy :: "mem \<Rightarrow> nat \<Rightarrow> nat \<Rightarrow> (nat \<times> mem) option" where
  "strcpy m dst src = do { m' \<leftarrow> strcpy_loop m dst src; Some (dst, m') }"

fun zero_fill :: "mem \<Rightarrow> nat \<Rightarrow> nat \<Rightarrow> mem option" where
  "zero_fill m d 0 = Some m"
| "zero_fill m d (Suc n) = do { m' \<leftarrow> st8 m d 0; zero_fill m' (d + 1) n }"

fun strncpy_loop :: "mem \<Rightarrow> nat \<Rightarrow> nat \<Rightarrow> nat \<Rightarrow> mem option" where
  "strncpy_loop m d s 0 = zero_fill m d 0"
| "strncpy_loop m d s (Suc n) =
     do { c \<leftarrow> m s;
          if c \<noteq> 0 then do { m' \<leftarrow> st8 m d c; strncpy_loop m' (d + 1) (s + 1) n }
          else zero_fill m d (Suc n) }"

definition strncpy :: "mem \<Rightarrow> nat \<Rightarrow> nat \<Rightarrow> nat \<Rightarrow> (nat \<times> mem) option" where
  "strncpy m dst src n = do { m' \<leftarrow> strncpy_loop m dst src n; Some (dst, m') }"

definition strcat :: "mem \<Rightarrow> nat \<Rightarrow> nat \<Rightarrow> (nat \<times> mem) option" where
  "strcat m dst src =
     do { d \<leftarrow> strlen_loop m dst; m' \<leftarrow> strcpy_loop m d src; Some (dst, m') }"

fun strncat_loop :: "mem \<Rightarrow> nat \<Rightarrow> nat \<Rightarrow> nat \<Rightarrow> mem option" where
  "strncat_loop m d s 0 = st8 m d 0"
| "strncat_loop m d s (Suc n) =
     do { c \<leftarrow> m s;
          if c \<noteq> 0 then do { m' \<leftarrow> st8 m d c; strncat_loop m' (d + 1) (s + 1) n }
          else st8 m d 0 }"

definition strncat :: "mem \<Rightarrow> nat \<Rightarrow> nat \<Rightarrow> nat \<Rightarrow> (nat \<times> mem) option" where
  "strncat m dst src n =
     do { d \<leftarrow> strlen_loop m dst; m' \<leftarrow> strncat_loop m d src n; Some (dst, m') }"

partial_function (option) strchr_loop :: "mem \<Rightarrow> nat \<Rightarrow> u8 \<Rightarrow> nat option option" where
  [code]: "strchr_loop m s b =
     do { x \<leftarrow> m s;
          if x = b then Some (Some s) else if x = 0 then Some None
          else strchr_loop m (s + 1) b }"

definition strchr :: "mem \<Rightarrow> nat \<Rightarrow> int \<Rightarrow> nat option option" where
  "strchr m s c = strchr_loop m s (word_of_int c)"

partial_function (option) strrchr_loop ::
    "mem \<Rightarrow> nat \<Rightarrow> u8 \<Rightarrow> nat option \<Rightarrow> nat option option" where
  [code]: "strrchr_loop m s b hit =
     do { x \<leftarrow> m s;
          let hit = (if x = b then Some s else hit)
          in if x = 0 then Some hit else strrchr_loop m (s + 1) b hit }"

definition strrchr :: "mem \<Rightarrow> nat \<Rightarrow> int \<Rightarrow> nat option option" where
  "strrchr m s c = strrchr_loop m s (word_of_int c) None"

partial_function (option) strstr_loop :: "mem \<Rightarrow> nat \<Rightarrow> nat \<Rightarrow> nat \<Rightarrow> nat option option" where
  [code]: "strstr_loop m hay needle n =
     do { h \<leftarrow> m hay;
          if h = 0 then Some None
          else do { k \<leftarrow> m needle;
                    if h = k
                    then do { r \<leftarrow> strncmp m hay needle n;
                              if r = 0 then Some (Some hay)
                              else strstr_loop m (hay + 1) needle n }
                    else strstr_loop m (hay + 1) needle n } }"

definition strstr :: "mem \<Rightarrow> nat \<Rightarrow> nat \<Rightarrow> nat option option" where
  "strstr m hay needle =
     do { k \<leftarrow> m needle;
          if k = 0 then Some (Some hay)
          else do { n \<leftarrow> strlen m needle; strstr_loop m hay needle n } }"

text \<open>
  \<open>strchr(set, *p)\<close> is given a \<open>char\<close>; its conversion to \<open>int\<close> and back is the
  identity on the byte, so \<open>strchr_loop\<close> is called on the byte itself.
\<close>

partial_function (option) strspn_loop :: "mem \<Rightarrow> nat \<Rightarrow> nat \<Rightarrow> nat option" where
  [code]: "strspn_loop m p cset =
     do { c \<leftarrow> m p;
          if c = 0 then Some p
          else do { r \<leftarrow> strchr_loop m cset c;
                    if r \<noteq> None then strspn_loop m (p + 1) cset else Some p } }"

definition strspn :: "mem \<Rightarrow> nat \<Rightarrow> nat \<Rightarrow> nat option" where
  "strspn m s cset = do { p \<leftarrow> strspn_loop m s cset; Some (p - s) }"

partial_function (option) strcspn_loop :: "mem \<Rightarrow> nat \<Rightarrow> nat \<Rightarrow> nat option" where
  [code]: "strcspn_loop m p cset =
     do { c \<leftarrow> m p;
          if c = 0 then Some p
          else do { r \<leftarrow> strchr_loop m cset c;
                    if r = None then strcspn_loop m (p + 1) cset else Some p } }"

definition strcspn :: "mem \<Rightarrow> nat \<Rightarrow> nat \<Rightarrow> nat option" where
  "strcspn m s cset = do { p \<leftarrow> strcspn_loop m s cset; Some (p - s) }"

partial_function (option) strpbrk :: "mem \<Rightarrow> nat \<Rightarrow> nat \<Rightarrow> nat option option" where
  [code]: "strpbrk m s cset =
     do { c \<leftarrow> m s;
          if c = 0 then Some None
          else do { r \<leftarrow> strchr_loop m cset c;
                    if r \<noteq> None then Some (Some s) else strpbrk m (s + 1) cset } }"

text \<open>
  \<open>strtok\<close>: the static \<open>rt_strtok_state\<close> is passed in and returned, with the token
  and the memory.
\<close>

definition strtok ::
    "mem \<Rightarrow> nat option \<Rightarrow> nat option \<Rightarrow> nat \<Rightarrow> (nat option \<times> nat option \<times> mem) option" where
  "strtok m state s sep =
     (case (if s = None then state else s) of
        None \<Rightarrow> Some (None, state, m)
      | Some s \<Rightarrow>
          do { k \<leftarrow> strspn m s sep;
               c \<leftarrow> m (s + k);
               if c = 0 then Some (None, None, m)
               else do { let tok = s + k;
                         j \<leftarrow> strcspn m tok sep;
                         e \<leftarrow> m (tok + j);
                         if e \<noteq> 0
                         then do { m' \<leftarrow> st8 m (tok + j) 0;
                                   Some (Some tok, Some (tok + j + 1), m') }
                         else Some (Some tok, None, m) } })"

definition rt_lower :: "int \<Rightarrow> int" where
  "rt_lower c = (if 65 \<le> c \<and> c \<le> 90 then wrap_s32 (c + 32) else c)"

partial_function (option) stricmp :: "mem \<Rightarrow> nat \<Rightarrow> nat \<Rightarrow> int option" where
  [code]: "stricmp m a b =
     do { ca \<leftarrow> m a; cb \<leftarrow> m b;
          let x = rt_lower (uint ca); y = rt_lower (uint cb)
          in if x \<noteq> y then Some (x - y)
             else if x = 0 then Some 0
             else stricmp m (a + 1) (b + 1) }"

fun strnicmp :: "mem \<Rightarrow> nat \<Rightarrow> nat \<Rightarrow> nat \<Rightarrow> int option" where
  "strnicmp m a b 0 = Some 0"
| "strnicmp m a b (Suc n) =
     do { ca \<leftarrow> m a; cb \<leftarrow> m b;
          let x = rt_lower (uint ca); y = rt_lower (uint cb)
          in if x \<noteq> y then Some (x - y)
             else if x = 0 then Some 0
             else strnicmp m (a + 1) (b + 1) n }"

text \<open>
  \<open>strerror\<close> writes \<open>"error "\<close> and the decimal number into its 40-byte static buffer,
  here at address \<open>buf\<close>. Negating \<open>INT_MIN\<close> wraps, as the compiled code does.
\<close>

function strerror_digits :: "int \<Rightarrow> u8 list \<Rightarrow> u8 list" where
  "strerror_digits err tmp =
     (if err > 0 then strerror_digits (err div 10) (word_of_int (48 + err mod 10) # tmp)
      else tmp)"
  by pat_completeness auto
termination
  by (relation "measure (\<lambda>(err, tmp). nat err)") auto

declare strerror_digits.simps [simp del]

definition strerror_text :: "int \<Rightarrow> u8 list" where
  "strerror_text err =
     (let sign = (if err < 0 then [45] else []);
          err = (if err < 0 then wrap_s32 (- err) else err);
          tmp = (if err = 0 then [48] else [])
      in lit ''error '' @ sign @ strerror_digits err tmp)"

definition strerror :: "mem \<Rightarrow> nat \<Rightarrow> int \<Rightarrow> (nat \<times> mem) option" where
  "strerror m buf err = do { m' \<leftarrow> stn m buf (strerror_text err @ [0]); Some (buf, m') }"

section \<open>The copying routines\<close>

lemma bytes_at_put_fwd:
  "bytes_at m (s + length bs) cs \<Longrightarrow> d \<le> s \<or> s + length bs + length cs \<le> d \<Longrightarrow>
   bytes_at (put_bytes m d bs) (s + length bs) cs"
  by (rule bytes_at_put_bytes_other) auto

lemma put_bytes_last: "put_bytes (put8 m (p + length bs) c) p bs = put_bytes m p (bs @ [c])"
proof
  fix a
  show "put_bytes (put8 m (p + length bs) c) p bs a = put_bytes m p (bs @ [c]) a"
    by (auto simp: put_bytes_def put8_apply nth_append)
qed

lemma memcpy_tail_ok:
  "bytes_at m s bs \<Longrightarrow> length bs = n \<Longrightarrow> mapped m d n \<Longrightarrow> d \<le> s \<or> s + n \<le> d \<Longrightarrow>
   memcpy_tail m d s n = Some (put_bytes m d bs)"
proof (induction bs arbitrary: m d s n)
  case (Cons b bs)
  then obtain k where n: "n = Suc k" by (cases n) auto
  let ?m = "put8 m d b"
  from Cons.prems n have "bytes_at ?m (Suc s) bs" by (intro bytes_at_upd_other) auto
  with Cons.prems n have "memcpy_tail ?m (Suc d) (Suc s) k = Some (put_bytes ?m (Suc d) bs)"
    by (intro Cons.IH) auto
  with Cons.prems n show ?case by (simp add: st8_mapped put_bytes_Cons)
qed simp

lemma memcpy_loop_ok:
  "bytes_at m s bs \<Longrightarrow> length bs = n \<Longrightarrow> mapped m d n \<Longrightarrow> d \<le> s \<or> s + n \<le> d \<Longrightarrow>
   memcpy_loop m d s n = Some (put_bytes m d bs)"
proof (induction m d s n arbitrary: bs rule: memcpy_loop.induct)
  case (1 m d s n)
  show ?case
  proof (cases "n \<ge> 8")
    case True
    define b8 bt where "b8 = take 8 bs" and "bt = drop 8 bs"
    have bs: "bs = b8 @ bt" and len: "length b8 = 8" "length bt = n - 8"
      using True "1.prems" by (simp_all add: b8_def bt_def)
    have at8: "bytes_at m s b8" and att: "bytes_at m (s + 8) bt"
      using "1.prems"(1) len unfolding bs by auto
    have map8: "mapped m d 8" and mapt: "mapped m (d + 8) (n - 8)"
      using "1.prems"(3) True mapped_add [of m d 8 "n - 8"] by auto
    let ?m = "put_bytes m d b8"
    obtain w where w: "ld64 m s = Some w" and st: "st64 m d w = Some ?m"
      using st64_ld64 [OF at8 len(1) map8] by (auto simp: bind_eq_Some)
    have att': "bytes_at ?m (s + 8) bt"
      using bytes_at_put_fwd [of m s b8 bt d] att len "1.prems"(4) True by auto
    have "memcpy_loop ?m (d + 8) (s + 8) (n - 8) = Some (put_bytes ?m (d + 8) bt)"
      using "1.prems"(4) True by (intro "1.IH" [OF True w st att' len(2)] mapped_put_bytes mapt) auto
    then show ?thesis
      using w st True len by (simp add: memcpy_loop.simps [of m d s n] bs put_bytes_append)
  next
    case False
    with "1.prems" show ?thesis by (simp add: memcpy_loop.simps [of m d s n] memcpy_tail_ok)
  qed
qed

lemma memcpy_ok:
  "bytes_at m s bs \<Longrightarrow> length bs = n \<Longrightarrow> mapped m d n \<Longrightarrow> d \<le> s \<or> s + n \<le> d \<Longrightarrow>
   memcpy m d s n = Some (d, put_bytes m d bs)"
  by (simp add: memcpy_def memcpy_loop_ok)

lemma memmove_back_ok:
  "bytes_at m s bs \<Longrightarrow> mapped m d (length bs) \<Longrightarrow> s \<le> d \<Longrightarrow>
   memmove_back m (d + length bs) (s + length bs) (length bs) = Some (put_bytes m d bs)"
proof (induction bs arbitrary: m rule: rev_induct)
  case (snoc b bs)
  let ?m = "put8 m (d + length bs) b"
  have "m (d + length bs) \<noteq> None"
    using snoc.prems(2) by (auto simp: mapped_def)
  moreover have "bytes_at ?m s bs"
    using snoc.prems by (intro bytes_at_upd_other) auto
  moreover have "mapped ?m d (length bs)"
    using snoc.prems(2) by (intro mapped_upd mapped_le [OF snoc.prems(2)]) simp
  ultimately show ?case
    using snoc.IH [of ?m] snoc.prems
    by (simp add: st8_mapped put_bytes_last)
qed simp

text \<open>
  \<open>memmove\<close> leaves at \<open>dst\<close> the bytes \<open>src\<close> held at the call, for every overlap: the
  word-at-a-time forward loop never overwrites a byte it has still to read when
  \<open>dst < src\<close>, and the other direction runs backwards.
\<close>

lemma memmove_ok:
  assumes at: "bytes_at m s bs" and len: "length bs = n" and mp: "mapped m d n"
  shows "memmove m d s n = Some (d, put_bytes m d bs)"
proof (cases "d = s \<or> n = 0")
  case True
  then show ?thesis using at len by (auto simp: memmove_def put_bytes_same)
next
  case False
  then show ?thesis
    using memcpy_ok [OF at len mp] memmove_back_ok [OF at, of d] len mp
    by (auto simp: memmove_def)
qed

section \<open>Filling\<close>

lemma memset_tail_ok:
  "mapped m d n \<Longrightarrow> memset_tail m d b n = Some (put_bytes m d (replicate n b))"
proof (induction n arbitrary: m d)
  case (Suc n)
  then have "m d \<noteq> None" "mapped (put8 m d b) (Suc d) n" by auto
  with Suc.IH show ?case by (simp add: st8_mapped put_bytes_Cons)
qed simp

text \<open>Each \<open>w |= w << k\<close> doubles the bytes of the pattern.\<close>

definition rep_bits :: "u8 \<Rightarrow> nat \<Rightarrow> u64 \<Rightarrow> bool" where
  "rep_bits b k w \<longleftrightarrow> (\<forall>i. bit w i \<longleftrightarrow> i < k \<and> bit b (i mod 8))"

lemma rep_bits_double:
  assumes w: "rep_bits b (8 * k) w" and k: "16 * k \<le> 64"
  shows "rep_bits b (16 * k) (w OR push_bit (8 * k) w)"
  unfolding rep_bits_def
proof
  fix i
  have w': "bit w j \<longleftrightarrow> j < 8 * k \<and> bit b (j mod 8)" for j
    using w by (simp add: rep_bits_def)
  show "bit (w OR push_bit (8 * k) w) i \<longleftrightarrow> i < 16 * k \<and> bit b (i mod 8)"
  proof (cases "8 * k \<le> i")
    case True
    then obtain j where i: "i = 8 * k + j" by (metis le_Suc_ex)
    have "i mod 8 = j mod 8" by (simp add: i)
    with i k show ?thesis by (auto simp: bit_or_iff bit_push_bit_iff w')
  next
    case False
    then show ?thesis by (simp add: bit_or_iff bit_push_bit_iff w')
  qed
qed

lemma rep_bits_step:
  "rep_bits b k w \<Longrightarrow> 8 dvd k \<Longrightarrow> 2 * k \<le> 64 \<Longrightarrow> n = 2 * k \<Longrightarrow>
   rep_bits b n (w OR push_bit k w)"
  using rep_bits_double [of b "k div 8" w] by auto

lemma rep_bits_byte: "rep_bits b 8 (ucast b)"
  using bit_imp_le_length [of b] by (fastforce simp: rep_bits_def bit_simps)

lemma rep_bits_memset_word: "rep_bits b 64 (memset_word b)"
  unfolding memset_word_def Let_def
  by (rule rep_bits_step [where k = 32], rule rep_bits_step [where k = 16],
      rule rep_bits_step [where k = 8], rule rep_bits_byte) simp_all

lemma bytes_of_rep_bits: "rep_bits b (8 * n) w \<Longrightarrow> bytes_of_u64 n w = replicate n b"
proof (induction n arbitrary: w)
  case (Suc n)
  have "ucast w = b"
    using Suc.prems by (intro bit_word_eqI) (simp add: rep_bits_def bit_simps)
  moreover have "rep_bits b (8 * n) (drop_bit 8 w)"
    using Suc.prems by (simp add: rep_bits_def bit_simps)
  ultimately show ?case using Suc.IH by simp
qed simp

lemma bytes_of_memset_word: "bytes_of_u64 8 (memset_word b) = replicate 8 b"
  using bytes_of_rep_bits [of b 8] rep_bits_memset_word by simp

lemma memset_loop_ok:
  "mapped m d n \<Longrightarrow> memset_loop m d b (memset_word b) n = Some (put_bytes m d (replicate n b))"
proof (induction n arbitrary: m d rule: less_induct)
  case (less n)
  show ?case
  proof (cases "n \<ge> 8")
    case True
    let ?m = "put_bytes m d (replicate 8 b)"
    have mp: "mapped m d 8" "mapped m (d + 8) (n - 8)"
      using less.prems True mapped_add [of m d 8 "n - 8"] by auto
    then have st: "st64 m d (memset_word b) = Some ?m"
      by (simp add: st64_def bytes_of_memset_word stn_mapped)
    have IH: "memset_loop ?m (d + 8) b (memset_word b) (n - 8) =
        Some (put_bytes ?m (d + 8) (replicate (n - 8) b))"
      using mp True by (intro less.IH mapped_put_bytes) auto
    have "replicate n b = replicate 8 b @ replicate (n - 8) b"
      using True by (metis le_add_diff_inverse replicate_add)
    then have "put_bytes m d (replicate n b) = put_bytes ?m (d + 8) (replicate (n - 8) b)"
      by (simp only: put_bytes_append length_replicate)
    then show ?thesis
      using st IH True by (simp only: memset_loop.simps [of m d] if_True bind.bind_lunit)
  next
    case False
    with less.prems show ?thesis by (simp add: memset_loop.simps [of m d] memset_tail_ok)
  qed
qed

lemma memset_ok:
  "mapped m d n \<Longrightarrow> memset m d c n = Some (d, put_bytes m d (replicate n (word_of_int c)))"
  by (simp add: memset_def memset_loop_ok Let_def)

section \<open>String routines on terminated strings\<close>

lemma strlen_loop_ok: "cstr m p s \<Longrightarrow> strlen_loop m p = Some (p + length s)"
proof (induction s arbitrary: p)
  case Nil
  then show ?case by (subst strlen_loop.simps) simp
next
  case (Cons c s)
  then show ?case by (subst strlen_loop.simps) simp
qed

lemma strlen_ok: "cstr m p s \<Longrightarrow> strlen m p = Some (length s)"
  by (simp add: strlen_def strlen_loop_ok)

text \<open>The order \<open>strcmp\<close> and \<open>memcmp\<close> compute: bytes as unsigned, the end as 0.\<close>

fun lex_cmp :: "('a::len) word list \<Rightarrow> 'a word list \<Rightarrow> int" where
  "lex_cmp [] [] = 0"
| "lex_cmp [] (y # ys) = - uint y"
| "lex_cmp (x # xs) [] = uint x"
| "lex_cmp (x # xs) (y # ys) = (if x = y then lex_cmp xs ys else uint x - uint y)"

lemma strcmp_ok: "cstr m a s \<Longrightarrow> cstr m b t \<Longrightarrow> strcmp m a b = Some (lex_cmp s t)"
proof (induction s t arbitrary: a b rule: lex_cmp.induct)
  case 1
  then show ?case by (subst strcmp.simps) simp
next
  case (2 y ys)
  then show ?case by (subst strcmp.simps) simp
next
  case (3 x xs)
  then show ?case by (subst strcmp.simps) simp
next
  case (4 x xs y ys)
  then show ?case by (subst strcmp.simps) simp
qed

lemma memcmp_ok:
  "bytes_at m a xs \<Longrightarrow> bytes_at m b ys \<Longrightarrow> length xs = n \<Longrightarrow> length ys = n \<Longrightarrow>
   memcmp m a b n = Some (lex_cmp xs ys)"
proof (induction xs ys arbitrary: a b n rule: lex_cmp.induct)
  case (4 x xs y ys)
  then obtain k where "n = Suc k" by (cases n) auto
  with 4 show ?case by simp
qed auto

lemma strncmp_ok:
  "cstr m a s \<Longrightarrow> cstr m b t \<Longrightarrow> strncmp m a b n = Some (lex_cmp (take n s) (take n t))"
proof (induction s t arbitrary: a b n rule: lex_cmp.induct)
  case 1
  then show ?case by (cases n) auto
next
  case (2 y ys)
  then show ?case by (cases n) auto
next
  case (3 x xs)
  then show ?case by (cases n) auto
next
  case (4 x xs y ys)
  then show ?case by (cases n) auto
qed

lemma uint_zero_iff: "uint (x :: ('a::len) word) = 0 \<longleftrightarrow> x = 0"
  by (metis uint_0_eq word_eq_iff_unsigned)

lemma uint_diff_zero_iff: "uint (x :: ('a::len) word) - uint y = 0 \<longleftrightarrow> x = y"
  by (metis eq_iff_diff_eq_0 word_eq_iff_unsigned)

lemma uint_same_iff: "uint (x :: ('a::len) word) = uint y \<longleftrightarrow> x = y"
  by (metis word_eq_iff_unsigned)

lemmas uint_eq_0 [simp] = uint_zero_iff [where 'a = 8]
lemmas uint_diff_0 [simp] = uint_diff_zero_iff [where 'a = 8]

lemmas uint_eq_iff [simp] = uint_same_iff [where 'a = 8]

lemma lex_cmp_refl [simp]: "lex_cmp xs xs = 0"
  by (induction xs) auto

lemma lex_cmp_0: "0 \<notin> set xs \<Longrightarrow> 0 \<notin> set ys \<Longrightarrow> lex_cmp xs ys = 0 \<longleftrightarrow> xs = ys"
  by (induction xs ys rule: lex_cmp.induct) (auto simp: uint_zero_iff uint_diff_zero_iff uint_same_iff)

lemma lex_cmp_0_len: "length xs = length ys \<Longrightarrow> lex_cmp xs ys = 0 \<longleftrightarrow> xs = ys"
  by (induction xs ys rule: lex_cmp.induct) (auto simp: uint_zero_iff uint_diff_zero_iff uint_same_iff)

lemma lex_cmp_anti: "lex_cmp ys xs = - lex_cmp xs ys"
  by (induction xs ys rule: lex_cmp.induct) (auto simp: uint_zero_iff uint_diff_zero_iff uint_same_iff)

lemma lex_cmp_Nil_le [simp]: "lex_cmp [] ys \<le> 0"
  by (cases ys) auto

lemma lex_cmp_Nil_ge [simp]: "0 \<le> lex_cmp ys []"
  by (cases ys) auto

lemma lex_cmp_trans:
  "lex_cmp xs ys \<le> 0 \<Longrightarrow> lex_cmp ys zs \<le> 0 \<Longrightarrow> 0 \<notin> set xs \<Longrightarrow> 0 \<notin> set ys \<Longrightarrow>
   lex_cmp xs zs \<le> 0"
proof (induction xs ys arbitrary: zs rule: lex_cmp.induct)
  case (3 x xs)
  then have "0 < uint x" by (metis list.set_intros(1) uint_zero_iff order_le_less uint_ge_0)
  with 3 show ?case by simp
next
  case (4 x xs y ys)
  then show ?case
  proof (cases zs)
    case Nil
    with 4 have "0 < uint y" by (metis list.set_intros(1) uint_zero_iff order_le_less uint_ge_0)
    with 4 Nil show ?thesis by simp
  next
    case (Cons z zs')
    with 4 show ?thesis by (auto simp: uint_same_iff split: if_splits dest: antisym)
  qed
qed auto

text \<open>Copying a string: forward, byte by byte, terminator included.\<close>

lemma strcpy_loop_ok:
  "cstr m s bs \<Longrightarrow> mapped m d (length bs + 1) \<Longrightarrow> d \<le> s \<or> s + length bs < d \<Longrightarrow>
   strcpy_loop m d s = Some (put_bytes m d (bs @ [0]))"
proof (induction bs arbitrary: m d s)
  case Nil
  then show ?case by (subst strcpy_loop.simps) (auto simp: st8_mapped put_bytes_Cons)
next
  case (Cons b bs)
  let ?m = "put8 m d b"
  have "cstr ?m (Suc s) bs"
    using Cons.prems unfolding cstr_def by (auto intro: bytes_at_upd_other)
  moreover have "mapped ?m (Suc d) (length bs + 1)" using Cons.prems by simp
  ultimately have "strcpy_loop ?m (Suc d) (Suc s) = Some (put_bytes ?m (Suc d) (bs @ [0]))"
    using Cons.prems(3) by (intro Cons.IH) auto
  with Cons.prems show ?case
    by (subst strcpy_loop.simps) (simp add: st8_mapped put_bytes_Cons)
qed

lemma strcpy_ok:
  "cstr m s bs \<Longrightarrow> mapped m d (length bs + 1) \<Longrightarrow> d \<le> s \<or> s + length bs < d \<Longrightarrow>
   strcpy m d s = Some (d, put_bytes m d (bs @ [0]))"
  by (simp add: strcpy_def strcpy_loop_ok)

lemma zero_fill_ok: "mapped m d n \<Longrightarrow> zero_fill m d n = Some (put_bytes m d (replicate n 0))"
proof (induction n arbitrary: m d)
  case (Suc n)
  then have "m d \<noteq> None" "mapped (put8 m d 0) (Suc d) n" by auto
  with Suc.IH show ?case by (simp add: st8_mapped put_bytes_Cons)
qed simp

lemma strncpy_ok:
  "cstr m s bs \<Longrightarrow> mapped m d n \<Longrightarrow> d + n \<le> s \<or> s + length bs < d \<Longrightarrow>
   strncpy m d s n =
     Some (d, put_bytes m d (take n bs @ replicate (n - length bs) 0))"
proof -
  assume cs: "cstr m s bs" and mp: "mapped m d n" and dj: "d + n \<le> s \<or> s + length bs < d"
  from cs mp dj have "strncpy_loop m d s n =
      Some (put_bytes m d (take n bs @ replicate (n - length bs) 0))"
  proof (induction n arbitrary: m d s bs)
    case (Suc n)
    show ?case
    proof (cases bs)
      case Nil
      with Suc.prems show ?thesis
        using zero_fill_ok [of m d "Suc n"] by simp
    next
      case (Cons b bs')
      let ?m = "put8 m d b"
      have "cstr ?m (Suc s) bs'"
        using Suc.prems Cons unfolding cstr_def by (auto intro: bytes_at_upd_other)
      moreover have "mapped ?m (Suc d) n" using Suc.prems by simp
      ultimately have "strncpy_loop ?m (Suc d) (Suc s) n =
          Some (put_bytes ?m (Suc d) (take n bs' @ replicate (n - length bs') 0))"
        using Suc.prems(3) Cons by (intro Suc.IH) auto
      with Suc.prems Cons show ?thesis by (simp add: st8_mapped put_bytes_Cons)
    qed
  qed simp
  then show ?thesis by (simp add: strncpy_def)
qed

lemma strcat_ok:
  "cstr m d as \<Longrightarrow> cstr m s bs \<Longrightarrow> mapped m (d + length as) (length bs + 1) \<Longrightarrow>
   d + length as + length bs < s \<or> s + length bs < d + length as \<Longrightarrow>
   strcat m d s = Some (d, put_bytes m (d + length as) (bs @ [0]))"
  using strcpy_loop_ok [of m s bs "d + length as"] by (auto simp: strcat_def strlen_loop_ok)

lemma strncat_loop_ok:
  "cstr m s bs \<Longrightarrow> mapped m d (min n (length bs) + 1) \<Longrightarrow>
   d + n < s \<or> s + length bs < d \<Longrightarrow>
   strncat_loop m d s n = Some (put_bytes m d (take n bs @ [0]))"
proof (induction n arbitrary: m d s bs)
  case 0
  then show ?case by (simp add: st8_mapped put_bytes_Cons)
next
  case (Suc n)
  show ?case
  proof (cases bs)
    case Nil
    with Suc.prems show ?thesis by (simp add: st8_mapped put_bytes_Cons)
  next
    case (Cons b bs')
    let ?m = "put8 m d b"
    have "cstr ?m (Suc s) bs'"
      using Suc.prems Cons unfolding cstr_def by (auto intro: bytes_at_upd_other)
    moreover have "mapped ?m (Suc d) (min n (length bs') + 1)"
      using Suc.prems(2) Cons by simp
    ultimately have "strncat_loop ?m (Suc d) (Suc s) n =
        Some (put_bytes ?m (Suc d) (take n bs' @ [0]))"
      using Suc.prems(3) Cons by (intro Suc.IH) auto
    with Suc.prems Cons show ?thesis by (simp add: st8_mapped put_bytes_Cons)
  qed
qed

lemma strncat_ok:
  "cstr m d as \<Longrightarrow> cstr m s bs \<Longrightarrow> mapped m (d + length as) (min n (length bs) + 1) \<Longrightarrow>
   d + length as + n < s \<or> s + length bs < d + length as \<Longrightarrow>
   strncat m d s n = Some (d, put_bytes m (d + length as) (take n bs @ [0]))"
  using strncat_loop_ok [of m s bs "d + length as" n] by (auto simp: strncat_def strlen_loop_ok)

section \<open>Searching strings\<close>

lemma strchr_loop_ok: "cstr m p s \<Longrightarrow>
   strchr_loop m p b =
     (let k = length (takeWhile (\<lambda>x. x \<noteq> b) s)
      in Some (if k < length s \<or> b = 0 then Some (p + k) else None))"
proof (induction s arbitrary: p)
  case Nil
  then show ?case by (subst strchr_loop.simps) simp
next
  case (Cons c s)
  then have "m p = Some c" "c \<noteq> 0" "cstr m (Suc p) s" by auto
  with Cons.IH [of "Suc p"] show ?case
    by (subst strchr_loop.simps) (auto simp: Let_def)
qed

lemma length_takeWhile_less_iff: "length (takeWhile P s) < length s \<longleftrightarrow> (\<exists>x\<in>set s. \<not> P x)"
  by (induction s) auto

lemma strchr_loop_mem: "cstr m p s \<Longrightarrow> b \<noteq> 0 \<Longrightarrow>
   \<exists>r. strchr_loop m p b = Some r \<and> (r = None \<longleftrightarrow> b \<notin> set s)"
  by (auto simp: strchr_loop_ok Let_def length_takeWhile_less_iff)

fun last_pos :: "'a \<Rightarrow> 'a list \<Rightarrow> nat option" where
  "last_pos b [] = None"
| "last_pos b (x # xs) =
     (case last_pos b xs of Some i \<Rightarrow> Some (Suc i) | None \<Rightarrow> if x = b then Some 0 else None)"

lemma last_pos_None: "last_pos b xs = None \<longleftrightarrow> b \<notin> set xs"
  by (induction xs) (auto split: option.splits)

lemma last_pos_Some:
  "last_pos b xs = Some i \<Longrightarrow> i < length xs \<and> xs ! i = b \<and> (\<forall>j. i < j \<and> j < length xs \<longrightarrow> xs ! j \<noteq> b)"
proof (induction xs arbitrary: i)
  case (Cons x xs)
  show ?case
  proof (cases "last_pos b xs")
    case None
    with Cons.prems have "i = 0" "x = b" by (auto split: if_splits)
    moreover have "b \<notin> set xs" using None by (simp add: last_pos_None)
    ultimately show ?thesis by (auto simp: nth_Cons')
  next
    case (Some k)
    with Cons.prems have "i = Suc k" by simp
    with Cons.IH [OF Some] show ?thesis by (auto simp: nth_Cons' less_Suc_eq_0_disj)
  qed
qed simp

lemma strrchr_loop_ok: "cstr m p s \<Longrightarrow>
   strrchr_loop m p b hit =
     Some (case last_pos b (s @ [0]) of Some i \<Rightarrow> Some (p + i) | None \<Rightarrow> hit)"
proof (induction s arbitrary: p hit)
  case Nil
  then show ?case by (subst strrchr_loop.simps) (auto simp: Let_def)
next
  case (Cons c s)
  then have "m p = Some c" "c \<noteq> 0" "cstr m (Suc p) s" by auto
  with Cons.IH [of "Suc p"] show ?case
    by (subst strrchr_loop.simps) (auto simp: Let_def split: option.splits)
qed

fun first_sub :: "'a list \<Rightarrow> 'a list \<Rightarrow> nat option" where
  "first_sub n [] = (if n = [] then Some 0 else None)"
| "first_sub n (h # hs) =
     (if take (length n) (h # hs) = n then Some 0 else map_option Suc (first_sub n hs))"

lemma first_sub_Some:
  "first_sub n h = Some i \<Longrightarrow>
   i \<le> length h \<and> take (length n) (drop i h) = n \<and> (\<forall>j<i. take (length n) (drop j h) \<noteq> n)"
proof (induction h arbitrary: i)
  case (Cons x h)
  show ?case
  proof (cases "take (length n) (x # h) = n")
    case True
    with Cons.prems show ?thesis by auto
  next
    case False
    with Cons.prems obtain k where k: "first_sub n h = Some k" "i = Suc k" by auto
    with Cons.IH False show ?thesis by (auto simp: drop_Cons' less_Suc_eq_0_disj)
  qed
qed (auto split: if_splits)

lemma first_sub_None:
  "first_sub n h = None \<Longrightarrow> take (length n) (drop i h) \<noteq> n"
proof (induction h arbitrary: i)
  case (Cons x h)
  then show ?case by (cases i) (auto split: if_splits)
qed (auto split: if_splits)

lemma strncmp_prefix:
  "cstr m a s \<Longrightarrow> cstr m b t \<Longrightarrow> strncmp m a b (length t) = Some r \<Longrightarrow>
   r = 0 \<longleftrightarrow> take (length t) s = t"
proof -
  assume s: "cstr m a s" and t: "cstr m b t" and r: "strncmp m a b (length t) = Some r"
  have "0 \<notin> set (take (length t) s)" "0 \<notin> set t"
    using s t by (auto simp: cstr_def dest: in_set_takeD)
  then have "lex_cmp (take (length t) s) t = 0 \<longleftrightarrow> take (length t) s = t" by (rule lex_cmp_0)
  with r strncmp_ok [OF s t, of "length t"] show ?thesis by simp
qed

lemma strstr_loop_ok:
  "cstr m p h \<Longrightarrow> cstr m q n \<Longrightarrow> n \<noteq> [] \<Longrightarrow>
   strstr_loop m p q (length n) = Some (map_option (\<lambda>i. p + i) (first_sub n h))"
proof (induction h arbitrary: p)
  case Nil
  then show ?case by (subst strstr_loop.simps) simp
next
  case (Cons c h)
  obtain k n' where n: "n = k # n'" using Cons.prems(3) by (cases n) auto
  have c: "m p = Some c" "c \<noteq> 0" and h: "cstr m (Suc p) h" using Cons.prems by auto
  have k: "m q = Some k" using Cons.prems(2) n by simp
  obtain r where r: "strncmp m p q (length n) = Some r"
    using strncmp_ok [OF Cons.prems(1,2)] by blast
  have r0: "r = 0 \<longleftrightarrow> take (length n) (c # h) = n"
    using strncmp_prefix [OF Cons.prems(1,2) r] .
  have IH: "strstr_loop m (Suc p) q (length n) = Some (map_option (\<lambda>i. Suc p + i) (first_sub n h))"
    using Cons.IH [OF h Cons.prems(2,3)] .
  show ?case
  proof (cases "c = k")
    case True
    then show ?thesis
      using c k r r0 IH by (subst strstr_loop.simps) (simp add: option.map_comp comp_def)
  next
    case False
    then have "take (length n) (c # h) \<noteq> n" by (simp add: n)
    then show ?thesis
      using c k IH False by (subst strstr_loop.simps) (simp add: option.map_comp comp_def)
  qed
qed

lemma strstr_ok:
  "cstr m p h \<Longrightarrow> cstr m q n \<Longrightarrow>
   strstr m p q = Some (map_option (\<lambda>i. p + i) (first_sub n h))"
proof (cases n)
  case Nil
  assume "cstr m q n"
  moreover have "first_sub [] h = Some 0" by (cases h) auto
  ultimately show ?thesis by (simp add: strstr_def Nil)
next
  case (Cons k n')
  assume h: "cstr m p h" and q: "cstr m q n"
  then have "m q = Some k" "k \<noteq> 0" "n \<noteq> []" using Cons by auto
  with strstr_loop_ok [OF h q] strlen_ok [OF q] show ?thesis by (simp add: strstr_def)
qed

lemma strspn_loop_ok: "cstr m p s \<Longrightarrow> cstr m q cs \<Longrightarrow>
   strspn_loop m p q = Some (p + length (takeWhile (\<lambda>c. c \<in> set cs) s))"
proof (induction s arbitrary: p)
  case Nil
  then show ?case by (subst strspn_loop.simps) simp
next
  case (Cons c s)
  obtain r where "strchr_loop m q c = Some r" "r = None \<longleftrightarrow> c \<notin> set cs"
    using strchr_loop_mem [of m q cs c] Cons.prems by auto
  with Cons show ?case by (subst strspn_loop.simps) auto
qed

lemma strspn_ok: "cstr m p s \<Longrightarrow> cstr m q cs \<Longrightarrow>
   strspn m p q = Some (length (takeWhile (\<lambda>c. c \<in> set cs) s))"
  by (simp add: strspn_def strspn_loop_ok)

lemma strcspn_loop_ok: "cstr m p s \<Longrightarrow> cstr m q cs \<Longrightarrow>
   strcspn_loop m p q = Some (p + length (takeWhile (\<lambda>c. c \<notin> set cs) s))"
proof (induction s arbitrary: p)
  case Nil
  then show ?case by (subst strcspn_loop.simps) simp
next
  case (Cons c s)
  obtain r where "strchr_loop m q c = Some r" "r = None \<longleftrightarrow> c \<notin> set cs"
    using strchr_loop_mem [of m q cs c] Cons.prems by auto
  with Cons show ?case by (subst strcspn_loop.simps) auto
qed

lemma strcspn_ok: "cstr m p s \<Longrightarrow> cstr m q cs \<Longrightarrow>
   strcspn m p q = Some (length (takeWhile (\<lambda>c. c \<notin> set cs) s))"
  by (simp add: strcspn_def strcspn_loop_ok)

lemma strpbrk_ok: "cstr m p s \<Longrightarrow> cstr m q cs \<Longrightarrow>
   strpbrk m p q =
     (let k = length (takeWhile (\<lambda>c. c \<notin> set cs) s)
      in Some (if k < length s then Some (p + k) else None))"
proof (induction s arbitrary: p)
  case Nil
  then show ?case by (subst strpbrk.simps) simp
next
  case (Cons c s)
  obtain r where "strchr_loop m q c = Some r" "r = None \<longleftrightarrow> c \<notin> set cs"
    using strchr_loop_mem [of m q cs c] Cons.prems by auto
  with Cons show ?case by (subst strpbrk.simps) (auto simp: Let_def)
qed

section \<open>Tokens\<close>

text \<open>What the calls of \<open>strtok\<close> should return: the maximal runs of non-separators.\<close>

function tokens :: "u8 list \<Rightarrow> u8 list \<Rightarrow> u8 list list" where
  "tokens sep s =
     (let rest = dropWhile (\<lambda>c. c \<in> set sep) s
      in if rest = [] then []
         else takeWhile (\<lambda>c. c \<notin> set sep) rest #
              tokens sep (tl (dropWhile (\<lambda>c. c \<notin> set sep) rest)))"
  by pat_completeness auto
termination
proof (relation "measure (\<lambda>(sep, s). length s)")
  fix sep s :: "u8 list" and rest
  assume rest: "rest = dropWhile (\<lambda>c. c \<in> set sep) s" and ne: "rest \<noteq> []"
  have "length (tl (dropWhile (\<lambda>c. c \<notin> set sep) rest)) < length rest"
    using ne length_dropWhile_le [of "\<lambda>c. c \<notin> set sep" rest] length_greater_0_conv [of rest]
    unfolding length_tl by arith
  also have "\<dots> \<le> length s" by (simp add: rest length_dropWhile_le)
  finally show "((sep, tl (dropWhile (\<lambda>c. c \<notin> set sep) rest)), sep, s)
      \<in> measure (\<lambda>(sep, s). length s)" by simp
qed simp

declare tokens.simps [simp del]

lemma cstr_dropWhile:
  "cstr m p s \<Longrightarrow> cstr m (p + length (takeWhile P s)) (dropWhile P s)"
  using cstr_append [of m p "takeWhile P s" "dropWhile P s"] by simp

lemma strtok_none:
  assumes s: "cstr m p s" and q: "cstr m q sep" and e: "dropWhile (\<lambda>c. c \<in> set sep) s = []"
  shows "strtok m st (Some p) q = Some (None, None, m)"
  using cstr_dropWhile [OF s, of "\<lambda>c. c \<in> set sep"] e
  by (simp add: strtok_def strspn_ok [OF s q])

lemma strtok_last:
  assumes s: "cstr m p s" and q: "cstr m q sep"
    and r: "rest = dropWhile (\<lambda>c. c \<in> set sep) s" "rest \<noteq> []"
    and e: "dropWhile (\<lambda>c. c \<notin> set sep) rest = []"
    and t: "t = p + length (takeWhile (\<lambda>c. c \<in> set sep) s)"
  shows "strtok m st (Some p) q = Some (Some t, None, m) \<and> cstr m t rest"
proof -
  have tr: "cstr m t rest" unfolding t r(1) by (rule cstr_dropWhile [OF s])
  obtain c cs where c: "rest = c # cs" using r(2) by (cases rest) auto
  have all: "takeWhile (\<lambda>c. c \<notin> set sep) rest = rest"
    using e by (metis append_Nil2 takeWhile_dropWhile_id)
  have "m t = Some c" "c \<noteq> 0" using tr c by auto
  moreover have "m (t + length rest) = Some 0" using cstr_end [OF tr] .
  ultimately show ?thesis
    using strspn_ok [OF s q] strcspn_ok [OF tr q] all tr t by (simp add: strtok_def Let_def)
qed

lemma strtok_next:
  assumes s: "cstr m p s" and q: "cstr m q sep"
    and r: "rest = dropWhile (\<lambda>c. c \<in> set sep) s" "rest \<noteq> []"
    and w: "w = takeWhile (\<lambda>c. c \<notin> set sep) rest"
    and e: "dropWhile (\<lambda>c. c \<notin> set sep) rest = x # more"
    and t: "t = p + length (takeWhile (\<lambda>c. c \<in> set sep) s)"
  shows "strtok m st (Some p) q = Some (Some t, Some (t + length w + 1), put8 m (t + length w) 0)
    \<and> cstr (put8 m (t + length w) 0) t w \<and> cstr (put8 m (t + length w) 0) (t + length w + 1) more
    \<and> p \<le> t \<and> t + length w + 1 + length more = p + length s"
proof -
  have tr: "cstr m t rest" unfolding t r(1) by (rule cstr_dropWhile [OF s])
  have rest: "rest = w @ x # more" using e w by (metis takeWhile_dropWhile_id)
  obtain c cs where c: "rest = c # cs" using r(2) by (cases rest) auto
  have "m t = Some c" "c \<noteq> 0" using tr c by auto
  moreover have x: "m (t + length w) = Some x" "x \<noteq> 0"
    using cstr_append [of m t w "x # more"] tr rest by auto
  ultimately have run: "strtok m st (Some p) q =
      Some (Some t, Some (t + length w + 1), put8 m (t + length w) 0)"
    using strspn_ok [OF s q] strcspn_ok [OF tr q] w t by (simp add: strtok_def st8_mapped Let_def)
  have "cstr (put8 m (t + length w) 0) t w"
    using tr rest unfolding cstr_def by (auto intro: bytes_at_upd_other)
  moreover have "cstr (put8 m (t + length w) 0) (t + length w + 1) more"
    using tr rest unfolding cstr_def by (auto intro!: bytes_at_upd_other simp: put8_apply)
  moreover have "p + length s = t + length rest"
    unfolding t r(1) by (metis add.assoc length_append takeWhile_dropWhile_id)
  ultimately show ?thesis using run rest t by simp
qed

text \<open>\<open>n\<close> calls in a row: the first with a string, the others with \<open>NULL\<close>.\<close>

fun strtok_calls :: "nat \<Rightarrow> mem \<Rightarrow> nat option \<Rightarrow> nat option \<Rightarrow> nat \<Rightarrow>
    (nat option list \<times> nat option \<times> mem) option" where
  "strtok_calls 0 m st s sep = Some ([], st, m)"
| "strtok_calls (Suc n) m st s sep =
     do { (tok, st', m') \<leftarrow> strtok m st s sep;
          (toks, st'', m'') \<leftarrow> strtok_calls n m' st' None sep;
          Some (tok # toks, st'', m'') }"

lemma strtok_state: "strtok m (Some p) None q = strtok m st (Some p) q"
  by (simp add: strtok_def)

lemma strtok_calls_state:
  "strtok_calls (Suc n) m (Some p) None q = strtok_calls (Suc n) m st (Some p) q"
  by (simp add: strtok_state [of m p q st])

lemma strtok_null: "strtok m None None q = Some (None, None, m)"
  by (simp add: strtok_def)

lemma strtok_calls_ok:
  assumes "cstr m p s" and "cstr m q sep" and "q + length sep < p \<or> p + length s < q"
  shows "\<exists>ps m'. strtok_calls (Suc (length (tokens sep s))) m st (Some p) q =
      Some (map Some ps @ [None], None, m') \<and> list_all2 (cstr m') ps (tokens sep s) \<and>
      (\<forall>a. a < p \<or> p + length s \<le> a \<longrightarrow> m' a = m a)"
  using assms
proof (induction "length s" arbitrary: m p s st rule: less_induct)
  case less
  note s = less.prems(1) and q = less.prems(2) and dj = less.prems(3)
  define rest where rest: "rest = dropWhile (\<lambda>c. c \<in> set sep) s"
  define t where t: "t = p + length (takeWhile (\<lambda>c. c \<in> set sep) s)"
  define w where w: "w = takeWhile (\<lambda>c. c \<notin> set sep) rest"
  show ?case
  proof (cases "rest = []")
    case True
    then have "tokens sep s = []" by (subst tokens.simps) (simp add: rest)
    with strtok_none [OF s q] True rest show ?thesis by auto
  next
    case False
    have toks: "tokens sep s = w # tokens sep (tl (dropWhile (\<lambda>c. c \<notin> set sep) rest))"
      using False by (subst tokens.simps) (simp add: rest w Let_def)
    show ?thesis
    proof (cases "dropWhile (\<lambda>c. c \<notin> set sep) rest")
      case Nil
      have "w = rest" using Nil by (metis w append_Nil2 takeWhile_dropWhile_id)
      moreover have "tokens sep [] = []" by (subst tokens.simps) simp
      ultimately show ?thesis
        using strtok_last [OF s q rest False Nil t] toks Nil
        by (intro exI [of _ "[t]"] exI [of _ m]) (simp add: strtok_null)
    next
      case (Cons x more)
      let ?m = "put8 m (t + length w) 0" and ?p = "t + length w + 1"
      note nx = strtok_next [OF s q rest False w Cons t, of st]
      have q': "cstr ?m q sep"
      proof -
        have "t + length w < q \<or> q + length (sep @ [0]) \<le> t + length w" using dj nx by auto
        then have "bytes_at ?m q (sep @ [0])"
          using q unfolding cstr_def by (intro bytes_at_upd_other) auto
        then show ?thesis using q by (simp add: cstr_def)
      qed
      have "length more < length s" and dj': "q + length sep < ?p \<or> ?p + length more < q"
        using nx dj by linarith+
      with less.hyps [of more ?m ?p "None"] nx q'
      obtain ps m' where run: "strtok_calls (Suc (length (tokens sep more))) ?m None (Some ?p) q =
          Some (map Some ps @ [None], None, m')"
        and all: "list_all2 (cstr m') ps (tokens sep more)"
        and frame: "\<forall>a. a < ?p \<or> ?p + length more \<le> a \<longrightarrow> m' a = ?m a"
        by blast
      have "cstr m' t w"
        using nx frame unfolding cstr_def bytes_at_def by simp
      then have "list_all2 (cstr m') (t # ps) (tokens sep s)"
        using all toks Cons by simp
      moreover have "strtok_calls (Suc (length (tokens sep s))) m st (Some p) q =
          Some (map Some (t # ps) @ [None], None, m')"
        using nx run toks Cons strtok_calls_state [of _ ?m ?p q None]
        by (simp del: strtok_calls.simps(2) add: strtok_calls.simps(2) [of _ m])
      moreover have "\<forall>a. a < p \<or> p + length s \<le> a \<longrightarrow> m' a = m a"
        using frame nx by (auto simp: put8_apply)
      ultimately show ?thesis by blast
    qed
  qed
qed

section \<open>Properties\<close>

text \<open>
  C11. \<open>memmove\<close> returns \<open>dst\<close> and leaves there the bytes \<open>src\<close> held at the call, for
  every overlap of the two areas, and changes no other byte.
\<close>

theorem memmove_correct:
  assumes "bytes_at m src bs" and "mapped m dst (length bs)"
  shows "memmove m dst src (length bs) = Some (dst, put_bytes m dst bs)"
  using assms by (intro memmove_ok) auto

lemma memmove_correct_witness:
  "memmove (mem_of 100 [1, 2, 3, 4]) 101 100 3 =
   Some (101, put_bytes (mem_of 100 [1, 2, 3, 4]) 101 [1, 2, 3])"
  using memmove_correct [of "mem_of 100 [1, 2, 3, 4]" 100 "[1, 2, 3]" 101]
  by (simp add: mem_of_def put_bytes_Cons numeral_2_eq_2 numeral_3_eq_3)

text \<open>
  \<open>strcmp\<close> orders strings as a total preorder: antisymmetric in sign, transitive, zero
  exactly on equal strings.
\<close>

theorem strcmp_order:
  assumes "cstr m a s" and "cstr m b t" and "cstr m c u"
  shows "\<exists>x y z. strcmp m a b = Some x \<and> strcmp m b c = Some y \<and> strcmp m a c = Some z \<and>
    strcmp m b a = Some (- x) \<and> (x = 0 \<longleftrightarrow> s = t) \<and> (x \<le> 0 \<longrightarrow> y \<le> 0 \<longrightarrow> z \<le> 0)"
  using assms lex_cmp_anti [of t s] lex_cmp_0 [of s t] lex_cmp_trans [of s t u]
  by (auto simp: strcmp_ok cstr_def)

lemma strcmp_order_witness:
  "\<exists>x y z. strcmp (mem_of 10 [97, 0, 98, 0]) 10 12 = Some x \<and> strcmp (mem_of 10 [97, 0, 98, 0]) 12 11 = Some y \<and>
    strcmp (mem_of 10 [97, 0, 98, 0]) 10 11 = Some z \<and> strcmp (mem_of 10 [97, 0, 98, 0]) 12 10 = Some (- x) \<and>
    (x = 0 \<longleftrightarrow> [97 :: u8] = [98]) \<and> (x \<le> 0 \<longrightarrow> y \<le> 0 \<longrightarrow> z \<le> 0)"
  by (rule strcmp_order [where u = "[]"]) (simp_all add: mem_of_def put_bytes_Cons)

text \<open>
  \<open>strncpy\<close> writes exactly \<open>n\<close> bytes: as much of the string as fits, then zeros; and so
  leaves no terminator when the string does not fit.
\<close>

theorem strncpy_correct:
  assumes "cstr m src bs" and "mapped m dst n" and "dst + n \<le> src \<or> src + length bs < dst"
  shows "strncpy m dst src n = Some (dst, put_bytes m dst (take n bs @ replicate (n - length bs) 0))"
  using assms by (rule strncpy_ok)

lemma strncpy_correct_witness:
  "strncpy (mem_of 10 [97, 98, 0, 7, 7, 7]) 13 10 3 =
   Some (13, put_bytes (mem_of 10 [97, 98, 0, 7, 7, 7]) 13 (take 3 [97, 98] @ replicate (3 - length [97 :: u8, 98]) 0))"
  by (rule strncpy_correct) (simp_all add: mem_of_def put_bytes_Cons numeral_3_eq_3)

text \<open>
  \<open>strncat\<close> appends at most \<open>n\<close> characters behind the string at \<open>dst\<close> and always
  terminates the result, writing nothing past the terminator.
\<close>

theorem strncat_correct:
  assumes "cstr m dst as" and "cstr m src bs" and "mapped m (dst + length as) (min n (length bs) + 1)"
    and "dst + length as + n < src \<or> src + length bs < dst + length as"
  shows "strncat m dst src n = Some (dst, put_bytes m (dst + length as) (take n bs @ [0]))"
  using assms by (rule strncat_ok)

lemma strncat_correct_witness:
  "strncat (mem_of 10 [97, 98, 99, 0, 100, 0, 7, 7]) 14 10 2 =
   Some (14, put_bytes (mem_of 10 [97, 98, 99, 0, 100, 0, 7, 7]) (14 + length [100 :: u8]) (take 2 [97, 98, 99] @ [0]))"
  by (rule strncat_correct) (simp_all add: mem_of_def put_bytes_Cons)

text \<open>
  C23. \<open>strstr\<close> returns the first occurrence of the needle, null when there is none.
\<close>

theorem strstr_first:
  assumes "cstr m p h" and "cstr m q n"
  shows "(strstr m p q = Some None \<and> (\<forall>i\<le>length h. take (length n) (drop i h) \<noteq> n)) \<or>
    (\<exists>i\<le>length h. strstr m p q = Some (Some (p + i)) \<and> take (length n) (drop i h) = n \<and>
      (\<forall>j<i. take (length n) (drop j h) \<noteq> n))"
  using strstr_ok [OF assms] first_sub_Some [of n h] first_sub_None [of n h]
  by (cases "first_sub n h") auto

lemma strstr_first_witness:
  "(strstr (mem_of 10 [97, 97, 98, 0]) 10 11 = Some None \<and>
     (\<forall>i\<le>length [97 :: u8, 97, 98]. take (length [97 :: u8, 98]) (drop i [97 :: u8, 97, 98]) \<noteq> [97, 98])) \<or>
   (\<exists>i\<le>length [97 :: u8, 97, 98]. strstr (mem_of 10 [97, 97, 98, 0]) 10 11 = Some (Some (10 + i)) \<and>
     take (length [97 :: u8, 98]) (drop i [97 :: u8, 97, 98]) = [97, 98] \<and>
     (\<forall>j<i. take (length [97 :: u8, 98]) (drop j [97 :: u8, 97, 98]) \<noteq> [97, 98]))"
  by (rule strstr_first) (simp_all add: mem_of_def put_bytes_Cons)

text \<open>
  C19. Called once with the string and then with null until it returns null, \<open>strtok\<close>
  delivers the maximal runs of non-separators in order, each terminated in place, and
  touches nothing outside the string.
\<close>

theorem strtok_tokens:
  assumes "cstr m p s" and "cstr m q sep" and "q + length sep < p \<or> p + length s < q"
  shows "\<exists>ps m'. strtok_calls (Suc (length (tokens sep s))) m st (Some p) q =
      Some (map Some ps @ [None], None, m') \<and> list_all2 (cstr m') ps (tokens sep s) \<and>
      (\<forall>a. a < p \<or> p + length s \<le> a \<longrightarrow> m' a = m a)"
  using assms by (rule strtok_calls_ok)

lemma strtok_tokens_witness:
  "\<exists>ps m'. strtok_calls (Suc (length (tokens [44] [44, 97, 44, 44, 98])))
        (mem_of 10 [44, 0, 44, 97, 44, 44, 98, 0]) None (Some 12) 10 =
      Some (map Some ps @ [None], None, m') \<and>
      list_all2 (cstr m') ps (tokens [44] [44, 97, 44, 44, 98]) \<and>
      (\<forall>a. a < 12 \<or> 12 + length [44 :: u8, 97, 44, 44, 98] \<le> a \<longrightarrow> m' a = mem_of 10 [44, 0, 44, 97, 44, 44, 98, 0] a)"
  by (rule strtok_tokens) (simp_all add: mem_of_def put_bytes_Cons)

end
