(* ===== verification/Qsort.thy ===== *)
theory Qsort
  imports RtString
begin

text \<open>
  \<open>qsort\<close> and \<open>bsearch\<close> of \<open>rt/rt_stdlib.c\<close>, on the byte memory: the array is
  \<open>count\<close> blocks of \<open>width\<close> bytes from \<open>base\<close>, and the caller's comparison function
  is the parameter \<open>cmp\<close>, which reads the memory at two addresses. Comparisons are pure, as
  C requires of them; a comparison may still fault (\<open>None\<close>).
\<close>

type_synonym rt_cmp = "mem \<Rightarrow> nat \<Rightarrow> nat \<Rightarrow> int option"

section \<open>The code\<close>

fun rt_swap :: "mem \<Rightarrow> nat \<Rightarrow> nat \<Rightarrow> nat \<Rightarrow> mem option" where
  "rt_swap m a b 0 = Some m"
| "rt_swap m a b (Suc n) =
     do { t \<leftarrow> m a; x \<leftarrow> m b; m1 \<leftarrow> st8 m a x; m2 \<leftarrow> st8 m1 b t;
          rt_swap m2 (a + 1) (b + 1) n }"

text \<open>Insertion sort, for fewer than eight elements: the inner \<open>while\<close>, then the \<open>for\<close>.\<close>

fun ins_inner :: "rt_cmp \<Rightarrow> nat \<Rightarrow> nat \<Rightarrow> nat \<Rightarrow> nat \<Rightarrow> mem \<Rightarrow> mem option" where
  "ins_inner cmp base w lo j m =
     (if j > lo
      then do { c \<leftarrow> cmp m (base + j * w) (base + (j - 1) * w);
                if c < 0
                then do { m' \<leftarrow> rt_swap m (base + j * w) (base + (j - 1) * w) w;
                          ins_inner cmp base w lo (j - 1) m' }
                else Some m }
      else Some m)"

declare ins_inner.simps [simp del]

function ins_outer :: "rt_cmp \<Rightarrow> nat \<Rightarrow> nat \<Rightarrow> nat \<Rightarrow> nat \<Rightarrow> nat \<Rightarrow> mem \<Rightarrow> mem option" where
  "ins_outer cmp base w lo hi i m =
     (if i < hi
      then do { m' \<leftarrow> ins_inner cmp base w lo i m; ins_outer cmp base w lo hi (i + 1) m' }
      else Some m)"
  by pat_completeness auto
termination
  by (relation "measure (\<lambda>(cmp, base, w, lo, hi, i, m). hi - i)") auto

declare ins_outer.simps [simp del]

text \<open>\<open>if (cmp(x, y) < 0) rt_swap(x, y)\<close>, and the median of first, middle and last.\<close>

definition order_pair :: "rt_cmp \<Rightarrow> nat \<Rightarrow> nat \<Rightarrow> nat \<Rightarrow> nat \<Rightarrow> mem \<Rightarrow> mem option" where
  "order_pair cmp base w x y m =
     do { c \<leftarrow> cmp m (base + x * w) (base + y * w);
          if c < 0 then rt_swap m (base + x * w) (base + y * w) w else Some m }"

definition median3 :: "rt_cmp \<Rightarrow> nat \<Rightarrow> nat \<Rightarrow> nat \<Rightarrow> nat \<Rightarrow> mem \<Rightarrow> mem option" where
  "median3 cmp base w lo hi m =
     (let mid = lo + (hi - lo) div 2; lastp = hi - 1
      in do { m1 \<leftarrow> order_pair cmp base w mid lo m;
              m2 \<leftarrow> order_pair cmp base w lastp lo m1;
              order_pair cmp base w mid lastp m2 })"

function part_loop ::
    "rt_cmp \<Rightarrow> nat \<Rightarrow> nat \<Rightarrow> nat \<Rightarrow> nat \<Rightarrow> nat \<Rightarrow> mem \<Rightarrow> (nat \<times> mem) option" where
  "part_loop cmp base w lastp i store m =
     (if i < lastp
      then do { c \<leftarrow> cmp m (base + i * w) (base + lastp * w);
                if c < 0
                then do { m' \<leftarrow> rt_swap m (base + i * w) (base + store * w) w;
                          part_loop cmp base w lastp (i + 1) (store + 1) m' }
                else part_loop cmp base w lastp (i + 1) store m }
      else Some (store, m))"
  by pat_completeness auto
termination
  by (relation "measure (\<lambda>(cmp, base, w, lastp, i, store, m). lastp - i)") auto

declare part_loop.simps [simp del]

lemma part_loop_store:
  "part_loop cmp base w lastp i store m = Some (s, m') \<Longrightarrow> i \<le> lastp \<Longrightarrow>
   store \<le> s \<and> s \<le> store + (lastp - i)"
proof (induction cmp base w lastp i store m arbitrary: s m' rule: part_loop.induct)
  case (1 cmp base w lastp i store m)
  show ?case
  proof (cases "i < lastp")
    case True
    obtain c where c: "cmp m (base + i * w) (base + lastp * w) = Some c"
      using "1.prems" True by (subst (asm) part_loop.simps) (auto simp: bind_eq_Some)
    show ?thesis
    proof (cases "c < 0")
      case True
      obtain m2 where "rt_swap m (base + i * w) (base + store * w) w = Some m2"
        and "part_loop cmp base w lastp (i + 1) (store + 1) m2 = Some (s, m')"
        using "1.prems" True \<open>i < lastp\<close> c
        by (subst (asm) part_loop.simps) (auto simp: bind_eq_Some)
      from "1.IH"(1) [OF \<open>i < lastp\<close> c True this] \<open>i < lastp\<close> show ?thesis by auto
    next
      case False
      have "part_loop cmp base w lastp (i + 1) store m = Some (s, m')"
        using "1.prems" False \<open>i < lastp\<close> c
        by (subst (asm) part_loop.simps) (auto simp: bind_eq_Some)
      from "1.IH"(2) [OF \<open>i < lastp\<close> c False this] \<open>i < lastp\<close> show ?thesis by auto
    qed
  next
    case False
    then show ?thesis using "1.prems" by (subst (asm) part_loop.simps) auto
  qed
qed

function rt_qsort :: "rt_cmp \<Rightarrow> nat \<Rightarrow> nat \<Rightarrow> nat \<Rightarrow> nat \<Rightarrow> mem \<Rightarrow> mem option" where
  "rt_qsort cmp base w lo hi m =
     (if lo + 1 < hi
      then if hi - lo < 8 then ins_outer cmp base w lo hi (lo + 1) m
           else do { m1 \<leftarrow> median3 cmp base w lo hi m;
                     (store, m2) \<leftarrow> part_loop cmp base w (hi - 1) lo lo m1;
                     m3 \<leftarrow> rt_swap m2 (base + store * w) (base + (hi - 1) * w) w;
                     if store - lo < hi - (store + 1)
                     then do { m4 \<leftarrow> rt_qsort cmp base w lo store m3;
                               rt_qsort cmp base w (store + 1) hi m4 }
                     else do { m4 \<leftarrow> rt_qsort cmp base w (store + 1) hi m3;
                               rt_qsort cmp base w lo store m4 } }
      else Some m)"
  by pat_completeness auto
termination
  by (relation "measure (\<lambda>(cmp, base, w, lo, hi, m). hi - lo)")
    (auto dest!: part_loop_store)

declare rt_qsort.simps [simp del]

definition qsort :: "mem \<Rightarrow> nat \<Rightarrow> nat \<Rightarrow> nat \<Rightarrow> rt_cmp \<Rightarrow> mem option" where
  "qsort m base nmemb width cmp =
     (if nmemb > 1 \<and> width > 0 then rt_qsort cmp base width 0 nmemb m else Some m)"

function bsearch_loop ::
    "mem \<Rightarrow> nat \<Rightarrow> nat \<Rightarrow> nat \<Rightarrow> rt_cmp \<Rightarrow> nat \<Rightarrow> nat \<Rightarrow> nat option option" where
  "bsearch_loop m key base width cmp lo hi =
     (if lo < hi
      then let mid = lo + (hi - lo) div 2; p = base + mid * width
           in do { c \<leftarrow> cmp m key p;
                   if c = 0 then Some (Some p)
                   else if c < 0 then bsearch_loop m key base width cmp lo mid
                   else bsearch_loop m key base width cmp (mid + 1) hi }
      else Some None)"
  by pat_completeness auto
termination
  by (relation "measure (\<lambda>(m, key, base, width, cmp, lo, hi). hi - lo)") auto

declare bsearch_loop.simps [simp del]

definition bsearch :: "mem \<Rightarrow> nat \<Rightarrow> nat \<Rightarrow> nat \<Rightarrow> nat \<Rightarrow> rt_cmp \<Rightarrow> nat option option" where
  "bsearch m key base nmemb width cmp = bsearch_loop m key base width cmp 0 nmemb"

section \<open>Arrays of blocks\<close>

definition blocks :: "mem \<Rightarrow> nat \<Rightarrow> nat \<Rightarrow> u8 list list \<Rightarrow> bool" where
  "blocks m base w xs \<longleftrightarrow>
     (\<forall>i<length xs. length (xs ! i) = w \<and> bytes_at m (base + i * w) (xs ! i))"

definition same_outside :: "mem \<Rightarrow> mem \<Rightarrow> nat \<Rightarrow> nat \<Rightarrow> bool" where
  "same_outside m m' p n \<longleftrightarrow> (\<forall>a. a < p \<or> p + n \<le> a \<longrightarrow> m' a = m a)"

lemma same_outside_refl [simp]: "same_outside m m p n"
  by (simp add: same_outside_def)

lemma same_outside_trans:
  "same_outside m m1 p n \<Longrightarrow> same_outside m1 m2 p n \<Longrightarrow> same_outside m m2 p n"
  by (simp add: same_outside_def)

text \<open>\<open>arr m0 base w xs m\<close>: \<open>m\<close> holds the blocks \<open>xs\<close> and is \<open>m0\<close> elsewhere.\<close>

definition arr :: "mem \<Rightarrow> nat \<Rightarrow> nat \<Rightarrow> u8 list list \<Rightarrow> mem \<Rightarrow> bool" where
  "arr m0 base w xs m \<longleftrightarrow> blocks m base w xs \<and> same_outside m0 m base (length xs * w)"

lemma rt_swap_same: "bytes_at m a x \<Longrightarrow> rt_swap m a a (length x) = Some m"
proof (induction x arbitrary: m a)
  case (Cons b x)
  have "put8 (put8 m a b) a b = m" using Cons.prems by (auto simp: put8_def)
  with Cons show ?case by (simp add: st8_mapped)
qed simp

lemma rt_swap_ok:
  "bytes_at m a x \<Longrightarrow> bytes_at m b y \<Longrightarrow> length x = n \<Longrightarrow> length y = n \<Longrightarrow>
   a + n \<le> b \<or> b + n \<le> a \<Longrightarrow>
   rt_swap m a b n = Some (put_bytes (put_bytes m a y) b x)"
proof (induction n arbitrary: m a b x y)
  case (Suc n)
  obtain c x' d y' where x: "x = c # x'" and y: "y = d # y'"
    using Suc.prems by (cases x; cases y) auto
  let ?m = "put8 (put8 m a d) b c"
  have "bytes_at ?m (Suc a) x'" "bytes_at ?m (Suc b) y'"
    using Suc.prems x y by (auto intro!: bytes_at_upd_other)
  then have "rt_swap ?m (Suc a) (Suc b) n = Some (put_bytes (put_bytes ?m (Suc a) y') (Suc b) x')"
    using Suc.prems x y by (intro Suc.IH) auto
  moreover have "put_bytes (put_bytes ?m (Suc a) y') (Suc b) x' = put_bytes (put_bytes m a y) b x"
  proof
    fix e
    show "put_bytes (put_bytes ?m (Suc a) y') (Suc b) x' e = put_bytes (put_bytes m a y) b x e"
      using Suc.prems x y by (auto simp: put_bytes_def put8_apply nth_Cons' Suc_diff_Suc)
  qed
  moreover have "st8 (put8 m a d) b c = Some ?m"
    using Suc.prems x y by (simp add: st8_def put8_apply)
  ultimately show ?case using Suc.prems x y by (simp add: st8_mapped)
qed simp

lemma block_disjoint:
  assumes "i \<noteq> j" shows "base + i * w + w \<le> base + j * w \<or> base + j * w + w \<le> (base::nat) + i * w"
proof -
  have "Suc i \<le> j \<or> Suc j \<le> i" using assms by auto
  then show ?thesis
    using mult_le_mono1 [of "Suc i" j w] mult_le_mono1 [of "Suc j" i w] by (elim disjE) simp_all
qed

definition swap_list :: "'a list \<Rightarrow> nat \<Rightarrow> nat \<Rightarrow> 'a list" where
  "swap_list xs i j = xs[i := xs ! j, j := xs ! i]"

lemma length_swap_list [simp]: "length (swap_list xs i j) = length xs"
  by (simp add: swap_list_def)

lemma swap_list_nth: "k < length xs \<Longrightarrow> i < length xs \<Longrightarrow> j < length xs \<Longrightarrow>
   swap_list xs i j ! k = (if k = j then xs ! i else if k = i then xs ! j else xs ! k)"
  by (simp add: swap_list_def nth_list_update)

lemma mset_swap_list: "i < length xs \<Longrightarrow> j < length xs \<Longrightarrow> mset (swap_list xs i j) = mset xs"
  by (simp add: swap_list_def mset_swap)

lemma swap_blocks:
  assumes arr: "arr m0 base w xs m" and i: "i < length xs" and j: "j < length xs"
  shows "\<exists>m'. rt_swap m (base + i * w) (base + j * w) w = Some m' \<and>
    arr m0 base w (swap_list xs i j) m'"
proof (cases "i = j")
  case True
  have "swap_list xs i j = xs" by (simp add: True swap_list_def)
  moreover have "rt_swap m (base + i * w) (base + j * w) w = Some m"
    using arr i rt_swap_same [of m "base + i * w" "xs ! i"] True
    by (auto simp: arr_def blocks_def)
  ultimately show ?thesis using arr by simp
next
  case False
  note dj = block_disjoint [OF False, of base w]
  let ?m = "put_bytes (put_bytes m (base + i * w) (xs ! j)) (base + j * w) (xs ! i)"
  have at: "length (xs ! k) = w \<and> bytes_at m (base + k * w) (xs ! k)" if "k < length xs" for k
    using arr that by (simp add: arr_def blocks_def)
  have run: "rt_swap m (base + i * w) (base + j * w) w = Some ?m"
    using at [OF i] at [OF j] dj by (intro rt_swap_ok) auto
  have "length (swap_list xs i j ! k) = w \<and> bytes_at ?m (base + k * w) (swap_list xs i j ! k)"
    if k: "k < length xs" for k
  proof -
    consider "k = j" | "k = i" "k \<noteq> j" | "k \<noteq> i" "k \<noteq> j" by blast
    then show ?thesis
    proof cases
      case 1
      then show ?thesis
        using at [OF i] k i j by (simp add: swap_list_nth bytes_at_put_bytes_same)
    next
      case 2
      then have "bytes_at ?m (base + i * w) (xs ! j)"
        using at [OF i] at [OF j] dj
        by (intro bytes_at_put_bytes_other bytes_at_put_bytes_same) auto
      then show ?thesis using 2 at [OF j] i j by (simp add: swap_list_nth)
    next
      case 3
      have "bytes_at ?m (base + k * w) (xs ! k)"
        using at [OF k] at [OF i] at [OF j] block_disjoint [OF 3(1), of base w]
          block_disjoint [OF 3(2), of base w]
        by (intro bytes_at_put_bytes_other) auto
      then show ?thesis using 3 at [OF k] k i j by (simp add: swap_list_nth)
    qed
  qed
  moreover have "same_outside m ?m base (length xs * w)"
  proof -
    have "i * w + w \<le> length xs * w" "j * w + w \<le> length xs * w"
      using i j by (metis Suc_leI add.commute mult_Suc mult_le_mono1)+
    then show ?thesis using at [OF i] at [OF j] by (auto simp: same_outside_def)
  qed
  ultimately have "arr m0 base w (swap_list xs i j) ?m"
    using arr by (auto simp: arr_def blocks_def intro: same_outside_trans)
  with run show ?thesis by blast
qed

text \<open>\<open>perm_in lo hi xs ys\<close>: a permutation that moves only the elements \<open>lo \<dots> hi - 1\<close>.\<close>

definition perm_in :: "nat \<Rightarrow> nat \<Rightarrow> 'a list \<Rightarrow> 'a list \<Rightarrow> bool" where
  "perm_in lo hi xs ys \<longleftrightarrow> length ys = length xs \<and> mset ys = mset xs \<and>
     (\<forall>i<length xs. i < lo \<or> hi \<le> i \<longrightarrow> ys ! i = xs ! i)"

lemma perm_in_refl [simp]: "perm_in lo hi xs xs"
  by (simp add: perm_in_def)

lemma perm_in_trans:
  "perm_in lo hi xs ys \<Longrightarrow> perm_in lo' hi' ys zs \<Longrightarrow> lo \<le> lo' \<Longrightarrow> hi' \<le> hi \<Longrightarrow> perm_in lo hi xs zs"
  by (auto simp: perm_in_def)

lemma perm_in_swap:
  "lo \<le> i \<Longrightarrow> lo \<le> j \<Longrightarrow> i < hi \<Longrightarrow> j < hi \<Longrightarrow> hi \<le> length xs \<Longrightarrow>
   perm_in lo hi xs (swap_list xs i j)"
  by (auto simp: perm_in_def swap_list_nth mset_swap_list)

lemma perm_in_segment:
  assumes "perm_in lo hi xs ys" and "lo \<le> hi" and "hi \<le> length xs"
  shows "mset (take (hi - lo) (drop lo ys)) = mset (take (hi - lo) (drop lo xs))"
proof -
  have len: "length ys = length xs" and ms: "mset ys = mset xs"
    and eq: "\<And>i. i < length xs \<Longrightarrow> i < lo \<or> hi \<le> i \<Longrightarrow> ys ! i = xs ! i"
    using assms(1) by (auto simp: perm_in_def)
  have split: "zs = take lo zs @ take (hi - lo) (drop lo zs) @ drop hi zs" for zs :: "'a list"
    by (metis append_take_drop_id assms(2) drop_drop le_add_diff_inverse2)
  have "take lo ys = take lo xs" "drop hi ys = drop hi xs"
    using len eq assms by (auto intro!: nth_equalityI)
  with ms split [of xs] split [of ys] show ?thesis
    by (metis add_left_cancel add_right_cancel mset_append)
qed

lemma perm_in_all:
  assumes p: "perm_in lo hi xs ys" and hi: "hi \<le> length xs"
    and all: "\<And>i. lo \<le> i \<Longrightarrow> i < hi \<Longrightarrow> P (xs ! i)" and k: "lo \<le> k" "k < hi"
  shows "P (ys ! k)"
proof -
  have "ys ! k \<in> set (take (hi - lo) (drop lo ys))"
    using k hi p by (auto simp: in_set_conv_nth perm_in_def intro!: exI [of _ "k - lo"])
  also have "set (take (hi - lo) (drop lo ys)) = set (take (hi - lo) (drop lo xs))"
    using perm_in_segment [OF p] k hi by (metis le_trans less_imp_le_nat set_mset_mset)
  finally obtain j where "j < hi - lo" "ys ! k = xs ! (lo + j)"
    using hi by (auto simp: in_set_conv_nth)
  then show ?thesis using all [of "lo + j"] by simp
qed

definition seg_sorted :: "('a \<Rightarrow> 'a \<Rightarrow> bool) \<Rightarrow> nat \<Rightarrow> nat \<Rightarrow> 'a list \<Rightarrow> bool" where
  "seg_sorted le lo hi xs \<longleftrightarrow> (\<forall>a b. lo \<le> a \<longrightarrow> a < b \<longrightarrow> b < hi \<longrightarrow> le (xs ! a) (xs ! b))"

lemma seg_sorted_wrt: "seg_sorted le 0 (length xs) xs \<longleftrightarrow> sorted_wrt le xs"
  by (auto simp: seg_sorted_def sorted_wrt_iff_nth_less)

lemma seg_sorted_outside:
  "seg_sorted le lo hi xs \<Longrightarrow> perm_in lo' hi' xs ys \<Longrightarrow> hi \<le> lo' \<or> hi' \<le> lo \<Longrightarrow>
   hi \<le> length xs \<Longrightarrow> seg_sorted le lo hi ys"
  by (auto simp: seg_sorted_def perm_in_def)

section \<open>Correctness, for every comparison function that reads only the two blocks\<close>

definition total_order :: "nat \<Rightarrow> (u8 list \<Rightarrow> u8 list \<Rightarrow> int) \<Rightarrow> bool" where
  "total_order w cmpb \<longleftrightarrow> (\<forall>x y z. length x = w \<longrightarrow> length y = w \<longrightarrow> length z = w \<longrightarrow>
     (cmpb x y < 0 \<longleftrightarrow> 0 < cmpb y x) \<and>
     (cmpb x y \<le> 0 \<longrightarrow> cmpb y z \<le> 0 \<longrightarrow> cmpb x z \<le> 0))"

text \<open>
  The interface between the sort and the caller's comparison function: it returns, and what
  it returns depends on the bytes of the two blocks alone.
\<close>

locale block_cmp =
  fixes cmp :: rt_cmp and w :: nat and cmpb :: "u8 list \<Rightarrow> u8 list \<Rightarrow> int"
  assumes reads: "bytes_at m a x \<Longrightarrow> bytes_at m b y \<Longrightarrow> length x = w \<Longrightarrow> length y = w \<Longrightarrow>
    cmp m a b = Some (cmpb x y)"
begin

lemma cmp_at:
  "arr m0 base w xs m \<Longrightarrow> i < length xs \<Longrightarrow> j < length xs \<Longrightarrow>
   cmp m (base + i * w) (base + j * w) = Some (cmpb (xs ! i) (xs ! j))"
  by (intro reads) (auto simp: arr_def blocks_def)

lemma arr_length: "arr m0 base w xs m \<Longrightarrow> i < length xs \<Longrightarrow> length (xs ! i) = w"
  by (simp add: arr_def blocks_def)

lemma order_anti:
  "total_order w cmpb \<Longrightarrow> length x = w \<Longrightarrow> length y = w \<Longrightarrow> cmpb x y < 0 \<longleftrightarrow> 0 < cmpb y x"
  by (auto simp: total_order_def)

lemma order_trans:
  "total_order w cmpb \<Longrightarrow> length x = w \<Longrightarrow> length y = w \<Longrightarrow> length z = w \<Longrightarrow>
   cmpb x y \<le> 0 \<Longrightarrow> cmpb y z \<le> 0 \<Longrightarrow> cmpb x z \<le> 0"
  unfolding total_order_def by blast

lemma order_not_less:
  "total_order w cmpb \<Longrightarrow> length x = w \<Longrightarrow> length y = w \<Longrightarrow> \<not> cmpb x y < 0 \<Longrightarrow> cmpb y x \<le> 0"
  using order_anti [of x y] by simp

text \<open>While an element is sifted down, only the pairs ending at it may be out of order.\<close>

lemma ins_inner_ok:
  "arr m0 base w xs m \<Longrightarrow> lo \<le> j \<Longrightarrow> j < hi \<Longrightarrow> hi \<le> length xs \<Longrightarrow>
   \<exists>m' xs'. ins_inner cmp base w lo j m = Some m' \<and> arr m0 base w xs' m' \<and>
     perm_in lo hi xs xs' \<and>
     (total_order w cmpb \<longrightarrow>
      (\<forall>a b. lo \<le> a \<longrightarrow> a < b \<longrightarrow> b < hi \<longrightarrow> b \<noteq> j \<longrightarrow> cmpb (xs ! a) (xs ! b) \<le> 0) \<longrightarrow>
      seg_sorted (\<lambda>x y. cmpb x y \<le> 0) lo hi xs')"
proof (induction j arbitrary: m xs rule: less_induct)
  case (less j)
  show ?case
  proof (cases "lo < j")
    case False
    with less.prems show ?thesis
      by (intro exI [of _ m] exI [of _ xs]) (subst ins_inner.simps, auto simp: seg_sorted_def)
  next
    case True
    have len: "\<And>i. i < hi \<Longrightarrow> length (xs ! i) = w"
      using arr_length [OF less.prems(1)] less.prems(4) by simp
    define c where "c = cmpb (xs ! j) (xs ! (j - 1))"
    have c: "cmp m (base + j * w) (base + (j - 1) * w) = Some c"
      using cmp_at [OF less.prems(1)] less.prems(3,4) by (simp add: c_def)
    show ?thesis
    proof (cases "c < 0")
      case False
      have "seg_sorted (\<lambda>x y. cmpb x y \<le> 0) lo hi xs"
        if o: "total_order w cmpb" and inv: "\<forall>a b. lo \<le> a \<longrightarrow> a < b \<longrightarrow> b < hi \<longrightarrow> b \<noteq> j \<longrightarrow>
          cmpb (xs ! a) (xs ! b) \<le> 0"
        unfolding seg_sorted_def
      proof (intro allI impI)
        fix a b assume ab: "lo \<le> a" "a < b" "b < hi"
        have step: "cmpb (xs ! (j - 1)) (xs ! j) \<le> 0"
          using order_not_less [OF o] False len less.prems(3) by (simp add: c_def)
        show "cmpb (xs ! a) (xs ! b) \<le> 0"
        proof (cases "b = j")
          case True
          show ?thesis
          proof (cases "a = j - 1")
            case True with step \<open>b = j\<close> show ?thesis by simp
          next
            case False
            then have "cmpb (xs ! a) (xs ! (j - 1)) \<le> 0" using inv ab \<open>b = j\<close> by simp
            from order_trans [OF o _ _ _ this step] show ?thesis
              using \<open>b = j\<close> ab len less.prems(3) by simp
          qed
        next
          case False with inv ab show ?thesis by blast
        qed
      qed
      with False True c less.prems show ?thesis
        by (intro exI [of _ m] exI [of _ xs]) (subst ins_inner.simps, auto)
    next
      case c0: True
      let ?ys = "swap_list xs j (j - 1)"
      have j1: "j - 1 < j" "lo \<le> j - 1" "j - 1 < hi" using True less.prems(3) by auto
      obtain m1 where sw: "rt_swap m (base + j * w) (base + (j - 1) * w) w = Some m1"
        and a1: "arr m0 base w ?ys m1"
        using swap_blocks [OF less.prems(1), of j "j - 1"] less.prems(3,4)
          less_imp_diff_less [of j "length xs" 1] by auto
      have nth: "?ys ! k = (if k = j - 1 then xs ! j else if k = j then xs ! (j - 1) else xs ! k)"
        if "k < hi" for k
        using that less.prems by (simp add: swap_list_nth)
      have p1: "perm_in lo hi xs ?ys"
        using less.prems True by (intro perm_in_swap) auto
      obtain m' xs' where run: "ins_inner cmp base w lo (j - 1) m1 = Some m'"
        and a': "arr m0 base w xs' m'" and p': "perm_in lo hi ?ys xs'"
        and srt: "total_order w cmpb \<longrightarrow> (\<forall>a b. lo \<le> a \<longrightarrow> a < b \<longrightarrow> b < hi \<longrightarrow>
          b \<noteq> j - 1 \<longrightarrow> cmpb (?ys ! a) (?ys ! b) \<le> 0) \<longrightarrow>
          seg_sorted (\<lambda>x y. cmpb x y \<le> 0) lo hi xs'"
        using less.IH [OF _ a1, of "j - 1"] less.prems j1 by auto
      have "cmpb (?ys ! a) (?ys ! b) \<le> 0"
        if inv: "\<forall>a b. lo \<le> a \<longrightarrow> a < b \<longrightarrow> b < hi \<longrightarrow> b \<noteq> j \<longrightarrow> cmpb (xs ! a) (xs ! b) \<le> 0"
          and ab: "lo \<le> a" "a < b" "b < hi" "b \<noteq> j - 1" for a b
      proof -
        consider "b = j" "a = j - 1" | "b = j" "a < j - 1" | "b \<noteq> j" "a = j" | "b \<noteq> j" "a = j - 1"
          | "b \<noteq> j" "a \<noteq> j" "a \<noteq> j - 1" using ab by linarith
        then show ?thesis
          using inv [rule_format, of a "j - 1"] inv [rule_format, of "j - 1" b]
            inv [rule_format, of j b] inv [rule_format, of a b] ab less.prems c0 True
          by cases (auto simp: nth c_def simp del: One_nat_def)
      qed
      moreover have "perm_in lo hi xs xs'" using p1 p' by (rule perm_in_trans) auto
      ultimately show ?thesis
        using run a' srt c c0 sw True
        by (intro exI [of _ m'] exI [of _ xs']) (subst ins_inner.simps, auto)
    qed
  qed
qed

lemma ins_outer_ok:
  "arr m0 base w xs m \<Longrightarrow> lo < i \<Longrightarrow> i \<le> hi \<Longrightarrow> hi \<le> length xs \<Longrightarrow>
   \<exists>m' xs'. ins_outer cmp base w lo hi i m = Some m' \<and> arr m0 base w xs' m' \<and>
     perm_in lo hi xs xs' \<and>
     (total_order w cmpb \<longrightarrow> seg_sorted (\<lambda>x y. cmpb x y \<le> 0) lo i xs \<longrightarrow>
      seg_sorted (\<lambda>x y. cmpb x y \<le> 0) lo hi xs')"
proof (induction "hi - i" arbitrary: i m xs)
  case 0
  then show ?case
    by (intro exI [of _ m] exI [of _ xs]) (subst ins_outer.simps, auto)
next
  case (Suc d)
  then have i: "i < hi" and d: "d = hi - Suc i" by simp_all
  obtain m1 xs1 where r1: "ins_inner cmp base w lo i m = Some m1" and a1: "arr m0 base w xs1 m1"
    and p1: "perm_in lo (Suc i) xs xs1"
    and s1: "total_order w cmpb \<longrightarrow>
      (\<forall>a b. lo \<le> a \<longrightarrow> a < b \<longrightarrow> b < Suc i \<longrightarrow> b \<noteq> i \<longrightarrow> cmpb (xs ! a) (xs ! b) \<le> 0) \<longrightarrow>
      seg_sorted (\<lambda>x y. cmpb x y \<le> 0) lo (Suc i) xs1"
    using ins_inner_ok [of m0 base xs m lo i "Suc i"] Suc.prems i by auto
  have "length xs1 = length xs" using p1 by (simp add: perm_in_def)
  with Suc.hyps(1) [OF d a1] Suc.prems i
  obtain m' xs' where r': "ins_outer cmp base w lo hi (Suc i) m1 = Some m'"
    and a': "arr m0 base w xs' m'" and p': "perm_in lo hi xs1 xs'"
    and s': "total_order w cmpb \<longrightarrow> seg_sorted (\<lambda>x y. cmpb x y \<le> 0) lo (Suc i) xs1 \<longrightarrow>
      seg_sorted (\<lambda>x y. cmpb x y \<le> 0) lo hi xs'" by auto
  have "perm_in lo hi xs xs1" using p1 i by (auto simp: perm_in_def)
  then have "perm_in lo hi xs xs'" using p' by (rule perm_in_trans) auto
  moreover have "seg_sorted (\<lambda>x y. cmpb x y \<le> 0) lo (Suc i) xs1"
    if "total_order w cmpb" "seg_sorted (\<lambda>x y. cmpb x y \<le> 0) lo i xs"
    using s1 that by (auto simp: seg_sorted_def less_Suc_eq)
  ultimately show ?case
    using r1 r' a' s' i by (intro exI [of _ m'] exI [of _ xs']) (subst ins_outer.simps, auto)
qed

lemma order_pair_ok:
  assumes "arr m0 base w xs m" "lo \<le> x" "lo \<le> y" "x < hi" "y < hi" "hi \<le> length xs"
  shows "\<exists>m' xs'. order_pair cmp base w x y m = Some m' \<and> arr m0 base w xs' m' \<and>
    perm_in lo hi xs xs'"
proof -
  obtain m1 where "rt_swap m (base + x * w) (base + y * w) w = Some m1"
    and "arr m0 base w (swap_list xs x y) m1"
    using swap_blocks [OF assms(1), of x y] assms by auto
  moreover have "perm_in lo hi xs (swap_list xs x y)"
    using assms by (intro perm_in_swap) auto
  ultimately show ?thesis
    using cmp_at [OF assms(1), of x y] assms perm_in_refl [of lo hi xs]
    by (cases "cmpb (xs ! x) (xs ! y) < 0") (auto simp: order_pair_def)
qed

lemma median3_ok:
  assumes "arr m0 base w xs m" "lo < hi" "hi \<le> length xs"
  shows "\<exists>m' xs'. median3 cmp base w lo hi m = Some m' \<and> arr m0 base w xs' m' \<and>
    perm_in lo hi xs xs'"
proof -
  let ?mid = "lo + (hi - lo) div 2"
  have mid: "lo \<le> ?mid" "?mid < hi" "lo \<le> hi - 1" "hi - 1 < hi" using assms by auto
  obtain m1 xs1 where 1: "order_pair cmp base w ?mid lo m = Some m1" "arr m0 base w xs1 m1"
    "perm_in lo hi xs xs1"
    using order_pair_ok [OF assms(1), of lo ?mid lo hi] mid assms by auto
  then have "hi \<le> length xs1" using assms by (simp add: perm_in_def)
  with 1 mid assms obtain m2 xs2 where 2: "order_pair cmp base w (hi - 1) lo m1 = Some m2"
    "arr m0 base w xs2 m2" "perm_in lo hi xs1 xs2"
    using order_pair_ok [OF 1(2), of lo "hi - 1" lo hi] by auto
  then have "hi \<le> length xs2" using \<open>hi \<le> length xs1\<close> by (simp add: perm_in_def)
  with 2 mid assms obtain m3 xs3 where 3: "order_pair cmp base w ?mid (hi - 1) m2 = Some m3"
    "arr m0 base w xs3 m3" "perm_in lo hi xs2 xs3"
    using order_pair_ok [OF 2(2), of lo ?mid "hi - 1" hi] by auto
  have "perm_in lo hi xs xs3"
    using 1 2 3 by (meson order_refl perm_in_trans)
  with 1 2 3 show ?thesis by (auto simp: median3_def Let_def)
qed

lemma part_loop_ok:
  "arr m0 base w xs m \<Longrightarrow> lo \<le> store \<Longrightarrow> store \<le> i \<Longrightarrow> i \<le> lastp \<Longrightarrow> lastp < length xs \<Longrightarrow>
   (\<forall>k. lo \<le> k \<longrightarrow> k < store \<longrightarrow> cmpb (xs ! k) (xs ! lastp) < 0) \<Longrightarrow>
   (\<forall>k. store \<le> k \<longrightarrow> k < i \<longrightarrow> \<not> cmpb (xs ! k) (xs ! lastp) < 0) \<Longrightarrow>
   \<exists>s m' xs'. part_loop cmp base w lastp i store m = Some (s, m') \<and> arr m0 base w xs' m' \<and>
     perm_in lo lastp xs xs' \<and> lo \<le> s \<and> s \<le> lastp \<and>
     (\<forall>k. lo \<le> k \<longrightarrow> k < s \<longrightarrow> cmpb (xs' ! k) (xs' ! lastp) < 0) \<and>
     (\<forall>k. s \<le> k \<longrightarrow> k < lastp \<longrightarrow> \<not> cmpb (xs' ! k) (xs' ! lastp) < 0)"
proof (induction "lastp - i" arbitrary: i store m xs)
  case 0
  then show ?case
    by (intro exI [of _ store] exI [of _ m] exI [of _ xs]) (subst part_loop.simps, auto)
next
  case (Suc d)
  note IH = Suc.hyps(1) and prems = Suc.prems
  have i: "i < lastp" and d: "d = lastp - Suc i" using Suc.hyps(2) by simp_all
  have c: "cmp m (base + i * w) (base + lastp * w) = Some (cmpb (xs ! i) (xs ! lastp))"
    using cmp_at [OF prems(1)] i prems by simp
  show ?case
  proof (cases "cmpb (xs ! i) (xs ! lastp) < 0")
    case True
    let ?ys = "swap_list xs i store"
    obtain m1 where sw: "rt_swap m (base + i * w) (base + store * w) w = Some m1"
      and a1: "arr m0 base w ?ys m1"
      using swap_blocks [OF prems(1), of i store] i prems by auto
    have nth: "?ys ! k = (if k = store then xs ! i else if k = i then xs ! store else xs ! k)"
      if "k \<le> lastp" for k
      using that prems i by (simp add: swap_list_nth)
    have p1: "perm_in lo lastp xs ?ys" using prems i by (intro perm_in_swap) auto
    have lo1: "\<forall>k. lo \<le> k \<longrightarrow> k < Suc store \<longrightarrow> cmpb (?ys ! k) (?ys ! lastp) < 0"
      using prems i True by (auto simp: nth less_Suc_eq)
    have hi1: "\<forall>k. Suc store \<le> k \<longrightarrow> k < Suc i \<longrightarrow> \<not> cmpb (?ys ! k) (?ys ! lastp) < 0"
    proof (intro allI impI)
      fix k assume k: "Suc store \<le> k" "k < Suc i"
      have "\<not> cmpb (xs ! (if k = i then store else k)) (xs ! lastp) < 0"
        using prems(7) k by auto
      then show "\<not> cmpb (?ys ! k) (?ys ! lastp) < 0"
        using k i prems by (auto simp: nth)
    qed
    obtain s m' xs' where r: "part_loop cmp base w lastp (Suc i) (Suc store) m1 = Some (s, m')"
      and a': "arr m0 base w xs' m'" and p': "perm_in lo lastp ?ys xs'" and b: "lo \<le> s" "s \<le> lastp"
      and "\<forall>k. lo \<le> k \<longrightarrow> k < s \<longrightarrow> cmpb (xs' ! k) (xs' ! lastp) < 0"
      and "\<forall>k. s \<le> k \<longrightarrow> k < lastp \<longrightarrow> \<not> cmpb (xs' ! k) (xs' ! lastp) < 0"
      using IH [OF d a1 _ _ _ _ lo1 hi1] prems i by auto
    moreover have "perm_in lo lastp xs xs'" using p1 p' by (rule perm_in_trans) auto
    ultimately show ?thesis
      using i c True sw
      by (intro exI [of _ s] exI [of _ m'] exI [of _ xs']) (subst part_loop.simps, auto)
  next
    case False
    have "\<forall>k. store \<le> k \<longrightarrow> k < Suc i \<longrightarrow> \<not> cmpb (xs ! k) (xs ! lastp) < 0"
      using prems(7) False by (auto simp: less_Suc_eq)
    with IH [OF d prems(1,2) _ _ prems(5,6)] prems(3) i
    obtain s m' xs' where "part_loop cmp base w lastp (Suc i) store m = Some (s, m')"
      "arr m0 base w xs' m'" "perm_in lo lastp xs xs'" "lo \<le> s" "s \<le> lastp"
      "\<forall>k. lo \<le> k \<longrightarrow> k < s \<longrightarrow> cmpb (xs' ! k) (xs' ! lastp) < 0"
      "\<forall>k. s \<le> k \<longrightarrow> k < lastp \<longrightarrow> \<not> cmpb (xs' ! k) (xs' ! lastp) < 0" by auto
    then show ?thesis
      using i c False
      by (intro exI [of _ s] exI [of _ m'] exI [of _ xs']) (subst part_loop.simps, auto)
  qed
qed

text \<open>One pass: everything before \<open>store\<close> is below the pivot, nothing after it is.\<close>

lemma partition_ok:
  assumes "arr m0 base w xs m" "lo < hi" "hi \<le> length xs"
  shows "\<exists>m1 store m2 m3 xs'. median3 cmp base w lo hi m = Some m1 \<and>
    part_loop cmp base w (hi - 1) lo lo m1 = Some (store, m2) \<and>
    rt_swap m2 (base + store * w) (base + (hi - 1) * w) w = Some m3 \<and>
    arr m0 base w xs' m3 \<and> perm_in lo hi xs xs' \<and> lo \<le> store \<and> store < hi \<and>
    (\<forall>k. lo \<le> k \<longrightarrow> k < store \<longrightarrow> cmpb (xs' ! k) (xs' ! store) < 0) \<and>
    (\<forall>k. store < k \<longrightarrow> k < hi \<longrightarrow> \<not> cmpb (xs' ! k) (xs' ! store) < 0)"
proof -
  obtain m1 xs1 where 1: "median3 cmp base w lo hi m = Some m1" "arr m0 base w xs1 m1"
    "perm_in lo hi xs xs1"
    using median3_ok [OF assms] by blast
  have l1: "length xs1 = length xs" using 1 by (simp add: perm_in_def)
  have b: "lo \<le> hi - 1" "hi - 1 < length xs1" using assms l1 by auto
  obtain s m2 xs2 where 2: "part_loop cmp base w (hi - 1) lo lo m1 = Some (s, m2)"
    "arr m0 base w xs2 m2" "perm_in lo (hi - 1) xs1 xs2" "lo \<le> s" "s \<le> hi - 1"
    "\<forall>k. lo \<le> k \<longrightarrow> k < s \<longrightarrow> cmpb (xs2 ! k) (xs2 ! (hi - 1)) < 0"
    "\<forall>k. s \<le> k \<longrightarrow> k < hi - 1 \<longrightarrow> \<not> cmpb (xs2 ! k) (xs2 ! (hi - 1)) < 0"
    using part_loop_ok [OF 1(2) _ _ b, of lo] by auto
  have l2: "length xs2 = length xs" using 2 l1 by (simp add: perm_in_def)
  let ?ys = "swap_list xs2 s (hi - 1)"
  obtain m3 where 3: "rt_swap m2 (base + s * w) (base + (hi - 1) * w) w = Some m3"
    "arr m0 base w ?ys m3"
    using swap_blocks [OF 2(2), of s "hi - 1"] 2(5) b l1 l2 by auto
  have nth: "?ys ! k = (if k = hi - 1 then xs2 ! s else if k = s then xs2 ! (hi - 1) else xs2 ! k)"
    if "k < hi" for k
    using that 2(5) assms l2 by (simp add: swap_list_nth)
  have "perm_in lo hi xs1 xs2" using 2(3) by (auto simp: perm_in_def)
  moreover have "perm_in lo hi xs2 ?ys" using 2 assms l2 by (intro perm_in_swap) auto
  ultimately have "perm_in lo hi xs ?ys" using 1(3) by (meson order_refl perm_in_trans)
  moreover have "cmpb (?ys ! k) (?ys ! s) < 0" if "lo \<le> k" "k < s" for k
    using that 2 assms by (auto simp: nth simp del: One_nat_def)
  moreover have "\<not> cmpb (?ys ! k) (?ys ! s) < 0" if k: "s < k" "k < hi" for k
    using k less_Suc_eq_le [of k "hi - 1"] 2(5) 2(7) [rule_format, of "if k = hi - 1 then s else k"] assms
      Suc_pred [of hi] by (auto simp: nth simp del: One_nat_def split: if_splits)
  moreover have "s < hi" using 2(5) assms(2) by simp
  ultimately show ?thesis using 1(1) 2(1,4) 3 by blast
qed

end

context block_cmp
begin

text \<open>Two sorted sides around their pivot are one sorted segment.\<close>

lemma seg_sorted_join:
  assumes o: "total_order w cmpb" and len: "\<And>i. i < hi \<Longrightarrow> length (xs ! i) = w"
    and l: "seg_sorted (\<lambda>x y. cmpb x y \<le> 0) lo s xs"
    and r: "seg_sorted (\<lambda>x y. cmpb x y \<le> 0) (Suc s) hi xs" and s: "lo \<le> s" "s < hi"
    and below: "\<forall>k. lo \<le> k \<longrightarrow> k < s \<longrightarrow> cmpb (xs ! k) (xs ! s) < 0"
    and above: "\<forall>k. s < k \<longrightarrow> k < hi \<longrightarrow> \<not> cmpb (xs ! k) (xs ! s) < 0"
  shows "seg_sorted (\<lambda>x y. cmpb x y \<le> 0) lo hi xs"
  unfolding seg_sorted_def
proof (intro allI impI)
  fix a b assume ab: "lo \<le> a" "a < b" "b < hi"
  have up: "cmpb (xs ! s) (xs ! k) \<le> 0" if "s < k" "k < hi" for k
    using order_not_less [OF o _ _ above [rule_format, OF that]] len that s by simp
  have dn: "cmpb (xs ! k) (xs ! s) \<le> 0" if "lo \<le> k" "k < s" for k
    using below that by force
  consider "b < s" | "b = s" | "s < a" | "a = s" | "a < s" "s < b" using ab by linarith
  then show "cmpb (xs ! a) (xs ! b) \<le> 0"
  proof cases
    case 1 with l ab show ?thesis by (simp add: seg_sorted_def)
  next
    case 2 with dn ab show ?thesis by simp
  next
    case 3 with r ab show ?thesis by (simp add: seg_sorted_def)
  next
    case 4 with up ab show ?thesis by simp
  next
    case 5
    then show ?thesis
      using order_trans [OF o, of "xs ! a" "xs ! s" "xs ! b"] dn [of a] up [of b] len ab s by simp
  qed
qed

text \<open>
  A permutation of the left side leaves the pivot and the right side as they are, and the
  other way round; what holds of every element of a side still holds.
\<close>

lemma partition_side:
  assumes p: "perm_in a b xs ys" and ab: "a \<le> b" "b \<le> hi" and hi: "hi \<le> length xs"
    and side: "b \<le> s \<or> s < a" and s: "s < hi"
    and below: "\<forall>k. lo \<le> k \<longrightarrow> k < s \<longrightarrow> cmpb (xs ! k) (xs ! s) < 0"
    and above: "\<forall>k. s < k \<longrightarrow> k < hi \<longrightarrow> \<not> cmpb (xs ! k) (xs ! s) < 0" and lo: "lo \<le> a"
  shows "(\<forall>k. lo \<le> k \<longrightarrow> k < s \<longrightarrow> cmpb (ys ! k) (ys ! s) < 0) \<and>
    (\<forall>k. s < k \<longrightarrow> k < hi \<longrightarrow> \<not> cmpb (ys ! k) (ys ! s) < 0)"
proof -
  have ps: "ys ! s = xs ! s" using p side s hi by (auto simp: perm_in_def)
  have out: "ys ! k = xs ! k" if "k < hi" "k < a \<or> b \<le> k" for k
    using p that hi by (auto simp: perm_in_def)
  have inb: "cmpb (ys ! k) (xs ! s) < 0" if k: "a \<le> k" "k < b" "b \<le> s" for k
    by (rule perm_in_all [OF p _ _ k(1,2), where P = "\<lambda>x. cmpb x (xs ! s) < 0"])
      (use ab hi below lo k in auto)
  have ina: "\<not> cmpb (ys ! k) (xs ! s) < 0" if k: "a \<le> k" "k < b" "s < a" for k
    by (rule perm_in_all [OF p _ _ k(1,2), where P = "\<lambda>x. \<not> cmpb x (xs ! s) < 0"])
      (use ab hi above k in auto)
  show ?thesis
  proof (intro conjI allI impI)
    fix k assume k: "lo \<le> k" "k < s"
    show "cmpb (ys ! k) (ys ! s) < 0"
    proof (cases "a \<le> k \<and> k < b")
      case True
      with inb k side ps show ?thesis by auto
    next
      case False
      with out [of k] below k s ps show ?thesis by auto
    qed
  next
    fix k assume k: "s < k" "k < hi"
    show "\<not> cmpb (ys ! k) (ys ! s) < 0"
    proof (cases "a \<le> k \<and> k < b")
      case True
      with ina k side ps show ?thesis by auto
    next
      case False
      with out [of k] above k ps show ?thesis by auto
    qed
  qed
qed

lemma rt_qsort_ok:
  "arr m0 base w xs m \<Longrightarrow> hi \<le> length xs \<Longrightarrow>
   \<exists>m' xs'. rt_qsort cmp base w lo hi m = Some m' \<and> arr m0 base w xs' m' \<and>
     perm_in lo hi xs xs' \<and>
     (total_order w cmpb \<longrightarrow> seg_sorted (\<lambda>x y. cmpb x y \<le> 0) lo hi xs')"
proof (induction "hi - lo" arbitrary: lo hi m xs rule: less_induct)
  case less
  note a = less.prems(1) and hi = less.prems(2)
  consider (small) "\<not> lo + 1 < hi" | (ins) "lo + 1 < hi" "hi - lo < 8" | (big) "\<not> hi - lo < 8"
    by linarith
  then show ?case
  proof cases
    case small
    with a show ?thesis
      by (intro exI [of _ m] exI [of _ xs]) (subst rt_qsort.simps, auto simp: seg_sorted_def)
  next
    case ins
    have "seg_sorted (\<lambda>x y. cmpb x y \<le> 0) lo (lo + 1) xs" by (auto simp: seg_sorted_def)
    with ins_outer_ok [OF a, of lo "lo + 1" hi] ins hi
    obtain m' xs' where "ins_outer cmp base w lo hi (lo + 1) m = Some m'" "arr m0 base w xs' m'"
      "perm_in lo hi xs xs'" "total_order w cmpb \<longrightarrow> seg_sorted (\<lambda>x y. cmpb x y \<le> 0) lo hi xs'"
      by auto
    then show ?thesis
      using ins by (intro exI [of _ m'] exI [of _ xs']) (subst rt_qsort.simps, auto)
  next
    case big
    have lt: "lo < hi" using big by simp
    from partition_ok [OF a lt hi]
    obtain m1 s m2 m3 xs1 where med: "median3 cmp base w lo hi m = Some m1"
      and part: "part_loop cmp base w (hi - 1) lo lo m1 = Some (s, m2)"
      and sw: "rt_swap m2 (base + s * w) (base + (hi - 1) * w) w = Some m3"
      and a1: "arr m0 base w xs1 m3" and p1: "perm_in lo hi xs xs1" and s: "lo \<le> s" "s < hi"
      and below: "\<forall>k. lo \<le> k \<longrightarrow> k < s \<longrightarrow> cmpb (xs1 ! k) (xs1 ! s) < 0"
      and above: "\<forall>k. s < k \<longrightarrow> k < hi \<longrightarrow> \<not> cmpb (xs1 ! k) (xs1 ! s) < 0"
      by blast
    have l1: "hi \<le> length xs1" using p1 hi by (simp add: perm_in_def)
    define L where "L = (s - lo < hi - (s + 1))"
    define x1 y1 x2 y2 where "x1 = (if L then lo else s + 1)" and "y1 = (if L then s else hi)"
      and "x2 = (if L then s + 1 else lo)" and "y2 = (if L then hi else s)"
    note defs = x1_def y1_def x2_def y2_def
    have b1: "y1 - x1 < hi - lo" "y1 \<le> hi" "lo \<le> x1" "x1 \<le> y1" "y1 \<le> s \<or> s < x1"
      and b2: "y2 - x2 < hi - lo" "y2 \<le> hi" "lo \<le> x2" "x2 \<le> y2" "y2 \<le> s \<or> s < x2"
      using s by (auto simp: defs)
    obtain m4 xs2 where r1: "rt_qsort cmp base w x1 y1 m3 = Some m4" and a2: "arr m0 base w xs2 m4"
      and p2: "perm_in x1 y1 xs1 xs2"
      and s2: "total_order w cmpb \<longrightarrow> seg_sorted (\<lambda>x y. cmpb x y \<le> 0) x1 y1 xs2"
      using less.hyps [OF b1(1) a1] b1 l1 by auto
    have l2: "hi \<le> length xs2" using p2 l1 by (simp add: perm_in_def)
    have pv2: "(\<forall>k. lo \<le> k \<longrightarrow> k < s \<longrightarrow> cmpb (xs2 ! k) (xs2 ! s) < 0) \<and>
        (\<forall>k. s < k \<longrightarrow> k < hi \<longrightarrow> \<not> cmpb (xs2 ! k) (xs2 ! s) < 0)"
      by (rule partition_side [OF p2 b1(4,2) l1 b1(5) s(2) below above b1(3)])
    obtain m' xs' where r2: "rt_qsort cmp base w x2 y2 m4 = Some m'" and a3: "arr m0 base w xs' m'"
      and p3: "perm_in x2 y2 xs2 xs'"
      and s3: "total_order w cmpb \<longrightarrow> seg_sorted (\<lambda>x y. cmpb x y \<le> 0) x2 y2 xs'"
      using less.hyps [OF b2(1) a2] b2 l2 by auto
    have l3: "hi \<le> length xs'" using p3 l2 by (simp add: perm_in_def)
    have pv3: "(\<forall>k. lo \<le> k \<longrightarrow> k < s \<longrightarrow> cmpb (xs' ! k) (xs' ! s) < 0) \<and>
        (\<forall>k. s < k \<longrightarrow> k < hi \<longrightarrow> \<not> cmpb (xs' ! k) (xs' ! s) < 0)"
      using partition_side [OF p3 b2(4,2) l2 b2(5) s(2) _ _ b2(3)] pv2 by blast
    have "seg_sorted (\<lambda>x y. cmpb x y \<le> 0) lo hi xs'" if o: "total_order w cmpb"
    proof (rule seg_sorted_join [OF o _ _ _ s])
      have first: "seg_sorted (\<lambda>x y. cmpb x y \<le> 0) x1 y1 xs'"
        using s2 o b1 l2 s by (intro seg_sorted_outside [OF _ p3]) (auto simp: defs)
      have second: "seg_sorted (\<lambda>x y. cmpb x y \<le> 0) x2 y2 xs'" using s3 o by blast
      show "seg_sorted (\<lambda>x y. cmpb x y \<le> 0) lo s xs'"
        using first second by (auto simp: defs split: if_splits)
      show "seg_sorted (\<lambda>x y. cmpb x y \<le> 0) (Suc s) hi xs'"
        using first second by (auto simp: defs split: if_splits)
    qed (use pv3 arr_length [OF a3] l3 in auto)
    moreover have "perm_in lo hi xs xs'"
      using perm_in_trans [OF perm_in_trans [OF p1 p2] p3] b1 b2 by auto
    moreover have "rt_qsort cmp base w lo hi m = Some m'"
      using big med part sw r1 r2 s by (subst rt_qsort.simps) (auto simp: defs L_def)
    ultimately show ?thesis using a3 by blast
  qed
qed

lemma qsort_ok:
  assumes "blocks m base w xs"
  shows "\<exists>m' xs'. qsort m base (length xs) w cmp = Some m' \<and> arr m base w xs' m' \<and>
    length xs' = length xs \<and> mset xs' = mset xs \<and>
    (total_order w cmpb \<longrightarrow> sorted_wrt (\<lambda>x y. cmpb x y \<le> 0) xs')"
proof (cases "length xs > 1 \<and> w > 0")
  case True
  have "arr m base w xs m" using assms by (simp add: arr_def)
  then obtain m' xs' where "rt_qsort cmp base w 0 (length xs) m = Some m'" "arr m base w xs' m'"
    "length xs' = length xs" "mset xs' = mset xs"
    "total_order w cmpb \<longrightarrow> seg_sorted (\<lambda>x y. cmpb x y \<le> 0) 0 (length xs) xs'"
    using rt_qsort_ok [of m base xs m "length xs" 0] by (auto simp: perm_in_def)
  with True seg_sorted_wrt [of "\<lambda>x y. cmpb x y \<le> 0" xs'] show ?thesis
    by (intro exI [of _ m'] exI [of _ xs']) (auto simp: qsort_def)
next
  case False
  have "sorted_wrt (\<lambda>x y. cmpb x y \<le> 0) xs" if "total_order w cmpb"
  proof (cases "w = 0")
    case True
    then have "xs ! i = []" if "i < length xs" for i using assms that by (simp add: blocks_def)
    moreover have "cmpb [] [] \<le> 0"
      using \<open>total_order w cmpb\<close> True by (force simp: total_order_def)
    ultimately show ?thesis by (simp add: sorted_wrt_iff_nth_less)
  next
    case False
    with \<open>\<not> (length xs > 1 \<and> w > 0)\<close> show ?thesis by (cases xs) auto
  qed
  with False assms show ?thesis
    by (intro exI [of _ m] exI [of _ xs]) (auto simp: qsort_def arr_def)
qed

section \<open>Binary search\<close>

lemma bsearch_loop_ok:
  assumes o: "total_order w cmpb" and b: "blocks m base w xs"
    and srt: "sorted_wrt (\<lambda>x y. cmpb x y \<le> 0) xs" and k: "bytes_at m key kb" "length kb = w"
  shows "hi \<le> length xs \<Longrightarrow> \<forall>i<lo. 0 < cmpb kb (xs ! i) \<Longrightarrow>
    \<forall>i. hi \<le> i \<longrightarrow> i < length xs \<longrightarrow> cmpb kb (xs ! i) < 0 \<Longrightarrow>
    \<exists>r. bsearch_loop m key base w cmp lo hi = Some r \<and>
      (case r of None \<Rightarrow> \<forall>i<length xs. cmpb kb (xs ! i) \<noteq> 0
       | Some p \<Rightarrow> \<exists>i<length xs. p = base + i * w \<and> cmpb kb (xs ! i) = 0)"
proof (induction "hi - lo" arbitrary: lo hi rule: less_induct)
  case less
  have len: "\<And>i. i < length xs \<Longrightarrow> length (xs ! i) = w" using b by (simp add: blocks_def)
  have mono: "\<And>i j. i \<le> j \<Longrightarrow> j < length xs \<Longrightarrow> cmpb (xs ! i) (xs ! j) \<le> 0"
    using srt o len unfolding sorted_wrt_iff_nth_less total_order_def
    by (metis le_neq_implies_less linorder_not_less order_less_imp_not_less)
  show ?case
  proof (cases "lo < hi")
    case False
    then have "bsearch_loop m key base w cmp lo hi = Some None"
      by (subst bsearch_loop.simps) simp
    moreover have "cmpb kb (xs ! i) \<noteq> 0" if "i < length xs" for i
      using less.prems(2) [rule_format, of i] less.prems(3) [rule_format, of i] False that
      by (cases "i < lo") auto
    ultimately show ?thesis by simp
  next
    case True
    let ?mid = "lo + (hi - lo) div 2"
    have mid: "lo \<le> ?mid" "?mid < hi" "?mid < length xs" using True less.prems(1) by auto
    define c where "c = cmpb kb (xs ! ?mid)"
    have c: "cmp m key (base + ?mid * w) = Some c"
      using b k mid by (simp add: c_def blocks_def reads)
    consider "c = 0" | "c < 0" | "0 < c" by linarith
    then show ?thesis
    proof cases
      case 1
      then have "bsearch_loop m key base w cmp lo hi = Some (Some (base + ?mid * w))"
        using True c by (subst bsearch_loop.simps) (simp add: Let_def)
      with 1 mid show ?thesis by (auto simp: c_def)
    next
      case 2
      have "cmpb kb (xs ! i) < 0" if i: "?mid \<le> i" "i < length xs" for i
      proof (rule ccontr)
        assume "\<not> cmpb kb (xs ! i) < 0"
        then have "cmpb (xs ! i) kb \<le> 0" using order_not_less [OF o] k len i by simp
        with order_trans [OF o _ _ _ mono [OF i] this] have "cmpb (xs ! ?mid) kb \<le> 0"
          using k len i mid by simp
        with order_anti [OF o, of kb "xs ! ?mid"] 2 k len mid show False by (simp add: c_def)
      qed
      with less.hyps [of ?mid lo] less.prems mid have
        "\<exists>r. bsearch_loop m key base w cmp lo ?mid = Some r \<and>
        (case r of None \<Rightarrow> \<forall>i<length xs. cmpb kb (xs ! i) \<noteq> 0
         | Some p \<Rightarrow> \<exists>i<length xs. p = base + i * w \<and> cmpb kb (xs ! i) = 0)" by auto
      with True c 2 show ?thesis by (subst bsearch_loop.simps) (simp add: Let_def)
    next
      case 3
      have "0 < cmpb kb (xs ! i)" if i: "i < Suc ?mid" for i
      proof (rule ccontr)
        assume "\<not> 0 < cmpb kb (xs ! i)"
        then have "cmpb kb (xs ! i) \<le> 0" by simp
        from order_trans [OF o _ _ _ this mono] have "cmpb kb (xs ! ?mid) \<le> 0"
          using k len i mid by simp
        with 3 show False by (simp add: c_def)
      qed
      with less.hyps [of hi "Suc ?mid"] less.prems mid have
        "\<exists>r. bsearch_loop m key base w cmp (Suc ?mid) hi = Some r \<and>
        (case r of None \<Rightarrow> \<forall>i<length xs. cmpb kb (xs ! i) \<noteq> 0
         | Some p \<Rightarrow> \<exists>i<length xs. p = base + i * w \<and> cmpb kb (xs ! i) = 0)" by auto
      with True c 3 show ?thesis by (subst bsearch_loop.simps) (simp add: Let_def)
    qed
  qed
qed

lemma bsearch_ok:
  assumes "total_order w cmpb" and "blocks m base w xs"
    and "sorted_wrt (\<lambda>x y. cmpb x y \<le> 0) xs" and "bytes_at m key kb" "length kb = w"
  shows "\<exists>r. bsearch m key base (length xs) w cmp = Some r \<and>
      (case r of None \<Rightarrow> \<forall>i<length xs. cmpb kb (xs ! i) \<noteq> 0
       | Some p \<Rightarrow> \<exists>i<length xs. p = base + i * w \<and> cmpb kb (xs ! i) = 0)"
  unfolding bsearch_def using bsearch_loop_ok [OF assms] by simp

end

section \<open>The comparison functions of the runtime itself\<close>

text \<open>\<open>memcmp\<close> over the whole block is a comparison function of this kind.\<close>

interpretation memcmp_cmp: block_cmp "\<lambda>m a b. memcmp m a b w" w lex_cmp for w
  by unfold_locales (rule memcmp_ok)

lemma lex_cmp_trans_len:
  "lex_cmp xs ys \<le> 0 \<Longrightarrow> lex_cmp ys zs \<le> 0 \<Longrightarrow> length xs = length ys \<Longrightarrow>
   length ys = length zs \<Longrightarrow> lex_cmp xs zs \<le> 0"
proof (induction xs ys arbitrary: zs rule: lex_cmp.induct)
  case (4 x xs y ys)
  then obtain z zs' where "zs = z # zs'" by (cases zs) auto
  with 4 show ?case by (auto simp: uint_same_iff split: if_splits dest: antisym)
qed auto

lemma lex_cmp_total_order: "total_order w lex_cmp"
  unfolding total_order_def
proof (intro allI impI conjI)
  fix x y z :: "u8 list"
  assume "length x = w" "length y = w" "length z = w"
  then show "lex_cmp x z \<le> 0" if "lex_cmp x y \<le> 0" "lex_cmp y z \<le> 0"
    using that by (simp add: lex_cmp_trans_len)
  show "lex_cmp x y < 0 \<longleftrightarrow> 0 < lex_cmp y x" using lex_cmp_anti [of y x] by simp
qed

section \<open>Properties\<close>

text \<open>
  C6. \<open>qsort\<close> returns for every comparison function that returns a value depending on the two
  blocks only - consistent or not -, leaves a permutation of the blocks and touches nothing
  outside the array; when the function is a total preorder the result is sorted.
\<close>

theorem qsort_correct:
  assumes "block_cmp cmp w cmpb" and "blocks m base w xs"
  shows "\<exists>m' xs'. qsort m base (length xs) w cmp = Some m' \<and> blocks m' base w xs' \<and>
    same_outside m m' base (length xs * w) \<and> mset xs' = mset xs \<and>
    (total_order w cmpb \<longrightarrow> sorted_wrt (\<lambda>x y. cmpb x y \<le> 0) xs')"
  using block_cmp.qsort_ok [OF assms] unfolding arr_def by metis

lemma qsort_correct_witness:
  "\<exists>m' xs'. qsort (mem_of 10 [2, 1, 3]) 10 (length [[2 :: u8], [1], [3]]) 1 (\<lambda>m a b. memcmp m a b 1) = Some m' \<and>
    blocks m' 10 1 xs' \<and> same_outside (mem_of 10 [2, 1, 3]) m' 10 (length [[2 :: u8], [1], [3]] * 1) \<and>
    mset xs' = mset [[2], [1], [3]] \<and> (total_order 1 lex_cmp \<longrightarrow> sorted_wrt (\<lambda>x y. lex_cmp x y \<le> 0) xs')"
  by (rule qsort_correct [OF memcmp_cmp.block_cmp_axioms])
    (auto simp: blocks_def mem_of_def put_bytes_Cons less_Suc_eq)

text \<open>
  C24. On a sorted array \<open>bsearch\<close> finds a block equal to the key when there is one and
  returns null only when there is none.
\<close>

theorem bsearch_correct:
  assumes "block_cmp cmp w cmpb" and "total_order w cmpb" and "blocks m base w xs"
    and "sorted_wrt (\<lambda>x y. cmpb x y \<le> 0) xs" and "bytes_at m key kb" and "length kb = w"
  shows "\<exists>r. bsearch m key base (length xs) w cmp = Some r \<and>
    (case r of None \<Rightarrow> \<forall>i<length xs. cmpb kb (xs ! i) \<noteq> 0
     | Some p \<Rightarrow> \<exists>i<length xs. p = base + i * w \<and> cmpb kb (xs ! i) = 0)"
  using block_cmp.bsearch_ok [OF assms] .

lemma bsearch_correct_witness:
  "\<exists>r. bsearch (mem_of 10 [1, 2, 3]) 11 10 (length [[1 :: u8], [2], [3]]) 1 (\<lambda>m a b. memcmp m a b 1) = Some r \<and>
    (case r of None \<Rightarrow> \<forall>i<length [[1 :: u8], [2], [3]]. lex_cmp [2] ([[1 :: u8], [2], [3]] ! i) \<noteq> 0
     | Some p \<Rightarrow> \<exists>i<length [[1 :: u8], [2], [3]]. p = 10 + i * 1 \<and> lex_cmp [2] ([[1 :: u8], [2], [3]] ! i) = 0)"
  by (rule bsearch_correct [OF memcmp_cmp.block_cmp_axioms lex_cmp_total_order])
    (auto simp: blocks_def mem_of_def put_bytes_Cons less_Suc_eq)

end
