(* ===== verification/Strto.thy ===== *)
theory Strto
  imports RtString
begin

text \<open>
  The integer half of \<open>rt/rt_stdlib.c\<close>: \<open>rt_strtox\<close> and the \<open>strto*\<close> family over
  it, \<open>atoi\<close> and its kin, \<open>abs\<close>, and the linear congruential \<open>rand\<close>. Out-parameters
  are extra results: \<open>*end\<close> is an address, \<open>*neg\<close> and \<open>*overflow\<close> are flags. The
  process-wide \<open>__c99m_errno_slot\<close> is passed in and returned.
\<close>

section \<open>The code\<close>

definition RT_ERANGE :: int where
  "RT_ERANGE = 34"

definition rt_isxdigit :: "int \<Rightarrow> bool" where
  "rt_isxdigit c \<longleftrightarrow> (48 \<le> c \<and> c \<le> 57) \<or> (97 \<le> c \<and> c \<le> 102) \<or> (65 \<le> c \<and> c \<le> 70)"

definition digit_of :: "int \<Rightarrow> int option" where
  "digit_of c =
     (if 48 \<le> c \<and> c \<le> 57 then Some (c - 48)
      else if 97 \<le> c \<and> c \<le> 122 then Some (c - 97 + 10)
      else if 65 \<le> c \<and> c \<le> 90 then Some (c - 65 + 10)
      else None)"

partial_function (option) skip_space :: "mem \<Rightarrow> nat \<Rightarrow> nat option" where
  [code]: "skip_space m s =
     do { c \<leftarrow> m s; if isspace (uint c) then skip_space m (s + 1) else Some s }"

definition strtox_sign :: "mem \<Rightarrow> nat \<Rightarrow> (bool \<times> nat) option" where
  "strtox_sign m s =
     do { c \<leftarrow> m s;
          if c = 43 then Some (False, s + 1)
          else if c = 45 then Some (True, s + 1)
          else Some (False, s) }"

text \<open>The prefix test reads \<open>s[1]\<close> and \<open>s[2]\<close> only as far as \<open>&&\<close> goes.\<close>

definition has_hex_prefix :: "mem \<Rightarrow> nat \<Rightarrow> int \<Rightarrow> bool option" where
  "has_hex_prefix m s base =
     (if base = 0 \<or> base = 16
      then do { c0 \<leftarrow> m s;
                if c0 = 48
                then do { c1 \<leftarrow> m (s + 1);
                          if c1 = 120 \<or> c1 = 88
                          then do { c2 \<leftarrow> m (s + 2); Some (rt_isxdigit (uint c2)) }
                          else Some False }
                else Some False }
      else Some False)"

definition strtox_prefix :: "mem \<Rightarrow> nat \<Rightarrow> int \<Rightarrow> (int \<times> nat) option" where
  "strtox_prefix m s base =
     do { hex \<leftarrow> has_hex_prefix m s base;
          if hex then Some (16, s + 2)
          else if base = 0 then do { c0 \<leftarrow> m s; Some (if c0 = 48 then 8 else 10, s) }
          else Some (base, s) }"

partial_function (option) strtox_digits ::
    "mem \<Rightarrow> nat \<Rightarrow> int \<Rightarrow> u64 \<Rightarrow> bool \<Rightarrow> (u64 \<times> bool \<times> nat) option" where
  [code]: "strtox_digits m s base v overflow =
     do { b \<leftarrow> m s;
          case digit_of (uint b) of
            None \<Rightarrow> Some (v, overflow, s)
          | Some d \<Rightarrow>
              if d \<ge> base then Some (v, overflow, s)
              else strtox_digits m (s + 1) base (v * word_of_int base + word_of_int d)
                     (overflow \<or> v > (0xFFFFFFFFFFFFFFFF - word_of_int d) div word_of_int base) }"

definition rt_strtox :: "mem \<Rightarrow> nat \<Rightarrow> int \<Rightarrow> (u64 \<times> nat \<times> bool \<times> bool) option" where
  "rt_strtox m start base =
     do { s \<leftarrow> skip_space m start;
          (neg, s) \<leftarrow> strtox_sign m s;
          (base, digits_start) \<leftarrow> strtox_prefix m s base;
          (v, overflow, s) \<leftarrow> strtox_digits m digits_start base 0 False;
          Some (v, if s = digits_start then start else s, neg, overflow) }"

definition strtoull :: "mem \<Rightarrow> int \<Rightarrow> nat \<Rightarrow> int \<Rightarrow> (u64 \<times> nat \<times> int) option" where
  "strtoull m errno s base =
     do { (v, e, neg, over) \<leftarrow> rt_strtox m s base;
          if over then Some (0xFFFFFFFFFFFFFFFF, e, RT_ERANGE)
          else Some (if neg then 0 - v else v, e, errno) }"

definition strtoll :: "mem \<Rightarrow> int \<Rightarrow> nat \<Rightarrow> int \<Rightarrow> (int \<times> nat \<times> int) option" where
  "strtoll m errno s base =
     do { (v, e, neg, over) \<leftarrow> rt_strtox m s base;
          if over \<or> (\<not> neg \<and> v > 0x7FFFFFFFFFFFFFFF) \<or> (neg \<and> v > 0x8000000000000000)
          then Some (if neg then - 0x7FFFFFFFFFFFFFFF - 1 else 0x7FFFFFFFFFFFFFFF, e, RT_ERANGE)
          else Some (if neg then wrap_s64 (- sint v) else sint v, e, errno) }"

definition strtoul :: "mem \<Rightarrow> int \<Rightarrow> nat \<Rightarrow> int \<Rightarrow> (u32 \<times> nat \<times> int) option" where
  "strtoul m errno s base =
     do { (v, e, neg, over) \<leftarrow> rt_strtox m s base;
          if over \<or> v > 0xFFFFFFFF then Some (0xFFFFFFFF, e, RT_ERANGE)
          else Some (if neg then ucast (0 - v) else ucast v, e, errno) }"

definition strtol :: "mem \<Rightarrow> int \<Rightarrow> nat \<Rightarrow> int \<Rightarrow> (int \<times> nat \<times> int) option" where
  "strtol m errno s base =
     do { (v, e, neg, over) \<leftarrow> rt_strtox m s base;
          if over \<or> (\<not> neg \<and> v > 0x7FFFFFFF) \<or> (neg \<and> v > 0x80000000)
          then Some (if neg then - 0x7FFFFFFF - 1 else 0x7FFFFFFF, e, RT_ERANGE)
          else Some (if neg then wrap_s32 (- wrap_s32 (uint v)) else wrap_s32 (uint v), e, errno) }"

definition atoi :: "mem \<Rightarrow> int \<Rightarrow> nat \<Rightarrow> (int \<times> int) option" where
  "atoi m errno s = do { (v, _, errno) \<leftarrow> strtol m errno s 10; Some (v, errno) }"

definition atol :: "mem \<Rightarrow> int \<Rightarrow> nat \<Rightarrow> (int \<times> int) option" where
  "atol m errno s = do { (v, _, errno) \<leftarrow> strtol m errno s 10; Some (v, errno) }"

definition atoll :: "mem \<Rightarrow> int \<Rightarrow> nat \<Rightarrow> (int \<times> int) option" where
  "atoll m errno s = do { (v, _, errno) \<leftarrow> strtoll m errno s 10; Some (v, errno) }"

definition abs_int :: "int \<Rightarrow> int" where
  "abs_int x = (if x < 0 then wrap_s32 (- x) else x)"

definition labs :: "int \<Rightarrow> int" where
  "labs x = (if x < 0 then wrap_s32 (- x) else x)"

definition llabs :: "int \<Rightarrow> int" where
  "llabs x = (if x < 0 then wrap_s64 (- x) else x)"

text \<open>\<open>rt_rand_state\<close> is the state; \<open>rand\<close> returns the number and the new state.\<close>

definition srand :: "u32 \<Rightarrow> u64" where
  "srand seed = ucast seed"

definition rand :: "u64 \<Rightarrow> int \<times> u64" where
  "rand st = (let st = st * 1103515245 + 12345 in (wrap_s32 (uint ((st div 65536) mod 32768)), st))"

section \<open>What a numeral denotes\<close>

definition is_digit :: "int \<Rightarrow> u8 \<Rightarrow> bool" where
  "is_digit b c \<longleftrightarrow> (case digit_of (uint c) of None \<Rightarrow> False | Some d \<Rightarrow> d < b)"

definition digit_nat :: "u8 \<Rightarrow> nat" where
  "digit_nat c = (case digit_of (uint c) of None \<Rightarrow> 0 | Some d \<Rightarrow> nat d)"

definition digits_val :: "int \<Rightarrow> u8 list \<Rightarrow> nat" where
  "digits_val b ds = foldl (\<lambda>v c. v * nat b + digit_nat c) 0 ds"

text \<open>
  \<open>numeral_text base pre b ds rest\<close>: after the sign, the prefix \<open>pre\<close> and the digits
  \<open>ds\<close> of base \<open>b\<close> are what a call with \<open>base\<close> converts, and \<open>rest\<close> is left over.
\<close>

definition numeral_text :: "int \<Rightarrow> u8 list \<Rightarrow> int \<Rightarrow> u8 list \<Rightarrow> u8 list \<Rightarrow> bool" where
  "numeral_text base pre b ds rest \<longleftrightarrow>
     2 \<le> b \<and> b \<le> 36 \<and> list_all (is_digit b) ds \<and>
     (case rest of [] \<Rightarrow> True | c # _ \<Rightarrow> \<not> is_digit b c) \<and>
     (if pre = [] then
        (if base = 0 then b = (case ds @ rest of c # _ \<Rightarrow> if c = 48 then 8 else 10 | [] \<Rightarrow> 10)
         else b = base) \<and>
        (base = 0 \<or> base = 16 \<longrightarrow>
         (case ds @ rest of c0 # c1 # c2 # _ \<Rightarrow>
            \<not> (c0 = 48 \<and> (c1 = 120 \<or> c1 = 88) \<and> rt_isxdigit (uint c2)) | _ \<Rightarrow> True))
      else (pre = [48, 120] \<or> pre = [48, 88]) \<and> b = 16 \<and> (base = 0 \<or> base = 16) \<and> ds \<noteq> [])"

text \<open>The value clamped to a range, as \<open>strtol\<close> and \<open>strtoll\<close> promise.\<close>

definition clamp :: "int \<Rightarrow> int \<Rightarrow> int \<Rightarrow> int" where
  "clamp lo hi x = max lo (min hi x)"

definition signed_val :: "u8 list \<Rightarrow> nat \<Rightarrow> int" where
  "signed_val sg n = (if sg = [45] then - int n else int n)"

section \<open>The digit loop\<close>

lemma digit_of_range: "digit_of c = Some d \<Longrightarrow> 0 \<le> d \<and> d < 36"
  by (auto simp: digit_of_def split: if_splits)

lemma is_digit_Some: "is_digit b c \<longleftrightarrow> (\<exists>d. digit_of (uint c) = Some d \<and> d < b)"
  by (auto simp: is_digit_def split: option.splits)

lemma digits_val_Nil [simp]: "digits_val b [] = 0"
  by (simp add: digits_val_def)

lemma digits_val_snoc: "digits_val b (ds @ [c]) = digits_val b ds * nat b + digit_nat c"
  by (simp add: digits_val_def)

text \<open>The overflow test is exact: it fires just when the next value passes \<open>2\<^sup>6\<^sup>4\<close>.\<close>

lemma overflow_test:
  fixes v :: u64
  assumes b: "2 \<le> b" "b \<le> 36" and d: "0 \<le> d" "d < 36"
  shows "v > (0xFFFFFFFFFFFFFFFF - word_of_int d) div word_of_int b \<longleftrightarrow>
    unat v * nat b + nat d \<ge> 2 ^ 64"
proof -
  have ub: "unat (word_of_int b :: u64) = nat b" and ud: "unat (word_of_int d :: u64) = nat d"
    using assms by (simp_all add: unat_eq_nat_uint uint_word_of_int_eq take_bit_int_eq_self)
  have "(word_of_int d :: u64) \<le> 0xFFFFFFFFFFFFFFFF"
    using d ud by (simp add: word_le_nat_alt)
  then have "unat (0xFFFFFFFFFFFFFFFF - word_of_int d :: u64) = 2 ^ 64 - 1 - nat d"
    by (simp add: unat_sub ud)
  then have "unat ((0xFFFFFFFFFFFFFFFF - word_of_int d) div word_of_int b :: u64) =
      (2 ^ 64 - 1 - nat d) div nat b"
    by (simp add: unat_div_distrib ub)
  then have "v > (0xFFFFFFFFFFFFFFFF - word_of_int d) div word_of_int b \<longleftrightarrow>
      (2 ^ 64 - 1 - nat d) div nat b < unat v"
    by (simp add: word_less_nat_alt)
  also have "\<dots> \<longleftrightarrow> 2 ^ 64 - 1 - nat d < unat v * nat b"
    using b by (simp add: div_less_iff_less_mult)
  also have "\<dots> \<longleftrightarrow> unat v * nat b + nat d \<ge> 2 ^ 64"
    using d by auto
  finally show ?thesis .
qed

lemma digit_step_value:
  fixes v :: u64
  assumes b: "2 \<le> b" "b \<le> 36" and d: "0 \<le> d" "d < 36" and v: "v = of_nat n"
  shows "v * word_of_int b + word_of_int d = of_nat (n * nat b + nat d)"
  using b d unfolding v by (simp add: of_nat_mult of_nat_nat)

lemma strtox_digits_ok:
  assumes b: "2 \<le> b" "b \<le> 36"
  shows "cstr m s (ds @ rest) \<Longrightarrow> list_all (is_digit b) ds \<Longrightarrow>
    (case rest of [] \<Rightarrow> True | c # _ \<Rightarrow> \<not> is_digit b c) \<Longrightarrow>
    strtox_digits m s b (of_nat n) (n \<ge> 2 ^ 64) =
      (let r = foldl (\<lambda>v c. v * nat b + digit_nat c) n ds
       in Some (of_nat r, r \<ge> 2 ^ 64, s + length ds))"
proof (induction ds arbitrary: s n)
  case Nil
  have "\<exists>c. m s = Some c \<and> \<not> is_digit b c"
  proof (cases rest)
    case Nil
    then show ?thesis using Nil.prems b by (simp add: is_digit_def digit_of_def)
  next
    case (Cons c cs)
    then show ?thesis using Nil.prems by simp
  qed
  then show ?case
    by (subst strtox_digits.simps) (auto simp: is_digit_def Let_def split: option.splits)
next
  case (Cons c ds)
  then obtain d where d: "digit_of (uint c) = Some d" "d < b" and c: "m s = Some c"
    by (auto simp: is_digit_Some)
  have r: "0 \<le> d" "d < 36" using digit_of_range [OF d(1)] by auto
  have dn: "digit_nat c = nat d" using d by (simp add: digit_nat_def)
  let ?n = "n * nat b + nat d"
  have over: "(n \<ge> 2 ^ 64 \<or>
      (of_nat n :: u64) > (0xFFFFFFFFFFFFFFFF - word_of_int d) div word_of_int b) \<longleftrightarrow> ?n \<ge> 2 ^ 64"
  proof (cases "n \<ge> 2 ^ 64")
    case True
    moreover have "n * 1 \<le> n * nat b" using b by (intro mult_le_mono2) simp
    ultimately have "?n \<ge> 2 ^ 64" by linarith
    with True show ?thesis by simp
  next
    case False
    then have "unat (of_nat n :: u64) = n" by (intro unat_of_nat_small) simp
    with False show ?thesis using overflow_test [OF b r, of "of_nat n"] by simp
  qed
  have "strtox_digits m s b (of_nat n) (n \<ge> 2 ^ 64) =
      strtox_digits m (Suc s) b (of_nat ?n) (?n \<ge> 2 ^ 64)"
    by (subst strtox_digits.simps)
      (use c d over digit_step_value [OF b r, of "of_nat n" n] in \<open>simp del: of_nat_add of_nat_mult\<close>)
  moreover have "strtox_digits m (Suc s) b (of_nat ?n) (?n \<ge> 2 ^ 64) =
      (let r = foldl (\<lambda>v c. v * nat b + digit_nat c) ?n ds
       in Some (of_nat r, r \<ge> 2 ^ 64, Suc s + length ds))"
    using Cons.prems by (intro Cons.IH) auto
  ultimately show ?case by (simp only: foldl_Cons dn) simp
qed

section \<open>Space, sign and prefix\<close>

lemma skip_space_ok:
  "cstr m p (ws @ s) \<Longrightarrow> list_all (\<lambda>c. isspace (uint c)) ws \<Longrightarrow>
   (case s of [] \<Rightarrow> True | c # _ \<Rightarrow> \<not> isspace (uint c)) \<Longrightarrow>
   skip_space m p = Some (p + length ws)"
proof (induction ws arbitrary: p)
  case Nil
  have "\<exists>c. m p = Some c \<and> \<not> isspace (uint c)"
    using Nil.prems by (cases s) (auto simp: isspace_def)
  then show ?case by (subst skip_space.simps) auto
next
  case (Cons c ws)
  then show ?case by (subst skip_space.simps) simp
qed

lemma is_digit_not_sign: "is_digit b c \<Longrightarrow> c \<noteq> 43 \<and> c \<noteq> 45 \<and> c \<noteq> 0 \<and> \<not> isspace (uint c)"
  by (auto simp: is_digit_def digit_of_def isspace_def split: if_splits)

text \<open>\<open>sign_text sg s\<close>: \<open>sg\<close> is the sign of the text \<open>sg @ s\<close>.\<close>

definition sign_text :: "u8 list \<Rightarrow> u8 list \<Rightarrow> bool" where
  "sign_text sg s \<longleftrightarrow> sg = [43] \<or> sg = [45] \<or>
     (sg = [] \<and> (case s of [] \<Rightarrow> True | c # _ \<Rightarrow> c \<noteq> 43 \<and> c \<noteq> 45 \<and> \<not> isspace (uint c)))"

lemma strtox_sign_ok:
  "cstr m p (sg @ s) \<Longrightarrow> sign_text sg s \<Longrightarrow>
   strtox_sign m p = Some (sg = [45], p + length sg)"
  by (auto simp: sign_text_def strtox_sign_def split: list.splits)

lemma strtox_prefix_ok:
  assumes s: "cstr m p (pre @ ds @ rest)" and n: "numeral_text base pre b ds rest"
  shows "strtox_prefix m p base = Some (b, p + length pre)"
proof (cases "pre = []")
  case True
  let ?t = "ds @ rest"
  have at: "cstr m p ?t" using s True by simp
  have hex: "has_hex_prefix m p base = Some False"
  proof (cases "base = 0 \<or> base = 16")
    case b16: True
    have nx: "case ?t of c0 # c1 # c2 # _ \<Rightarrow>
        \<not> (c0 = 48 \<and> (c1 = 120 \<or> c1 = 88) \<and> rt_isxdigit (uint c2)) | _ \<Rightarrow> True"
      using n True b16 by (simp add: numeral_text_def)
    consider "?t = []" | c0 where "?t = [c0]" | c0 c1 where "?t = [c0, c1]"
      | c0 c1 c2 t where "?t = c0 # c1 # c2 # t"
      by (metis list.exhaust)
    then show ?thesis
      using at nx b16 by cases (auto simp: has_hex_prefix_def rt_isxdigit_def add_2_eq_Suc')
  qed (auto simp: has_hex_prefix_def)
  obtain c where "m p = Some c" and "c = (case ?t of [] \<Rightarrow> 0 | c # _ \<Rightarrow> c)"
    using at by (cases ?t) auto
  then show ?thesis
    using n True hex by (auto simp: strtox_prefix_def numeral_text_def split: list.splits if_splits)
next
  case False
  then obtain x d ds' where "pre = [48, x]" "x = 120 \<or> x = 88" "ds = d # ds'" "b = 16"
    "base = 0 \<or> base = 16" "is_digit 16 d"
    using n by (cases ds) (auto simp: numeral_text_def)
  moreover from \<open>is_digit 16 d\<close> have "rt_isxdigit (uint d)"
    by (auto simp: is_digit_def digit_of_def rt_isxdigit_def split: if_splits)
  ultimately show ?thesis
    using s by (auto simp: strtox_prefix_def has_hex_prefix_def add_2_eq_Suc')
qed

section \<open>The conversions\<close>

text \<open>
  \<open>subject m p base ws sg pre b ds rest\<close>: the string at \<open>p\<close>, taken apart the way
  C99 7.20.1.4 describes the subject sequence.
\<close>

definition subject :: "mem \<Rightarrow> nat \<Rightarrow> int \<Rightarrow> u8 list \<Rightarrow> u8 list \<Rightarrow> u8 list \<Rightarrow> int \<Rightarrow> u8 list \<Rightarrow>
    u8 list \<Rightarrow> bool" where
  "subject m p base ws sg pre b ds rest \<longleftrightarrow>
     cstr m p (ws @ sg @ pre @ ds @ rest) \<and> list_all (\<lambda>c. isspace (uint c)) ws \<and>
     sign_text sg (pre @ ds @ rest) \<and> numeral_text base pre b ds rest"

lemma sign_text_start:
  "sign_text sg s \<Longrightarrow> case sg @ s of [] \<Rightarrow> True | c # _ \<Rightarrow> \<not> isspace (uint c)"
  by (auto simp: sign_text_def isspace_def split: list.splits)

lemma rt_strtox_ok:
  assumes "subject m p base ws sg pre b ds rest"
  shows "rt_strtox m p base =
    Some (of_nat (digits_val b ds),
      if ds = [] then p else p + length (ws @ sg @ pre @ ds),
      sg = [45], digits_val b ds \<ge> 2 ^ 64)"
proof -
  have s: "cstr m p (ws @ sg @ pre @ ds @ rest)" and ws: "list_all (\<lambda>c. isspace (uint c)) ws"
    and sg: "sign_text sg (pre @ ds @ rest)" and n: "numeral_text base pre b ds rest"
    using assms by (simp_all add: subject_def)
  have 1: "skip_space m p = Some (p + length ws)"
    using skip_space_ok [OF s ws] sign_text_start [OF sg] by simp
  have s1: "cstr m (p + length ws) (sg @ pre @ ds @ rest)" using cstr_append [OF s] .
  have 2: "strtox_sign m (p + length ws) = Some (sg = [45], p + length ws + length sg)"
    using strtox_sign_ok [OF s1 sg] .
  have s2: "cstr m (p + length ws + length sg) (pre @ ds @ rest)" using cstr_append [OF s1] .
  have 3: "strtox_prefix m (p + length ws + length sg) base =
      Some (b, p + length ws + length sg + length pre)"
    using strtox_prefix_ok [OF s2 n] .
  have s3: "cstr m (p + length ws + length sg + length pre) (ds @ rest)" using cstr_append [OF s2] .
  have b: "2 \<le> b" "b \<le> 36" "list_all (is_digit b) ds"
    "case rest of [] \<Rightarrow> True | c # _ \<Rightarrow> \<not> is_digit b c"
    using n by (auto simp: numeral_text_def)
  have 4: "strtox_digits m (p + length ws + length sg + length pre) b 0 False =
      Some (of_nat (digits_val b ds), digits_val b ds \<ge> 2 ^ 64,
        p + length ws + length sg + length pre + length ds)"
    using strtox_digits_ok [OF b(1,2) s3 b(3,4), of 0] by (simp add: digits_val_def Let_def)
  show ?thesis
    by (auto simp: rt_strtox_def 1 2 3 4)
qed

lemma unat_gt_num: "(of_nat n :: u64) > of_nat k \<longleftrightarrow> n > k" if "n < 2 ^ 64" "k < 2 ^ 64"
  using that by (simp add: word_less_nat_alt unat_of_nat_small)

lemma sint_small: "n < 2 ^ 63 \<Longrightarrow> sint (of_nat n :: u64) = int n"
  by (simp add: sint_uint uint_nat unat_of_nat_small signed_take_bit_int_eq_self)

lemma sint_min: "sint (of_nat (2 ^ 63) :: u64) = - (2 ^ 63)"
  by simp

lemma strtoll_ok:
  assumes x_def: "x = signed_val sg (digits_val b ds)" and s: "subject m p base ws sg pre b ds rest"
  shows "strtoll m errno p base =
    Some (clamp (- (2 ^ 63)) (2 ^ 63 - 1) x,
      if ds = [] then p else p + length (ws @ sg @ pre @ ds),
      if - (2 ^ 63) \<le> x \<and> x \<le> 2 ^ 63 - 1 then errno else RT_ERANGE)"
proof -
  let ?n = "digits_val b ds"
  note r = rt_strtox_ok [OF s]
  consider "?n \<ge> 2 ^ 64" | "?n < 2 ^ 64" "?n > 2 ^ 63" | "?n = 2 ^ 63" | "?n < 2 ^ 63"
    by linarith
  then show ?thesis
  proof cases
    case 1
    then show ?thesis by (simp add: strtoll_def r x_def clamp_def signed_val_def)
  next
    case 2
    then have "(of_nat ?n :: u64) > of_nat (2 ^ 63)" "(of_nat ?n :: u64) > of_nat (2 ^ 63 - 1)"
      using unat_gt_num [of ?n "2 ^ 63"] unat_gt_num [of ?n "2 ^ 63 - 1"] by auto
    with 2 show ?thesis by (simp add: strtoll_def r x_def clamp_def signed_val_def)
  next
    case 3
    then show ?thesis by (simp add: strtoll_def r x_def clamp_def signed_val_def)
  next
    case 4
    then have "\<not> (of_nat ?n :: u64) > of_nat (2 ^ 63)" "\<not> (of_nat ?n :: u64) > of_nat (2 ^ 63 - 1)"
      using unat_gt_num [of ?n "2 ^ 63"] unat_gt_num [of ?n "2 ^ 63 - 1"] by auto
    with 4 sint_small [OF 4] show ?thesis
      by (simp add: strtoll_def r x_def clamp_def signed_val_def wrap_s64_id)
  qed
qed

lemma strtol_ok:
  assumes x_def: "x = signed_val sg (digits_val b ds)" and s: "subject m p base ws sg pre b ds rest"
  shows "strtol m errno p base =
    Some (clamp (- (2 ^ 31)) (2 ^ 31 - 1) x,
      if ds = [] then p else p + length (ws @ sg @ pre @ ds),
      if - (2 ^ 31) \<le> x \<and> x \<le> 2 ^ 31 - 1 then errno else RT_ERANGE)"
proof -
  let ?n = "digits_val b ds"
  note r = rt_strtox_ok [OF s]
  consider "?n \<ge> 2 ^ 64" | "?n < 2 ^ 64" "?n > 2 ^ 31" | "?n = 2 ^ 31" | "?n < 2 ^ 31"
    by linarith
  then show ?thesis
  proof cases
    case 1
    then show ?thesis by (simp add: strtol_def r x_def clamp_def signed_val_def)
  next
    case 2
    then have "(of_nat ?n :: u64) > of_nat (2 ^ 31)" "(of_nat ?n :: u64) > of_nat (2 ^ 31 - 1)"
      using unat_gt_num [of ?n "2 ^ 31"] unat_gt_num [of ?n "2 ^ 31 - 1"] by auto
    with 2 show ?thesis by (simp add: strtol_def r x_def clamp_def signed_val_def)
  next
    case 3
    then show ?thesis by (simp add: strtol_def r x_def clamp_def signed_val_def)
  next
    case 4
    then have gt: "\<not> (of_nat ?n :: u64) > of_nat (2 ^ 31)" "\<not> (of_nat ?n :: u64) > of_nat (2 ^ 31 - 1)"
      using unat_gt_num [of ?n "2 ^ 31"] unat_gt_num [of ?n "2 ^ 31 - 1"] by auto
    have "uint (of_nat ?n :: u64) = int ?n"
      using 4 by (simp add: uint_nat unat_of_nat_small)
    with 4 gt show ?thesis
      by (simp add: strtol_def r x_def clamp_def signed_val_def wrap_s32_id)
  qed
qed

lemma strtoull_ok:
  assumes s: "subject m p base ws sg pre b ds rest"
  shows "strtoull m errno p base =
    (if digits_val b ds \<ge> 2 ^ 64
     then Some (- 1, if ds = [] then p else p + length (ws @ sg @ pre @ ds), RT_ERANGE)
     else Some (word_of_int (signed_val sg (digits_val b ds)),
       if ds = [] then p else p + length (ws @ sg @ pre @ ds), errno))"
  by (simp add: strtoull_def rt_strtox_ok [OF s] signed_val_def)

lemma ucast_down_of_nat:
  "ucast (of_nat n :: u64) = (of_nat n :: u32)" "ucast (- of_nat n :: u64) = (- of_nat n :: u32)"
  by (transfer, simp)+

lemma strtoul_ok:
  assumes s: "subject m p base ws sg pre b ds rest"
  shows "strtoul m errno p base =
    (if digits_val b ds \<ge> 2 ^ 32
     then Some (- 1, if ds = [] then p else p + length (ws @ sg @ pre @ ds), RT_ERANGE)
     else Some (word_of_int (signed_val sg (digits_val b ds)),
       if ds = [] then p else p + length (ws @ sg @ pre @ ds), errno))"
proof -
  let ?n = "digits_val b ds"
  note r = rt_strtox_ok [OF s]
  consider "?n \<ge> 2 ^ 64" | "?n < 2 ^ 64" "?n \<ge> 2 ^ 32" | "?n < 2 ^ 32" by linarith
  then show ?thesis
  proof cases
    case 1
    then show ?thesis by (simp add: strtoul_def r)
  next
    case 2
    then have "(of_nat ?n :: u64) > of_nat (2 ^ 32 - 1)"
      using unat_gt_num [of ?n "2 ^ 32 - 1"] by auto
    with 2 show ?thesis by (simp add: strtoul_def r)
  next
    case 3
    then have "\<not> (of_nat ?n :: u64) > of_nat (2 ^ 32 - 1)"
      using unat_gt_num [of ?n "2 ^ 32 - 1"] by auto
    moreover have "ucast (of_nat ?n :: u64) = (of_nat ?n :: u32)"
      "ucast (- of_nat ?n :: u64) = (- of_nat ?n :: u32)"
      by (simp_all add: ucast_down_of_nat)
    ultimately show ?thesis
      using 3 by (simp add: strtoul_def r signed_val_def)
  qed
qed

text \<open>\<open>rand\<close> stays in the range its declaration promises, for every state.\<close>

lemma rand_range: "0 \<le> fst (rand st) \<and> fst (rand st) < 32768"
proof -
  have small: "0 \<le> x \<Longrightarrow> x < 32768 \<Longrightarrow> wrap_s32 x = x" for x
    by (rule wrap_s32_id) auto
  have lt: "uint ((w div 65536) mod 32768 :: u64) < 32768" for w :: u64
    by (simp add: uint_mod_distrib)
  have "wrap_s32 (uint ((w div 65536) mod 32768 :: u64)) = uint ((w div 65536) mod 32768 :: u64)"
    for w :: u64
    using small [OF uint_ge_0 lt] .
  with lt show ?thesis by (simp add: rand_def Let_def)
qed

section \<open>Properties\<close>

text \<open>
  C14. \<open>strtoll\<close> on white space, a sign, an optional prefix and digits: the value clamped to 64
  bits, \<open>errno\<close> set exactly when clamping changed it, the end pointer behind the digits or
  at the start when there are none.
\<close>

theorem strtoll_correct:
  assumes "subject m p base ws sg pre b ds rest"
  shows "strtoll m errno p base =
    (let x = signed_val sg (digits_val b ds) in
     Some (clamp (- (2 ^ 63)) (2 ^ 63 - 1) x,
      if ds = [] then p else p + length (ws @ sg @ pre @ ds),
      if - (2 ^ 63) \<le> x \<and> x \<le> 2 ^ 63 - 1 then errno else RT_ERANGE))"
  using strtoll_ok [OF refl assms] by (simp add: Let_def)

lemma strtoll_correct_witness:
  "strtoll (mem_of 1 [32, 45, 48, 120, 49, 102, 0]) 0 1 16 =
    (let x = signed_val [45] (digits_val 16 [49, 102]) in
     Some (clamp (- (2 ^ 63)) (2 ^ 63 - 1) x,
      if [49 :: u8, 102] = [] then 1 else 1 + length ([32] @ [45] @ [48, 120] @ [49 :: u8, 102]),
      if - (2 ^ 63) \<le> x \<and> x \<le> 2 ^ 63 - 1 then 0 else RT_ERANGE))"
  by (rule strtoll_correct [where rest = "[]"])
    (simp add: subject_def numeral_text_def sign_text_def is_digit_def digit_of_def isspace_def
      mem_of_def put_bytes_Cons)

text \<open>
  \<open>strtol\<close>, through the 64-bit converter and a 32-bit \<open>long\<close>: the value clamped to 32
  bits, also when the converter itself overflowed.
\<close>

theorem strtol_correct:
  assumes "subject m p base ws sg pre b ds rest"
  shows "strtol m errno p base =
    (let x = signed_val sg (digits_val b ds) in
     Some (clamp (- (2 ^ 31)) (2 ^ 31 - 1) x,
      if ds = [] then p else p + length (ws @ sg @ pre @ ds),
      if - (2 ^ 31) \<le> x \<and> x \<le> 2 ^ 31 - 1 then errno else RT_ERANGE))"
  using strtol_ok [OF refl assms] by (simp add: Let_def)

lemma strtol_correct_witness:
  "strtol (mem_of 1 [43, 48, 49, 55, 57, 0]) 5 1 0 =
    (let x = signed_val [43] (digits_val 8 [48, 49, 55]) in
     Some (clamp (- (2 ^ 31)) (2 ^ 31 - 1) x,
      if [48 :: u8, 49, 55] = [] then 1 else 1 + length ([] @ [43] @ [] @ [48 :: u8, 49, 55]),
      if - (2 ^ 31) \<le> x \<and> x \<le> 2 ^ 31 - 1 then 5 else RT_ERANGE))"
  by (rule strtol_correct [where rest = "[57]"])
    (simp add: subject_def numeral_text_def sign_text_def is_digit_def digit_of_def isspace_def
      mem_of_def put_bytes_Cons)

text \<open>
  \<open>strtoull\<close>: the value modulo its sign, all ones and \<open>ERANGE\<close> when the digits do not
  fit in 64 bits; a minus sign negates in unsigned arithmetic.
\<close>

theorem strtoull_correct:
  assumes "subject m p base ws sg pre b ds rest"
  shows "strtoull m errno p base =
    (if digits_val b ds \<ge> 2 ^ 64
     then Some (- 1, if ds = [] then p else p + length (ws @ sg @ pre @ ds), RT_ERANGE)
     else Some (word_of_int (signed_val sg (digits_val b ds)),
       if ds = [] then p else p + length (ws @ sg @ pre @ ds), errno))"
  using assms by (rule strtoull_ok)

lemma strtoull_correct_witness:
  "strtoull (mem_of 1 [45, 49, 0]) 0 1 10 =
    (if digits_val 10 [49] \<ge> 2 ^ 64
     then Some (- 1, if [49 :: u8] = [] then 1 else 1 + length ([] @ [45] @ [] @ [49 :: u8]), RT_ERANGE)
     else Some (word_of_int (signed_val [45] (digits_val 10 [49])),
       if [49 :: u8] = [] then 1 else 1 + length ([] @ [45] @ [] @ [49 :: u8]), 0))"
  by (rule strtoull_correct [where rest = "[]"])
    (simp add: subject_def numeral_text_def sign_text_def is_digit_def digit_of_def isspace_def
      mem_of_def put_bytes_Cons)

text \<open>
  The linear congruential generator: from every seed each call of \<open>rand\<close> returns a value
  from 0 to 32767 and steps the state by the recurrence modulo 2^64.
\<close>

theorem rand_stays_in_range:
  "0 \<le> fst (rand st) \<and> fst (rand st) < 32768 \<and>
   uint (snd (rand st)) = (uint st * 1103515245 + 12345) mod 2 ^ 64"
  using rand_range [of st] by (simp add: rand_def Let_def uint_word_ariths mod_simps)

end
