(* ===== verification/Bignum.thy ===== *)
theory Bignum
  imports Strto
begin

text \<open>
  The base-1000000000 bignum of \<open>rt/rt_format.c\<close> and \<open>rt_utoa\<close>. A \<open>Bn\<close> is the list of
  its used limbs, lowest first. The array \<open>limb\<close> has \<open>BN_CAP\<close> = 100 elements and the code
  never tests the bound: a store past it is undefined behaviour, the value \<open>None\<close> here.
\<close>

section \<open>Printing an unsigned integer\<close>

definition hex_digits :: "bool \<Rightarrow> u8 list" where
  "hex_digits upper = (if upper then lit ''0123456789ABCDEF'' else lit ''0123456789abcdef'')"

function rt_utoa_loop :: "u64 \<Rightarrow> u64 \<Rightarrow> bool \<Rightarrow> u8 list \<Rightarrow> u8 list" where
  "rt_utoa_loop v base upper out =
     (if v \<noteq> 0 \<and> base > 1
      then rt_utoa_loop (v div base) base upper (hex_digits upper ! unat (v mod base) # out)
      else out)"
  by pat_completeness auto
termination
proof (relation "measure (\<lambda>(v, base, upper, out). unat v)")
  fix v base :: u64 and upper :: bool and out :: "u8 list"
  assume "v \<noteq> 0 \<and> base > 1"
  then have "unat v div unat base < unat v"
    by (intro div_less_dividend) (auto simp: word_less_nat_alt unat_gt_0)
  then show "((v div base, base, upper, hex_digits upper ! unat (v mod base) # out),
      v, base, upper, out) \<in> measure (\<lambda>(v, base, upper, out). unat v)"
    by (simp add: unat_div_distrib)
qed simp

declare rt_utoa_loop.simps [simp del]

text \<open>\<open>tmp\<close> holds the digits lowest first and is copied out reversed.\<close>

definition rt_utoa :: "u64 \<Rightarrow> u64 \<Rightarrow> bool \<Rightarrow> u8 list" where
  "rt_utoa v base upper = (if v = 0 then [48] else rt_utoa_loop v base upper [])"

section \<open>The bignum operations\<close>

type_synonym bn = "u32 list"

definition BN_CAP :: nat where
  "BN_CAP = 100"

text \<open>\<open>b->limb[b->n++] = ...\<close> and the loop that stores a carry.\<close>

definition bn_push :: "nat \<Rightarrow> bn \<Rightarrow> u32 \<Rightarrow> bn option" where
  "bn_push cap b l = (if length b < cap then Some (b @ [l]) else None)"

function bn_carry :: "bn \<Rightarrow> u64 \<Rightarrow> bn option" where
  "bn_carry b carry =
     (if carry \<noteq> 0
      then do { b' \<leftarrow> bn_push BN_CAP b (ucast (carry mod 1000000000));
                bn_carry b' (carry div 1000000000) }
      else Some b)"
  by pat_completeness auto
termination
proof (relation "measure (\<lambda>(b, carry). unat carry)")
  fix carry :: u64 and b b' :: bn
  assume "carry \<noteq> 0"
  then have "unat carry div 1000000000 < unat carry"
    by (intro div_less_dividend) (auto simp: unat_gt_0)
  then show "((b', carry div 1000000000), b, carry) \<in> measure (\<lambda>(b, carry). unat carry)"
    by (simp add: unat_div_distrib)
qed simp

declare bn_carry.simps [simp del]

definition bn_from_u64 :: "u64 \<Rightarrow> bn option" where
  "bn_from_u64 v = bn_carry [] v"

text \<open>
  One pass over the limbs, lowest first: \<open>t\<close> from the limb and the carry, then
  \<open>limb = t % 10\<^sup>9\<close> and \<open>carry = t / 10\<^sup>9\<close>.
\<close>

fun limb_pass :: "(u32 \<Rightarrow> u64 \<Rightarrow> u64) \<Rightarrow> bn \<Rightarrow> u64 \<Rightarrow> bn \<times> u64" where
  "limb_pass stp [] carry = ([], carry)"
| "limb_pass stp (l # ls) carry =
     (let t = stp l carry; (ls', c) = limb_pass stp ls (t div 1000000000)
      in (ucast (t mod 1000000000) # ls', c))"

definition shl_step :: "nat \<Rightarrow> u32 \<Rightarrow> u64 \<Rightarrow> u64" where
  "shl_step step l carry = push_bit step (ucast l) + carry"

function bn_shl :: "bn \<Rightarrow> nat \<Rightarrow> bn option" where
  "bn_shl b k =
     (if k > 0
      then let step = (if k > 29 then 29 else k);
               (b', carry) = limb_pass (shl_step step) b 0
           in do { b'' \<leftarrow> bn_carry b' carry; bn_shl b'' (k - step) }
      else Some b)"
  by pat_completeness auto
termination
  by (relation "measure (\<lambda>(b, k). k)") auto

declare bn_shl.simps [simp del]

text \<open>The pass of \<open>bn_shr\<close> goes from the highest limb down; \<open>rem\<close> comes out at the bottom.\<close>

fun shr_pass :: "nat \<Rightarrow> bn \<Rightarrow> bn \<times> u64" where
  "shr_pass step [] = ([], 0)"
| "shr_pass step (l # ls) =
     (let (ls', r) = shr_pass step ls; t = r * 1000000000 + ucast l
      in (ucast (drop_bit step t) # ls', t AND (push_bit step 1 - 1)))"

definition bn_trim :: "bn \<Rightarrow> bn" where
  "bn_trim b = rev (dropWhile (\<lambda>l. l = 0) (rev b))"

function bn_shr :: "bn \<Rightarrow> nat \<Rightarrow> bool \<Rightarrow> bn \<times> bool" where
  "bn_shr b k sticky =
     (if k > 0
      then let step = (if k > 29 then 29 else k); (b', r) = shr_pass step b
           in bn_shr (bn_trim b') (k - step) (sticky \<or> r \<noteq> 0)
      else (b, sticky))"
  by pat_completeness auto
termination
  by (relation "measure (\<lambda>(b, k, sticky). k)") auto

declare bn_shr.simps [simp del]

definition mul_step :: "u64 \<Rightarrow> u32 \<Rightarrow> u64 \<Rightarrow> u64" where
  "mul_step f l carry = ucast l * f + carry"

fun pow10_loop :: "nat \<Rightarrow> u64 \<Rightarrow> u64" where
  "pow10_loop 0 mul = mul"
| "pow10_loop (Suc i) mul = pow10_loop i (mul * 10)"

function bn_mul_pow10 :: "bn \<Rightarrow> nat \<Rightarrow> bn option" where
  "bn_mul_pow10 b k =
     (if k > 0
      then let step = (if k > 9 then 9 else k);
               (b', carry) = limb_pass (mul_step (pow10_loop step 1)) b 0
           in do { b'' \<leftarrow> bn_carry b' carry; bn_mul_pow10 b'' (k - step) }
      else Some b)"
  by pat_completeness auto
termination
  by (relation "measure (\<lambda>(b, k). k)") auto

declare bn_mul_pow10.simps [simp del]

text \<open>
  \<open>bn_digits\<close>: the top limb without leading zeros, each lower one padded to nine digits.
  A pad of fewer than zero digits cannot occur for limbs below \<open>10\<^sup>9\<close>.
\<close>

definition digits9 :: "u32 \<Rightarrow> u8 list" where
  "digits9 l = (let d9 = rt_utoa (ucast l) 10 False in replicate (9 - length d9) 48 @ d9)"

definition bn_digits :: "bn \<Rightarrow> u8 list" where
  "bn_digits b =
     (if b = [] then [48]
      else rt_utoa (ucast (last b)) 10 False @ concat (map digits9 (rev (butlast b))))"

section \<open>Values\<close>

definition B9 :: nat where
  "B9 = 1000000000"

fun bn_val :: "bn \<Rightarrow> nat" where
  "bn_val [] = 0"
| "bn_val (l # ls) = unat l + B9 * bn_val ls"

definition bn_wf :: "bn \<Rightarrow> bool" where
  "bn_wf b \<longleftrightarrow> list_all (\<lambda>l. unat l < B9) b \<and> (b = [] \<or> last b \<noteq> 0)"

lemma B9_pos [simp]: "0 < B9"
  by (simp add: B9_def)

lemma B9_ge_1 [simp]: "Suc 0 \<le> B9"
  by (simp add: B9_def)

lemma div_B9_0: "n div B9 = 0 \<longleftrightarrow> n < B9"
  by (auto simp: div_eq_0_iff B9_def)

lemma mult_split_B9: "P * (n mod B9) + P * B9 * (n div B9) = P * n"
  by (metis distrib_left mod_mult_div_eq mult.assoc)

lemma bn_val_append [limb_simps]: "bn_val (b @ c) = bn_val b + B9 ^ length b * bn_val c"
  by (induction b) (auto simp: algebra_simps)

lemma bn_val_bound: "list_all (\<lambda>l. unat l < B9) b \<Longrightarrow> bn_val b < B9 ^ length b"
proof (induction b)
  case (Cons l b)
  then have "unat l + B9 * bn_val b < B9 + B9 * bn_val b" by simp
  also have "\<dots> = B9 * Suc (bn_val b)" by simp
  also have "\<dots> \<le> B9 * B9 ^ length b" using Cons by (intro mult_le_mono2) simp
  finally show ?case by simp
qed simp

lemma bn_val_lower: "b \<noteq> [] \<Longrightarrow> last b \<noteq> 0 \<Longrightarrow> B9 ^ (length b - 1) \<le> bn_val b"
proof -
  assume b: "b \<noteq> []" "last b \<noteq> 0"
  then have "bn_val b = bn_val (butlast b) + B9 ^ (length b - 1) * unat (last b)"
    by (metis append_butlast_last_id bn_val.simps bn_val_append length_butlast
        add_0_right mult_0_right)
  moreover obtain m where "unat (last b) = Suc m" using b by (metis not0_implies_Suc unat_eq_zero)
  ultimately show ?thesis by simp
qed

text \<open>With a nonzero top limb, the limbs used say how large the value is.\<close>

lemma bn_wf_length: "bn_wf b \<Longrightarrow> length b \<le> n \<longleftrightarrow> bn_val b < B9 ^ n"
proof -
  assume wf: "bn_wf b"
  have B: "1 < B9" by (simp add: B9_def)
  show ?thesis
  proof
    assume "length b \<le> n"
    then have "B9 ^ length b \<le> B9 ^ n" by (intro power_increasing) auto
    then show "bn_val b < B9 ^ n" using bn_val_bound [of b] wf by (simp add: bn_wf_def)
  next
    assume v: "bn_val b < B9 ^ n"
    show "length b \<le> n"
    proof (cases "b = []")
      case False
      then have "B9 ^ (length b - 1) < B9 ^ n"
        using bn_val_lower [of b] wf v by (simp add: bn_wf_def)
      then have "length b - 1 < n" using power_less_imp_less_exp [OF B] by blast
      then show ?thesis by simp
    qed simp
  qed
qed

lemma bn_val_0: "bn_wf b \<Longrightarrow> bn_val b = 0 \<longleftrightarrow> b = []"
  using bn_wf_length [of b 0] by auto

section \<open>The carry loop\<close>

lemma ucast_mod_B9: "unat (ucast (t mod 1000000000 :: u64) :: u32) = unat t mod B9"
  by (subst unat_ucast_small) (auto simp: unat_mod_distrib B9_def
      intro: order.strict_trans [OF mod_less_divisor])

lemma unat_div_B9: "unat (t div 1000000000 :: u64) = unat t div B9"
  by (simp add: unat_div_distrib B9_def)

lemma bn_carry_ok:
  "list_all (\<lambda>l. unat l < B9) b \<Longrightarrow> length b \<le> BN_CAP \<Longrightarrow>
   (if bn_val b + B9 ^ length b * unat c < B9 ^ BN_CAP
    then \<exists>b'. bn_carry b c = Some b' \<and> list_all (\<lambda>l. unat l < B9) b' \<and>
      bn_val b' = bn_val b + B9 ^ length b * unat c \<and> length b' \<le> BN_CAP \<and>
      (if c = 0 then b' = b else b' \<noteq> [] \<and> last b' \<noteq> 0)
    else bn_carry b c = None)"
proof (induction b c rule: bn_carry.induct)
  case (1 b c)
  show ?case
  proof (cases "c = 0")
    case True
    have "B9 ^ length b \<le> B9 ^ BN_CAP" using "1.prems" by (intro power_increasing) auto
    with bn_val_bound [OF "1.prems"(1)] True "1.prems" show ?thesis by (simp add: bn_carry.simps)
  next
    case False
    show ?thesis
    proof (cases "length b < BN_CAP")
      case short: True
      let ?l = "ucast (c mod 1000000000) :: u32" and ?b = "b @ [ucast (c mod 1000000000) :: u32]"
      have l: "unat ?l = unat c mod B9" by (rule ucast_mod_B9)
      have p: "bn_push BN_CAP b ?l = Some ?b" using short by (simp add: bn_push_def)
      have wf: "list_all (\<lambda>l. unat l < B9) ?b" using "1.prems" l by simp
      have v: "bn_val ?b + B9 ^ length ?b * unat (c div 1000000000) =
          bn_val b + B9 ^ length b * unat c"
        using mult_split_B9 [of "B9 ^ length b" "unat c"]
        by (simp add: bn_val_append l unat_div_B9 ac_simps)
      have r: "bn_carry b c = bn_carry ?b (c div 1000000000)"
        using False p by (subst bn_carry.simps) simp
      have top: "last ?b \<noteq> 0" if "c div 1000000000 = 0"
      proof -
        have "unat c div B9 = 0" using that unat_div_B9 [of c] by simp
        then have "unat c mod B9 = unat c" by (simp add: div_B9_0)
        with l False show ?thesis by (metis last_snoc unat_eq_zero unat_0)
      qed
      have "length ?b \<le> BN_CAP" using short by simp
      from "1.IH" [OF False p wf this] show ?thesis
        unfolding v r using False top by (auto split: if_splits)
    next
      case full: False
      then have len: "length b = BN_CAP" using "1.prems" by simp
      obtain k where "unat c = Suc k" using False by (metis not0_implies_Suc unat_eq_zero)
      moreover have "bn_carry b c = None"
        using False full by (subst bn_carry.simps) (simp add: bn_push_def)
      ultimately show ?thesis using len by simp
    qed
  qed
qed

section \<open>Scaling passes\<close>

text \<open>
  The interface of the scaling passes of \<open>bn_shl\<close>, \<open>bn_mul_pow10\<close> and of the parser's
  bignum: one step multiplies a limb by \<open>f\<close> and adds the carry, without wrapping.
\<close>

locale limb_scaler =
  fixes stp :: "u32 \<Rightarrow> u64 \<Rightarrow> u64" and f :: nat
  assumes f: "0 < f" "f \<le> B9"
    and stp: "unat l < B9 \<Longrightarrow> unat c < B9 \<Longrightarrow> unat (stp l c) = unat l * f + unat c"
begin

lemma step_bounds:
  "unat l < B9 \<Longrightarrow> unat c < f \<Longrightarrow> unat (stp l c div 1000000000) < f"
proof -
  assume l: "unat l < B9" and c: "unat c < f"
  have "unat (stp l c) = unat l * f + unat c" using l c f by (intro stp) auto
  also have "\<dots> < Suc (unat l) * f" using c by simp
  also have "\<dots> \<le> B9 * f" using l by (intro mult_le_mono1) simp
  finally show ?thesis
    by (simp add: unat_div_B9 div_less_iff_less_mult mult.commute)
qed

lemma limb_pass_ok:
  "list_all (\<lambda>l. unat l < B9) b \<Longrightarrow> unat c < f \<Longrightarrow> limb_pass stp b c = (b', c') \<Longrightarrow>
   length b' = length b \<and> list_all (\<lambda>l. unat l < B9) b' \<and> unat c' < f \<and>
   bn_val b' + B9 ^ length b * unat c' = bn_val b * f + unat c"
proof (induction b arbitrary: c b' c')
  case (Cons l ls)
  define t where "t = stp l c"
  obtain ls' c1 where ls': "limb_pass stp ls (t div 1000000000) = (ls', c1)" by fastforce
  then have b': "b' = ucast (t mod 1000000000) # ls'" and c': "c' = c1"
    using Cons.prems(3) by (simp_all add: t_def Let_def)
  have tv: "unat t = unat l * f + unat c"
    unfolding t_def using Cons.prems f by (intro stp) auto
  have tf: "unat (t div 1000000000) < f"
    unfolding t_def using Cons.prems by (intro step_bounds) auto
  have IH: "length ls' = length ls" "list_all (\<lambda>l. unat l < B9) ls'" "unat c1 < f"
    "bn_val ls' + B9 ^ length ls * unat c1 = bn_val ls * f + unat t div B9"
    using Cons.IH [OF _ tf ls'] Cons.prems(1) by (auto simp: unat_div_B9)
  have "bn_val b' + B9 ^ length (l # ls) * unat c' =
      unat t mod B9 + B9 * (bn_val ls' + B9 ^ length ls * unat c1)"
    by (simp add: b' c' ucast_mod_B9 algebra_simps)
  also have "\<dots> = (unat t mod B9 + B9 * (unat t div B9)) + B9 * (bn_val ls * f)"
    unfolding IH(4) by (simp only: distrib_left ac_simps)
  also have "\<dots> = bn_val (l # ls) * f + unat c"
    by (simp only: mod_mult_div_eq) (simp add: tv algebra_simps)
  finally show ?case using IH by (simp add: b' c' ucast_mod_B9)
qed simp

text \<open>A top limb that was not zero stays nonzero or sends out a carry.\<close>

lemma limb_pass_top:
  "list_all (\<lambda>l. unat l < B9) b \<Longrightarrow> unat c < f \<Longrightarrow> limb_pass stp b c = (b', c') \<Longrightarrow>
   b \<noteq> [] \<Longrightarrow> last b \<noteq> 0 \<Longrightarrow> c' = 0 \<Longrightarrow> last b' \<noteq> 0"
proof (induction b arbitrary: c b' c')
  case (Cons l ls)
  define t where "t = stp l c"
  obtain ls' c1 where ls': "limb_pass stp ls (t div 1000000000) = (ls', c1)" by fastforce
  then have b': "b' = ucast (t mod 1000000000) # ls'" and c': "c' = c1"
    using Cons.prems(3) by (simp_all add: t_def Let_def)
  have tf: "unat (t div 1000000000) < f"
    unfolding t_def using Cons.prems by (intro step_bounds) auto
  show ?case
  proof (cases "ls = []")
    case True
    then have "ls' = []" "c1 = t div 1000000000" using ls' by auto
    then have "unat t div B9 = 0" using Cons.prems(6) c' unat_div_B9 [of t] by simp
    then have "unat t mod B9 = unat t" by (simp add: div_B9_0)
    moreover have "unat t = unat l * f + unat c"
      unfolding t_def using Cons.prems f by (intro stp) auto
    moreover have "0 < unat l" using Cons.prems(5) True by (simp add: unat_gt_0)
    ultimately have "0 < unat (ucast (t mod 1000000000) :: u32)"
      using f by (simp add: ucast_mod_B9)
    then show ?thesis using b' \<open>ls' = []\<close> by (auto simp: unat_gt_0)
  next
    case False
    have "ls' \<noteq> []" using limb_pass_ok [OF _ tf ls'] Cons.prems(1) False by auto
    moreover have "last ls' \<noteq> 0"
      using Cons.IH [OF _ tf ls' False] Cons.prems c' False by simp
    ultimately show ?thesis using b' by simp
  qed
qed simp

lemma scale_ok:
  assumes wf: "bn_wf b" and len: "length b \<le> BN_CAP" and c: "unat c < f"
    and pass: "limb_pass stp b c = (b', c')"
  shows "if bn_val b * f + unat c < B9 ^ BN_CAP
    then \<exists>b''. bn_carry b' c' = Some b'' \<and> bn_wf b'' \<and> length b'' \<le> BN_CAP \<and>
      bn_val b'' = bn_val b * f + unat c
    else bn_carry b' c' = None"
proof -
  have l: "list_all (\<lambda>l. unat l < B9) b" using wf by (simp add: bn_wf_def)
  note p = limb_pass_ok [OF l c pass]
  have v: "bn_val b' + B9 ^ length b' * unat c' = bn_val b * f + unat c" using p by simp
  have "b'' = [] \<or> last b'' \<noteq> 0"
    if "if c' = 0 then b'' = b' else b'' \<noteq> [] \<and> last b'' \<noteq> 0" for b''
  proof (cases "c' = 0 \<and> b \<noteq> []")
    case True
    then have "last b' \<noteq> 0" using limb_pass_top [OF l c pass] wf by (auto simp: bn_wf_def)
    with True that show ?thesis by simp
  next
    case False
    then show ?thesis using that p by (auto split: if_splits)
  qed
  then show ?thesis
    using bn_carry_ok [of b' c'] p len unfolding v by (auto simp: bn_wf_def split: if_splits)
qed

end

section \<open>Shifting left\<close>

lemma shl_scaler: "s \<le> 29 \<Longrightarrow> limb_scaler (shl_step s) (2 ^ s)"
proof
  assume s: "s \<le> 29"
  have "(2::nat) ^ s \<le> 2 ^ 29" using s by (intro power_increasing) auto
  then show p: "2 ^ s \<le> B9" by (simp add: B9_def)
  fix l :: u32 and c :: u64
  assume l: "unat l < B9" and c: "unat c < B9"
  have "unat l * 2 ^ s \<le> B9 * B9" using l p by (intro mult_le_mono) auto
  then have b: "unat l * 2 ^ s + unat c < 2 ^ 64" using c by (simp add: B9_def)
  then have "unat (push_bit s (ucast l :: u64)) = unat l * 2 ^ s"
    by (subst unat_push_bit_small) (auto simp: unat_ucast_up)
  then show "unat (shl_step s l c) = unat l * 2 ^ s + unat c"
    unfolding shl_step_def using b by (subst unat_add_small) auto
qed simp

interpretation shl: limb_scaler "shl_step (min 29 s)" "2 ^ min 29 s" for s
  by (rule shl_scaler) simp

lemma scale_mono: "0 < g \<Longrightarrow> \<not> v * f < N \<Longrightarrow> \<not> v * (f * g) < (N::nat)"
  by (cases g) (auto simp: algebra_simps)

lemma bn_shl_ok:
  "bn_wf b \<Longrightarrow> length b \<le> BN_CAP \<Longrightarrow>
   (if bn_val b * 2 ^ k < B9 ^ BN_CAP
    then \<exists>b'. bn_shl b k = Some b' \<and> bn_wf b' \<and> length b' \<le> BN_CAP \<and> bn_val b' = bn_val b * 2 ^ k
    else bn_shl b k = None)"
proof (induction k arbitrary: b rule: less_induct)
  case (less k)
  show ?case
  proof (cases "k = 0")
    case True
    then show ?thesis using less.prems bn_wf_length [of b BN_CAP] by (subst bn_shl.simps) simp
  next
    case False
    define s where "s = min 29 k"
    have s: "(if k > 29 then 29 else k) = s" "0 < s" "s \<le> k" using False by (auto simp: s_def)
    obtain b1 c1 where pass: "limb_pass (shl_step s) b 0 = (b1, c1)" by fastforce
    note step = shl.scale_ok [of b 0 k, folded s_def, OF less.prems _ pass]
    have k: "(2::nat) ^ k = 2 ^ s * 2 ^ (k - s)" using s by (simp flip: power_add)
    have r: "bn_shl b k = Option.bind (bn_carry b1 c1) (\<lambda>b''. bn_shl b'' (k - s))"
      using False by (subst bn_shl.simps) (simp add: s(1) pass Let_def)
    show ?thesis
    proof (cases "bn_val b * 2 ^ s < B9 ^ BN_CAP")
      case True
      then obtain b2 where b2: "bn_carry b1 c1 = Some b2" "bn_wf b2" "length b2 \<le> BN_CAP"
          "bn_val b2 = bn_val b * 2 ^ s" using step by auto
      have "bn_val b2 * 2 ^ (k - s) = bn_val b * 2 ^ k" using b2 by (simp add: k)
      moreover have "k - s < k" using s by simp
      ultimately show ?thesis using less.IH [of "k - s" b2] b2(1-3) r by (simp split: if_splits)
    next
      case big: False
      then have "bn_carry b1 c1 = None" using step by simp
      moreover have "\<not> bn_val b * 2 ^ k < B9 ^ BN_CAP"
        using scale_mono [of "2 ^ (k - s)" "bn_val b" "2 ^ s"] big by (simp add: k)
      ultimately show ?thesis using r by simp
    qed
  qed
qed

section \<open>Multiplying by a power of ten\<close>

lemma pow10_loop_ok: "unat mul * 10 ^ i < 2 ^ 64 \<Longrightarrow> unat (pow10_loop i mul) = unat mul * 10 ^ i"
proof (induction i arbitrary: mul)
  case (Suc i)
  have "unat mul \<le> unat mul * 10 ^ i" by simp
  moreover have "unat mul * 10 ^ i * 10 < 2 ^ 64" using Suc.prems by (simp add: ac_simps)
  ultimately have "unat mul * 10 < 2 ^ 64" by linarith
  then have "unat (mul * 10) = unat mul * 10" by (subst unat_mult_small) auto
  then show ?case using Suc by simp
qed simp

lemma mul_scaler: "0 < f \<Longrightarrow> f \<le> B9 \<Longrightarrow> unat m = f \<Longrightarrow> limb_scaler (mul_step m) f"
proof
  assume f: "0 < f" "f \<le> B9" "unat m = f"
  fix l :: u32 and c :: u64
  assume l: "unat l < B9" and c: "unat c < B9"
  have "unat l * f \<le> B9 * B9" using l f by (intro mult_le_mono) auto
  then have b: "unat l * f + unat c < 2 ^ 64" using c by (simp add: B9_def)
  then have "unat (ucast l * m) = unat l * f"
    using f by (subst unat_mult_small) (auto simp: unat_ucast_up)
  then show "unat (mul_step m l c) = unat l * f + unat c"
    unfolding mul_step_def using b by (subst unat_add_small) auto
qed

lemma pow10_9: "s \<le> 9 \<Longrightarrow> (10::nat) ^ s \<le> B9"
  using power_increasing [of s 9 "10::nat"] by (simp add: B9_def)

interpretation mul10: limb_scaler "mul_step (pow10_loop (min 9 s) 1)" "10 ^ min 9 s" for s
proof (rule mul_scaler)
  show "(10::nat) ^ min 9 s \<le> B9" by (rule pow10_9) simp
  then show "unat (pow10_loop (min 9 s) 1) = 10 ^ min 9 s"
    by (subst pow10_loop_ok) (auto simp: B9_def)
qed simp

lemma bn_mul_pow10_ok:
  "bn_wf b \<Longrightarrow> length b \<le> BN_CAP \<Longrightarrow>
   (if bn_val b * 10 ^ k < B9 ^ BN_CAP
    then \<exists>b'. bn_mul_pow10 b k = Some b' \<and> bn_wf b' \<and> length b' \<le> BN_CAP \<and> bn_val b' = bn_val b * 10 ^ k
    else bn_mul_pow10 b k = None)"
proof (induction k arbitrary: b rule: less_induct)
  case (less k)
  show ?case
  proof (cases "k = 0")
    case True
    then show ?thesis using less.prems bn_wf_length [of b BN_CAP] by (subst bn_mul_pow10.simps) simp
  next
    case False
    define s where "s = min 9 k"
    have s: "(if k > 9 then 9 else k) = s" "0 < s" "s \<le> k" using False by (auto simp: s_def)
    obtain b1 c1 where pass: "limb_pass (mul_step (pow10_loop s 1)) b 0 = (b1, c1)" by fastforce
    note step = mul10.scale_ok [of b 0 k, folded s_def, OF less.prems _ pass]
    have k: "(10::nat) ^ k = 10 ^ s * 10 ^ (k - s)" using s by (simp flip: power_add)
    have r: "bn_mul_pow10 b k = Option.bind (bn_carry b1 c1) (\<lambda>b''. bn_mul_pow10 b'' (k - s))"
      using False by (subst bn_mul_pow10.simps) (simp add: s(1) pass Let_def)
    show ?thesis
    proof (cases "bn_val b * 10 ^ s < B9 ^ BN_CAP")
      case True
      then obtain b2 where b2: "bn_carry b1 c1 = Some b2" "bn_wf b2" "length b2 \<le> BN_CAP"
          "bn_val b2 = bn_val b * 10 ^ s" using step by auto
      have "bn_val b2 * 10 ^ (k - s) = bn_val b * 10 ^ k" using b2 by (simp add: k)
      moreover have "k - s < k" using s by simp
      ultimately show ?thesis using less.IH [of "k - s" b2] b2(1-3) r by (simp split: if_splits)
    next
      case big: False
      then have "bn_carry b1 c1 = None" using step by simp
      moreover have "\<not> bn_val b * 10 ^ k < B9 ^ BN_CAP"
        using scale_mono [of "10 ^ (k - s)" "bn_val b" "10 ^ s"] big by (simp add: k)
      ultimately show ?thesis using r by simp
    qed
  qed
qed

lemma bn_from_u64_ok:
  "\<exists>b. bn_from_u64 v = Some b \<and> bn_wf b \<and> length b \<le> BN_CAP \<and> bn_val b = unat v"
proof -
  have "unat v < 2 ^ 64" using unsigned_less [of v] by simp
  then have "unat v < B9 ^ 3" by (simp add: B9_def)
  also have "\<dots> \<le> B9 ^ BN_CAP" by (intro power_increasing) (auto simp: BN_CAP_def)
  finally show ?thesis
    using bn_carry_ok [of "[]" v] by (auto simp: bn_from_u64_def bn_wf_def split: if_splits)
qed

section \<open>Shifting right\<close>

lemma shr_pass_ok:
  "s \<le> 29 \<Longrightarrow> list_all (\<lambda>l. unat l < B9) b \<Longrightarrow> shr_pass s b = (b', r) \<Longrightarrow>
   length b' = length b \<and> list_all (\<lambda>l. unat l < B9) b' \<and> unat r < 2 ^ s \<and>
   bn_val b = 2 ^ s * bn_val b' + unat r"
proof (induction b arbitrary: b' r)
  case (Cons l ls)
  obtain ls' r1 where p: "shr_pass s ls = (ls', r1)" by fastforce
  define t where "t = r1 * 1000000000 + (ucast l :: u64)"
  have b': "b' = ucast (drop_bit s t) # ls'" and r: "r = t AND (push_bit s 1 - 1)"
    using Cons.prems(3) p by (simp_all add: t_def Let_def)
  have IH: "length ls' = length ls" "list_all (\<lambda>l. unat l < B9) ls'" "unat r1 < 2 ^ s"
      "bn_val ls = 2 ^ s * bn_val ls' + unat r1"
    using Cons.IH [OF Cons.prems(1) _ p] Cons.prems(2) by auto
  have "(2::nat) ^ s \<le> 2 ^ 29" using Cons.prems(1) by (intro power_increasing) auto
  moreover have "unat r1 * B9 + unat l < 2 ^ s * B9"
  proof -
    have "unat r1 * B9 + unat l < Suc (unat r1) * B9" using Cons.prems(2) by simp
    also have "\<dots> \<le> 2 ^ s * B9" using IH(3) by (intro mult_le_mono1) simp
    finally show ?thesis .
  qed
  ultimately have b: "unat r1 * B9 + unat l < 2 ^ 64" by (simp add: B9_def)
  then have "unat (r1 * 1000000000) = unat r1 * B9"
    by (subst unat_mult_small) (auto simp: B9_def)
  then have tv: "unat t = unat r1 * B9 + unat l"
    unfolding t_def using b by (subst unat_add_small) (auto simp: unat_ucast_up)
  have tb: "unat t < 2 ^ s * B9" using tv \<open>unat r1 * B9 + unat l < 2 ^ s * B9\<close> by simp
  have dv: "unat t div 2 ^ s < B9" using tb by (simp add: div_less_iff_less_mult mult.commute)
  have dd: "unat (drop_bit s t) = unat t div 2 ^ s"
    unfolding unat_drop_bit_eq by (rule drop_bit_eq_div)
  have d: "unat (ucast (drop_bit s t) :: u32) = unat t div 2 ^ s"
    using dd dv by (subst unat_ucast_small) (auto simp: B9_def)
  have rt: "r = take_bit s t" by (simp add: r push_bit_eq_mult take_bit_eq_mask mask_eq_exp_minus_1)
  have rv: "unat r = unat t mod 2 ^ s" unfolding rt unsigned_take_bit_eq by (rule take_bit_eq_mod)
  have "bn_val (l # ls) = unat t + B9 * (2 ^ s * bn_val ls')"
    using IH(4) tv by (simp add: algebra_simps)
  also have "\<dots> = (2 ^ s * (unat t div 2 ^ s) + unat t mod 2 ^ s) + B9 * (2 ^ s * bn_val ls')"
    by simp
  also have "\<dots> = 2 ^ s * bn_val b' + unat r" unfolding b' rv by (simp only: bn_val.simps d) (simp add: algebra_simps)
  finally show ?case using IH dv rv by (simp add: b' d)
qed simp

lemma bn_val_zeros [simp]: "bn_val (replicate n 0) = 0"
  by (induction n) auto

lemma bn_trim_ok:
  "list_all (\<lambda>l. unat l < B9) b \<Longrightarrow>
   bn_wf (bn_trim b) \<and> bn_val (bn_trim b) = bn_val b \<and> length (bn_trim b) \<le> length b"
proof (induction b rule: rev_induct)
  case (snoc l b)
  then show ?case
    by (cases "l = 0") (auto simp: bn_trim_def bn_val_append bn_wf_def)
qed (simp add: bn_trim_def bn_wf_def)

lemma mod_split_nat: "(n::nat) mod (a * c) = a * ((n div a) mod c) + n mod a"
  by (simp add: mod_mult2_eq)

lemma bn_shr_ok:
  "bn_wf b \<Longrightarrow>
   bn_wf (fst (bn_shr b k st)) \<and> bn_val (fst (bn_shr b k st)) = bn_val b div 2 ^ k \<and>
   length (fst (bn_shr b k st)) \<le> length b \<and>
   snd (bn_shr b k st) = (st \<or> bn_val b mod 2 ^ k \<noteq> 0)"
proof (induction k arbitrary: b st rule: less_induct)
  case (less k)
  show ?case
  proof (cases "k = 0")
    case True
    then show ?thesis using less.prems by (subst (1 2 3 4) bn_shr.simps) simp
  next
    case False
    define s where "s = min 29 k"
    have s: "(if k > 29 then 29 else k) = s" "0 < s" "s \<le> k" "s \<le> 29" using False by (auto simp: s_def)
    obtain b1 r where pass: "shr_pass s b = (b1, r)" by fastforce
    have p: "length b1 = length b" "list_all (\<lambda>l. unat l < B9) b1" "unat r < 2 ^ s"
        "bn_val b = 2 ^ s * bn_val b1 + unat r"
      using shr_pass_ok [OF s(4) _ pass] less.prems by (auto simp: bn_wf_def)
    note t = bn_trim_ok [OF p(2)]
    have q: "bn_val b div 2 ^ s = bn_val b1" "bn_val b mod 2 ^ s = unat r" using p(3,4) by auto
    have k: "(2::nat) ^ k = 2 ^ s * 2 ^ (k - s)" using s by (simp flip: power_add)
    have e: "bn_shr b k st = bn_shr (bn_trim b1) (k - s) (st \<or> r \<noteq> 0)"
      using False by (subst bn_shr.simps) (simp add: s(1) pass Let_def)
    have "bn_val b mod 2 ^ k \<noteq> 0 \<longleftrightarrow> r \<noteq> 0 \<or> bn_val b1 mod 2 ^ (k - s) \<noteq> 0"
      unfolding k mod_split_nat q by (auto simp: unat_eq_zero)
    moreover have "bn_val b div 2 ^ k = bn_val b1 div 2 ^ (k - s)"
      unfolding k by (simp add: div_mult2_eq q)
    ultimately show ?thesis
      unfolding e using less.IH [of "k - s" "bn_trim b1" "st \<or> r \<noteq> 0"] t s p(1) by auto
  qed
qed

section \<open>Numerals\<close>

text \<open>
  What \<open>rt_utoa\<close> and \<open>bn_digits\<close> promise: digits of the base only, with the right value
  and no leading zero unless the value is zero.
\<close>

definition numeral_of :: "int \<Rightarrow> nat \<Rightarrow> u8 list \<Rightarrow> bool" where
  "numeral_of b n ds \<longleftrightarrow>
     ds \<noteq> [] \<and> list_all (is_digit b) ds \<and> digits_val b ds = n \<and> (hd ds = 48 \<longrightarrow> ds = [48])"

lemma digits_val_from: "foldl (\<lambda>v c. v * nat b + digit_nat c) n ds = n * nat b ^ length ds + digits_val b ds"
  unfolding digits_val_def
  by (induction ds rule: rev_induct) (auto simp: algebra_simps)

lemma digits_val_append: "digits_val b (xs @ ys) = digits_val b xs * nat b ^ length ys + digits_val b ys"
  using digits_val_from [of b "digits_val b xs" ys] by (simp add: digits_val_def)

lemma digits_val_Cons: "digits_val b (c # ds) = digit_nat c * nat b ^ length ds + digits_val b ds"
  using digits_val_append [of b "[c]" ds] by (simp add: digits_val_def)

lemma digit_nat_bound: "is_digit b c \<Longrightarrow> digit_nat c < nat b"
  by (auto simp: is_digit_def digit_nat_def digit_of_def split: if_splits)

lemma digits_val_bound: "list_all (is_digit b) ds \<Longrightarrow> digits_val b ds < nat b ^ length ds"
proof (induction ds rule: rev_induct)
  case (snoc c ds)
  then have "digits_val b ds * nat b + digit_nat c < Suc (digits_val b ds) * nat b"
    using digit_nat_bound [of b c] by simp
  also have "\<dots> \<le> nat b ^ length ds * nat b" using snoc by (intro mult_le_mono1) simp
  finally show ?case by (simp add: digits_val_snoc ac_simps)
qed simp

lemma uint_48: "uint (c :: u8) = 48 \<longleftrightarrow> c = 48"
  using uint_eq_iff [of c 48] by simp

lemma digit_nat_0: "is_digit b c \<Longrightarrow> digit_nat c = 0 \<longleftrightarrow> c = 48"
  by (auto simp: is_digit_def digit_nat_def digit_of_def uint_48 split: if_splits)

lemma numeral_of_lower:
  "numeral_of b n ds \<Longrightarrow> n \<noteq> 0 \<Longrightarrow> nat b ^ (length ds - 1) \<le> n"
proof (cases ds)
  case (Cons c ds')
  assume n: "numeral_of b n ds" "n \<noteq> 0"
  then have "digit_nat c \<noteq> 0"
    using Cons digit_nat_0 [of b c] by (auto simp: numeral_of_def digits_val_Cons)
  then obtain k where "digit_nat c = Suc k" by (cases "digit_nat c") auto
  then show ?thesis using n Cons by (auto simp: numeral_of_def digits_val_Cons)
qed (simp add: numeral_of_def)

lemma numeral_of_length:
  assumes "numeral_of b n ds" "n < nat b ^ k" "0 < k" "2 \<le> b" shows "length ds \<le> k"
proof (cases "n = 0")
  case True
  then have "hd ds = 48"
    using assms(1) assms(4) by (cases ds) (auto simp: numeral_of_def digits_val_Cons digit_nat_0)
  then show ?thesis using assms by (auto simp: numeral_of_def)
next
  case False
  have "nat b ^ (length ds - 1) < nat b ^ k" using numeral_of_lower [OF assms(1) False] assms(2) by simp
  then have "length ds - 1 < k" using assms(4) by (subst (asm) power_strict_increasing_iff) auto
  then show ?thesis by simp
qed

lemma digit_nat_inj: "is_digit 10 x \<Longrightarrow> is_digit 10 y \<Longrightarrow> digit_nat x = digit_nat y \<Longrightarrow> x = y"
proof -
  assume "is_digit 10 x" "is_digit 10 y" "digit_nat x = digit_nat y"
  then show ?thesis
    by (auto simp: is_digit_def digit_nat_def digit_of_def eq_nat_nat_iff split: if_splits)
qed

lemma digits_unique:
  "length xs = length ys \<Longrightarrow> list_all (is_digit 10) xs \<Longrightarrow> list_all (is_digit 10) ys \<Longrightarrow>
   digits_val 10 xs = digits_val 10 ys \<Longrightarrow> xs = ys"
proof (induction xs ys rule: list_induct2)
  case (Cons x xs y ys)
  have top: "digits_val 10 (z # zs) div 10 ^ length zs = digit_nat z"
    if "list_all (is_digit 10) zs" for z zs
    using digits_val_bound [OF that] by (simp add: digits_val_Cons)
  have "digit_nat x = digit_nat y"
    using top [of xs x] top [of ys y] Cons.prems Cons.hyps by simp
  then have "x = y" using Cons.prems by (intro digit_nat_inj) auto
  then show ?case using Cons by (simp add: digits_val_Cons)
qed simp

lemma numeral_of_unique: "numeral_of 10 n xs \<Longrightarrow> numeral_of 10 n ys \<Longrightarrow> xs = ys"
proof -
  assume x: "numeral_of 10 n xs" and y: "numeral_of 10 n ys"
  have le: "length us \<le> length vs" if "numeral_of 10 n us" "numeral_of 10 n vs" for us vs
    using numeral_of_length [OF that(1), of "length vs"] that(2) digits_val_bound [of 10 vs]
    by (auto simp: numeral_of_def)
  from le [OF x y] le [OF y x] show ?thesis
    using digits_unique [of xs ys] x y by (auto simp: numeral_of_def)
qed

section \<open>The integer printer\<close>

lemma hex_digits_ok:
  "d < 16 \<Longrightarrow> digit_of (uint (hex_digits upper ! d)) = Some (int d)"
proof -
  assume "d < 16"
  then have "d \<in> set [0..<16]" by simp
  moreover have "list_all (\<lambda>d. digit_of (uint (hex_digits upper ! d)) = Some (int d)) [0..<16]"
    by (cases upper) (simp_all, code_simp+)
  ultimately show ?thesis by (auto simp: list_all_iff)
qed

lemma rt_utoa_loop_ok:
  "2 \<le> unat base \<Longrightarrow> unat base \<le> 16 \<Longrightarrow>
   \<exists>ds. rt_utoa_loop v base upper out = ds @ out \<and> list_all (is_digit (uint base)) ds \<and>
     digits_val (uint base) ds = unat v \<and> (if v = 0 then ds = [] else ds \<noteq> [] \<and> hd ds \<noteq> 48)"
proof (induction v base upper out rule: rt_utoa_loop.induct)
  case (1 v base upper out)
  have b: "base > 1" "nat (uint base) = unat base" using "1.prems" by (auto simp: word_less_nat_alt)
  show ?case
  proof (cases "v = 0")
    case True
    then show ?thesis by (subst rt_utoa_loop.simps) simp
  next
    case False
    define c where "c = hex_digits upper ! unat (v mod base)"
    have m: "unat (v mod base) = unat v mod unat base" by (simp add: unat_mod_distrib)
    have "unat v mod unat base < 16"
      using "1.prems" mod_less_divisor [of "unat base" "unat v"] by linarith
    then have c: "digit_of (uint c) = Some (int (unat v mod unat base))"
      unfolding c_def m by (rule hex_digits_ok)
    have "int (unat v mod unat base) < int (unat base)"
      using "1.prems" by (subst of_nat_less_iff) simp
    also have "\<dots> = uint base" by simp
    finally have dg: "is_digit (uint base) c" "digit_nat c = unat v mod unat base"
      using c by (simp_all only: is_digit_def digit_nat_def option.case nat_int)
    obtain ds where ds: "rt_utoa_loop (v div base) base upper (c # out) = ds @ c # out"
        "list_all (is_digit (uint base)) ds" "digits_val (uint base) ds = unat (v div base)"
        "if v div base = 0 then ds = [] else ds \<noteq> [] \<and> hd ds \<noteq> 48"
      using "1.IH" [OF conjI [OF False b(1)] "1.prems"] by (auto simp: c_def)
    have "digits_val (uint base) (ds @ [c]) = unat v"
      using ds(3) dg by (simp add: digits_val_snoc b unat_div_distrib)
    moreover have "hd (ds @ [c]) \<noteq> 48"
    proof (cases "v div base = 0")
      case True
      then have "unat v div unat base = 0" by (metis unat_0 unat_div_distrib)
      then have "digit_nat c = unat v" using dg "1.prems" by (auto simp: div_eq_0_iff)
      then have "digit_nat c \<noteq> 0" using False by (simp add: unat_eq_zero)
      then show ?thesis using ds(4) True digit_nat_0 [OF dg(1)] by simp
    qed (use ds in auto)
    moreover have "rt_utoa_loop v base upper out = (ds @ [c]) @ out"
      using ds(1) False b by (subst rt_utoa_loop.simps) (simp add: c_def)
    ultimately show ?thesis using ds(2) dg False by (intro exI [of _ "ds @ [c]"]) auto
  qed
qed

lemma rt_utoa_ok:
  assumes "2 \<le> unat base" "unat base \<le> 16"
  shows "numeral_of (uint base) (unat v) (rt_utoa v base upper)"
proof (cases "v = 0")
  case True
  have "int (unat base) = uint base" by simp
  then have "0 < uint base" using assms(1) by linarith
  then show ?thesis using True
    by (simp add: rt_utoa_def numeral_of_def is_digit_def digits_val_Cons digit_nat_def digit_of_def)
next
  case False
  then show ?thesis using rt_utoa_loop_ok [OF assms, of v upper "[]"]
    by (auto simp: rt_utoa_def numeral_of_def)
qed

section \<open>The decimal digits of a bignum\<close>

lemma digits9_ok:
  assumes "unat l < B9"
  shows "length (digits9 l) = 9" "list_all (is_digit 10) (digits9 l)" "digits_val 10 (digits9 l) = unat l"
proof -
  have n: "numeral_of 10 (unat l) (rt_utoa (ucast l) 10 False)"
    using rt_utoa_ok [of 10 "ucast l" False] by (simp add: unat_ucast_up)
  then have "length (rt_utoa (ucast l) 10 False) \<le> 9"
    using assms by (intro numeral_of_length [OF n]) (auto simp: B9_def)
  moreover have "digits_val 10 (replicate k 48) = 0" for k
    by (induction k) (auto simp: digits_val_Cons digit_nat_def digit_of_def)
  moreover have "list_all (is_digit 10) (replicate k 48)" for k
    by (induction k) (auto simp: is_digit_def digit_of_def)
  ultimately show "length (digits9 l) = 9" "list_all (is_digit 10) (digits9 l)"
      "digits_val 10 (digits9 l) = unat l"
    using n by (auto simp: digits9_def Let_def digits_val_append numeral_of_def)
qed

lemma bn_low_digits_ok:
  "list_all (\<lambda>l. unat l < B9) b \<Longrightarrow>
   list_all (is_digit 10) (concat (map digits9 (rev b))) \<and>
   length (concat (map digits9 (rev b))) = 9 * length b \<and>
   digits_val 10 (concat (map digits9 (rev b))) = bn_val b"
proof (induction b)
  case (Cons l b)
  then show ?case using digits9_ok [of l] by (simp add: digits_val_append B9_def)
qed simp

lemma bn_digits_ok: "bn_wf b \<Longrightarrow> numeral_of 10 (bn_val b) (bn_digits b)"
proof (cases "b = []")
  case True
  then show ?thesis
    by (simp add: bn_digits_def numeral_of_def is_digit_def digit_of_def digits_val_Cons digit_nat_def)
next
  case False
  assume wf: "bn_wf b"
  define lo where "lo = concat (map digits9 (rev (butlast b)))"
  define hi where "hi = rt_utoa (ucast (last b)) 10 False"
  have b: "b = butlast b @ [last b]" using False by simp
  have lb: "list_all (\<lambda>l. unat l < B9) (butlast b)" "last b \<noteq> 0"
    using wf False by (auto simp: bn_wf_def list_all_iff dest: in_set_butlastD)
  note l = bn_low_digits_ok [OF lb(1), folded lo_def]
  have h: "numeral_of 10 (unat (last b)) hi"
    unfolding hi_def using rt_utoa_ok [of 10 "ucast (last b)" False] by (simp add: unat_ucast_up)
  have "hd hi \<noteq> 48"
    using h lb(2) by (auto simp: numeral_of_def digits_val_Cons digit_nat_def digit_of_def unat_eq_zero)
  moreover have "bn_val b = bn_val (butlast b) + B9 ^ (length b - 1) * unat (last b)"
    using bn_val_append [of "butlast b" "[last b]"] b by simp
  moreover have "B9 ^ (length b - 1) = 10 ^ (9 * (length b - 1))"
    by (simp add: B9_def power_mult)
  ultimately show ?thesis
    using l h False by (auto simp: bn_digits_def numeral_of_def digits_val_append simp flip: lo_def hi_def)
qed

section \<open>Properties\<close>

lemma two_power_64: "2 \<le> b \<Longrightarrow> (2::nat) ^ 64 \<le> b ^ 64"
  by (rule power_mono) auto

text \<open>
  \<open>rt_utoa\<close> prints the value in the base with no leading zero, in at most the 64
  characters of its buffers.
\<close>

theorem rt_utoa_numeral:
  assumes "2 \<le> unat base" and "unat base \<le> 16"
  shows "numeral_of (uint base) (unat v) (rt_utoa v base upper) \<and> length (rt_utoa v base upper) \<le> 64"
proof
  show n: "numeral_of (uint base) (unat v) (rt_utoa v base upper)" using assms by (rule rt_utoa_ok)
  have "unat v < 2 ^ 64" using unsigned_less [of v] by simp
  also have "\<dots> \<le> nat (uint base) ^ 64" using two_power_64 [OF assms(1)] by simp
  finally have "unat v < nat (uint base) ^ 64" .
  moreover have "int 2 \<le> int (unat base)" using assms(1) by (simp only: of_nat_le_iff)
  then have "2 \<le> uint base" by simp
  ultimately show "length (rt_utoa v base upper) \<le> 64" by (intro numeral_of_length [OF n]) auto
qed

lemma rt_utoa_numeral_witness:
  "numeral_of (uint (16 :: u64)) (unat (255 :: u64)) (rt_utoa 255 16 True) \<and> length (rt_utoa 255 16 True) \<le> 64"
  by (rule rt_utoa_numeral) simp_all

text \<open>
  C15. Reading back what was printed: \<open>strtoull\<close> on the digits \<open>rt_utoa\<close> wrote, in the same
  base, gives the value, stops behind the last digit and leaves \<open>errno\<close> alone.
\<close>

theorem utoa_strtoull:
  assumes "2 \<le> unat base" and "unat base \<le> 16" and "cstr m p (rt_utoa v base upper)"
  shows "strtoull m errno p (uint base) = Some (v, p + length (rt_utoa v base upper), errno)"
proof -
  let ?ds = "rt_utoa v base upper"
  have n: "numeral_of (uint base) (unat v) ?ds" using assms by (intro rt_utoa_ok)
  have "int 2 \<le> int (unat base)" "int (unat base) \<le> int 16"
    using assms(1,2) by (simp_all only: of_nat_le_iff)
  then have b: "2 \<le> uint base" "uint base \<le> 16" by simp_all
  have "subject m p (uint base) [] [] [] (uint base) ?ds []"
    using n b assms(3) is_digit_not_sign
    by (cases ?ds) (auto simp: subject_def numeral_text_def sign_text_def numeral_of_def
        split: list.splits)
  moreover have "unat v < 2 ^ 64" using unsigned_less [of v] by simp
  then have "digits_val (uint base) ?ds < 2 ^ 64" using n by (simp add: numeral_of_def)
  ultimately show ?thesis
    using n by (simp add: strtoull_ok numeral_of_def signed_val_def)
qed

lemma utoa_strtoull_witness:
  "strtoull (mem_of 10 [49, 55, 0]) 0 10 (uint (8 :: u64)) = Some (15, 10 + length (rt_utoa 15 8 False), 0)"
proof (rule utoa_strtoull)
  have "rt_utoa 15 8 False = [49, 55]" by (simp add: rt_utoa_def rt_utoa_loop.simps hex_digits_def)
  then show "cstr (mem_of 10 [49, 55, 0]) 10 (rt_utoa 15 8 False)"
    by (simp add: mem_of_def put_bytes_Cons)
qed simp_all

text \<open>
  \<open>bn_mul_pow10\<close> multiplies exactly while the product is below \<open>10\<^sup>9\<^sup>0\<^sup>0\<close>; otherwise it
  stores past \<open>limb[99]\<close>.
\<close>

theorem bn_mul_pow10_exact:
  assumes "bn_wf b" and "length b \<le> BN_CAP"
  shows "if bn_val b * 10 ^ k < B9 ^ BN_CAP
    then \<exists>b'. bn_mul_pow10 b k = Some b' \<and> bn_wf b' \<and> length b' \<le> BN_CAP \<and>
      bn_val b' = bn_val b * 10 ^ k
    else bn_mul_pow10 b k = None"
  using assms by (rule bn_mul_pow10_ok)

lemma bn_mul_pow10_exact_witness:
  "if bn_val [7] * 10 ^ 3 < B9 ^ BN_CAP
   then \<exists>b'. bn_mul_pow10 [7] 3 = Some b' \<and> bn_wf b' \<and> length b' \<le> BN_CAP \<and>
      bn_val b' = bn_val [7] * 10 ^ 3
   else bn_mul_pow10 [7] 3 = None"
  by (rule bn_mul_pow10_exact) (simp_all add: bn_wf_def B9_def BN_CAP_def)

text \<open>
  \<open>bn_shl\<close> is multiplication by a power of two under the same bound.
\<close>

theorem bn_shl_exact:
  assumes "bn_wf b" and "length b \<le> BN_CAP"
  shows "if bn_val b * 2 ^ k < B9 ^ BN_CAP
    then \<exists>b'. bn_shl b k = Some b' \<and> bn_wf b' \<and> length b' \<le> BN_CAP \<and> bn_val b' = bn_val b * 2 ^ k
    else bn_shl b k = None"
  using assms by (rule bn_shl_ok)

lemma bn_shl_exact_witness:
  "if bn_val [7] * 2 ^ 31 < B9 ^ BN_CAP
   then \<exists>b'. bn_shl [7] 31 = Some b' \<and> bn_wf b' \<and> length b' \<le> BN_CAP \<and> bn_val b' = bn_val [7] * 2 ^ 31
   else bn_shl [7] 31 = None"
  by (rule bn_shl_exact) (simp_all add: bn_wf_def B9_def BN_CAP_def)

text \<open>
  \<open>bn_shr\<close> is division by a power of two, the result without leading zero limbs, and its
  sticky bit tells whether the division left a remainder.
\<close>

theorem bn_shr_exact:
  assumes "bn_wf b"
  shows "bn_wf (fst (bn_shr b k False)) \<and> bn_val (fst (bn_shr b k False)) = bn_val b div 2 ^ k \<and>
    length (fst (bn_shr b k False)) \<le> length b \<and> (snd (bn_shr b k False) \<longleftrightarrow> bn_val b mod 2 ^ k \<noteq> 0)"
  using bn_shr_ok [OF assms, of k False] by simp

lemma bn_shr_exact_witness:
  "bn_wf (fst (bn_shr [5, 3] 33 False)) \<and> bn_val (fst (bn_shr [5, 3] 33 False)) = bn_val [5, 3] div 2 ^ 33 \<and>
    length (fst (bn_shr [5, 3] 33 False)) \<le> length [5 :: u32, 3] \<and>
    (snd (bn_shr [5, 3] 33 False) \<longleftrightarrow> bn_val [5, 3] mod 2 ^ 33 \<noteq> 0)"
  by (rule bn_shr_exact) (simp add: bn_wf_def B9_def)

text \<open>
  \<open>bn_digits\<close> is the decimal numeral of the value, without leading zeros; a numeral is
  determined by that.
\<close>

theorem bn_digits_decimal:
  assumes "bn_wf b"
  shows "\<forall>ds. numeral_of 10 (bn_val b) ds \<longleftrightarrow> ds = bn_digits b"
  using bn_digits_ok [OF assms] numeral_of_unique by blast

lemma bn_digits_decimal_witness: "\<forall>ds. numeral_of 10 (bn_val [42, 1]) ds \<longleftrightarrow> ds = bn_digits [42, 1]"
  by (rule bn_digits_decimal) (simp add: bn_wf_def B9_def)

end
