(* ===== verification/FloatDigits.thy ===== *)
theory FloatDigits
  imports Complex_Main Bignum
begin

text \<open>
  From a double to rounded decimal digits: \<open>rt_unpack\<close>, \<open>rt_exact_digits\<close>,
  \<open>rt_round_up\<close> and \<open>rt_round_digits\<close> of \<open>rt/rt_format.c\<close>. A double is its 64 bits.
  The buffer \<open>dig\<close> with its length is the list of the digits in use.
\<close>

section \<open>The code\<close>

text \<open>
  The class is 0 finite, 1 infinite, 2 not a number; \<open>*m\<close> and \<open>*e2\<close> are only set for
  a finite value.
\<close>

definition rt_unpack :: "u64 \<Rightarrow> nat \<times> bool \<times> (u64 \<times> int) option" where
  "rt_unpack bits =
     (let neg = drop_bit 63 bits \<noteq> 0;
          e = uint (drop_bit 52 bits AND 0x7FF);
          frac = bits AND 0xFFFFFFFFFFFFF
      in if e = 0x7FF then (if frac \<noteq> 0 then 2 else 1, neg, None)
         else if e = 0 then (0, neg, Some (frac, -1074))
         else (0, neg, Some (frac OR push_bit 52 1, e - 1075)))"

definition strip_zeros :: "u8 list \<Rightarrow> u8 list" where
  "strip_zeros ds = hd ds # rev (dropWhile (\<lambda>c. c = 48) (rev (tl ds)))"

text \<open>
  \<open>dig\<close> holds 800 characters in the one caller. The digits and the decimal point:
  the value is \<open>0.D\<^sub>1D\<^sub>2\<dots> \<times> 10\<^bsup>decpt\<^esup>\<close>.
\<close>

definition DIG_CAP :: nat where
  "DIG_CAP = 800"

definition rt_exact_digits :: "u64 \<Rightarrow> int \<Rightarrow> (u8 list \<times> int) option" where
  "rt_exact_digits m e2 =
     do { b \<leftarrow> bn_from_u64 m;
          (b, frac_digits) \<leftarrow>
            (if e2 \<ge> 0 then do { b \<leftarrow> bn_shl b (nat e2); Some (b, 0) }
             else do { b \<leftarrow> bn_mul_pow10 b (nat (- e2));
                       Some (fst (bn_shr b (nat (- e2)) False), - e2) });
          let dig = bn_digits b in
          if length dig \<le> DIG_CAP
          then Some (strip_zeros dig, int (length dig) - frac_digits)
          else None }"

text \<open>\<open>i\<close> of the code is \<open>j - 1\<close>; a carry out of the front shifts the string right.\<close>

fun round_up_loop :: "u8 list \<Rightarrow> nat \<Rightarrow> u8 list" where
  "round_up_loop dig 0 = 49 # dig"
| "round_up_loop dig (Suc i) =
     (if dig ! i \<noteq> 57 then dig[i := dig ! i + 1] else round_up_loop (dig[i := 48]) i)"

definition rt_round_up :: "u8 list \<Rightarrow> u8 list" where
  "rt_round_up dig = round_up_loop dig (length dig)"

definition round_decision :: "u8 list \<Rightarrow> nat \<Rightarrow> bool" where
  "round_decision dig keep =
     (let first = dig ! keep; rest_nonzero = list_ex (\<lambda>c. c \<noteq> 48) (drop (keep + 1) dig) in
      if first > 53 then True
      else if first = 53
           then (if rest_nonzero then True
                 else if keep > 0 then (dig ! (keep - 1) - 48) AND 1 \<noteq> 0
                 else False)
           else False)"

definition rt_round_digits :: "u8 list \<Rightarrow> int \<Rightarrow> int \<Rightarrow> u8 list \<times> int" where
  "rt_round_digits dig decpt keep =
     (if keep \<ge> int (length dig) then (dig, decpt)
      else
        let keep = nat (if keep < 0 then 0 else keep);
            roundup = round_decision dig keep;
            kept = take keep dig;
            (kept, decpt) =
              (if roundup
               then if kept = [] then ([49], decpt + 1)
                    else let d = rt_round_up kept in
                         if length d > length kept then (butlast d, decpt + 1) else (d, decpt)
               else (kept, decpt))
        in if kept = [] then ([48], decpt) else (kept, decpt))"


section \<open>Rounding half to even\<close>

definition rhe_div :: "nat \<Rightarrow> nat \<Rightarrow> nat" where
  "rhe_div a b =
     (let q = a div b; r = a mod b
      in if 2 * r < b then q else if 2 * r > b then q + 1 else if even q then q else q + 1)"

lemma rhe_div_scale: "0 < c \<Longrightarrow> rhe_div (a * c) (b * c) = rhe_div a b"
proof -
  assume c: "0 < c"
  have "(a * c) div (b * c) = a div b" using c by simp
  moreover have "2 * ((a * c) mod (b * c)) = (2 * (a mod b)) * c" by (simp add: mult_mod_left)
  ultimately show ?thesis using c
    unfolding rhe_div_def Let_def by (simp only: mult_less_cancel2 simp_thms)
qed

lemma rhe_div_cong: "0 < b \<Longrightarrow> 0 < d \<Longrightarrow> a * d = c * b \<Longrightarrow> rhe_div a b = rhe_div c d"
  using rhe_div_scale [of d a b] rhe_div_scale [of b c d] by (simp add: ac_simps)

lemma rhe_div_1 [simp]: "rhe_div a (Suc 0) = a"
  by (simp add: rhe_div_def)

lemma rhe_div_bounds: "0 < b \<Longrightarrow> a div b \<le> rhe_div a b \<and> rhe_div a b \<le> a div b + 1"
  by (simp add: rhe_div_def Let_def)

lemma rhe_div_near: "0 < b \<Longrightarrow> 2 * (rhe_div a b * b) \<le> 2 * a + b \<and> 2 * a \<le> 2 * (rhe_div a b * b) + b"
proof -
  assume "0 < b"
  define q r where "q = a div b" and "r = a mod b"
  have "r < b" "a = q * b + r" using \<open>0 < b\<close> by (simp_all add: q_def r_def)
  moreover have "rhe_div a b = q \<and> 2 * r \<le> b \<or> rhe_div a b = q + 1 \<and> b \<le> 2 * r"
    by (auto simp: rhe_div_def Let_def q_def r_def)
  ultimately show ?thesis by auto
qed

lemma rhe_div_small: "2 * a < b \<Longrightarrow> rhe_div a b = 0"
  by (simp add: rhe_div_def)

section \<open>Decimal strings\<close>

abbreviation dv :: "u8 list \<Rightarrow> nat" where
  "dv \<equiv> digits_val 10"

abbreviation decimals :: "u8 list \<Rightarrow> bool" where
  "decimals \<equiv> list_all (is_digit 10)"

lemma is_digit_10: "is_digit 10 c \<longleftrightarrow> 48 \<le> c \<and> c \<le> 57"
  by (auto simp: is_digit_def digit_of_def word_le_def split: if_splits)

lemma digit_nat_10: "is_digit 10 c \<Longrightarrow> digit_nat c = unat c - 48"
  by (auto simp: is_digit_def digit_nat_def digit_of_def nat_diff_distrib split: if_splits)

lemma dv_zeros [simp]: "dv (replicate n 48) = 0" "decimals (replicate n 48)"
  by (induction n) (auto simp: digits_val_Cons digit_nat_def digit_of_def is_digit_def)

lemma dv_take_drop:
  "k \<le> length ds \<Longrightarrow> dv ds = dv (take k ds) * 10 ^ (length ds - k) + dv (drop k ds)"
  using digits_val_append [of 10 "take k ds" "drop k ds"] by simp

lemma dv_take_div:
  assumes "decimals ds" "k \<le> length ds"
  shows "dv ds div 10 ^ (length ds - k) = dv (take k ds)"
    and "dv ds mod 10 ^ (length ds - k) = dv (drop k ds)"
proof -
  have "decimals (drop k ds)" using assms(1) by (auto simp: list_all_iff dest: in_set_dropD)
  then have "dv (drop k ds) < 10 ^ (length ds - k)" using digits_val_bound [of 10 "drop k ds"] by simp
  then show "dv ds div 10 ^ (length ds - k) = dv (take k ds)"
      "dv ds mod 10 ^ (length ds - k) = dv (drop k ds)"
    using dv_take_drop [OF assms(2)] by simp_all
qed

lemma dv_eq_0: "decimals ds \<Longrightarrow> dv ds = 0 \<longleftrightarrow> list_all (\<lambda>c. c = 48) ds"
  by (induction ds) (auto simp: digits_val_Cons digit_nat_0)

lemma dv_lower: "decimals ds \<Longrightarrow> ds \<noteq> [] \<Longrightarrow> hd ds \<noteq> 48 \<Longrightarrow> 10 ^ (length ds - 1) \<le> dv ds"
  using numeral_of_lower [of 10 "dv ds" ds] dv_eq_0 [of ds]
  by (cases ds) (auto simp: numeral_of_def)

lemma dv_update:
  "i < length ds \<Longrightarrow>
   dv (ds[i := c]) + digit_nat (ds ! i) * 10 ^ (length ds - Suc i) =
   dv ds + digit_nat c * 10 ^ (length ds - Suc i)"
proof -
  assume i: "i < length ds"
  have "dv (take i ds @ x # drop (Suc i) ds) =
      dv (take i ds) * 10 ^ (length ds - i) + (digit_nat x * 10 ^ (length ds - Suc i) +
      dv (drop (Suc i) ds))" for x
    using i by (simp add: digits_val_append digits_val_Cons Suc_diff_Suc)
  from this [of c] this [of "ds ! i"] show ?thesis
    using i by (simp add: upd_conv_take_nth_drop id_take_nth_drop [symmetric])
qed

section \<open>Rounding up\<close>

lemma unat_57: "unat (c :: u8) = 57 \<longleftrightarrow> c = 57"
  using word_unat_eq_iff [of c 57] by simp

lemma round_up_loop_ok:
  "j \<le> length ds \<Longrightarrow> decimals ds \<Longrightarrow>
   dv (round_up_loop ds j) = dv ds + 10 ^ (length ds - j) \<and> decimals (round_up_loop ds j) \<and>
   (length (round_up_loop ds j) = length ds \<or>
    length (round_up_loop ds j) = Suc (length ds) \<and> hd (round_up_loop ds j) = 49)"
proof (induction ds j rule: round_up_loop.induct)
  case (1 ds)
  then show ?case by (simp add: digits_val_Cons digit_nat_def digit_of_def is_digit_10)
next
  case (2 ds i)
  have i: "i < length ds" using "2.prems" by simp
  then have d: "is_digit 10 (ds ! i)" using "2.prems" by (simp add: list_all_length)
  have upd: "decimals (ds[i := c])" if "is_digit 10 c" for c
    using "2.prems"(2) that by (auto simp: list_all_iff dest!: set_update_subset_insert [THEN subsetD])
  show ?case
  proof (cases "ds ! i = 57")
    case False
    have u: "unat (ds ! i) < 57" "48 \<le> unat (ds ! i)"
      using d False by (auto simp: is_digit_10 word_le_nat_alt order.strict_iff_order unat_57)
    then have v: "unat (ds ! i + 1) = unat (ds ! i) + 1" by (subst unat_add_small) auto
    then have d1: "is_digit 10 (ds ! i + 1)"
      using u by (auto simp: is_digit_10 word_le_nat_alt)
    then have "digit_nat (ds ! i + 1) = digit_nat (ds ! i) + 1"
      using d u v by (simp add: digit_nat_10)
    then show ?thesis
      using False dv_update [OF i, of "ds ! i + 1"] upd [OF d1] by (simp add: algebra_simps)
  next
    case True
    have z: "digit_nat 48 = 0" "digit_nat 57 = 9" "is_digit 10 48"
      by (simp_all add: digit_nat_def digit_of_def is_digit_10)
    have p: "(10::nat) ^ (length ds - i) = 10 * 10 ^ (length ds - Suc i)"
      using i by (simp flip: power_Suc add: Suc_diff_Suc)
    have IH: "dv (round_up_loop (ds[i := 48]) i) = dv (ds[i := 48]) + 10 ^ (length ds - i) \<and>
       decimals (round_up_loop (ds[i := 48]) i) \<and>
       (length (round_up_loop (ds[i := 48]) i) = length ds \<or>
        length (round_up_loop (ds[i := 48]) i) = Suc (length ds) \<and>
        hd (round_up_loop (ds[i := 48]) i) = 49)"
      using "2.IH" True upd [OF z(3)] i by simp
    then show ?thesis using True dv_update [OF i, of 48] z p by simp
  qed
qed

text \<open>The carry out of \<open>99\<dots>9\<close> gives \<open>100\<dots>0\<close>, one digit longer.\<close>

lemma rt_round_up_ok:
  assumes "decimals ds"
  shows "dv (rt_round_up ds) = dv ds + 1" "decimals (rt_round_up ds)"
    "length (rt_round_up ds) = (if dv ds + 1 = 10 ^ length ds then Suc (length ds) else length ds)"
proof -
  note r = round_up_loop_ok [OF order_refl assms, folded rt_round_up_def]
  show v: "dv (rt_round_up ds) = dv ds + 1" and d: "decimals (rt_round_up ds)" using r by auto
  have "dv (rt_round_up ds) < 10 ^ length ds" if "length (rt_round_up ds) = length ds"
    using digits_val_bound [OF d] that by simp
  moreover have "10 ^ length ds \<le> dv (rt_round_up ds)"
    if "length (rt_round_up ds) = Suc (length ds)" "hd (rt_round_up ds) = 49"
    using dv_lower [OF d] that by (cases "rt_round_up ds") auto
  moreover have "dv ds + 1 \<le> 10 ^ length ds" using digits_val_bound [OF assms] by simp
  ultimately show "length (rt_round_up ds) =
      (if dv ds + 1 = 10 ^ length ds then Suc (length ds) else length ds)"
    using r v by auto
qed

section \<open>Rounding to a number of digits\<close>

lemma even_digit: "is_digit 10 c \<Longrightarrow> (c - 48) AND 1 \<noteq> 0 \<longleftrightarrow> odd (digit_nat c)"
proof -
  assume c: "is_digit 10 c"
  then have "unat (c - 48) = digit_nat c"
    by (simp add: digit_nat_10 is_digit_10 unat_sub)
  have "(c - 48) AND 1 \<noteq> 0 \<longleftrightarrow> unat ((c - 48) mod 2) \<noteq> 0"
    by (simp only: and_one_eq unat_eq_zero)
  also have "unat ((c - 48) mod 2) = unat (c - 48) mod 2"
    by (simp only: unat_mod_distrib) simp
  finally show ?thesis using \<open>unat (c - 48) = digit_nat c\<close> by (simp add: odd_iff_mod_2_eq_one)
qed

lemma round_decision_ok:
  assumes D: "decimals D" and k: "k < length D"
  shows "rhe_div (dv D) (10 ^ (length D - k)) =
    (if round_decision D k then dv (take k D) + 1 else dv (take k D))"
proof -
  define P d s where "P = (10::nat) ^ (length D - Suc k)" and "d = digit_nat (D ! k)"
    and "s = dv (drop (Suc k) D)"
  have dd: "is_digit 10 (D ! k)" using D k by (simp add: list_all_length)
  have ds: "decimals (drop (Suc k) D)" using D by (auto simp: list_all_iff dest: in_set_dropD)
  have s: "s < P" using digits_val_bound [OF ds] by (simp add: P_def s_def)
  have rest: "list_ex (\<lambda>c. c \<noteq> 48) (drop (k + 1) D) \<longleftrightarrow> s \<noteq> 0"
    using dv_eq_0 [OF ds] by (auto simp: s_def list_ex_iff list_all_iff)
  have P10: "10 ^ (length D - k) = 10 * P"
    using k by (simp add: P_def Suc_diff_Suc flip: power_Suc)
  have q: "dv D div (10 * P) = dv (take k D)" and "dv D mod (10 * P) = dv (drop k D)"
    using dv_take_div [OF D, of k] k P10 by auto
  moreover have "drop k D = D ! k # drop (Suc k) D" using k by (simp add: Cons_nth_drop_Suc)
  ultimately have r: "dv D mod (10 * P) = d * P + s"
    by (simp add: digits_val_Cons d_def P_def s_def)
  have "unat (D ! k) \<ge> 48" using dd by (simp add: is_digit_10 word_le_nat_alt)
  then have f: "D ! k > 53 \<longleftrightarrow> 6 \<le> d" "D ! k = 53 \<longleftrightarrow> d = 5"
    using digit_nat_10 [OF dd] by (auto simp: d_def word_less_nat_alt word_unat_eq_iff)
  have ev: "(if k > 0 then (D ! (k - 1) - 48) AND 1 \<noteq> 0 else False) \<longleftrightarrow> odd (dv (take k D))"
  proof (cases k)
    case (Suc j)
    then have "take k D = take j D @ [D ! j]" "is_digit 10 (D ! j)"
      using k D by (auto simp: take_Suc_conv_app_nth list_all_length)
    then show ?thesis using Suc even_digit [of "D ! j"] by (simp add: digits_val_snoc)
  qed simp
  obtain X where X: "d * P = X" by simp
  have big: "6 * P \<le> X" if "6 \<le> d" using that unfolding X [symmetric] by (rule mult_le_mono1)
  have small: "X \<le> 4 * P" if "\<not> 6 \<le> d" "d \<noteq> 5"
    using that unfolding X [symmetric] by (intro mult_le_mono1) simp
  have big': "10 * P < 2 * (d * P + s)" if "6 \<le> d" using big [OF that] s unfolding X by simp
  have small': "2 * (d * P + s) < 10 * P" if "\<not> 6 \<le> d" "d \<noteq> 5"
    using small [OF that] s unfolding X by simp
  have five: "d = 5 \<Longrightarrow> 2 * (d * P + s) = 10 * P + 2 * s" by simp
  consider "6 \<le> d" | "d = 5" | "\<not> 6 \<le> d" "d \<noteq> 5" by blast
  then show ?thesis
  proof cases
    case 1
    then show ?thesis
      unfolding rhe_div_def round_decision_def Let_def P10 q r f rest ev using big' by simp
  next
    case 2
    then show ?thesis
      unfolding rhe_div_def round_decision_def Let_def P10 q r f rest ev using five by simp
  next
    case 3
    then show ?thesis
      unfolding rhe_div_def round_decision_def Let_def P10 q r f rest ev using small' by simp
  qed
qed

lemma dv_butlast:
  "ds \<noteq> [] \<Longrightarrow> decimals ds \<Longrightarrow> dv (butlast ds) = dv ds div 10 \<and> decimals (butlast ds)"
  using digit_nat_bound [of 10] by (cases ds rule: rev_cases) (auto simp: digits_val_snoc)

lemma rt_round_digits_keep:
  "int (length D) \<le> keep \<Longrightarrow> rt_round_digits D decpt keep = (D, decpt)"
  by (simp add: rt_round_digits_def)

lemma rt_round_digits_mid:
  assumes D: "decimals D" "hd D \<noteq> 48" and k: "0 < k" "k < length D"
    and R: "R = rhe_div (dv D) (10 ^ (length D - k))"
  shows "\<exists>D' c. rt_round_digits D decpt (int k) = (D', decpt + int c) \<and> decimals D' \<and>
    length D' = k \<and> hd D' \<noteq> 48 \<and> dv D' * 10 ^ c = R \<and> (c = 0 \<or> c = 1 \<and> R = 10 ^ k)"
proof -
  let ?t = "take k D"
  have t: "decimals ?t" "length ?t = k" "hd ?t \<noteq> 48" "?t \<noteq> []"
    using D k by (auto simp: list_all_iff dest: in_set_takeD)
  note rd = round_decision_ok [OF D(1) k(2), folded R]
  show ?thesis
  proof (cases "round_decision D k")
    case False
    then show ?thesis using t k rd
      by (intro exI [of _ ?t] exI [of _ 0]) (simp add: rt_round_digits_def)
  next
    case True
    then have R1: "R = dv (rt_round_up ?t)" using rd rt_round_up_ok(1) [OF t(1)] by simp
    note u = rt_round_up_ok [OF t(1)]
    have hd1: "hd ds \<noteq> 48" if "decimals ds" "ds \<noteq> []" "10 ^ (length ds - 1) \<le> dv ds" for ds
    proof (cases ds)
      case (Cons c cs)
      have "dv cs < 10 ^ length cs" using digits_val_bound [of 10 cs] that Cons by simp
      then show ?thesis using that Cons by (auto simp: digits_val_Cons digit_nat_def digit_of_def)
    qed (use that in simp)
    show ?thesis
    proof (cases "dv ?t + 1 = 10 ^ k")
      case roll: True
      let ?u = "rt_round_up ?t"
      have lu: "length ?u = Suc k" "dv ?u = 10 ^ k" using u roll t by simp_all
      have k10: "(10::nat) ^ k = 10 ^ (k - 1) * 10" using k by (simp flip: power_Suc2)
      have "?u \<noteq> []" using lu by auto
      note b = dv_butlast [OF this u(2), unfolded lu(2) k10]
      have b: "dv (butlast ?u) = 10 ^ (k - 1)" "decimals (butlast ?u)" using b by simp_all
      have ne: "butlast ?u \<noteq> []" using lu k by (metis length_butlast diff_Suc_1 list.size(3) not_gr0)
      have "hd (butlast ?u) \<noteq> 48" using b lu k ne by (intro hd1) auto
      with ne show ?thesis using True k b lu t R1 k10
        by (intro exI [of _ "butlast ?u"] exI [of _ 1]) (simp add: rt_round_digits_def Let_def)
    next
      case False
      then have lu: "length (rt_round_up ?t) = k" using u t by simp
      have "10 ^ (k - 1) \<le> dv (rt_round_up ?t)" using dv_lower [OF t(1,4,3)] u(1) t(2) by simp
      then have "hd (rt_round_up ?t) \<noteq> 48" using u lu k by (intro hd1) auto
      moreover have "rt_round_up ?t \<noteq> []" using lu k by auto
      ultimately show ?thesis using True k lu u(2) t R1
        by (intro exI [of _ "rt_round_up ?t"] exI [of _ 0]) (simp add: rt_round_digits_def Let_def)
    qed
  qed
qed

text \<open>Keeping no digit, or rounding above the first one: nothing or one unit is left.\<close>

lemma rt_round_digits_none:
  assumes D: "decimals D" "D \<noteq> []" and keep: "keep \<le> 0"
  shows "rt_round_digits D decpt keep =
    (if rhe_div (dv D) (10 ^ length D) = 1 then ([49], decpt + 1) else ([48], decpt))"
  using round_decision_ok [OF D(1), of 0] assms(2) keep
    order.strict_trans1 [OF keep, of "int (length D)"]
  by (auto simp: rt_round_digits_def Let_def split: if_splits)

section \<open>Exact digits\<close>

lemma strip_zeros_ok:
  assumes "D0 \<noteq> []"
  shows "\<exists>j. D0 = strip_zeros D0 @ replicate j 48" "hd (strip_zeros D0) = hd D0"
    "strip_zeros D0 \<noteq> []" "hd D0 \<noteq> 48 \<Longrightarrow> last (strip_zeros D0) \<noteq> 48"
proof -
  define t where "t = tl D0"
  have D0: "D0 = hd D0 # t" using assms by (simp add: t_def)
  define z where "z = takeWhile (\<lambda>c. c = 48) (rev t)"
  have "rev (rev t) = rev (dropWhile (\<lambda>c. c = 48) (rev t)) @ rev z"
    unfolding z_def rev_append [symmetric] takeWhile_dropWhile_id ..
  moreover have "z = replicate (length z) 48"
    unfolding z_def by (rule replicate_length_same [symmetric]) (blast dest: set_takeWhileD)
  then have "rev z = replicate (length z) 48" by (metis rev_replicate)
  ultimately have "t = rev (dropWhile (\<lambda>c. c = 48) (rev t)) @ replicate (length z) 48" by simp
  then have "D0 = strip_zeros D0 @ replicate (length z) 48"
    unfolding strip_zeros_def t_def [symmetric] append_Cons by (subst D0) (rule arg_cong)
  then show "\<exists>j. D0 = strip_zeros D0 @ replicate j 48" by (rule exI)
  show "hd (strip_zeros D0) = hd D0" "strip_zeros D0 \<noteq> []" by (simp_all add: strip_zeros_def)
  show "last (strip_zeros D0) \<noteq> 48" if "hd D0 \<noteq> 48"
    using that hd_dropWhile [of "\<lambda>c. c = 48" "rev (tl D0)"]
    by (auto simp: strip_zeros_def last_rev)
qed

lemma power_10_split: "(10::nat) ^ k = 5 ^ k * 2 ^ k"
  by (simp flip: power_mult_distrib)

lemma power_10_bound:
  assumes "b ^ 10 \<le> 10 ^ p" "p * q + r \<le> n" "c \<le> 10 ^ r"
  shows "c * b ^ (10 * q) \<le> (10::nat) ^ n"
proof -
  have "b ^ (10 * q) \<le> (10 ^ p) ^ q" unfolding power_mult using assms(1) by (intro power_mono) auto
  then have "c * b ^ (10 * q) \<le> 10 ^ r * 10 ^ (p * q)"
    unfolding power_mult [symmetric] using assms(3) by (intro mult_le_mono)
  also have "\<dots> = 10 ^ (p * q + r)" by (simp add: power_add)
  also have "\<dots> \<le> 10 ^ n" using assms(2) by (intro power_increasing) auto
  finally show ?thesis .
qed

lemma power_2_1024: "2 ^ 53 * 2 ^ 971 \<le> (10::nat) ^ 800"
proof -
  have "(2::nat) ^ 53 * 2 ^ 971 = 2 ^ (53 + 971)" by (rule power_add [symmetric])
  also have "\<dots> = 2 ^ (4 + 10 * 102)" by (rule arg_cong [where f = "power 2"]) simp
  also have "\<dots> = 2 ^ 4 * 2 ^ (10 * 102)" by (rule power_add)
  also have "\<dots> \<le> 10 ^ 800" by (rule power_10_bound [of _ 4 _ 16]) simp_all
  finally show ?thesis .
qed

lemma power_5_1074: "2 ^ 53 * 5 ^ 1074 \<le> (10::nat) ^ 800"
proof -
  have "(5::nat) ^ 1074 = 5 ^ (4 + 10 * 107)" by (rule arg_cong [where f = "power 5"]) simp
  also have "\<dots> = 5 ^ 4 * 5 ^ (10 * 107)" by (rule power_add)
  finally have "(2::nat) ^ 53 * 5 ^ 1074 = (2 ^ 53 * 5 ^ 4) * 5 ^ (10 * 107)"
    by (simp only: mult.assoc)
  also have "\<dots> \<le> 10 ^ 800" by (rule power_10_bound [of _ 7 _ 20]) simp_all
  finally show ?thesis .
qed

lemma dig_cap_bn_cap: "(10::nat) ^ DIG_CAP \<le> B9 ^ BN_CAP"
proof -
  have "B9 = 10 ^ 9" by (simp add: B9_def)
  then have "B9 ^ BN_CAP = 10 ^ (9 * BN_CAP)" by (simp only: power_mult)
  moreover have "(10::nat) ^ DIG_CAP \<le> 10 ^ (9 * BN_CAP)"
    by (intro power_increasing) (simp_all add: DIG_CAP_def BN_CAP_def)
  ultimately show ?thesis by simp
qed

lemma rt_exact_digits_ok:
  assumes m: "m \<noteq> 0" and e2: "- 1074 \<le> e2" "e2 \<le> 971" and m53: "unat m < 2 ^ 53"
  shows "if unat m * 10 ^ nat (- e2) < B9 ^ BN_CAP
    then \<exists>D decpt. rt_exact_digits m e2 = Some (D, decpt) \<and> D \<noteq> [] \<and> decimals D \<and>
      hd D \<noteq> 48 \<and> last D \<noteq> 48 \<and>
      dv D * 10 ^ nat (decpt - int (length D)) * 2 ^ nat (- e2) =
      unat m * 2 ^ nat e2 * 10 ^ nat (int (length D) - decpt)
    else rt_exact_digits m e2 = None"
proof -
  obtain b0 where b0: "bn_from_u64 m = Some b0" "bn_wf b0" "length b0 \<le> BN_CAP" "bn_val b0 = unat m"
    using bn_from_u64_ok by blast
  have m0: "0 < unat m" using m by (simp add: unat_gt_0)
  define k where "k = nat (- e2)"
  have fin: "\<exists>D decpt. strip_zeros (bn_digits b) = D \<and> decpt = int (length (bn_digits b)) - int k \<and>
      length (bn_digits b) \<le> DIG_CAP \<and> D \<noteq> [] \<and> decimals D \<and> hd D \<noteq> 48 \<and> last D \<noteq> 48 \<and>
      dv D * 10 ^ nat (decpt - int (length D)) * 2 ^ k =
      unat m * 2 ^ nat e2 * 10 ^ nat (int (length D) - decpt)"
    if b: "bn_wf b" and v: "bn_val b * 2 ^ k = unat m * 2 ^ nat e2 * 10 ^ k" and lt: "bn_val b < 10 ^ DIG_CAP" for b
  proof -
    let ?E = "bn_digits b" and ?D = "strip_zeros (bn_digits b)"
    have n: "numeral_of 10 (bn_val b) ?E" using b by (rule bn_digits_ok)
    have "bn_val b \<noteq> 0" using v m0 by (metis mult_0 mult_is_0 power_not_zero zero_neq_numeral not_gr0)
    then have ne: "?E \<noteq> []" "hd ?E \<noteq> 48"
      using n by (auto simp: numeral_of_def digits_val_def digit_nat_def digit_of_def)
    note st = strip_zeros_ok [OF ne(1)]
    obtain j where j: "?E = ?D @ replicate j 48" using st(1) by blast
    have dec: "decimals ?D" using n j unfolding numeral_of_def by (metis list_all_append)
    have "dv ?E = dv ?D * 10 ^ j" by (subst j) (simp add: digits_val_append)
    then have vj: "dv ?D * 10 ^ j = bn_val b" using n by (simp add: numeral_of_def)
    have len: "length ?E = length ?D + j" by (subst j) simp
    have d800: "length ?E \<le> DIG_CAP"
      using numeral_of_length [OF n, of DIG_CAP] lt by (simp add: DIG_CAP_def [THEN arg_cong [where f = "\<lambda>c. 0 < c"]])
    have eq: "dv ?D * 10 ^ j * 2 ^ k = unat m * 2 ^ nat e2 * 10 ^ k" using v vj by simp
    have "dv ?D * 10 ^ (j - k) * 2 ^ k = unat m * 2 ^ nat e2 * 10 ^ (k - j)"
    proof (cases "k \<le> j")
      case True
      have "(10::nat) ^ j = 10 ^ (j - k) * 10 ^ k" using True by (simp flip: power_add)
      then have "(dv ?D * 10 ^ (j - k) * 2 ^ k) * 10 ^ k = (unat m * 2 ^ nat e2) * 10 ^ k"
        using eq by (simp add: ac_simps)
      then show ?thesis using True by (subst (asm) mult_cancel2) simp
    next
      case False
      have "(10::nat) ^ k = 10 ^ (k - j) * 10 ^ j" using False by (simp flip: power_add)
      then have "(dv ?D * 2 ^ k) * 10 ^ j = (unat m * 2 ^ nat e2 * 10 ^ (k - j)) * 10 ^ j"
        using eq by (simp add: ac_simps)
      then show ?thesis using False by (subst (asm) mult_cancel2) simp
    qed
    then show ?thesis
      using st ne dec d800 len by (intro exI conjI refl) (auto simp: nat_minus_as_int)
  qed
  show ?thesis
  proof (cases "e2 \<ge> 0")
    case True
    then have k: "k = 0" by (simp add: k_def)
    have "unat m * 2 ^ nat e2 < 2 ^ 53 * 2 ^ 971"
      using m53 e2 True by (intro mult_less_le_imp_less power_increasing) auto
    also have "\<dots> \<le> (10::nat) ^ DIG_CAP" unfolding DIG_CAP_def by (rule power_2_1024)
    finally have lt: "unat m * 2 ^ nat e2 < 10 ^ DIG_CAP" .
    then have bnd: "unat m * 2 ^ nat e2 < B9 ^ BN_CAP" using dig_cap_bn_cap by (rule order.strict_trans2)
    then obtain b where b: "bn_shl b0 (nat e2) = Some b" "bn_wf b" "bn_val b = unat m * 2 ^ nat e2"
      using bn_shl_ok [OF b0(2,3), of "nat e2"] b0(4) by auto
    have "unat m * 1 \<le> unat m * 2 ^ nat e2" by (rule mult_le_mono2) simp
    then have "unat m \<le> unat m * 2 ^ nat e2" by (simp only: mult_1_right)
    then have "unat m < B9 ^ BN_CAP" using bnd by (rule order.strict_trans1)
    then show ?thesis
      using fin [OF b(2)] b lt k b0 True
      by (auto simp: rt_exact_digits_def Let_def bind_eq_Some)
  next
    case False
    then have k: "nat e2 = 0" "int k = - e2" "k \<le> 1074" using e2 by (auto simp: k_def)
    note mul = bn_mul_pow10_ok [OF b0(2,3), of k, unfolded b0(4)]
    show ?thesis
    proof (cases "unat m * 10 ^ k < B9 ^ BN_CAP")
      case True
      then obtain b1 where b1: "bn_mul_pow10 b0 k = Some b1" "bn_wf b1"
          "bn_val b1 = unat m * 10 ^ k" using mul by auto
      let ?b = "fst (bn_shr b1 k False)"
      have b: "bn_wf ?b" "bn_val ?b = unat m * 5 ^ k"
        using bn_shr_ok [OF b1(2), of k False] b1(3) by (simp_all add: power_10_split)
      have "unat m * 5 ^ k < 2 ^ 53 * 5 ^ 1074"
        using m53 k by (intro mult_less_le_imp_less power_increasing) auto
      also have "\<dots> \<le> (10::nat) ^ DIG_CAP" unfolding DIG_CAP_def by (rule power_5_1074)
      finally have lt: "bn_val ?b < 10 ^ DIG_CAP" using b by simp
      have "bn_val ?b * 2 ^ k = unat m * 2 ^ nat e2 * 10 ^ k"
        using b k by (simp add: power_10_split)
      from fin [OF b(1) this lt] show ?thesis
        using True False b0(1) b1(1) k by (auto simp: rt_exact_digits_def Let_def k_def [symmetric])
    next
      case big: False
      then show ?thesis using mul False b0(1)
        by (auto simp: rt_exact_digits_def k_def [symmetric])
    qed
  qed
qed

section \<open>Decoding a double\<close>

text \<open>The magnitude of a finite double by its IEEE-754 fields.\<close>

definition dbl_exp :: "u64 \<Rightarrow> nat" where
  "dbl_exp bits = unat bits div 2 ^ 52 mod 2 ^ 11"

definition dbl_abs :: "u64 \<Rightarrow> real" where
  "dbl_abs bits =
     (let f = real (unat bits mod 2 ^ 52) / 2 ^ 52 in
      if dbl_exp bits = 0 then f * 2 powi - 1022
      else (1 + f) * 2 powi (int (dbl_exp bits) - 1023))"

lemma unat_and_mask: "m = mask n \<Longrightarrow> unat (x AND m :: 'a::len word) = unat x mod 2 ^ n"
proof -
  assume "m = mask n"
  then have "x AND m = take_bit n x" by (simp only: take_bit_eq_mask)
  then show ?thesis by (simp only: unsigned_take_bit_eq take_bit_eq_mod [of n "unat x"])
qed

lemma rt_unpack_frac: "unat (bits AND 0xFFFFFFFFFFFFF :: u64) = unat bits mod 2 ^ 52"
  by (rule unat_and_mask) (simp_all add: mask_eq_exp_minus_1)

lemma rt_unpack_exp: "uint (drop_bit 52 bits AND 0x7FF :: u64) = int (dbl_exp bits)"
proof -
  have "unat (drop_bit 52 bits AND 0x7FF) = unat (drop_bit 52 bits) mod 2 ^ 11"
    by (rule unat_and_mask) (simp_all add: mask_eq_exp_minus_1)
  also have "unat (drop_bit 52 bits) = unat bits div 2 ^ 52"
    unfolding unat_drop_bit_eq by (rule drop_bit_eq_div)
  finally show ?thesis by (simp add: dbl_exp_def uint_nat)
qed

lemma or_hidden_bit:
  assumes f: "unat (f :: u64) < 2 ^ k" and k: "k < 64"
  shows "unat (f OR push_bit k 1) = unat f + 2 ^ k"
proof -
  have "take_bit k f = f"
    using f by (simp add: word_unat_eq_iff unsigned_take_bit_eq take_bit_nat_eq_self)
  then have "\<not> bit f k" by (metis bit_take_bit_iff order.irrefl)
  then have "f AND push_bit k 1 = 0"
    by (intro bit_word_eqI) (auto simp: bit_and_iff bit_exp_iff)
  then have o: "f OR push_bit k 1 = f + push_bit k 1" by (simp only: disjunctive_add_eq_or)
  have p2: "(2::nat) ^ Suc k \<le> 2 ^ 64" using k by (intro power_increasing) auto
  then have p: "unat (push_bit k 1 :: u64) = 2 ^ k" by (subst unat_push_bit_small) auto
  show ?thesis using f p2 unfolding o by (subst unat_add_small) (simp_all only: p, simp)
qed

lemma powi_shift_52: "(2::real) powi c = 2 ^ 52 * 2 powi (c - 52)"
  using power_int_add [of "2::real" 52 "c - 52"] by simp

lemma rt_unpack_ok:
  assumes "dbl_exp bits \<noteq> 2047"
  shows "\<exists>m e2. rt_unpack bits = (0, unat bits \<ge> 2 ^ 63, Some (m, e2)) \<and> unat m < 2 ^ 53 \<and>
    - 1074 \<le> e2 \<and> e2 \<le> 971 \<and> real (unat m) * 2 powi e2 = dbl_abs bits"
proof -
  define f where "f = bits AND 0xFFFFFFFFFFFFF"
  have f: "unat f = unat bits mod 2 ^ 52" unfolding f_def by (rule rt_unpack_frac)
  then have f52: "unat f < 2 ^ 52" by simp
  have "unat (drop_bit 63 bits) = unat bits div 2 ^ 63"
    unfolding unat_drop_bit_eq by (rule drop_bit_eq_div)
  then have "unat (drop_bit 63 bits) \<noteq> 0 \<longleftrightarrow> unat bits \<ge> 2 ^ 63"
    by (simp add: div_eq_0_iff not_less)
  then have neg: "drop_bit 63 bits \<noteq> 0 \<longleftrightarrow> unat bits \<ge> 2 ^ 63" by (simp only: unat_eq_zero)
  have e: "dbl_exp bits < 2047" using assms by (simp add: dbl_exp_def)
  show ?thesis
  proof (cases "dbl_exp bits = 0")
    case True
    then have "rt_unpack bits = (0, unat bits \<ge> 2 ^ 63, Some (f, - 1074))"
      using neg by (simp add: rt_unpack_def Let_def rt_unpack_exp flip: f_def)
    moreover have "dbl_abs bits = real (unat f) / 2 ^ 52 * 2 powi - 1022"
      using True by (simp only: dbl_abs_def f Let_def if_True refl)
    then have "real (unat f) * 2 powi - 1074 = dbl_abs bits"
      by (subst (asm) powi_shift_52) simp
    ultimately show ?thesis using f52 by auto
  next
    case False
    let ?m = "f OR push_bit 52 1"
    have m: "unat ?m = unat f + 2 ^ 52" using f52 by (rule or_hidden_bit) simp
    have "rt_unpack bits = (0, unat bits \<ge> 2 ^ 63, Some (?m, int (dbl_exp bits) - 1075))"
      using neg e False by (simp add: rt_unpack_def Let_def rt_unpack_exp flip: f_def)
    moreover have "dbl_abs bits =
        (1 + real (unat f) / 2 ^ 52) * 2 powi (int (dbl_exp bits) - 1023)"
      using False by (simp only: dbl_abs_def f Let_def if_False)
    then have "real (unat ?m) * 2 powi (int (dbl_exp bits) - 1075) = dbl_abs bits"
      unfolding m by (subst (asm) powi_shift_52) (simp add: field_simps)
    moreover have "unat ?m < 2 ^ 53" using m f52 by simp
    ultimately show ?thesis using e False by auto
  qed
qed

section \<open>The digits of a rounded value\<close>

text \<open>The first \<open>T\<close> digits, with zeros past the end: what the printing loops emit.\<close>

definition pad :: "u8 list \<Rightarrow> nat \<Rightarrow> u8 list" where
  "pad D T = take T D @ replicate (T - length D) 48"

lemma length_pad [simp]: "length (pad D T) = T"
  by (simp add: pad_def)

lemma decimals_pad: "decimals D \<Longrightarrow> decimals (pad D T)"
  by (simp add: pad_def) (auto simp: list_all_iff dest: in_set_takeD)

lemma dv_pad: "length D \<le> T \<Longrightarrow> dv (pad D T) = dv D * 10 ^ (T - length D)"
  by (simp add: pad_def digits_val_append)

lemma pad_nth: "i < T \<Longrightarrow> pad D T ! i = (if i < length D then D ! i else 48)"
  by (auto simp: pad_def nth_append)

text \<open>\<open>D\<close> and \<open>decpt\<close> stand for the value \<open>p / q\<close>.\<close>

definition expands :: "u8 list \<Rightarrow> int \<Rightarrow> nat \<Rightarrow> nat \<Rightarrow> bool" where
  "expands D decpt p q \<longleftrightarrow>
     D \<noteq> [] \<and> decimals D \<and> hd D \<noteq> 48 \<and> 0 < q \<and>
     dv D * 10 ^ nat (decpt - int (length D)) * q = p * 10 ^ nat (int (length D) - decpt)"

lemma expands_exact:
  assumes "expands D decpt p q" "int (length D) \<le> decpt + int prec"
  shows "rhe_div (p * 10 ^ prec) q = dv D * 10 ^ nat (decpt + int prec - int (length D))"
proof -
  have q: "0 < q" using assms(1) by (simp add: expands_def)
  let ?u = "nat (decpt - int (length D))" and ?v = "nat (int (length D) - decpt)"
  have e: "dv D * 10 ^ ?u * q = p * 10 ^ ?v" using assms(1) by (simp add: expands_def)
  have "nat (decpt + int prec - int (length D)) = ?u + (prec - ?v)" using assms(2) by linarith
  then have "dv D * 10 ^ nat (decpt + int prec - int (length D)) * q =
      (dv D * 10 ^ ?u * q) * 10 ^ (prec - ?v)"
    by (simp add: power_add)
  also have "\<dots> = p * (10 ^ ?v * 10 ^ (prec - ?v))" unfolding e by simp
  also have "(10::nat) ^ ?v * 10 ^ (prec - ?v) = 10 ^ prec"
    using assms(2) by (simp flip: power_add)
  finally have "rhe_div (p * 10 ^ prec) q =
      rhe_div (dv D * 10 ^ nat (decpt + int prec - int (length D))) 1"
    using q by (intro rhe_div_cong) auto
  then show ?thesis by simp
qed

lemma expands_cut:
  assumes "expands D decpt p q" "decpt + int prec < int (length D)"
  shows "rhe_div (p * 10 ^ prec) q = rhe_div (dv D) (10 ^ nat (int (length D) - (decpt + int prec)))"
proof -
  let ?v = "nat (int (length D) - decpt)" and ?w = "nat (int (length D) - (decpt + int prec))"
  have "dv D * 1 * q = p * 10 ^ ?v" using assms by (simp add: expands_def)
  moreover have "?v = prec + ?w" using assms(2) by linarith
  ultimately have "(p * 10 ^ prec) * 10 ^ ?w = dv D * q" by (simp add: power_add)
  then show ?thesis using assms(1) by (intro rhe_div_cong) (auto simp: expands_def)
qed

text \<open>
  Rounding at the \<open>prec\<close>-th place after the point: the digits, padded to that place, are
  the value times \<open>10\<^bsup>prec\<^esup>\<close> rounded half to even.
\<close>

lemma fixed_digits:
  assumes x: "expands D decpt p q"
    and r: "rt_round_digits D decpt (decpt + int prec) = (D', decpt')"
  shows "dv (pad D' (nat (decpt' + int prec))) = rhe_div (p * 10 ^ prec) q"
    and "decimals D'" and "D' \<noteq> []" and "0 < decpt' \<Longrightarrow> hd D' \<noteq> 48"
proof -
  let ?k = "decpt + int prec" and ?n = "length D"
  have D: "decimals D" "D \<noteq> []" "hd D \<noteq> 48" using x by (auto simp: expands_def)
  have "dv (pad D' (nat (decpt' + int prec))) = rhe_div (p * 10 ^ prec) q \<and> decimals D' \<and>
      D' \<noteq> [] \<and> (0 < decpt' \<longrightarrow> hd D' \<noteq> 48)"
  proof (cases "int ?n \<le> ?k")
    case True
    then have "D' = D" "decpt' = decpt" using r rt_round_digits_keep [OF True, of decpt] by auto
    moreover have "nat ?k - ?n = nat (?k - int ?n)" "?n \<le> nat ?k" using True by linarith+
    ultimately show ?thesis using expands_exact [OF x True] D by (simp add: dv_pad)
  next
    case cut: False
    then have R: "rhe_div (p * 10 ^ prec) q = rhe_div (dv D) (10 ^ nat (int ?n - ?k))"
      using expands_cut [OF x] by simp
    show ?thesis
    proof (cases "0 < ?k")
      case True
      then have k: "0 < nat ?k" "nat ?k < ?n" "int (nat ?k) = ?k" "nat (int ?n - ?k) = ?n - nat ?k"
        using cut by linarith+
      obtain D1 c where D1: "rt_round_digits D decpt ?k = (D1, decpt + int c)" "decimals D1"
          "length D1 = nat ?k" "hd D1 \<noteq> 48" "dv D1 * 10 ^ c = rhe_div (p * 10 ^ prec) q"
        using rt_round_digits_mid [OF D(1,3) k(1,2) refl, of decpt] R k(3,4) by auto
      have "nat (decpt + int c + int prec) = length D1 + c" using D1(3) k by linarith
      then have "dv (pad D1 (nat (decpt + int c + int prec))) = dv D1 * 10 ^ c"
        by (simp add: dv_pad)
      moreover have "D1 \<noteq> []" using D1(3) k by auto
      ultimately show ?thesis using D1 r by auto
    next
      case False
      let ?e = "rhe_div (dv D) (10 ^ ?n)"
      have nr: "rt_round_digits D decpt ?k =
          (if ?e = 1 then ([49], decpt + 1) else ([48], decpt))"
        using rt_round_digits_none [OF D(1,2), of ?k] False by simp
      have lt: "dv D < 10 ^ ?n" using digits_val_bound [OF D(1)] by simp
      have e1: "?e \<le> 1" using rhe_div_bounds [of "10 ^ ?n" "dv D"] lt by simp
      have d49: "dv [49] = 1" by (simp add: digits_val_Cons digit_nat_def digit_of_def)
      have dd: "decimals [49]" "decimals [48]" by (simp_all add: is_digit_10)
      show ?thesis
      proof (cases "?k = 0")
        case True
        then have "nat (decpt + int prec) = 0" "nat (decpt + 1 + int prec) = 1"
            "nat (int ?n - ?k) = ?n" "decpt \<le> 0" by linarith+
        then show ?thesis using nr r e1 R d49 dd by (auto simp: pad_def split: if_splits)
      next
        case neg: False
        have "(10::nat) ^ Suc ?n \<le> 10 ^ nat (int ?n - ?k)"
          using False neg by (intro power_increasing) auto
        then have "rhe_div (dv D) (10 ^ nat (int ?n - ?k)) = 0"
          using lt by (intro rhe_div_small) auto
        moreover have "nat (decpt' + int prec) = 0" "decpt' \<le> 0"
          using nr r False neg by (auto split: if_splits)
        ultimately show ?thesis using nr r R dd by (auto simp: pad_def split: if_splits)
      qed
    qed
  qed
  then show "dv (pad D' (nat (decpt' + int prec))) = rhe_div (p * 10 ^ prec) q"
      "decimals D'" "D' \<noteq> []" "0 < decpt' \<Longrightarrow> hd D' \<noteq> 48" by auto
qed

section \<open>Properties\<close>

text \<open>
  \<open>rt_unpack\<close> on a finite double: the sign bit, and a mantissa and exponent whose
  product is the IEEE-754 magnitude, normal and denormal.
\<close>

theorem rt_unpack_decodes:
  assumes "dbl_exp bits \<noteq> 2047"
  shows "\<exists>m e2. rt_unpack bits = (0, unat bits \<ge> 2 ^ 63, Some (m, e2)) \<and> unat m < 2 ^ 53 \<and>
    - 1074 \<le> e2 \<and> e2 \<le> 971 \<and> real (unat m) * 2 powi e2 = dbl_abs bits"
  using assms by (rule rt_unpack_ok)

lemma rt_unpack_decodes_witness:
  "\<exists>m e2. rt_unpack 0x4009000000000000 = (0, unat (0x4009000000000000 :: u64) \<ge> 2 ^ 63, Some (m, e2)) \<and>
    unat m < 2 ^ 53 \<and> - 1074 \<le> e2 \<and> e2 \<le> 971 \<and> real (unat m) * 2 powi e2 = dbl_abs 0x4009000000000000"
  by (rule rt_unpack_decodes) (simp add: dbl_exp_def)

text \<open>
  C13. \<open>rt_exact_digits\<close>: all the decimal digits of \<open>m \<times> 2\<^bsup>e2\<^esup>\<close>, without a leading or trailing
  zero, and the decimal point. It writes outside its bignum exactly when
  \<open>m \<times> 10\<^bsup>-e2\<^esup>\<close> reaches \<open>10\<^sup>9\<^sup>0\<^sup>0\<close>.
\<close>

theorem exact_digits:
  assumes "m \<noteq> 0" and "- 1074 \<le> e2" and "e2 \<le> 971" and "unat m < 2 ^ 53"
  shows "if unat m * 10 ^ nat (- e2) < B9 ^ BN_CAP
    then \<exists>D decpt. rt_exact_digits m e2 = Some (D, decpt) \<and> D \<noteq> [] \<and> decimals D \<and>
      hd D \<noteq> 48 \<and> last D \<noteq> 48 \<and>
      dv D * 10 ^ nat (decpt - int (length D)) * 2 ^ nat (- e2) =
      unat m * 2 ^ nat e2 * 10 ^ nat (int (length D) - decpt)
    else rt_exact_digits m e2 = None"
  using assms by (rule rt_exact_digits_ok)

lemma exact_digits_witness:
  "if unat (3 :: u64) * 10 ^ nat (- (- 1)) < B9 ^ BN_CAP
   then \<exists>D decpt. rt_exact_digits 3 (- 1) = Some (D, decpt) \<and> D \<noteq> [] \<and> decimals D \<and>
      hd D \<noteq> 48 \<and> last D \<noteq> 48 \<and>
      dv D * 10 ^ nat (decpt - int (length D)) * 2 ^ nat (- (- 1)) =
      unat (3 :: u64) * 2 ^ nat (- 1) * 10 ^ nat (int (length D) - decpt)
   else rt_exact_digits 3 (- 1) = None"
  by (rule exact_digits) simp_all

text \<open>
  C12. \<open>rt_round_digits\<close> at the \<open>prec\<close>-th decimal place of a value \<open>p / q\<close>: the digits kept,
  padded to that place, are the value times \<open>10\<^bsup>prec\<^esup>\<close> rounded half to even, also when the
  place lies left of the first digit or the nines roll over.
\<close>

theorem round_digits_half_even:
  assumes "expands D decpt p q"
  shows "case rt_round_digits D decpt (decpt + int prec) of (D', decpt') \<Rightarrow>
    dv (pad D' (nat (decpt' + int prec))) = rhe_div (p * 10 ^ prec) q \<and> decimals D' \<and> D' \<noteq> [] \<and>
    (0 < decpt' \<longrightarrow> hd D' \<noteq> 48)"
  using fixed_digits [OF assms] by (auto split: prod.split)

lemma round_digits_half_even_witness:
  "case rt_round_digits [57, 57, 53] 1 (1 + int 1) of (D', decpt') \<Rightarrow>
    dv (pad D' (nat (decpt' + int 1))) = rhe_div (995 * 10 ^ 1) 100 \<and> decimals D' \<and> D' \<noteq> [] \<and>
    (0 < decpt' \<longrightarrow> hd D' \<noteq> 48)"
  by (rule round_digits_half_even)
    (simp add: expands_def is_digit_10 digits_val_Cons digit_nat_def digit_of_def)

end
