(* ===== verification/RtFormat.thy ===== *)
theory RtFormat
  imports FloatDigits
begin

text \<open>
  The printf engine of \<open>rt/rt_format.c\<close>: the sink, the two emitters, the directive
  parser and \<open>__c99m_vformat\<close> with the entry points over it. Memory is the byte memory of
  \<open>Memory\<close>. A \<open>va_list\<close> is the list of the argument slots not yet fetched, eight bytes
  each; fetching past the end is undefined (\<open>None\<close>), as is a width or precision that
  does not fit in an \<open>int\<close>. \<open>fw\<close> is \<open>fwrite(p, 1, n, stream)\<close> on the stream's
  state: the new state and the count written.
\<close>

section \<open>The sink\<close>

text \<open>\<open>sk_stream\<close> is \<open>None\<close> for output to memory, where \<open>sk_out\<close> = 0 only counts.\<close>

record 's sink =
  sk_mem :: mem
  sk_out :: nat
  sk_cap :: nat
  sk_want :: nat
  sk_stream :: "'s option"
  sk_failed :: bool

type_synonym 's fwrite = "'s \<Rightarrow> u8 list \<Rightarrow> ('s \<times> nat) option"

definition sink_bytes :: "'s fwrite \<Rightarrow> 's sink \<Rightarrow> u8 list \<Rightarrow> 's sink option" where
  "sink_bytes fw k p =
     (case sk_stream k of
        Some st \<Rightarrow>
          do { k \<leftarrow> (if p \<noteq> []
                    then do { (st, n) \<leftarrow> fw st p;
                              Some (k\<lparr>sk_stream := Some st,
                                      sk_failed := sk_failed k \<or> n \<noteq> length p\<rparr>) }
                    else Some k);
               Some (k\<lparr>sk_want := sk_want k + length p\<rparr>) }
      | None \<Rightarrow>
          do { k \<leftarrow> (if sk_out k \<noteq> 0 \<and> sk_want k < sk_cap k
                    then let room = sk_cap k - sk_want k;
                             tak = (if length p < room then length p else room)
                         in do { m \<leftarrow> stn (sk_mem k) (sk_out k + sk_want k) (take tak p);
                                 Some (k\<lparr>sk_mem := m\<rparr>) }
                    else Some k);
               Some (k\<lparr>sk_want := sk_want k + length p\<rparr>) })"

text \<open>Runs of one character go out 32 at a time.\<close>

function sink_ch :: "'s fwrite \<Rightarrow> 's sink \<Rightarrow> u8 \<Rightarrow> nat \<Rightarrow> 's sink option" where
  "sink_ch fw k c n =
     (if n \<noteq> 0
      then let tak = (if n < 32 then n else 32)
           in do { k \<leftarrow> sink_bytes fw k (replicate tak c); sink_ch fw k c (n - tak) }
      else Some k)"
  by pat_completeness auto
termination
  by (relation "measure (\<lambda>(fw, k, c, n). n)") auto

declare sink_ch.simps [simp del]

section \<open>One number\<close>

definition FL_MINUS :: u32 where "FL_MINUS = 1"
definition FL_PLUS :: u32 where "FL_PLUS = 2"
definition FL_SPACE :: u32 where "FL_SPACE = 4"
definition FL_HASH :: u32 where "FL_HASH = 8"
definition FL_ZERO :: u32 where "FL_ZERO = 16"

record spec =
  sp_flags :: u32
  sp_width :: int
  sp_prec :: int

text \<open>A character that is 0 is not there.\<close>

definition sink_opt :: "'s fwrite \<Rightarrow> 's sink \<Rightarrow> u8 \<Rightarrow> 's sink option" where
  "sink_opt fw k c = (if c \<noteq> 0 then sink_bytes fw k [c] else Some k)"

definition emit_padded ::
    "'s fwrite \<Rightarrow> 's sink \<Rightarrow> u8 \<Rightarrow> u8 \<Rightarrow> u8 \<Rightarrow> u8 list \<Rightarrow> spec \<Rightarrow> int \<Rightarrow> 's sink option" where
  "emit_padded fw k sign prefix_a prefix_b body sp zero_pad_to =
     (let prefix_len = (if prefix_a \<noteq> 0 then if prefix_b \<noteq> 0 then 2 else 1 else 0);
          width = (if sp_width sp > 0 then nat (sp_width sp) else 0);
          zeros = (if zero_pad_to > 0 \<and> nat zero_pad_to > length body
                   then nat zero_pad_to - length body else 0);
          core = (if sign \<noteq> 0 then 1 else 0) + prefix_len + length body + zeros;
          left = sp_flags sp AND FL_MINUS \<noteq> 0;
          head = (\<lambda>k. do { k \<leftarrow> sink_opt fw k sign; k \<leftarrow> sink_opt fw k prefix_a;
                           sink_opt fw k prefix_b })
      in if \<not> left \<and> width > core \<and> sp_flags sp AND FL_ZERO \<noteq> 0 \<and> zero_pad_to < 0
         then do { k \<leftarrow> head k;
                   k \<leftarrow> sink_ch fw k 48 (width - core);
                   k \<leftarrow> sink_ch fw k 48 zeros;
                   sink_bytes fw k body }
         else do { k \<leftarrow> (if \<not> left \<and> width > core then sink_ch fw k 32 (width - core)
                        else Some k);
                   k \<leftarrow> head k;
                   k \<leftarrow> sink_ch fw k 48 zeros;
                   k \<leftarrow> sink_bytes fw k body;
                   if left \<and> width > core then sink_ch fw k 32 (width - core) else Some k })"

section \<open>One floating number\<close>

text \<open>\<open>(idx >= 0 && idx < len) ? dig[idx] : '0'\<close>.\<close>

definition digit_at :: "u8 list \<Rightarrow> int \<Rightarrow> u8" where
  "digit_at dig idx = (if 0 \<le> idx \<and> idx < int (length dig) then dig ! nat idx else 48)"

text \<open>The loop of \<open>%g\<close> that drops the trailing zeros of the fraction.\<close>

fun trim_prec :: "u8 list \<Rightarrow> int \<Rightarrow> bool \<Rightarrow> nat \<Rightarrow> nat" where
  "trim_prec dig decpt is_f 0 = 0"
| "trim_prec dig decpt is_f (Suc prec) =
     (if digit_at dig (if is_f then decpt + int (Suc prec) - 1 else int (Suc prec)) \<noteq> 48
      then Suc prec else trim_prec dig decpt is_f prec)"

definition fixed_body :: "u8 list \<Rightarrow> int \<Rightarrow> nat \<Rightarrow> bool \<Rightarrow> u8 list" where
  "fixed_body dig decpt prec hash =
     (if decpt \<le> 0 then [48] else map (\<lambda>i. digit_at dig (int i)) [0..<nat decpt]) @
     (if prec > 0 \<or> hash
      then 46 # map (\<lambda>i. digit_at dig (decpt + int i)) [0..<prec] else [])"

definition exp_body :: "u8 list \<Rightarrow> int \<Rightarrow> nat \<Rightarrow> bool \<Rightarrow> bool \<Rightarrow> u8 list" where
  "exp_body dig ex prec hash upper =
     hd dig #
     (if prec > 0 \<or> hash then 46 # map (\<lambda>i. digit_at dig (int i)) [1..<prec + 1] else []) @
     [if upper then 69 else 101, if ex < 0 then 45 else 43] @
     (if \<bar>ex\<bar> < 10 then [48] else []) @ rt_utoa (word_of_int \<bar>ex\<bar>) 10 False"

text \<open>
  The text of a finite number. \<open>BODY_CAP\<close> is the size of the array \<open>body\<close>, which the
  code fills without a test.
\<close>

definition BODY_CAP :: nat where
  "BODY_CAP = 832"

definition float_body :: "u64 \<Rightarrow> int \<Rightarrow> u8 \<Rightarrow> bool \<Rightarrow> nat \<Rightarrow> bool \<Rightarrow> u8 list option" where
  "float_body m e2 c upper prec hash =
     do { (dig, decpt) \<leftarrow> (if m = 0 then Some ([48], 1) else rt_exact_digits m e2);
          let (dig, decpt, c, prec) =
            (if c = 103
             then let P = (if prec = 0 then 1 else prec);
                      (dig, decpt) = rt_round_digits dig decpt (int P);
                      X = (if m = 0 then 0 else decpt - 1);
                      (c, prec) = (if X \<ge> - 4 \<and> X < int P then (102, nat (int P - 1 - X))
                                   else (101, P - 1));
                      prec = (if hash then prec else trim_prec dig decpt (c = 102) prec)
                  in (dig, decpt, c, prec)
             else if c = 101
             then let (dig, decpt) = (if m \<noteq> 0 then rt_round_digits dig decpt (int prec + 1)
                                      else (dig, decpt))
                  in (dig, decpt, c, prec)
             else let (dig, decpt) = (if m \<noteq> 0 then rt_round_digits dig decpt (decpt + int prec)
                                      else (dig, decpt))
                  in (dig, decpt, c, prec));
          let body = (if c = 102 then fixed_body dig decpt prec hash
                      else exp_body dig (if m = 0 then 0 else decpt - 1) prec hash upper);
          if length body \<le> BODY_CAP
          then Some (if upper then map (\<lambda>b. if b = 101 then 69 else b) body else body)
          else None }"

definition emit_float :: "'s fwrite \<Rightarrow> 's sink \<Rightarrow> u64 \<Rightarrow> u8 \<Rightarrow> spec \<Rightarrow> 's sink option" where
  "emit_float fw k x conv sp =
     (let prec = (if sp_prec sp \<ge> 0 then sp_prec sp else 6);
          upper = (conv = 69 \<or> conv = 70 \<or> conv = 71);
          c = (if upper then conv + 32 else conv);
          (cls, neg, fin) = rt_unpack x;
          sign = (if neg then 45 else if sp_flags sp AND FL_PLUS \<noteq> 0 then 43
                  else if sp_flags sp AND FL_SPACE \<noteq> 0 then 32 else 0)
      in case fin of
           None \<Rightarrow>
             emit_padded fw k sign 0 0
               (if cls = 2 then if upper then lit ''NAN'' else lit ''nan''
                else if upper then lit ''INF'' else lit ''inf'')
               (sp\<lparr>sp_flags := sp_flags sp AND NOT FL_ZERO\<rparr>) (- 1)
         | Some (m, e2) \<Rightarrow>
             do { body \<leftarrow> float_body m e2 c upper (nat prec) (sp_flags sp AND FL_HASH \<noteq> 0);
                  emit_padded fw k sign 0 0 body sp (- 1) })"

section \<open>Reading a directive\<close>

partial_function (option) fmt_run :: "mem \<Rightarrow> nat \<Rightarrow> nat option" where
  [code]: "fmt_run m p = do { c \<leftarrow> m p; if c \<noteq> 0 \<and> c \<noteq> 37 then fmt_run m (p + 1) else Some p }"

partial_function (option) fmt_flags :: "mem \<Rightarrow> nat \<Rightarrow> u32 \<Rightarrow> (u32 \<times> nat) option" where
  [code]: "fmt_flags m p fl =
     do { c \<leftarrow> m p;
          if c = 45 then fmt_flags m (p + 1) (fl OR FL_MINUS)
          else if c = 43 then fmt_flags m (p + 1) (fl OR FL_PLUS)
          else if c = 32 then fmt_flags m (p + 1) (fl OR FL_SPACE)
          else if c = 35 then fmt_flags m (p + 1) (fl OR FL_HASH)
          else if c = 48 then fmt_flags m (p + 1) (fl OR FL_ZERO)
          else Some (fl, p) }"

partial_function (option) fmt_int :: "mem \<Rightarrow> nat \<Rightarrow> int \<Rightarrow> (int \<times> nat) option" where
  [code]: "fmt_int m p acc =
     do { c \<leftarrow> m p;
          if 48 \<le> c \<and> c \<le> 57
          then let acc = acc * 10 + (uint c - 48)
               in if acc < 2 ^ 31 then fmt_int m (p + 1) acc else None
          else Some (acc, p) }"

fun va_arg :: "u64 list \<Rightarrow> (u64 \<times> u64 list) option" where
  "va_arg [] = None"
| "va_arg (x # ap) = Some (x, ap)"

definition va_arg_int :: "u64 list \<Rightarrow> (int \<times> u64 list) option" where
  "va_arg_int ap = do { (x, ap) \<leftarrow> va_arg ap; Some (wrap_s32 (uint x), ap) }"

definition fmt_width ::
    "mem \<Rightarrow> nat \<Rightarrow> u32 \<Rightarrow> u64 list \<Rightarrow> (int \<times> u32 \<times> nat \<times> u64 list) option" where
  "fmt_width m p fl ap =
     do { c \<leftarrow> m p;
          if c = 42
          then do { (w, ap) \<leftarrow> va_arg_int ap;
                    if w < 0
                    then if w = - (2 ^ 31) then None
                         else Some (- w, fl OR FL_MINUS, p + 1, ap)
                    else Some (w, fl, p + 1, ap) }
          else do { (w, p) \<leftarrow> fmt_int m p 0; Some (w, fl, p, ap) } }"

definition fmt_prec :: "mem \<Rightarrow> nat \<Rightarrow> u64 list \<Rightarrow> (int \<times> nat \<times> u64 list) option" where
  "fmt_prec m p ap =
     do { c \<leftarrow> m p;
          if c = 46
          then do { c \<leftarrow> m (p + 1);
                    if c = 42
                    then do { (w, ap) \<leftarrow> va_arg_int ap; Some (w, p + 2, ap) }
                    else do { (w, p) \<leftarrow> fmt_int m (p + 1) 0; Some (w, p, ap) } }
          else Some (- 1, p, ap) }"

record lenmod =
  len_h :: nat
  len_l :: nat
  len_ll :: bool
  len_z :: bool

partial_function (option) fmt_len :: "mem \<Rightarrow> nat \<Rightarrow> lenmod \<Rightarrow> (lenmod \<times> nat) option" where
  [code]: "fmt_len m p l =
     do { c \<leftarrow> m p;
          if c = 104 then fmt_len m (p + 1) (l\<lparr>len_h := len_h l + 1\<rparr>)
          else if c = 108 then fmt_len m (p + 1) (l\<lparr>len_l := len_l l + 1\<rparr>)
          else if c = 122 \<or> c = 116 then fmt_len m (p + 1) (l\<lparr>len_z := True\<rparr>)
          else if c = 106 then fmt_len m (p + 1) (l\<lparr>len_ll := True\<rparr>)
          else if c = 76 then fmt_len m (p + 1) l
          else Some (if len_l l \<ge> 2 then l\<lparr>len_ll := True\<rparr> else l, p) }"

section \<open>The conversions\<close>

definition no_zero :: "spec \<Rightarrow> spec" where
  "no_zero sp = (if sp_prec sp \<ge> 0 then sp\<lparr>sp_flags := sp_flags sp AND NOT FL_ZERO\<rparr> else sp)"

definition signed_arg :: "lenmod \<Rightarrow> u64 \<Rightarrow> int" where
  "signed_arg l x =
     (let v = sint x;
          v = (if len_ll l \<or> len_z l then v else wrap_s32 v)
      in if len_h l = 1 then wrap_s16 v else if len_h l \<ge> 2 then wrap_s8 v else v)"

definition conv_signed ::
    "'s fwrite \<Rightarrow> 's sink \<Rightarrow> spec \<Rightarrow> lenmod \<Rightarrow> u64 list \<Rightarrow> ('s sink \<times> u64 list) option" where
  "conv_signed fw k sp l ap =
     do { (x, ap) \<leftarrow> va_arg ap;
          let v = signed_arg l x;
          let (sign, uv) =
            (if v < 0 then (45, word_of_int (- (v + 1)) + 1)
             else (if sp_flags sp AND FL_PLUS \<noteq> 0 then 43
                   else if sp_flags sp AND FL_SPACE \<noteq> 0 then 32 else 0, word_of_int v));
          k \<leftarrow> emit_padded fw k sign 0 0 (rt_utoa uv 10 False) (no_zero sp)
                (if sp_prec sp \<ge> 0 then sp_prec sp else - 1);
          Some (k, ap) }"

definition unsigned_arg :: "lenmod \<Rightarrow> u64 \<Rightarrow> u64" where
  "unsigned_arg l v =
     (let v = (if len_ll l \<or> len_z l then v else take_bit 32 v)
      in if len_h l = 1 then take_bit 16 v else if len_h l \<ge> 2 then take_bit 8 v else v)"

definition conv_unsigned ::
    "'s fwrite \<Rightarrow> 's sink \<Rightarrow> u8 \<Rightarrow> spec \<Rightarrow> lenmod \<Rightarrow> u64 list \<Rightarrow> ('s sink \<times> u64 list) option" where
  "conv_unsigned fw k conv sp l ap =
     (let base = (if conv = 117 then 10 else if conv = 111 then 8 else 16)
      in do { (x, ap) \<leftarrow> va_arg ap;
              let v = unsigned_arg l x;
              let (prefix_a, prefix_b) =
                (if sp_flags sp AND FL_HASH \<noteq> 0 \<and> v \<noteq> 0
                 then if conv = 120 then (48, 120) else if conv = 88 then (48, 88)
                      else if conv = 111 then (48, 0) else (0, 0)
                 else (0, 0));
              k \<leftarrow> emit_padded fw k 0 prefix_a prefix_b (rt_utoa v base (conv = 88)) (no_zero sp)
                    (if sp_prec sp \<ge> 0 then sp_prec sp else - 1);
              Some (k, ap) })"

definition conv_char ::
    "'s fwrite \<Rightarrow> 's sink \<Rightarrow> spec \<Rightarrow> u64 list \<Rightarrow> ('s sink \<times> u64 list) option" where
  "conv_char fw k sp ap =
     do { (x, ap) \<leftarrow> va_arg_int ap;
          k \<leftarrow> emit_padded fw k 0 0 0 [word_of_int x] sp (- 1);
          Some (k, ap) }"

text \<open>The length is taken with \<open>strlen\<close> before the precision is looked at.\<close>

definition conv_string ::
    "'s fwrite \<Rightarrow> 's sink \<Rightarrow> spec \<Rightarrow> u64 list \<Rightarrow> ('s sink \<times> u64 list) option" where
  "conv_string fw k sp ap =
     do { (x, ap) \<leftarrow> va_arg ap;
          s \<leftarrow> (if x = 0 then Some (lit ''(null)'')
               else do { n \<leftarrow> strlen (sk_mem k) (unat x); ldn (sk_mem k) (unat x) n });
          let s = (if sp_prec sp \<ge> 0 \<and> nat (sp_prec sp) < length s
                   then take (nat (sp_prec sp)) s else s);
          k \<leftarrow> emit_padded fw k 0 0 0 s sp (- 1);
          Some (k, ap) }"

definition conv_pointer ::
    "'s fwrite \<Rightarrow> 's sink \<Rightarrow> spec \<Rightarrow> u64 list \<Rightarrow> ('s sink \<times> u64 list) option" where
  "conv_pointer fw k sp ap =
     do { (v, ap) \<leftarrow> va_arg ap;
          k \<leftarrow> emit_padded fw k 0 0 0 (rt_utoa v 16 True) sp 16;
          Some (k, ap) }"

definition conv_count :: "'s sink \<Rightarrow> u64 list \<Rightarrow> ('s sink \<times> u64 list) option" where
  "conv_count k ap =
     do { (x, ap) \<leftarrow> va_arg ap;
          if x \<noteq> 0
          then do { m \<leftarrow> stn (sk_mem k) (unat x) (bytes_of_u64 4 (of_nat (sk_want k)));
                    Some (k\<lparr>sk_mem := m\<rparr>, ap) }
          else Some (k, ap) }"

section \<open>The engine\<close>

text \<open>What stands between the \<open>%\<close> and the conversion character.\<close>

definition fmt_spec ::
    "mem \<Rightarrow> nat \<Rightarrow> u64 list \<Rightarrow> (spec \<times> lenmod \<times> nat \<times> u64 list) option" where
  "fmt_spec m p ap =
     do { (fl, p) \<leftarrow> fmt_flags m p 0;
          (w, fl, p, ap) \<leftarrow> fmt_width m p fl ap;
          (prec, p, ap) \<leftarrow> fmt_prec m p ap;
          (l, p) \<leftarrow> fmt_len m p \<lparr>len_h = 0, len_l = 0, len_ll = False, len_z = False\<rparr>;
          Some (\<lparr>sp_flags = fl, sp_width = w, sp_prec = prec\<rparr>, l, p, ap) }"

text \<open>The \<open>switch\<close>; the last branch is its default, an unknown conversion.\<close>

definition fmt_conv ::
    "'s fwrite \<Rightarrow> 's sink \<Rightarrow> u8 \<Rightarrow> spec \<Rightarrow> lenmod \<Rightarrow> u64 list \<Rightarrow> ('s sink \<times> u64 list) option" where
  "fmt_conv fw k conv sp l ap =
     (if conv = 100 \<or> conv = 105 then conv_signed fw k sp l ap
      else if conv = 117 \<or> conv = 111 \<or> conv = 120 \<or> conv = 88 then conv_unsigned fw k conv sp l ap
      else if conv = 99 then conv_char fw k sp ap
      else if conv = 115 then conv_string fw k sp ap
      else if conv = 112 then conv_pointer fw k sp ap
      else if conv = 110 then conv_count k ap
      else if conv = 102 \<or> conv = 70 \<or> conv = 101 \<or> conv = 69 \<or> conv = 103 \<or> conv = 71
      then do { (x, ap) \<leftarrow> va_arg ap; k \<leftarrow> emit_float fw k x conv sp; Some (k, ap) }
      else do { k \<leftarrow> sink_bytes fw k [37];
                if conv \<noteq> 0 then do { k \<leftarrow> sink_bytes fw k [conv]; Some (k, ap) }
                else Some (k, ap) })"

text \<open>
  One directive from behind its \<open>%\<close>: the sink, the address after it and the arguments
  left. When the string ends inside a directive \<open>p--\<close> goes back to its terminator.
\<close>

definition fmt_directive ::
    "'s fwrite \<Rightarrow> 's sink \<Rightarrow> nat \<Rightarrow> u64 list \<Rightarrow> ('s sink \<times> nat \<times> u64 list) option" where
  "fmt_directive fw k p ap =
     do { (sp, l, p, ap) \<leftarrow> fmt_spec (sk_mem k) p ap;
          conv \<leftarrow> sk_mem k p;
          (k, ap) \<leftarrow> fmt_conv fw k conv sp l ap;
          Some (k, if conv = 0 then p else p + 1, ap) }"

text \<open>The body of the loop at a character that is not the terminator.\<close>

definition fmt_step ::
    "'s fwrite \<Rightarrow> 's sink \<Rightarrow> nat \<Rightarrow> u64 list \<Rightarrow> ('s sink \<times> nat \<times> u64 list) option" where
  "fmt_step fw k p ap =
     do { c \<leftarrow> sk_mem k p;
          if c \<noteq> 37
          then do { q \<leftarrow> fmt_run (sk_mem k) p;
                    bs \<leftarrow> ldn (sk_mem k) p (q - p);
                    k \<leftarrow> sink_bytes fw k bs;
                    Some (k, q, ap) }
          else do { c \<leftarrow> sk_mem k (p + 1);
                    if c = 37 then do { k \<leftarrow> sink_bytes fw k [37]; Some (k, p + 2, ap) }
                    else fmt_directive fw k (p + 1) ap } }"

partial_function (option) fmt_loop ::
    "'s fwrite \<Rightarrow> 's sink \<Rightarrow> nat \<Rightarrow> u64 list \<Rightarrow> 's sink option" where
  [code]: "fmt_loop fw k p ap =
     do { c \<leftarrow> sk_mem k p;
          if c = 0 then Some k
          else do { (k, p, ap) \<leftarrow> fmt_step fw k p ap; fmt_loop fw k p ap } }"

definition vformat ::
    "'s fwrite \<Rightarrow> 's sink \<Rightarrow> nat \<Rightarrow> u64 list \<Rightarrow> (int \<times> 's sink) option" where
  "vformat fw k fmt ap =
     do { k \<leftarrow> fmt_loop fw k fmt ap;
          Some (if sk_failed k then - 1 else wrap_s32 (int (sk_want k)), k) }"

section \<open>The public face\<close>

definition vfprintf ::
    "'s fwrite \<Rightarrow> mem \<Rightarrow> 's \<Rightarrow> nat \<Rightarrow> u64 list \<Rightarrow> (int \<times> 's sink) option" where
  "vfprintf fw m f fmt ap =
     vformat fw \<lparr>sk_mem = m, sk_out = 0, sk_cap = 0, sk_want = 0, sk_stream = Some f,
                 sk_failed = False\<rparr> fmt ap"

text \<open>Output to memory: there is no stream, so the stream type is \<open>unit\<close>.\<close>

definition no_fwrite :: "unit fwrite" where
  "no_fwrite st p = None"

definition vsnprintf :: "mem \<Rightarrow> nat \<Rightarrow> nat \<Rightarrow> nat \<Rightarrow> u64 list \<Rightarrow> (int \<times> mem) option" where
  "vsnprintf m out cap fmt ap =
     do { (r, k) \<leftarrow> vformat no_fwrite
            \<lparr>sk_mem = m, sk_out = out, sk_cap = (if cap \<noteq> 0 then cap - 1 else 0), sk_want = 0,
             sk_stream = None, sk_failed = False\<rparr> fmt ap;
          if out \<noteq> 0 \<and> cap \<noteq> 0
          then let e = (if sk_want k < cap - 1 then sk_want k else cap - 1)
               in do { m' \<leftarrow> st8 (sk_mem k) (out + e) 0; Some (r, m') }
          else Some (r, sk_mem k) }"

definition snprintf :: "mem \<Rightarrow> nat \<Rightarrow> nat \<Rightarrow> nat \<Rightarrow> u64 list \<Rightarrow> (int \<times> mem) option" where
  "snprintf m out cap fmt ap = vsnprintf m out cap fmt ap"

definition vsprintf :: "mem \<Rightarrow> nat \<Rightarrow> nat \<Rightarrow> u64 list \<Rightarrow> (int \<times> mem) option" where
  "vsprintf m out fmt ap = vsnprintf m out (2 ^ 40) fmt ap"

definition sprintf :: "mem \<Rightarrow> nat \<Rightarrow> nat \<Rightarrow> u64 list \<Rightarrow> (int \<times> mem) option" where
  "sprintf m out fmt ap = vsnprintf m out (2 ^ 40) fmt ap"

end
