(* ===== verification/Printf.thy ===== *)
theory Printf
  imports RtFormat
begin

text \<open>
  What the printf engine promises. The sink laws reduce every emitter to one write of its
  text; \<open>pad_text\<close> and \<open>conv_text\<close> are the text of a field and of a conversion; the
  frame theorem bounds what any format string can touch; the last section shows the
  engine on a well-formed format string to be the concatenation of the texts of its items.
\<close>

section \<open>The sink\<close>

lemma stn_append: "stn m p (a @ b) = do { m \<leftarrow> stn m p a; stn m (p + length a) b }"
  by (induction a arbitrary: m p) (auto simp: Option.bind_assoc)

lemma sink_mem:
  "sk_stream k = None \<Longrightarrow> sink_bytes fw k p =
   do { m \<leftarrow> (if sk_out k \<noteq> 0
             then stn (sk_mem k) (sk_out k + sk_want k) (take (sk_cap k - sk_want k) p)
             else Some (sk_mem k));
        Some (k\<lparr>sk_mem := m, sk_want := sk_want k + length p\<rparr>) }"
proof -
  assume s: "sk_stream k = None"
  have "take (if length p < r then length p else r) p = take r p" for r by simp
  then show ?thesis
    using s by (cases "sk_want k < sk_cap k")
      (auto simp: sink_bytes_def Let_def not_less Option.bind_assoc cong: if_cong)
qed

lemma sink_Nil [simp]: "sk_stream k = None \<Longrightarrow> sink_bytes fw k [] = Some k"
  by (simp add: sink_mem)

lemma sink_append:
  "sk_stream k = None \<Longrightarrow>
   sink_bytes fw k (a @ b) = do { k \<leftarrow> sink_bytes fw k a; sink_bytes fw k b }"
proof -
  assume s: "sk_stream k = None"
  let ?n = "sk_cap k - sk_want k" and ?q = "sk_out k + sk_want k"
  have second: "sink_bytes fw (k\<lparr>sk_mem := m, sk_want := sk_want k + length a\<rparr>) b =
     do { m \<leftarrow> (if sk_out k \<noteq> 0 then stn m (?q + length a) (take (?n - length a) b) else Some m);
          Some (k\<lparr>sk_mem := m, sk_want := sk_want k + length (a @ b)\<rparr>) }" for m
    using s by (simp add: sink_mem add.assoc diff_diff_left)
  have two: "stn m ?q (take ?n (a @ b)) =
      do { m \<leftarrow> stn m ?q (take ?n a); stn m (?q + length a) (take (?n - length a) b) }" for m
    by (cases "length a \<le> ?n") (simp_all add: stn_append)
  show ?thesis
    unfolding sink_mem [OF s, of fw a] sink_mem [OF s, of fw "a @ b"] Option.bind_assoc bind.bind_lunit second two
    by (cases "sk_out k = 0") (simp_all add: Option.bind_assoc)
qed

lemma sink_stream_kept: "sink_bytes fw k p = Some k' \<Longrightarrow> sk_stream k = None \<Longrightarrow>
  sk_stream k' = None \<and> sk_out k' = sk_out k \<and> sk_cap k' = sk_cap k \<and>
  sk_want k' = sk_want k + length p \<and> sk_failed k' = sk_failed k"
  by (auto simp: sink_mem bind_eq_Some)

text \<open>
  \<open>emits fw k t r\<close>: \<open>r\<close> is what writing the text \<open>t\<close> to the sink \<open>k\<close> gives, in some pieces.
  In memory the pieces do not matter.
\<close>

primrec sink_all :: "'s fwrite \<Rightarrow> 's sink \<Rightarrow> u8 list list \<Rightarrow> 's sink option" where
  "sink_all fw k [] = Some k"
| "sink_all fw k (p # ps) = do { k \<leftarrow> sink_bytes fw k p; sink_all fw k ps }"

definition emits :: "'s fwrite \<Rightarrow> 's sink \<Rightarrow> u8 list \<Rightarrow> 's sink option \<Rightarrow> bool" where
  "emits fw k t r \<longleftrightarrow> (\<exists>ps. concat ps = t \<and> r = sink_all fw k ps)"

lemma sink_all_append: "sink_all fw k (ps @ qs) = sink_all fw k ps \<bind> (\<lambda>k. sink_all fw k qs)"
  by (induction ps arbitrary: k) (simp_all add: Option.bind_assoc)

lemma emits_one: "emits fw k t (sink_bytes fw k t)"
  unfolding emits_def by (rule exI [of _ "[t]"]) simp

lemma emits_none: "emits fw k [] (Some k)"
  unfolding emits_def by (rule exI [of _ "[]"]) simp

lemma emits_bind:
  assumes "emits fw k a r" and "\<And>k'. r = Some k' \<Longrightarrow> emits fw k' b (g k')"
  shows "emits fw k (a @ b) (r \<bind> g)"
proof -
  obtain ps where ps: "concat ps = a" "r = sink_all fw k ps" using assms(1) by (auto simp: emits_def)
  show ?thesis
  proof (cases r)
    case None
    then show ?thesis unfolding emits_def using ps by (intro exI [of _ "ps @ [b]"]) (simp add: sink_all_append)
  next
    case (Some k')
    then obtain qs where "concat qs = b" "g k' = sink_all fw k' qs" using assms(2) by (auto simp: emits_def)
    then have "r \<bind> g = sink_all fw k (ps @ qs)" unfolding sink_all_append ps(2) [symmetric] by (simp add: Some)
    then show ?thesis unfolding emits_def using ps(1) \<open>concat qs = b\<close> by (intro exI [of _ "ps @ qs"]) simp
  qed
qed

lemma emits_if:
  "(c \<Longrightarrow> emits fw k a r) \<Longrightarrow> emits fw k (if c then a else []) (if c then r else Some k)"
  by (simp add: emits_none)

lemma emits_cond:
  "emits fw k a r \<Longrightarrow> emits fw k b s \<Longrightarrow> emits fw k (if c then a else b) (if c then r else s)"
  by simp

lemma emits_mem:
  assumes "emits fw k t r" and "sk_stream k = None"
  shows "r = sink_bytes fw k t"
proof -
  have "sk_stream k = None \<Longrightarrow> sink_all fw k ps = sink_bytes fw k (concat ps)" for ps
  proof (induction ps arbitrary: k)
    case (Cons p ps)
    then show ?case by (cases "sink_bytes fw k p") (auto simp: sink_append dest: sink_stream_kept)
  qed simp
  then show ?thesis using assms by (auto simp: emits_def)
qed

lemma emits_ch: "emits fw k (replicate n c) (sink_ch fw k c n)"
proof (induction fw k c n rule: sink_ch.induct)
  case (1 fw k c n)
  show ?case
  proof (cases "n = 0")
    case False
    define t where "t = (if n < 32 then n else 32)"
    have "t + (n - t) = n" by (simp add: t_def)
    then have "replicate n c = replicate t c @ replicate (n - t) c"
      by (metis replicate_add)
    moreover have "emits fw k (replicate t c @ replicate (n - t) c)
        (sink_bytes fw k (replicate t c) \<bind> (\<lambda>k. sink_ch fw k c (n - t)))"
      using "1.IH" [OF False t_def] by (intro emits_bind emits_one)
    ultimately show ?thesis using False by (subst sink_ch.simps) (simp add: t_def [symmetric] Let_def)
  qed (simp add: sink_ch.simps emits_none)
qed

section \<open>A padded field\<close>

definition opt_ch :: "u8 \<Rightarrow> u8 list" where
  "opt_ch c = (if c \<noteq> 0 then [c] else [])"

definition pad_text :: "u8 \<Rightarrow> u8 \<Rightarrow> u8 \<Rightarrow> u8 list \<Rightarrow> spec \<Rightarrow> int \<Rightarrow> u8 list" where
  "pad_text sign a b body sp digits =
     (let head = opt_ch sign @ opt_ch a @ opt_ch b;
          tail = replicate (nat digits - length body) 48 @ body;
          fill = nat (sp_width sp) - length (head @ tail)
      in if sp_flags sp AND FL_MINUS \<noteq> 0 then head @ tail @ replicate fill 32
         else if sp_flags sp AND FL_ZERO \<noteq> 0 \<and> digits < 0 then head @ replicate fill 48 @ tail
         else replicate fill 32 @ head @ tail)"

lemma emits_opt: "emits fw k (opt_ch c) (sink_opt fw k c)"
  by (simp add: sink_opt_def opt_ch_def emits_none emits_one)

lemmas emits_seq = emits_bind emits_if emits_ch emits_opt emits_one

lemma emit_padded_emits:
  assumes ab: "a = 0 \<Longrightarrow> b = 0"
  shows "emits fw k (pad_text sign a b body sp zp) (emit_padded fw k sign a b body sp zp)"
proof -
  let ?z = "nat zp - length body"
  define left where "left \<longleftrightarrow> sp_flags sp AND FL_MINUS \<noteq> 0"
  define w where "w = nat (sp_width sp)"
  define core where "core = length (opt_ch sign @ opt_ch a @ opt_ch b) + length body + ?z"
  have core': "(if sign \<noteq> 0 then 1 else 0) + (if a \<noteq> 0 then if b \<noteq> 0 then 2 else 1 else 0) +
      length body + ?z = core"
    using ab by (auto simp: core_def opt_ch_def)
  have z': "(if zp > 0 \<and> nat zp > length body then nat zp - length body else 0) = ?z" by auto
  have w': "(if sp_width sp > 0 then nat (sp_width sp) else 0) = w" by (simp add: w_def)
  have fill: "nat (sp_width sp) -
      length ((opt_ch sign @ opt_ch a @ opt_ch b) @ replicate ?z 48 @ body) = w - core"
    by (simp add: core_def w_def)
  have plain: "emits fw k ((if \<not> left \<and> w > core then replicate (w - core) 32 else []) @
        (opt_ch sign @ opt_ch a @ opt_ch b) @ replicate ?z 48 @ body @
        (if left \<and> w > core then replicate (w - core) 32 else []))
      (do { k \<leftarrow> (if \<not> left \<and> w > core then sink_ch fw k 32 (w - core) else Some k);
           k \<leftarrow> do { k \<leftarrow> sink_opt fw k sign; k \<leftarrow> sink_opt fw k a; sink_opt fw k b };
           k \<leftarrow> sink_ch fw k 48 ?z; k \<leftarrow> sink_bytes fw k body;
           if left \<and> w > core then sink_ch fw k 32 (w - core) else Some k })"
    by (intro emits_seq)
  have zero: "emits fw k ((opt_ch sign @ opt_ch a @ opt_ch b) @ replicate (w - core) 48 @ replicate ?z 48 @ body)
      (do { k \<leftarrow> do { k \<leftarrow> sink_opt fw k sign; k \<leftarrow> sink_opt fw k a; sink_opt fw k b };
           k \<leftarrow> sink_ch fw k 48 (w - core); k \<leftarrow> sink_ch fw k 48 ?z; sink_bytes fw k body })"
    by (intro emits_seq)
  have shape: "pad_text sign a b body sp zp =
      (if \<not> left \<and> w > core \<and> sp_flags sp AND FL_ZERO \<noteq> 0 \<and> zp < 0
       then (opt_ch sign @ opt_ch a @ opt_ch b) @ replicate (w - core) 48 @ replicate ?z 48 @ body
       else (if \<not> left \<and> w > core then replicate (w - core) 32 else []) @
         (opt_ch sign @ opt_ch a @ opt_ch b) @ replicate ?z 48 @ body @
         (if left \<and> w > core then replicate (w - core) 32 else []))"
    unfolding pad_text_def Let_def fill left_def by auto
  show ?thesis
    unfolding emit_padded_def Let_def z' w' core' left_def [symmetric] shape by (rule emits_cond [OF zero plain])
qed

lemma emit_padded_mem:
  "sk_stream k = None \<Longrightarrow> (a = 0 \<Longrightarrow> b = 0) \<Longrightarrow>
   emit_padded fw k sign a b body sp zp = sink_bytes fw k (pad_text sign a b body sp zp)"
  by (rule emits_mem [OF emit_padded_emits])

lemma length_pad_text: "length (pad_text sign a b body sp zp) =
  max (nat (sp_width sp)) (length (opt_ch sign @ opt_ch a @ opt_ch b) + max (nat zp) (length body))"
  by (auto simp: pad_text_def Let_def max_def)

section \<open>The text of a number\<close>

text \<open>Positional notation, most significant digit first, written without the code's buffer.\<close>

function base_text :: "bool \<Rightarrow> nat \<Rightarrow> nat \<Rightarrow> u8 list" where
  "base_text upper b n =
     (if n < b \<or> b < 2 then [hex_digits upper ! n]
      else base_text upper b (n div b) @ [hex_digits upper ! (n mod b)])"
  by pat_completeness auto
termination
  by (relation "measure (\<lambda>(upper, b, n). n)") (auto intro!: div_less_dividend)

declare base_text.simps [simp del]

lemma rt_utoa_loop_text:
  "2 \<le> unat base \<Longrightarrow> v \<noteq> 0 \<Longrightarrow>
   rt_utoa_loop v base upper out = base_text upper (unat base) (unat v) @ out"
proof (induction v base upper out rule: rt_utoa_loop.induct)
  case (1 v base upper out)
  let ?c = "hex_digits upper ! unat (v mod base)"
  have b: "base > 1" using "1.prems" by (simp add: word_less_nat_alt)
  have step: "rt_utoa_loop v base upper out = rt_utoa_loop (v div base) base upper (?c # out)"
    using "1.prems" b by (subst rt_utoa_loop.simps) simp
  have m: "unat (v mod base) = unat v mod unat base" by (simp add: unat_mod_distrib)
  have d: "unat (v div base) = unat v div unat base" by (simp add: unat_div_distrib)
  show ?case
  proof (cases "v div base = 0")
    case True
    then have "unat v div unat base = 0" by (simp flip: d)
    then have "unat v < unat base" using "1.prems" by (auto simp: div_eq_0_iff)
    moreover have "rt_utoa_loop 0 base upper (?c # out) = ?c # out" by (subst rt_utoa_loop.simps) simp
    ultimately show ?thesis using True m by (simp add: step base_text.simps)
  next
    case False
    then have "0 < unat v div unat base" by (simp add: unat_gt_0 flip: d)
    then have "\<not> unat v < unat base" by auto
    moreover have "rt_utoa_loop (v div base) base upper (?c # out) =
        base_text upper (unat base) (unat v div unat base) @ ?c # out"
      using "1.IH" [OF _ "1.prems"(1) False] "1.prems" b d by simp
    ultimately show ?thesis using "1.prems" m by (subst base_text.simps) (simp add: step)
  qed
qed

lemma rt_utoa_text:
  "2 \<le> unat base \<Longrightarrow> rt_utoa v base upper = base_text upper (unat base) (unat v)"
proof (cases "v = 0")
  case True
  assume "2 \<le> unat base"
  moreover have "hex_digits upper ! 0 = 48" by (simp add: hex_digits_def)
  ultimately show ?thesis using True by (subst base_text.simps) (simp add: rt_utoa_def)
qed (simp add: rt_utoa_def rt_utoa_loop_text)

section \<open>The text of a conversion\<close>

definition digits_arg :: "spec \<Rightarrow> int" where
  "digits_arg sp = (if sp_prec sp \<ge> 0 then sp_prec sp else - 1)"

definition sign_ch :: "spec \<Rightarrow> bool \<Rightarrow> u8" where
  "sign_ch sp neg =
     (if neg then 45 else if sp_flags sp AND FL_PLUS \<noteq> 0 then 43
      else if sp_flags sp AND FL_SPACE \<noteq> 0 then 32 else 0)"

definition signed_text :: "spec \<Rightarrow> int \<Rightarrow> u8 list" where
  "signed_text sp v =
     pad_text (sign_ch sp (v < 0)) 0 0 (base_text False 10 (nat \<bar>v\<bar>)) (no_zero sp) (digits_arg sp)"

definition unsigned_text :: "u8 \<Rightarrow> spec \<Rightarrow> nat \<Rightarrow> u8 list" where
  "unsigned_text conv sp n =
     (let alt = sp_flags sp AND FL_HASH \<noteq> 0 \<and> n \<noteq> 0
      in pad_text 0 (if alt \<and> conv \<noteq> 117 then 48 else 0)
           (if alt \<and> (conv = 120 \<or> conv = 88) then conv else 0)
           (base_text (conv = 88) (if conv = 117 then 10 else if conv = 111 then 8 else 16) n)
           (no_zero sp) (digits_arg sp))"

definition cut_text :: "spec \<Rightarrow> u8 list \<Rightarrow> u8 list" where
  "cut_text sp s = (if sp_prec sp \<ge> 0 then take (nat (sp_prec sp)) s else s)"

definition string_arg :: "mem \<Rightarrow> u64 \<Rightarrow> u8 list option" where
  "string_arg m x =
     (if x = 0 then Some (lit ''(null)'')
      else do { n \<leftarrow> strlen m (unat x); ldn m (unat x) n })"

definition float_text :: "u8 \<Rightarrow> spec \<Rightarrow> u64 \<Rightarrow> u8 list option" where
  "float_text conv sp x =
     (let upper = conv \<in> {69, 70, 71};
          (cls, neg, fin) = rt_unpack x
      in case fin of
           None \<Rightarrow> Some (pad_text (sign_ch sp neg) 0 0
             (if cls = 2 then if upper then lit ''NAN'' else lit ''nan''
              else if upper then lit ''INF'' else lit ''inf'')
             (sp\<lparr>sp_flags := sp_flags sp AND NOT FL_ZERO\<rparr>) (- 1))
         | Some (m, e2) \<Rightarrow>
             do { body \<leftarrow> float_body m e2 (if upper then conv + 32 else conv) upper
                    (if sp_prec sp \<ge> 0 then nat (sp_prec sp) else 6) (sp_flags sp AND FL_HASH \<noteq> 0);
                  Some (pad_text (sign_ch sp neg) 0 0 body sp (- 1)) })"

text \<open>The text of one conversion and the arguments left; \<open>%n\<close> and unknown ones have none.\<close>

definition conv_text ::
    "mem \<Rightarrow> u8 \<Rightarrow> spec \<Rightarrow> lenmod \<Rightarrow> u64 list \<Rightarrow> (u8 list \<times> u64 list) option" where
  "conv_text m conv sp l ap =
     do { (x, ap) \<leftarrow> va_arg ap;
          t \<leftarrow> (if conv \<in> {100, 105} then Some (signed_text sp (signed_arg l x))
               else if conv \<in> {117, 111, 120, 88}
               then Some (unsigned_text conv sp (unat (unsigned_arg l x)))
               else if conv = 99 then Some (pad_text 0 0 0 [ucast x] sp (- 1))
               else if conv = 115
               then do { s \<leftarrow> string_arg m x; Some (pad_text 0 0 0 (cut_text sp s) sp (- 1)) }
               else if conv = 112 then Some (pad_text 0 0 0 (base_text True 16 (unat x)) sp 16)
               else if conv \<in> {102, 70, 101, 69, 103, 71} then float_text conv sp x
               else None);
          Some (t, ap) }"

lemma signed_arg_range: "- (2 ^ 63) \<le> signed_arg l x \<and> signed_arg l x < 2 ^ 63"
proof -
  have s: "- (2 ^ n) \<le> signed_take_bit n v \<and> signed_take_bit n v < 2 ^ n" for n and v :: int
    by (simp add: signed_take_bit_int_greater_eq_minus_exp signed_take_bit_int_less_exp)
  have "- (2 ^ 63) \<le> sint x" "sint x < 2 ^ 63"
    using sint_greater_eq [of x] sint_less [of x] by simp_all
  then show ?thesis
    using s [of 31 "sint x"] s [of 15 "sint x"] s [of 7 "sint x"] s [of 15 "wrap_s32 (sint x)"]
      s [of 7 "wrap_s32 (sint x)"]
    by (simp add: signed_arg_def Let_def)
qed

lemma unat_word_of_int_small: "0 \<le> v \<Longrightarrow> v < 2 ^ 64 \<Longrightarrow> unat (word_of_int v :: u64) = nat v"
  by (simp add: unsigned_of_int take_bit_int_eq_self)

lemma magnitude:
  "- (2 ^ 63) \<le> v \<Longrightarrow> v < 2 ^ 63 \<Longrightarrow>
   unat (if v < 0 then word_of_int (- (v + 1)) + 1 else word_of_int v :: u64) = nat \<bar>v\<bar>"
proof (cases "v < 0")
  case True
  assume "- (2 ^ 63) \<le> v"
  then have "unat (word_of_int (- v) :: u64) = nat (- v)"
    using True by (intro unat_word_of_int_small) simp_all
  moreover have "word_of_int (- (v + 1)) + 1 = (word_of_int (- v) :: u64)" by simp
  ultimately have "unat (word_of_int (- (v + 1)) + 1 :: u64) = nat (- v)" by (simp only:)
  then show ?thesis using True by (simp only: if_True abs_if)
qed (simp add: unat_word_of_int_small)

lemma wrap_s32_char: "(word_of_int (wrap_s32 (uint (x :: u64))) :: u8) = ucast x"
  by (rule bit_word_eqI) (simp add: bit_simps)

lemma conv_unsigned_emits:
  assumes c: "conv = 117 \<or> conv = 111 \<or> conv = 120 \<or> conv = 88"
  shows "\<exists>r. emits fw k (unsigned_text conv sp (unat (unsigned_arg l x))) r \<and>
    conv_unsigned fw k conv sp l (x # ap) = do { k \<leftarrow> r; Some (k, ap) }"
proof -
  define v where "v = unsigned_arg l x"
  define alt where "alt \<longleftrightarrow> sp_flags sp AND FL_HASH \<noteq> 0 \<and> v \<noteq> 0"
  define pa where "pa = (if alt \<and> conv \<noteq> 117 then 48 else 0 :: u8)"
  define pb where "pb = (if alt \<and> (conv = 120 \<or> conv = 88) then conv else 0)"
  define base where "base = (if conv = 117 then 10 else if conv = 111 then 8 else 16 :: u64)"
  have p: "(if sp_flags sp AND FL_HASH \<noteq> 0 \<and> v \<noteq> 0
      then if conv = 120 then (48, 120) else if conv = 88 then (48, 88)
           else if conv = 111 then (48, 0) else (0, 0) else (0, 0)) = (pa, pb)"
    using c unfolding alt_def [symmetric] pa_def pb_def by (elim disjE) simp_all
  have "conv_unsigned fw k conv sp l (x # ap) =
      do { k \<leftarrow> emit_padded fw k 0 pa pb (rt_utoa v base (conv = 88)) (no_zero sp) (digits_arg sp);
           Some (k, ap) }"
    unfolding conv_unsigned_def Let_def va_arg.simps bind.bind_lunit prod.case
      v_def [symmetric] p base_def [symmetric] digits_arg_def ..
  moreover have "pa = 0 \<Longrightarrow> pb = 0" by (simp add: pa_def pb_def split: if_splits)
  moreover have "rt_utoa v base (conv = 88) = base_text (conv = 88)
      (if conv = 117 then 10 else if conv = 111 then 8 else 16) (unat v)"
    by (subst rt_utoa_text) (simp_all add: base_def)
  moreover have "unat v \<noteq> 0 \<longleftrightarrow> v \<noteq> 0" by (simp add: unat_eq_zero)
  then have "unsigned_text conv sp (unat (unsigned_arg l x)) = pad_text 0 pa pb (base_text (conv = 88)
      (if conv = 117 then 10 else if conv = 111 then 8 else 16) (unat v)) (no_zero sp) (digits_arg sp)"
    by (simp only: unsigned_text_def Let_def pa_def pb_def alt_def v_def)
  ultimately show ?thesis using emit_padded_emits [of pa pb] by metis
qed

lemma conv_signed_emits:
  "\<exists>r. emits fw k (signed_text sp (signed_arg l x)) r \<and>
    conv_signed fw k sp l (x # ap) = do { k \<leftarrow> r; Some (k, ap) }"
proof -
  define v where "v = signed_arg l x"
  define uv :: u64 where "uv = (if v < 0 then word_of_int (- (v + 1)) + 1 else word_of_int v)"
  have uv: "unat uv = nat \<bar>v\<bar>"
    unfolding uv_def v_def using signed_arg_range [of l x] by (intro magnitude) auto
  have p: "(if v < 0 then (45, word_of_int (- (v + 1)) + 1)
      else (if sp_flags sp AND FL_PLUS \<noteq> 0 then 43
            else if sp_flags sp AND FL_SPACE \<noteq> 0 then 32 else 0, word_of_int v)) =
      (sign_ch sp (v < 0), uv)"
    by (simp only: sign_ch_def uv_def split: if_split) blast
  have "conv_signed fw k sp l (x # ap) =
      do { k \<leftarrow> emit_padded fw k (sign_ch sp (v < 0)) 0 0 (rt_utoa uv 10 False) (no_zero sp)
             (digits_arg sp);
           Some (k, ap) }"
    unfolding conv_signed_def Let_def va_arg.simps bind.bind_lunit prod.case
      v_def [symmetric] p digits_arg_def ..
  moreover have "rt_utoa uv 10 False = base_text False 10 (nat \<bar>v\<bar>)"
    by (subst rt_utoa_text) (simp_all add: uv)
  ultimately show ?thesis
    by (intro exI [of _ "emit_padded fw k (sign_ch sp (v < 0)) 0 0 (base_text False 10 (nat \<bar>v\<bar>)) (no_zero sp) (digits_arg sp)"])
      (simp add: emit_padded_emits signed_text_def v_def)
qed

lemma emit_float_emits:
  assumes conv: "conv \<in> {102, 70, 101, 69, 103, 71}"
  shows "case float_text conv sp x of None \<Rightarrow> emit_float fw k x conv sp = None
    | Some t \<Rightarrow> emits fw k t (emit_float fw k x conv sp)"
proof -
  obtain cls neg fin where u: "rt_unpack x = (cls, neg, fin)" by (cases "rt_unpack x")
  have up: "(conv = 69 \<or> conv = 70 \<or> conv = 71) = (conv \<in> {69, 70, 71})" by simp
  have pr: "nat (if sp_prec sp \<ge> 0 then sp_prec sp else 6) =
      (if sp_prec sp \<ge> 0 then nat (sp_prec sp) else 6)" by simp
  show ?thesis
  proof (cases fin)
    case None
    show ?thesis
      unfolding emit_float_def float_text_def Let_def u prod.case up pr sign_ch_def [symmetric] None option.case
      by (rule emit_padded_emits) simp
  next
    case (Some me)
    obtain m e2 where me: "me = (m, e2)" by fastforce
    define body where "body = float_body m e2 (if conv \<in> {69, 70, 71} then conv + 32 else conv) (conv \<in> {69, 70, 71})
      (if sp_prec sp \<ge> 0 then nat (sp_prec sp) else 6) (sp_flags sp AND FL_HASH \<noteq> 0)"
    show ?thesis
      unfolding emit_float_def float_text_def Let_def u prod.case up pr sign_ch_def [symmetric] Some me option.case
        body_def [symmetric]
      by (cases body) (simp_all add: emit_padded_emits)
  qed
qed

text \<open>A conversion writes its text and takes its argument.\<close>

lemma fmt_conv_emits:
  assumes t: "conv_text (sk_mem k) conv sp l ap = Some (t, ap')"
  shows "\<exists>r. emits fw k t r \<and> fmt_conv fw k conv sp l ap = do { k \<leftarrow> r; Some (k, ap') }"
proof -
  obtain x where ap: "ap = x # ap'"
    using t by (cases ap) (auto simp: conv_text_def bind_eq_Some)
  consider "conv = 100 \<or> conv = 105" | "conv = 117 \<or> conv = 111 \<or> conv = 120 \<or> conv = 88"
    | "conv = 99" | "conv = 115" | "conv = 112"
    | "conv \<in> {102, 70, 101, 69, 103, 71}"
    using t by (auto simp: conv_text_def ap bind_eq_Some split: if_splits)
  then show ?thesis
  proof cases
    case 1
    then have "fmt_conv fw k conv sp l ap = conv_signed fw k sp l ap" by (auto simp: fmt_conv_def)
    moreover have "t = signed_text sp (signed_arg l x)" using t 1 ap by (auto simp: conv_text_def)
    ultimately show ?thesis using conv_signed_emits ap by (simp only:)
  next
    case 2
    then have "fmt_conv fw k conv sp l ap = conv_unsigned fw k conv sp l ap"
      by (auto simp: fmt_conv_def)
    moreover have "t = unsigned_text conv sp (unat (unsigned_arg l x))"
      using t 2 ap by (auto simp: conv_text_def)
    ultimately show ?thesis using conv_unsigned_emits [OF 2] ap by (simp only:)
  next
    case 3
    then have "fmt_conv fw k conv sp l ap = do { k \<leftarrow> emit_padded fw k 0 0 0 [ucast x] sp (- 1); Some (k, ap') }"
      "t = pad_text 0 0 0 [ucast x] sp (- 1)"
      using t ap by (auto simp: fmt_conv_def conv_text_def conv_char_def va_arg_int_def wrap_s32_char)
    then show ?thesis using emit_padded_emits [of 0 0] by blast
  next
    case 4
    then have c: "fmt_conv fw k conv sp l ap = conv_string fw k sp ap" by (simp add: fmt_conv_def)
    obtain s where s: "string_arg (sk_mem k) x = Some s" "t = pad_text 0 0 0 (cut_text sp s) sp (- 1)"
      using t ap 4 by (auto simp: conv_text_def bind_eq_Some)
    then have "conv_string fw k sp ap = do { k \<leftarrow> emit_padded fw k 0 0 0 (cut_text sp s) sp (- 1); Some (k, ap') }"
      using ap by (auto simp: conv_string_def string_arg_def cut_text_def Let_def bind_eq_Some)
    then show ?thesis unfolding c s(2) using emit_padded_emits [of 0 0] by blast
  next
    case 5
    then have "fmt_conv fw k conv sp l ap =
        do { k \<leftarrow> emit_padded fw k 0 0 0 (base_text True 16 (unat x)) sp 16; Some (k, ap') }"
      "t = pad_text 0 0 0 (base_text True 16 (unat x)) sp 16"
      using t ap by (auto simp: fmt_conv_def conv_text_def conv_pointer_def rt_utoa_text)
    then show ?thesis using emit_padded_emits [of 0 0] by blast
  next
    case 6
    then have "float_text conv sp x = Some t" using t ap by (auto simp: conv_text_def bind_eq_Some)
    moreover have "fmt_conv fw k conv sp l ap = do { k \<leftarrow> emit_float fw k x conv sp; Some (k, ap') }"
      using 6 ap by (auto simp: fmt_conv_def)
    ultimately show ?thesis using emit_float_emits [OF 6, where sp = sp and x = x and fw = fw and k = k] by auto
  qed
qed

text \<open>In memory, where the pieces do not matter.\<close>

lemma conv_unsigned_text:
  assumes "sk_stream k = None" and "conv = 117 \<or> conv = 111 \<or> conv = 120 \<or> conv = 88"
  shows "conv_unsigned fw k conv sp l (x # ap) =
    do { k \<leftarrow> sink_bytes fw k (unsigned_text conv sp (unat (unsigned_arg l x))); Some (k, ap) }"
  using conv_unsigned_emits [OF assms(2)] emits_mem [OF _ assms(1)] by metis

lemma conv_signed_text:
  assumes "sk_stream k = None"
  shows "conv_signed fw k sp l (x # ap) =
    do { k \<leftarrow> sink_bytes fw k (signed_text sp (signed_arg l x)); Some (k, ap) }"
  using conv_signed_emits emits_mem [OF _ assms] by metis

lemma emit_float_text:
  assumes "sk_stream k = None" and "conv \<in> {102, 70, 101, 69, 103, 71}"
  shows "emit_float fw k x conv sp = do { t \<leftarrow> float_text conv sp x; sink_bytes fw k t }"
  using emit_float_emits [OF assms(2), where sp = sp and x = x and fw = fw and k = k] emits_mem [OF _ assms(1)]
  by (cases "float_text conv sp x") auto

section \<open>What a format can touch\<close>

lemma stn_Some: "stn m p bs = Some m' \<longleftrightarrow> mapped m p (length bs) \<and> m' = put_bytes m p bs"
proof (induction bs arbitrary: m p)
  case (Cons b bs)
  have "mapped (put8 m p b) (Suc p) n \<longleftrightarrow> mapped m (Suc p) n" for n
    by (simp add: mapped_def put8_apply)
  then show ?case using Cons by (auto simp: st8_def bind_eq_Some put_bytes_Cons)
qed auto

text \<open>
  One conversion either writes a text to the sink or, for \<open>%n\<close>, four bytes through a
  pointer argument.
\<close>

lemma fmt_conv_effect:
  assumes k: "sk_stream k = None" and r: "fmt_conv fw k conv sp l ap = Some (k', ap')"
  shows "set ap' \<subseteq> set ap \<and>
    ((\<exists>t. sink_bytes fw k t = Some k') \<or>
     (\<exists>x\<in>set ap. \<exists>bs m. length bs = 4 \<and> stn (sk_mem k) (unat x) bs = Some m \<and>
        k' = k\<lparr>sk_mem := m\<rparr>) \<or> k' = k)"
proof (cases "conv \<in> {100, 105, 117, 111, 120, 88, 99, 115, 112, 110, 102, 70, 101, 69, 103, 71}")
  case False
  then have "fmt_conv fw k conv sp l ap =
      do { k \<leftarrow> sink_bytes fw k [37];
           if conv \<noteq> 0 then do { k \<leftarrow> sink_bytes fw k [conv]; Some (k, ap) } else Some (k, ap) }"
    by (simp add: fmt_conv_def)
  moreover have "sink_bytes fw k ([37] @ [conv]) =
      do { k \<leftarrow> sink_bytes fw k [37]; sink_bytes fw k [conv] }" using k by (rule sink_append)
  ultimately have e: "fmt_conv fw k conv sp l ap =
      do { k \<leftarrow> sink_bytes fw k (if conv \<noteq> 0 then [37] @ [conv] else [37]); Some (k, ap) }"
    by (cases "sink_bytes fw k [37]") auto
  show ?thesis using r unfolding e bind_eq_Some by blast
next
  case True
  obtain x ap1 where ap: "ap = x # ap1"
    using r True by (cases ap)
      (auto simp: fmt_conv_def conv_signed_def conv_unsigned_def conv_char_def conv_string_def
        conv_pointer_def conv_count_def va_arg_int_def)
  note emit = emit_padded_mem [OF k]
  consider "conv = 100 \<or> conv = 105" | "conv = 117 \<or> conv = 111 \<or> conv = 120 \<or> conv = 88"
    | "conv = 99" | "conv = 115" | "conv = 112" | "conv = 110"
    | "conv \<in> {102, 70, 101, 69, 103, 71}"
    using True by auto
  then show ?thesis
  proof cases
    case 1
    then have "fmt_conv fw k conv sp l ap = conv_signed fw k sp l ap" by (auto simp: fmt_conv_def)
    then show ?thesis using r conv_signed_text [OF k, of fw sp l x ap1] ap by (auto simp: bind_eq_Some)
  next
    case 2
    then have "fmt_conv fw k conv sp l ap = conv_unsigned fw k conv sp l ap"
      by (auto simp: fmt_conv_def)
    then show ?thesis using r conv_unsigned_text [OF k 2, of fw sp l x ap1] ap by (auto simp: bind_eq_Some)
  next
    case 3
    then have "fmt_conv fw k conv sp l ap = conv_char fw k sp ap" by (simp add: fmt_conv_def)
    then show ?thesis using r ap by (auto simp: conv_char_def va_arg_int_def emit bind_eq_Some)
  next
    case 4
    then have "fmt_conv fw k conv sp l ap = conv_string fw k sp ap" by (simp add: fmt_conv_def)
    then show ?thesis using r ap by (auto simp: conv_string_def emit Let_def bind_eq_Some)
  next
    case 5
    then have "fmt_conv fw k conv sp l ap = conv_pointer fw k sp ap" by (simp add: fmt_conv_def)
    then show ?thesis using r ap by (auto simp: conv_pointer_def emit bind_eq_Some)
  next
    case 6
    then have "fmt_conv fw k conv sp l ap = conv_count k ap" by (simp add: fmt_conv_def)
    then show ?thesis using r ap
      by (auto simp: conv_count_def bind_eq_Some simp del: bytes_of_u64.simps split: if_splits)
        (metis length_bytes_of_u64)+
  next
    case 7
    then have "fmt_conv fw k conv sp l ap = do { k \<leftarrow> emit_float fw k x conv sp; Some (k, ap1) }"
      using ap by (auto simp: fmt_conv_def)
    then show ?thesis using r ap emit_float_text [OF k 7, of fw x sp] by (auto simp: bind_eq_Some)
  qed
qed

text \<open>The addresses a sink may change under a list of arguments.\<close>

definition may_touch :: "'s sink \<Rightarrow> u64 list \<Rightarrow> nat set" where
  "may_touch k ap =
     (if sk_out k \<noteq> 0 then {sk_out k..<sk_out k + sk_cap k} else {}) \<union>
     (\<Union>x\<in>set ap. {unat x..<unat x + 4})"

definition sink_frame :: "nat set \<Rightarrow> 's sink \<Rightarrow> 's sink \<Rightarrow> bool" where
  "sink_frame A k k' \<longleftrightarrow>
     sk_stream k' = None \<and> sk_out k' = sk_out k \<and> sk_cap k' = sk_cap k \<and>
     sk_failed k' = sk_failed k \<and> dom (sk_mem k') = dom (sk_mem k) \<and>
     (\<forall>a. a \<notin> A \<longrightarrow> sk_mem k' a = sk_mem k a)"

lemma sink_frame_refl: "sk_stream k = None \<Longrightarrow> sink_frame A k k"
  by (simp add: sink_frame_def)

lemma sink_frame_trans: "sink_frame A k k1 \<Longrightarrow> sink_frame A k1 k2 \<Longrightarrow> sink_frame A k k2"
  by (simp add: sink_frame_def)

lemma sink_bytes_frame:
  assumes k: "sk_stream k = None" and s: "sink_bytes fw k t = Some k'"
  shows "sink_frame (may_touch k ap) k k'"
proof (cases "sk_out k = 0")
  case True
  then show ?thesis using k s by (auto simp: sink_mem sink_frame_def)
next
  case False
  define bs where "bs = take (sk_cap k - sk_want k) t"
  have m: "mapped (sk_mem k) (sk_out k + sk_want k) (length bs)"
    and k': "k' = k\<lparr>sk_mem := put_bytes (sk_mem k) (sk_out k + sk_want k) bs,
                    sk_want := sk_want k + length t\<rparr>"
    using k s False by (auto simp: sink_mem bind_eq_Some stn_Some bs_def)
  have "put_bytes (sk_mem k) (sk_out k + sk_want k) bs a = sk_mem k a"
    if "a \<notin> may_touch k ap" for a
  proof -
    have "a < sk_out k \<or> sk_out k + sk_cap k \<le> a" using that False by (auto simp: may_touch_def)
    moreover have "length bs \<le> sk_cap k - sk_want k" by (simp add: bs_def)
    ultimately show ?thesis by (cases "bs = []") (auto intro!: put_bytes_other)
  qed
  then show ?thesis using k k' put_bytes_dom [OF m] by (simp add: sink_frame_def)
qed

lemma count_frame:
  assumes "sk_stream k = None" "x \<in> set ap" "length bs = 4" "stn (sk_mem k) (unat x) bs = Some m"
  shows "sink_frame (may_touch k ap) k (k\<lparr>sk_mem := m\<rparr>)"
proof -
  have m: "mapped (sk_mem k) (unat x) (length bs)" "m = put_bytes (sk_mem k) (unat x) bs"
    using assms(4) by (auto simp: stn_Some)
  have "m a = sk_mem k a" if "a \<notin> may_touch k ap" for a
    unfolding m(2) using that assms(2,3) by (intro put_bytes_other) (auto simp: may_touch_def)
  then show ?thesis using assms(1) put_bytes_dom [OF m(1)] m(2) by (simp add: sink_frame_def)
qed

lemma fmt_conv_frame:
  assumes k: "sk_stream k = None" and r: "fmt_conv fw k conv sp l ap = Some (k', ap')"
  shows "set ap' \<subseteq> set ap \<and> sink_frame (may_touch k ap) k k'"
  using fmt_conv_effect [OF k r] sink_bytes_frame [OF k] count_frame [OF k] sink_frame_refl [OF k]
  by blast

lemma va_arg_int_sub: "va_arg_int ap = Some (w, ap') \<Longrightarrow> set ap' \<subseteq> set ap"
  by (cases ap) (auto simp: va_arg_int_def)

lemma fmt_spec_sub: "fmt_spec m p ap = Some (sp, l, p', ap') \<Longrightarrow> set ap' \<subseteq> set ap"
proof -
  have w: "fmt_width m p fl ap = Some (w, fl', p', ap') \<Longrightarrow> set ap' \<subseteq> set ap" for p fl ap w fl' p' ap'
    using va_arg_int_sub by (fastforce simp: fmt_width_def bind_eq_Some split: if_splits)
  have pr: "fmt_prec m p ap = Some (w, p', ap') \<Longrightarrow> set ap' \<subseteq> set ap" for p ap w p' ap'
    using va_arg_int_sub by (fastforce simp: fmt_prec_def bind_eq_Some split: if_splits)
  show "fmt_spec m p ap = Some (sp, l, p', ap') \<Longrightarrow> set ap' \<subseteq> set ap"
    unfolding fmt_spec_def by (auto simp: bind_eq_Some dest!: w pr)
qed

lemma sink_frame_mono:
  "sink_frame A k k' \<Longrightarrow> A \<subseteq> B \<Longrightarrow> sink_frame B k k'"
  unfolding sink_frame_def by blast

lemma may_touch_mono: "set ap' \<subseteq> set ap \<Longrightarrow> may_touch k ap' \<subseteq> may_touch k ap"
  unfolding may_touch_def by blast

lemma fmt_step_frame:
  assumes k: "sk_stream k = None" and r: "fmt_step fw k p ap = Some (k', p', ap')"
  shows "set ap' \<subseteq> set ap \<and> sink_frame (may_touch k ap) k k'"
proof -
  have dir: "set ap' \<subseteq> set ap \<and> sink_frame (may_touch k ap) k k'"
    if d: "fmt_directive fw k p ap = Some (k', p', ap')" for p
  proof -
    obtain sp l q ap1 conv where s: "fmt_spec (sk_mem k) p ap = Some (sp, l, q, ap1)"
        and c: "fmt_conv fw k conv sp l ap1 = Some (k', ap')"
      using d by (auto simp: fmt_directive_def bind_eq_Some)
    show ?thesis
      using fmt_spec_sub [OF s] fmt_conv_frame [OF k c]
        sink_frame_mono [OF _ may_touch_mono [OF fmt_spec_sub [OF s]]] by blast
  qed
  show ?thesis
    using r dir sink_bytes_frame [OF k]
    by (auto simp: fmt_step_def bind_eq_Some split: if_splits)
qed

lemma fmt_loop_frame:
  "fmt_loop fw k p ap = Some k' \<Longrightarrow> sk_stream k = None \<longrightarrow> sink_frame (may_touch k ap) k k'"
proof (induction rule: fmt_loop.raw_induct [rotated, consumes 1])
  case (1 loop fw k p ap k')
  show ?case
  proof
    assume k: "sk_stream k = None"
    obtain c where c: "sk_mem k p = Some c" using 1(2) by (auto simp: bind_eq_Some)
    show "sink_frame (may_touch k ap) k k'"
    proof (cases "c = 0")
      case True
      then show ?thesis using 1(2) c k by (simp add: sink_frame_refl)
    next
      case False
      then obtain k1 p1 ap1 where s: "fmt_step fw k p ap = Some (k1, p1, ap1)"
          and l: "loop fw k1 p1 ap1 = Some k'"
        using 1(2) c by (auto simp: bind_eq_Some)
      note f = fmt_step_frame [OF k s]
      then have "may_touch k1 ap1 \<subseteq> may_touch k ap"
        by (auto simp: may_touch_def sink_frame_def)
      then have "sink_frame (may_touch k ap) k1 k'"
        using 1(1) [OF l] f sink_frame_mono by (auto simp: sink_frame_def)
      then show ?thesis using f sink_frame_trans by blast
    qed
  qed
qed

definition buf_sink :: "mem \<Rightarrow> nat \<Rightarrow> nat \<Rightarrow> unit sink" where
  "buf_sink m out c = \<lparr>sk_mem = m, sk_out = out, sk_cap = c, sk_want = 0, sk_stream = None,
     sk_failed = False\<rparr>"

lemma vsnprintf_mem:
  assumes "out \<noteq> 0" "cap \<noteq> 0"
  shows "vsnprintf m out cap fmt ap =
    do { k \<leftarrow> fmt_loop no_fwrite (buf_sink m out (cap - 1)) fmt ap;
         m' \<leftarrow> st8 (sk_mem k) (out + min (sk_want k) (cap - 1)) 0;
         Some (if sk_failed k then - 1 else wrap_s32 (int (sk_want k)), m') }"
proof -
  have "(if w < c then w else c) = min w c" for w c :: nat by simp
  then show ?thesis
    using assms by (simp add: vsnprintf_def vformat_def buf_sink_def Let_def Option.bind_assoc del: One_nat_def)
qed

text \<open>
  Whatever the format and the arguments: the output stays inside the buffer, apart from the
  four bytes behind an argument a \<open>%n\<close> may store to, and it is terminated inside it.
\<close>

lemma vsnprintf_frame:
  assumes r: "vsnprintf m out cap fmt ap = Some (r, m')" and out: "out \<noteq> 0" "cap \<noteq> 0"
  shows "dom m' = dom m"
    and "a \<notin> {out..<out + cap} \<Longrightarrow> \<forall>x\<in>set ap. a \<notin> {unat x..<unat x + 4} \<Longrightarrow> m' a = m a"
    and "\<exists>n. r = wrap_s32 (int n) \<and> m' (out + min n (cap - 1)) = Some 0"
proof -
  define k where "k = buf_sink m out (cap - 1)"
  obtain k1 where l: "fmt_loop no_fwrite k fmt ap = Some k1"
      and r1: "r = (if sk_failed k1 then - 1 else wrap_s32 (int (sk_want k1)))"
      and m': "st8 (sk_mem k1) (out + min (sk_want k1) (cap - 1)) 0 = Some m'"
    using r unfolding vsnprintf_mem [OF out] k_def bind_eq_Some by auto
  note k_def = k_def [unfolded buf_sink_def]
  have "sk_stream k = None" by (simp add: k_def)
  then have f: "sink_frame (may_touch k ap) k k1" using fmt_loop_frame [OF l] by simp
  have e: "out + min (sk_want k1) (cap - 1) < out + cap" using out by (auto simp: min_def)
  have d: "m' = put8 (sk_mem k1) (out + min (sk_want k1) (cap - 1)) 0"
      "sk_mem k1 (out + min (sk_want k1) (cap - 1)) \<noteq> None"
    using m' by (auto simp: st8_def split: if_splits)
  show "dom m' = dom m" using f d by (auto simp: sink_frame_def k_def put8_def)
  show "m' a = m a" if "a \<notin> {out..<out + cap}" "\<forall>x\<in>set ap. a \<notin> {unat x..<unat x + 4}"
  proof -
    have "a \<notin> may_touch k ap" using that by (auto simp: may_touch_def k_def)
    moreover have "a \<noteq> out + min (sk_want k1) (cap - 1)" using that e by auto
    ultimately show ?thesis using f d by (simp add: sink_frame_def k_def put8_apply)
  qed
  show "\<exists>n. r = wrap_s32 (int n) \<and> m' (out + min n (cap - 1)) = Some 0"
    using f d r1 by (auto simp: sink_frame_def k_def)
qed

section \<open>Format strings as data\<close>

datatype field = Digits "u8 list" | Star

record directive =
  d_flags :: "u8 list"
  d_width :: field
  d_prec :: "field option"
  d_len :: "u8 list"
  d_conv :: u8

datatype item = Text "u8 list" | Percent | Conv directive

fun field_text :: "field \<Rightarrow> u8 list" where
  "field_text (Digits ds) = ds"
| "field_text Star = [42]"

definition prec_text :: "directive \<Rightarrow> u8 list" where
  "prec_text d = (case d_prec d of None \<Rightarrow> [] | Some f \<Rightarrow> 46 # field_text f)"

definition directive_text :: "directive \<Rightarrow> u8 list" where
  "directive_text d = d_flags d @ field_text (d_width d) @ prec_text d @ d_len d"

fun item_text :: "item \<Rightarrow> u8 list" where
  "item_text (Text bs) = bs"
| "item_text Percent = [37, 37]"
| "item_text (Conv d) = 37 # directive_text d @ [d_conv d]"

definition flag_chars :: "u8 set" where "flag_chars = {45, 43, 32, 35, 48}"
definition len_chars :: "u8 set" where "len_chars = {104, 108, 122, 116, 106, 76}"
definition conv_chars :: "u8 set" where
  "conv_chars = {100, 105, 117, 111, 120, 88, 99, 115, 112, 102, 70, 101, 69, 103, 71}"

fun field_ok :: "field \<Rightarrow> bool" where
  "field_ok (Digits ds) \<longleftrightarrow> decimals ds \<and> dv ds < 2 ^ 31"
| "field_ok Star \<longleftrightarrow> True"

definition directive_ok :: "directive \<Rightarrow> bool" where
  "directive_ok d \<longleftrightarrow>
     set (d_flags d) \<subseteq> flag_chars \<and> field_ok (d_width d) \<and>
     (case d_width d of Digits (c # _) \<Rightarrow> c \<noteq> 48 | _ \<Rightarrow> True) \<and>
     (case d_prec d of None \<Rightarrow> True | Some f \<Rightarrow> field_ok f) \<and>
     set (d_len d) \<subseteq> len_chars \<and> d_conv d \<in> conv_chars"

definition flag_bit :: "u8 \<Rightarrow> u32" where
  "flag_bit c = (if c = 45 then FL_MINUS else if c = 43 then FL_PLUS else if c = 32 then FL_SPACE
     else if c = 35 then FL_HASH else FL_ZERO)"

fun len_add :: "lenmod \<Rightarrow> u8 \<Rightarrow> lenmod" where
  "len_add l c = (if c = 104 then l\<lparr>len_h := len_h l + 1\<rparr> else if c = 108 then l\<lparr>len_l := len_l l + 1\<rparr>
     else if c = 122 \<or> c = 116 then l\<lparr>len_z := True\<rparr> else if c = 106 then l\<lparr>len_ll := True\<rparr> else l)"

definition lens :: "u8 list \<Rightarrow> lenmod" where
  "lens cs =
     (let l = foldl len_add \<lparr>len_h = 0, len_l = 0, len_ll = False, len_z = False\<rparr> cs
      in if len_l l \<ge> 2 then l\<lparr>len_ll := True\<rparr> else l)"

text \<open>What a directive means, given the arguments its stars take.\<close>

definition directive_spec :: "directive \<Rightarrow> u64 list \<Rightarrow> (spec \<times> lenmod \<times> u64 list) option" where
  "directive_spec d ap =
     do { let fl = foldl (\<lambda>w c. w OR flag_bit c) 0 (d_flags d);
          (w, fl, ap) \<leftarrow> (case d_width d of
              Digits ds \<Rightarrow> Some (int (dv ds), fl, ap)
            | Star \<Rightarrow> do { (w, ap) \<leftarrow> va_arg_int ap;
                          if w = - (2 ^ 31) then None
                          else Some (\<bar>w\<bar>, if w < 0 then fl OR FL_MINUS else fl, ap) });
          (prec, ap) \<leftarrow> (case d_prec d of
              None \<Rightarrow> Some (- 1, ap)
            | Some (Digits ds) \<Rightarrow> Some (int (dv ds), ap)
            | Some Star \<Rightarrow> va_arg_int ap);
          Some (\<lparr>sp_flags = fl, sp_width = w, sp_prec = prec\<rparr>, lens (d_len d), ap) }"

fun item_out :: "mem \<Rightarrow> item \<Rightarrow> u64 list \<Rightarrow> (u8 list \<times> u64 list) option" where
  "item_out m (Text bs) ap = Some (bs, ap)"
| "item_out m Percent ap = Some ([37], ap)"
| "item_out m (Conv d) ap =
     do { (sp, l, ap) \<leftarrow> directive_spec d ap; conv_text m (d_conv d) sp l ap }"

fun items_out :: "mem \<Rightarrow> item list \<Rightarrow> u64 list \<Rightarrow> u8 list option" where
  "items_out m [] ap = Some []"
| "items_out m (it # its) ap =
     do { (t, ap) \<leftarrow> item_out m it ap; ts \<leftarrow> items_out m its ap; Some (t @ ts) }"

fun item_ok :: "item \<Rightarrow> bool" where
  "item_ok (Text bs) \<longleftrightarrow> bs \<noteq> [] \<and> 0 \<notin> set bs \<and> 37 \<notin> set bs"
| "item_ok Percent \<longleftrightarrow> True"
| "item_ok (Conv d) \<longleftrightarrow> directive_ok d"

text \<open>A text item takes in a whole run: none stands next to another.\<close>

fun items_ok :: "item list \<Rightarrow> bool" where
  "items_ok [] \<longleftrightarrow> True"
| "items_ok (it # its) \<longleftrightarrow> item_ok it \<and> items_ok its \<and>
     (case it of Text _ \<Rightarrow> (case its of Text _ # _ \<Rightarrow> False | _ \<Rightarrow> True) | _ \<Rightarrow> True)"

section \<open>Parsing a directive\<close>

lemma bytes_at_hd: "bytes_at m p rest \<Longrightarrow> rest \<noteq> [] \<Longrightarrow> m p = Some (hd rest)"
  by (cases rest) auto

lemma fmt_flags_ok:
  "bytes_at m p (fs @ rest) \<Longrightarrow> set fs \<subseteq> flag_chars \<Longrightarrow> rest \<noteq> [] \<Longrightarrow> hd rest \<notin> flag_chars \<Longrightarrow>
   fmt_flags m p w = Some (foldl (\<lambda>w c. w OR flag_bit c) w fs, p + length fs)"
proof (induction fs arbitrary: p w)
  case Nil
  then show ?case
    using bytes_at_hd [of m p rest] by (subst fmt_flags.simps) (simp add: flag_chars_def)
next
  case (Cons c fs)
  have "fmt_flags m p w = fmt_flags m (Suc p) (w OR flag_bit c)"
    using Cons.prems by (subst fmt_flags.simps) (auto simp: flag_chars_def flag_bit_def)
  then show ?case using Cons by simp
qed

lemma fmt_int_ok:
  "bytes_at m p (ds @ rest) \<Longrightarrow> decimals ds \<Longrightarrow> rest \<noteq> [] \<Longrightarrow> \<not> is_digit 10 (hd rest) \<Longrightarrow>
   n * 10 ^ length ds + dv ds < 2 ^ 31 \<Longrightarrow>
   fmt_int m p (int n) = Some (int (n * 10 ^ length ds + dv ds), p + length ds)"
proof (induction ds arbitrary: p n)
  case Nil
  then show ?case
    using bytes_at_hd [of m p rest] by (subst fmt_int.simps) (auto simp: is_digit_10)
next
  case (Cons c ds)
  have c: "is_digit 10 c" "48 \<le> c" "c \<le> 57" using Cons.prems by (auto simp: is_digit_10)
  let ?n = "n * 10 + digit_nat c"
  have v: "?n * 10 ^ length ds + dv ds = n * 10 ^ length (c # ds) + dv (c # ds)"
    by (simp add: digits_val_Cons algebra_simps)
  have "?n \<le> ?n * 10 ^ length ds" by simp
  also have "\<dots> \<le> ?n * 10 ^ length ds + dv ds" by simp
  also have "\<dots> < 2 ^ 31" using Cons.prems(5) unfolding v .
  finally have "?n < 2 ^ 31" .
  then have "int ?n < 2 ^ 31" by simp
  moreover have "int ?n = int n * 10 + (uint c - 48)"
    using digit_nat_10 [OF c(1)] c by (simp add: word_le_nat_alt of_nat_diff)
  ultimately have "fmt_int m p (int n) = fmt_int m (Suc p) (int ?n)"
    using Cons.prems c by (subst fmt_int.simps) (simp add: Let_def)
  then show ?case using Cons.IH [of "Suc p" ?n] Cons.prems v by simp
qed

lemma fmt_len_ok:
  "bytes_at m p (cs @ rest) \<Longrightarrow> set cs \<subseteq> len_chars \<Longrightarrow> rest \<noteq> [] \<Longrightarrow> hd rest \<notin> len_chars \<Longrightarrow>
   fmt_len m p l = Some (let l = foldl len_add l cs in if len_l l \<ge> 2 then l\<lparr>len_ll := True\<rparr> else l,
     p + length cs)"
proof (induction cs arbitrary: p l)
  case Nil
  then show ?case
    using bytes_at_hd [of m p rest] by (subst fmt_len.simps) (simp add: len_chars_def)
next
  case (Cons c cs)
  have "fmt_len m p l = fmt_len m (Suc p) (len_add l c)"
    using Cons.prems by (subst fmt_len.simps) (auto simp: len_chars_def)
  then show ?case using Cons by simp
qed

text \<open>The first character of each later part ends the part before it.\<close>

lemma conv_not: "c \<in> conv_chars \<Longrightarrow> c \<notin> flag_chars \<and> c \<notin> len_chars \<and> \<not> is_digit 10 c \<and> c \<noteq> 42 \<and> c \<noteq> 46 \<and> c \<noteq> 0 \<and> c \<noteq> 37"
  by (auto simp: conv_chars_def flag_chars_def len_chars_def is_digit_10)

lemma len_not: "c \<in> len_chars \<Longrightarrow> c \<notin> flag_chars \<and> \<not> is_digit 10 c \<and> c \<noteq> 42 \<and> c \<noteq> 46"
  by (auto simp: flag_chars_def len_chars_def is_digit_10)

lemma digit_not: "is_digit 10 c \<Longrightarrow> c \<noteq> 42 \<and> c \<noteq> 46 \<and> (c \<noteq> 48 \<longrightarrow> c \<notin> flag_chars)"
  by (auto simp: flag_chars_def is_digit_10)

lemma parts_hd:
  assumes d: "directive_ok d"
  shows "hd (d_len d @ [d_conv d]) \<notin> flag_chars" "\<not> is_digit 10 (hd (d_len d @ [d_conv d]))"
    "hd (d_len d @ [d_conv d]) \<noteq> 42" "hd (d_len d @ [d_conv d]) \<noteq> 46"
    "hd (prec_text d @ d_len d @ [d_conv d]) \<notin> flag_chars"
    "\<not> is_digit 10 (hd (prec_text d @ d_len d @ [d_conv d]))"
    "hd (prec_text d @ d_len d @ [d_conv d]) \<noteq> 42"
    "hd (field_text (d_width d) @ prec_text d @ d_len d @ [d_conv d]) \<notin> flag_chars"
proof -
  have l: "hd (d_len d @ [d_conv d]) \<in> len_chars \<union> conv_chars"
    using d by (cases "d_len d") (auto simp: directive_ok_def)
  then show h: "hd (d_len d @ [d_conv d]) \<notin> flag_chars" "\<not> is_digit 10 (hd (d_len d @ [d_conv d]))"
      "hd (d_len d @ [d_conv d]) \<noteq> 42" "hd (d_len d @ [d_conv d]) \<noteq> 46"
    using conv_not len_not by blast+
  have 46: "46 \<notin> flag_chars" "\<not> is_digit 10 46" "42 \<notin> flag_chars"
    by (simp_all add: flag_chars_def is_digit_10)
  show p: "hd (prec_text d @ d_len d @ [d_conv d]) \<notin> flag_chars"
      "\<not> is_digit 10 (hd (prec_text d @ d_len d @ [d_conv d]))"
      "hd (prec_text d @ d_len d @ [d_conv d]) \<noteq> 42"
    using h 46 by (auto simp: prec_text_def split: option.splits)
  show "hd (field_text (d_width d) @ prec_text d @ d_len d @ [d_conv d]) \<notin> flag_chars"
  proof (cases "d_width d")
    case (Digits ds)
    then show ?thesis using p d digit_not by (cases ds) (auto simp: directive_ok_def)
  qed (simp add: 46)
qed

lemma fmt_width_ok:
  assumes d: "directive_ok d"
    and m: "bytes_at m p (field_text (d_width d) @ prec_text d @ d_len d @ [d_conv d])"
  shows "fmt_width m p fl ap =
    do { (w, fl, ap) \<leftarrow> (case d_width d of
              Digits ds \<Rightarrow> Some (int (dv ds), fl, ap)
            | Star \<Rightarrow> do { (w, ap) \<leftarrow> va_arg_int ap;
                          if w = - (2 ^ 31) then None
                          else Some (\<bar>w\<bar>, if w < 0 then fl OR FL_MINUS else fl, ap) });
         Some (w, fl, p + length (field_text (d_width d)), ap) }"
proof (cases "d_width d")
  case (Digits ds)
  have f: "fmt_int m p (int 0) = Some (int (0 * 10 ^ length ds + dv ds), p + length ds)"
    using m d Digits parts_hd [OF d]
    by (intro fmt_int_ok [where rest = "prec_text d @ d_len d @ [d_conv d]"]) (auto simp: directive_ok_def)
  have "m p = Some (hd (ds @ prec_text d @ d_len d @ [d_conv d]))"
    using m Digits by (intro bytes_at_hd) auto
  moreover have "hd (ds @ prec_text d @ d_len d @ [d_conv d]) \<noteq> 42"
    using parts_hd [OF d] d Digits digit_not by (cases ds) (auto simp: directive_ok_def)
  ultimately show ?thesis using f Digits by (simp add: fmt_width_def)
next
  case Star
  then show ?thesis using m
    by (auto simp: fmt_width_def Option.bind_assoc intro!: Option.bind_cong)
qed

lemma fmt_prec_ok:
  assumes d: "directive_ok d" and m: "bytes_at m p (prec_text d @ d_len d @ [d_conv d])"
  shows "fmt_prec m p ap =
    do { (prec, ap) \<leftarrow> (case d_prec d of
              None \<Rightarrow> Some (- 1, ap)
            | Some (Digits ds) \<Rightarrow> Some (int (dv ds), ap)
            | Some Star \<Rightarrow> va_arg_int ap);
         Some (prec, p + length (prec_text d), ap) }"
proof (cases "d_prec d")
  case None
  have "m p = Some (hd (d_len d @ [d_conv d]))"
    using m None by (intro bytes_at_hd) (auto simp: prec_text_def)
  then show ?thesis using None parts_hd [OF d] by (simp add: fmt_prec_def prec_text_def)
next
  case (Some f)
  show ?thesis
  proof (cases f)
    case (Digits ds)
    have m1: "m p = Some 46" "bytes_at m (Suc p) (ds @ d_len d @ [d_conv d])"
      using m Some Digits by (simp_all add: prec_text_def)
    have f: "fmt_int m (Suc p) (int 0) = Some (int (0 * 10 ^ length ds + dv ds), Suc p + length ds)"
      using m1 d Some Digits parts_hd [OF d]
      by (intro fmt_int_ok [where rest = "d_len d @ [d_conv d]"]) (auto simp: directive_ok_def)
    have "m (Suc p) = Some (hd (ds @ d_len d @ [d_conv d]))"
      using m1 by (intro bytes_at_hd) auto
    moreover have "hd (ds @ d_len d @ [d_conv d]) \<noteq> 42"
      using parts_hd [OF d] d Some Digits digit_not by (cases ds) (auto simp: directive_ok_def)
    ultimately show ?thesis using f Some Digits m1 by (simp add: fmt_prec_def prec_text_def)
  next
    case Star
    then show ?thesis using m Some
      by (auto simp: fmt_prec_def prec_text_def intro!: Option.bind_cong)
  qed
qed

lemma fmt_spec_ok:
  assumes d: "directive_ok d" and m: "bytes_at m p (directive_text d @ [d_conv d])"
  shows "fmt_spec m p ap =
    do { (sp, l, ap) \<leftarrow> directive_spec d ap; Some (sp, l, p + length (directive_text d), ap) }"
proof -
  define q1 where "q1 = p + length (d_flags d)"
  define q2 where "q2 = q1 + length (field_text (d_width d))"
  define q3 where "q3 = q2 + length (prec_text d)"
  have parts: "bytes_at m p (d_flags d @ field_text (d_width d) @ prec_text d @ d_len d @ [d_conv d])"
      "bytes_at m q1 (field_text (d_width d) @ prec_text d @ d_len d @ [d_conv d])"
      "bytes_at m q2 (prec_text d @ d_len d @ [d_conv d])" "bytes_at m q3 (d_len d @ [d_conv d])"
    using m by (simp_all add: directive_text_def q1_def q2_def q3_def add.assoc)
  have fl: "fmt_flags m p 0 = Some (foldl (\<lambda>w c. w OR flag_bit c) 0 (d_flags d), q1)"
    unfolding q1_def using parts(1) d parts_hd(8) [OF d]
    by (intro fmt_flags_ok [where rest = "field_text (d_width d) @ prec_text d @ d_len d @ [d_conv d]"])
      (auto simp: directive_ok_def)
  have len: "fmt_len m q3 \<lparr>len_h = 0, len_l = 0, len_ll = False, len_z = False\<rparr> =
      Some (lens (d_len d), q3 + length (d_len d))"
    unfolding lens_def using parts(4) d conv_not
    by (intro fmt_len_ok [where rest = "[d_conv d]"]) (auto simp: directive_ok_def)
  have q: "p + length (directive_text d) = q3 + length (d_len d)"
    by (simp add: directive_text_def q1_def q2_def q3_def)
  show ?thesis
    unfolding fmt_spec_def fl bind.bind_lunit prod.case fmt_width_ok [OF d parts(2)] q2_def [symmetric]
      directive_spec_def Let_def q Option.bind_assoc
    by (auto simp: fmt_prec_ok [OF d parts(3)] q3_def [symmetric] len Option.bind_assoc split_def
        intro!: Option.bind_cong split: field.splits option.splits)
qed

section \<open>The engine on a well-formed format\<close>

text \<open>
  \<open>lo\<close> is the part of memory the run reads: everything but the output buffer. What it
  reads stays the same under the writes.
\<close>

definition buffer_ok :: "mem \<Rightarrow> 's sink \<Rightarrow> bool" where
  "buffer_ok lo k \<longleftrightarrow>
     sk_stream k = None \<and> lo \<subseteq>\<^sub>m sk_mem k \<and>
     (sk_out k \<noteq> 0 \<longrightarrow> mapped (sk_mem k) (sk_out k) (sk_cap k) \<and>
        dom lo \<inter> {sk_out k..<sk_out k + sk_cap k} = {})"

lemma mapped_dom: "dom m' = dom m \<Longrightarrow> mapped m' p n = mapped m p n"
  unfolding mapped_def by (metis domIff)

lemma sink_bytes_ok:
  assumes ok: "buffer_ok lo k"
  shows "\<exists>k'. sink_bytes fw k t = Some k' \<and> buffer_ok lo k'"
proof -
  have k: "sk_stream k = None" using ok by (simp add: buffer_ok_def)
  have "mapped (sk_mem k) (sk_out k + sk_want k) (length (take (sk_cap k - sk_want k) t))"
    if "sk_out k \<noteq> 0"
  proof (cases "sk_want k < sk_cap k")
    case True
    have "mapped (sk_mem k) (sk_out k) (sk_want k + (sk_cap k - sk_want k))"
      using ok that True by (simp add: buffer_ok_def)
    then have "mapped (sk_mem k) (sk_out k + sk_want k) (sk_cap k - sk_want k)"
      unfolding mapped_add by blast
    then show ?thesis by (rule mapped_le) simp
  qed simp
  then obtain k' where s: "sink_bytes fw k t = Some k'"
    using k by (cases "sk_out k = 0") (auto simp: sink_mem stn_mapped)
  have f: "sink_frame (may_touch k []) k k'" by (rule sink_bytes_frame [OF k s])
  have "lo \<subseteq>\<^sub>m sk_mem k'"
    unfolding map_le_def
  proof
    fix a assume a: "a \<in> dom lo"
    then have "a \<notin> may_touch k []" using ok by (auto simp: buffer_ok_def may_touch_def)
    then have "sk_mem k' a = sk_mem k a" using f by (simp add: sink_frame_def)
    then show "lo a = sk_mem k' a" using ok a by (simp add: buffer_ok_def map_le_def)
  qed
  then have "buffer_ok lo k'"
    using ok f mapped_dom [of "sk_mem k'" "sk_mem k"] by (auto simp: buffer_ok_def sink_frame_def)
  with s show ?thesis by blast
qed

lemma map_le_SomeD: "lo \<subseteq>\<^sub>m m \<Longrightarrow> lo a = Some c \<Longrightarrow> m a = Some c"
  by (metis domI map_le_def)

lemma strlen_loop_mono: "strlen_loop lo p = Some q \<Longrightarrow> lo \<subseteq>\<^sub>m m \<Longrightarrow> strlen_loop m p = Some q"
proof (induction rule: strlen_loop.raw_induct [rotated, consumes 1])
  case (1 loop lo p q)
  then show ?case
    by (subst strlen_loop.simps) (auto simp: bind_eq_Some dest: map_le_SomeD split: if_splits)
qed

lemma bytes_at_mono: "bytes_at lo p bs \<Longrightarrow> lo \<subseteq>\<^sub>m m \<Longrightarrow> bytes_at m p bs"
  unfolding bytes_at_def by (blast dest: map_le_SomeD)

lemma string_arg_mono: "string_arg lo x = Some s \<Longrightarrow> lo \<subseteq>\<^sub>m m \<Longrightarrow> string_arg m x = Some s"
  by (auto simp: string_arg_def strlen_def bind_eq_Some ldn_Some split: if_splits
      dest: strlen_loop_mono bytes_at_mono)

lemma conv_text_mono: "conv_text lo c sp l ap = Some r \<Longrightarrow> lo \<subseteq>\<^sub>m m \<Longrightarrow> conv_text m c sp l ap = Some r"
  by (auto simp: conv_text_def bind_eq_Some split: if_splits dest: string_arg_mono)

lemma fmt_run_ok:
  "bytes_at m p (bs @ rest) \<Longrightarrow> 0 \<notin> set bs \<Longrightarrow> 37 \<notin> set bs \<Longrightarrow> rest \<noteq> [] \<Longrightarrow> hd rest \<in> {0, 37} \<Longrightarrow>
   fmt_run m p = Some (p + length bs)"
proof (induction bs arbitrary: p)
  case Nil
  then show ?case using bytes_at_hd [of m p rest] by (subst fmt_run.simps) auto
next
  case (Cons c bs)
  then show ?case by (subst fmt_run.simps) auto
qed

lemma field_no_percent: "field_ok f \<Longrightarrow> 37 \<notin> set (field_text f)"
  by (cases f) (auto simp: list_all_iff is_digit_10)

lemma directive_no_percent: "directive_ok d \<Longrightarrow> 37 \<notin> set (directive_text d)"
  using field_no_percent
  by (auto simp: directive_ok_def directive_text_def prec_text_def flag_chars_def len_chars_def
      split: option.splits)

lemma disjoint_mono: "A \<subseteq> A' \<Longrightarrow> A' \<inter> B' = {} \<Longrightarrow> B \<subseteq> B' \<Longrightarrow> A \<inter> B = {}"
  by blast

lemma fmt_step_emits:
  assumes le: "lo \<subseteq>\<^sub>m sk_mem k" and it: "item_ok it" and t: "item_out lo it ap = Some (t, ap')"
    and m: "bytes_at lo p (item_text it @ rest)" and rest: "rest \<noteq> []"
    and sep: "\<And>bs. it = Text bs \<Longrightarrow> hd rest \<in> {0, 37}"
  shows "\<exists>r. emits fw k t r \<and> fmt_step fw k p ap = do { k \<leftarrow> r; Some (k, p + length (item_text it), ap') }"
proof -
  have m': "bytes_at (sk_mem k) p (item_text it @ rest)" using m le by (rule bytes_at_mono)
  show ?thesis
  proof (cases it)
    case (Text bs)
    have "sk_mem k p = Some (hd bs)" "hd bs \<noteq> 37"
      using m' it Text bytes_at_hd [of "sk_mem k" p "bs @ rest"] by (auto, metis list.set_sel(1))
    moreover have "fmt_run (sk_mem k) p = Some (p + length bs)"
      using m' it Text sep rest by (intro fmt_run_ok) auto
    moreover have "ldn (sk_mem k) p (length bs) = Some bs" using m' Text by (simp add: ldn_Some)
    ultimately have "fmt_step fw k p ap = do { k \<leftarrow> sink_bytes fw k t; Some (k, p + length (item_text it), ap') }"
      using Text t by (simp add: fmt_step_def)
    then show ?thesis using emits_one by blast
  next
    case Percent
    then have "sk_mem k p = Some 37" "sk_mem k (p + 1) = Some 37" "t = [37]" "ap' = ap"
      using m' t by auto
    then have "fmt_step fw k p ap = do { k \<leftarrow> sink_bytes fw k t; Some (k, p + length (item_text it), ap') }"
      using Percent by (simp add: fmt_step_def)
    then show ?thesis using emits_one by blast
  next
    case (Conv d)
    then have d: "directive_ok d" and c: "d_conv d \<in> conv_chars" using it by (simp_all add: directive_ok_def)
    have dm: "sk_mem k p = Some 37" "bytes_at (sk_mem k) (p + 1) (directive_text d @ [d_conv d])"
        "sk_mem k (p + 1 + length (directive_text d)) = Some (d_conv d)"
      using m' Conv by simp_all
    obtain sp l ap1 where s: "directive_spec d ap = Some (sp, l, ap1)"
        and ct: "conv_text lo (d_conv d) sp l ap1 = Some (t, ap')"
      using t Conv by (auto simp: bind_eq_Some)
    have spec: "fmt_spec (sk_mem k) (p + 1) ap = Some (sp, l, p + 1 + length (directive_text d), ap1)"
      using fmt_spec_ok [OF d dm(2)] s by simp
    have "hd (directive_text d @ [d_conv d]) \<noteq> 37"
      using directive_no_percent [OF d] conv_not [OF c] by (cases "directive_text d") auto
    moreover have "sk_mem k (p + 1) = Some (hd (directive_text d @ [d_conv d]))"
      using dm(2) by (rule bytes_at_hd) simp
    moreover obtain r where r: "emits fw k t r"
        "fmt_conv fw k (d_conv d) sp l ap1 = do { k \<leftarrow> r; Some (k, ap') }"
      using fmt_conv_emits [OF conv_text_mono [OF ct le], of fw] by blast
    moreover from r(2) have "fmt_directive fw k (p + 1) ap =
        do { k \<leftarrow> r; Some (k, p + 1 + length (directive_text d) + 1, ap') }"
      using spec dm(3) conv_not [OF c] by (simp add: fmt_directive_def Option.bind_assoc)
    ultimately have "fmt_step fw k p ap = do { k \<leftarrow> r; Some (k, p + length (item_text it), ap') }"
      using dm(1) Conv by (simp add: fmt_step_def)
    then show ?thesis using r(1) by blast
  qed
qed

lemma fmt_step_ok:
  assumes "buffer_ok lo k" "item_ok it" "item_out lo it ap = Some (t, ap')"
    "bytes_at lo p (item_text it @ rest)" "rest \<noteq> []" "\<And>bs. it = Text bs \<Longrightarrow> hd rest \<in> {0, 37}"
  shows "fmt_step fw k p ap = do { k \<leftarrow> sink_bytes fw k t; Some (k, p + length (item_text it), ap') }"
proof -
  have "lo \<subseteq>\<^sub>m sk_mem k" "sk_stream k = None" using assms(1) by (simp_all add: buffer_ok_def)
  then show ?thesis using fmt_step_emits [OF _ assms(2-6), where k = k and fw = fw] emits_mem by blast
qed

text \<open>The output of a run is the concatenation of the texts of the items.\<close>

lemma fmt_loop_ok:
  "buffer_ok lo k \<Longrightarrow> items_ok its \<Longrightarrow> items_out lo its ap = Some t \<Longrightarrow>
   bytes_at lo p (concat (map item_text its) @ [0]) \<Longrightarrow> fmt_loop fw k p ap = sink_bytes fw k t"
proof (induction its arbitrary: k p ap t)
  case Nil
  then have "sk_mem k p = Some 0" by (auto simp: buffer_ok_def dest: map_le_SomeD)
  then show ?case using Nil by (subst fmt_loop.simps) (simp add: buffer_ok_def)
next
  case (Cons it its)
  let ?rest = "concat (map item_text its) @ [0]"
  obtain t1 ap1 t2 where t: "item_out lo it ap = Some (t1, ap1)" "items_out lo its ap1 = Some t2"
      "t = t1 @ t2"
    using Cons.prems(3) by (auto simp: bind_eq_Some)
  have ok: "item_ok it" "items_ok its" using Cons.prems(2) by auto
  have m: "bytes_at lo p (item_text it @ ?rest)" "bytes_at lo (p + length (item_text it)) ?rest"
    using Cons.prems(4) by simp_all
  have "hd ?rest \<in> {0, 37}" if "it = Text bs" for bs
    using that Cons.prems(2) by (cases its) (auto split: item.splits)
  then have s: "fmt_step fw k p ap =
      do { k \<leftarrow> sink_bytes fw k t1; Some (k, p + length (item_text it), ap1) }"
    using fmt_step_ok [OF Cons.prems(1) ok(1) t(1) m(1)] by simp
  have ne: "item_text it \<noteq> []" "hd (item_text it) \<noteq> 0"
    using ok(1) by (cases it; force dest: list.set_sel(1))+
  have "sk_mem k p = Some (hd (item_text it @ ?rest))"
    using bytes_at_hd [OF m(1)] Cons.prems(1) by (auto simp: buffer_ok_def dest: map_le_SomeD)
  then have c: "sk_mem k p = Some (hd (item_text it))" using ne by simp
  obtain k1 where k1: "sink_bytes fw k t1 = Some k1" "buffer_ok lo k1"
    using sink_bytes_ok [OF Cons.prems(1)] by blast
  have "fmt_loop fw k p ap = sink_bytes fw k1 t2"
    using c ne s k1(1) Cons.IH [OF k1(2) ok(2) t(2) m(2)] by (subst fmt_loop.simps) simp
  then show ?case using k1 Cons.prems(1) by (simp add: t(3) sink_append buffer_ok_def)
qed

text \<open>
  \<open>vsnprintf\<close>: the result is the length of the whole text, the buffer holds as much of it
  as fits and a terminator, and nothing else has changed.
\<close>

lemma vsnprintf_ok:
  assumes its: "items_ok its" and t: "items_out lo its ap = Some t"
    and fmt: "bytes_at lo fmt (concat (map item_text its) @ [0])"
    and lo: "lo \<subseteq>\<^sub>m m" "dom lo \<inter> {out..<out + cap} = {}"
    and out: "out \<noteq> 0" "cap \<noteq> 0" "mapped m out cap"
  shows "vsnprintf m out cap fmt ap =
    Some (wrap_s32 (int (length t)), put_bytes m out (take (cap - 1) t @ [0]))"
proof -
  define k where "k = buf_sink m out (cap - 1)"
  have "dom lo \<inter> {out..<out + (cap - 1)} = {}"
    using lo(2) by (rule disjoint_mono [OF order_refl]) auto
  then have "buffer_ok lo k"
    using lo(1) out mapped_le [OF out(3), of "cap - 1"] by (simp add: buffer_ok_def k_def buf_sink_def)
  then have l: "fmt_loop no_fwrite k fmt ap = sink_bytes no_fwrite k t"
    using fmt_loop_ok [OF _ its t fmt] by blast
  have m1: "mapped m out (length (take (cap - 1) t))" using out(3) by (rule mapped_le) simp
  have s: "sink_bytes no_fwrite k t =
      Some (k\<lparr>sk_mem := put_bytes m out (take (cap - 1) t), sk_want := length t\<rparr>)"
    using m1 out by (simp add: sink_mem k_def buf_sink_def stn_mapped)
  have "min (length t) (cap - 1) < cap" using out by auto
  then have "m (out + min (length t) (cap - 1)) \<noteq> None" using out(3) mapped_nth by fastforce
  then have e: "st8 (put_bytes m out (take (cap - 1) t)) (out + min (length t) (cap - 1)) 0 =
      Some (put_bytes m out (take (cap - 1) t @ [0]))"
    by (simp add: put_bytes_snoc put_bytes_mono st8_mapped)
  show ?thesis
    unfolding vsnprintf_mem [OF out(1,2)] l [unfolded k_def] s [unfolded k_def]
    using e by (simp add: buf_sink_def)
qed

section \<open>Properties\<close>



text \<open>
  C1. \<open>vsnprintf\<close> on a format string of plain text, \<open>%%\<close> and directives with any flags,
  width, precision and length modifiers: it returns the length of the concatenated texts
  and leaves in the buffer as much of them as fits and a terminator, nothing else changed.
\<close>

theorem vsnprintf_formats:
  assumes "items_ok its" and "items_out lo its ap = Some t"
    and "bytes_at lo fmt (concat (map item_text its) @ [0])"
    and "lo \<subseteq>\<^sub>m m" and "dom lo \<inter> {out..<out + cap} = {}"
    and "out \<noteq> 0" and "cap \<noteq> 0" and "mapped m out cap"
  shows "vsnprintf m out cap fmt ap =
    Some (wrap_s32 (int (length t)), put_bytes m out (take (cap - 1) t @ [0]))"
  using assms by (rule vsnprintf_ok)

definition demo_items :: "item list" where
  "demo_items =
     [Text [110, 61], Conv \<lparr>d_flags = [48], d_width = Digits [52], d_prec = None, d_len = [], d_conv = 100\<rparr>]"

lemma demo_items_run:
  "items_ok demo_items"
  "items_out (mem_of 10 [110, 61, 37, 48, 52, 100, 0]) demo_items [- 7] = Some [110, 61, 45, 48, 48, 55]"
  "bytes_at (mem_of 10 [110, 61, 37, 48, 52, 100, 0]) 10 (concat (map item_text demo_items) @ [0])"
proof -
  show "items_ok demo_items"
    by (simp add: demo_items_def directive_ok_def flag_chars_def conv_chars_def is_digit_10
        digits_val_Cons digit_nat_def digit_of_def)
  have "signed_arg (lens []) (- 7) = - 7" by (simp add: signed_arg_def lens_def wrap_s32_id)
  moreover have "base_text False 10 7 = [55]" by (simp add: base_text.simps hex_digits_def)
  moreover have "replicate 2 48 = [48, 48 :: u8]" by (simp add: numeral_2_eq_2)
  ultimately show "items_out (mem_of 10 [110, 61, 37, 48, 52, 100, 0]) demo_items [- 7] =
      Some [110, 61, 45, 48, 48, 55]"
    by (simp add: demo_items_def directive_spec_def conv_text_def signed_text_def
        sign_ch_def digits_arg_def no_zero_def pad_text_def opt_ch_def
        flag_bit_def FL_ZERO_def FL_MINUS_def digits_val_Cons digit_nat_def digit_of_def)
  show "bytes_at (mem_of 10 [110, 61, 37, 48, 52, 100, 0]) 10 (concat (map item_text demo_items) @ [0])"
    by (simp add: demo_items_def directive_text_def prec_text_def mem_of_def put_bytes_Cons)
qed

lemma vsnprintf_formats_witness:
  "vsnprintf (put_bytes (mem_of 10 [110, 61, 37, 48, 52, 100, 0]) 20 [1, 1, 1, 1, 1]) 20 5 10 [- 7] =
   Some (wrap_s32 (int (length [110, 61, 45, 48, 48, 55 :: u8])),
     put_bytes (put_bytes (mem_of 10 [110, 61, 37, 48, 52, 100, 0]) 20 [1, 1, 1, 1, 1]) 20
       (take (5 - 1) [110, 61, 45, 48, 48, 55] @ [0]))"
proof (rule vsnprintf_formats [OF demo_items_run])
  show "mem_of 10 [110, 61, 37, 48, 52, 100, 0] \<subseteq>\<^sub>m
      put_bytes (mem_of 10 [110, 61, 37, 48, 52, 100, 0]) 20 [1, 1, 1, 1, 1]"
    by (auto simp: map_le_def mem_of_def put_bytes_def split: if_splits)
  show "dom (mem_of 10 [110, 61, 37, 48, 52, 100, 0]) \<inter> {20..<20 + 5} = {}"
    by (auto simp: mem_of_def put_bytes_def split: if_splits)
  show "mapped (put_bytes (mem_of 10 [110, 61, 37, 48, 52, 100, 0]) 20 [1, 1, 1, 1, 1]) 20 5"
    by (simp add: mapped_def put_bytes_def)
qed simp_all

text \<open>
  A \<open>%d\<close> field: sign, zeros up to the precision and the decimal numeral of the argument
  converted by the length modifiers; then padded to the width on the side the flags say.
\<close>

theorem signed_field:
  assumes "sk_stream k = None" and "sp_flags sp AND FL_MINUS = 0"
    and "sp_flags sp AND FL_ZERO = 0 \<or> 0 \<le> sp_prec sp"
  shows "\<exists>ds. numeral_of 10 (nat \<bar>signed_arg l x\<bar>) ds \<and>
    (let core = opt_ch (sign_ch sp (signed_arg l x < 0)) @ replicate (nat (sp_prec sp) - length ds) 48 @ ds
     in conv_signed fw k sp l (x # ap) =
       do { k \<leftarrow> sink_bytes fw k (replicate (nat (sp_width sp) - length core) 32 @ core); Some (k, ap) })"
proof -
  have "unat (of_nat (nat \<bar>signed_arg l x\<bar>) :: u64) = nat \<bar>signed_arg l x\<bar>"
    using signed_arg_range [of l x] by (intro unat_of_nat_small) auto
  then have "numeral_of 10 (nat \<bar>signed_arg l x\<bar>) (base_text False 10 (nat \<bar>signed_arg l x\<bar>))"
    using rt_utoa_ok [of 10 "of_nat (nat \<bar>signed_arg l x\<bar>)" False] by (simp add: rt_utoa_text)
  moreover have "(sp_flags sp AND NOT FL_ZERO) AND FL_MINUS = (sp_flags sp AND FL_MINUS) AND NOT FL_ZERO"
    by (simp only: ac_simps)
  then have "sp_flags (no_zero sp) AND FL_MINUS = 0" using assms(2) by (simp add: no_zero_def)
  moreover have "nat (digits_arg sp) = nat (sp_prec sp)" by (simp add: digits_arg_def)
  moreover have "sp_flags sp AND NOT FL_ZERO AND FL_ZERO = 0" by (simp add: and.assoc)
  then have "\<not> (sp_flags (no_zero sp) AND FL_ZERO \<noteq> 0 \<and> digits_arg sp < 0)"
    using assms(3) by (auto simp: no_zero_def digits_arg_def)
  moreover have "sp_width (no_zero sp) = sp_width sp" by (simp add: no_zero_def)
  ultimately show ?thesis
    using assms(2) unfolding conv_signed_text [OF assms(1)] signed_text_def pad_text_def Let_def
    by (intro exI [of _ "base_text False 10 (nat \<bar>signed_arg l x\<bar>)"]) (auto simp: opt_ch_def)
qed

lemma signed_field_witness:
  "\<exists>ds. numeral_of 10 (nat \<bar>signed_arg \<lparr>len_h = 0, len_l = 0, len_ll = False, len_z = False\<rparr> (- 7)\<bar>) ds \<and>
    (let core = opt_ch (sign_ch \<lparr>sp_flags = 0, sp_width = 4, sp_prec = - 1\<rparr>
           (signed_arg \<lparr>len_h = 0, len_l = 0, len_ll = False, len_z = False\<rparr> (- 7) < 0)) @
         replicate (nat (sp_prec \<lparr>sp_flags = 0, sp_width = 4, sp_prec = - 1\<rparr>) - length ds) 48 @ ds
     in conv_signed no_fwrite (buf_sink Map.empty 0 0) \<lparr>sp_flags = 0, sp_width = 4, sp_prec = - 1\<rparr>
          \<lparr>len_h = 0, len_l = 0, len_ll = False, len_z = False\<rparr> (- 7 # []) =
       do { k \<leftarrow> sink_bytes no_fwrite (buf_sink Map.empty 0 0)
              (replicate (nat (sp_width \<lparr>sp_flags = 0, sp_width = 4, sp_prec = - 1\<rparr>) - length core) 32 @ core);
            Some (k, []) })"
  by (rule signed_field) (simp_all add: buf_sink_def)

end
