(* ===== verification/PrintfFloat.thy ===== *)
theory PrintfFloat
  imports Printf
begin

text \<open>
  Floating output: the text \<open>%f\<close> prints is the decimal expansion of the double, rounded
  half to even at the requested place; \<open>%e\<close> the same at the requested number of
  significant digits.
\<close>

lemma map_digit_at: "map (\<lambda>i. digit_at D (int i)) [0..<T] = pad D T"
  by (rule nth_equalityI) (auto simp: pad_nth digit_at_def)

lemma dv_48 [simp]: "dv [48] = 0" "decimals [48]"
  by (simp_all add: digits_val_Cons digit_nat_def digit_of_def is_digit_10)

text \<open>The fraction digits after a point that lies left of the first digit.\<close>

lemma fraction_digits:
  assumes "decpt \<le> 0"
  shows "map (\<lambda>i. digit_at D (decpt + int i)) [0..<prec] =
    replicate (prec - nat (decpt + int prec)) 48 @ pad D (nat (decpt + int prec))"
  using assms
  by (intro nth_equalityI) (auto simp: nth_append digit_at_def pad_nth nat_add_distrib nat_diff_distrib
      intro!: arg_cong2 [where f = nth])

lemma fraction_digits_pos:
  assumes "0 < decpt"
  shows "map (\<lambda>i. digit_at D (decpt + int i)) [0..<prec] = drop (nat decpt) (pad D (nat decpt + prec))"
  using assms by (intro nth_equalityI) (auto simp: digit_at_def pad_nth nat_add_distrib)

lemma take_pad: "T \<le> T' \<Longrightarrow> take T (pad D T') = pad D T"
  by (intro nth_equalityI) (auto simp: pad_nth)

lemma fixed_body_ok:
  assumes D: "decimals D" "D \<noteq> []" and hd: "0 < decpt \<Longrightarrow> hd D \<noteq> 48"
    and N: "dv (pad D (nat (decpt + int prec))) = N"
  shows "\<exists>ip fp. fixed_body D decpt prec hash = ip @ (if prec > 0 \<or> hash then 46 # fp else []) \<and>
    numeral_of 10 (N div 10 ^ prec) ip \<and> length fp = prec \<and> decimals fp \<and> dv fp = N mod 10 ^ prec"
proof (cases "decpt \<le> 0")
  case True
  let ?T = "nat (decpt + int prec)"
  define fp where "fp = map (\<lambda>i. digit_at D (decpt + int i)) [0..<prec]"
  have fp: "fp = replicate (prec - ?T) 48 @ pad D ?T"
    unfolding fp_def by (rule fraction_digits [OF True])
  have le: "?T \<le> prec" using True by simp
  have d: "decimals (pad D ?T)" using D(1) by (rule decimals_pad)
  have "N < 10 ^ ?T" using digits_val_bound [OF d] N by simp
  also have "(10::nat) ^ ?T \<le> 10 ^ prec" using le by (intro power_increasing) auto
  finally have lt: "N < 10 ^ prec" .
  have "fixed_body D decpt prec hash = [48] @ (if prec > 0 \<or> hash then 46 # fp else [])"
    using True by (simp add: fixed_body_def fp_def)
  moreover have "numeral_of 10 (N div 10 ^ prec) [48]" using lt by (simp add: numeral_of_def is_digit_10)
  moreover have "length fp = prec" by (simp add: fp_def)
  moreover have "decimals fp" unfolding fp using d by simp
  moreover have "dv fp = N mod 10 ^ prec" unfolding fp using lt N by (simp add: digits_val_append)
  ultimately show ?thesis by blast
next
  case False
  let ?q = "nat decpt"
  define fp where "fp = map (\<lambda>i. digit_at D (decpt + int i)) [0..<prec]"
  let ?P = "pad D (?q + prec)"
  have T: "nat (decpt + int prec) = ?q + prec" using False by (simp add: nat_add_distrib)
  have P: "dv ?P = N" "decimals ?P" "length ?P = ?q + prec"
    using N D decimals_pad by (simp_all add: T)
  have fp: "fp = drop ?q ?P" unfolding fp_def using False by (intro fraction_digits_pos) simp
  have ip: "take ?q ?P = pad D ?q" by (rule take_pad) simp
  have "fixed_body D decpt prec hash = pad D ?q @ (if prec > 0 \<or> hash then 46 # fp else [])"
    using False by (simp add: fixed_body_def fp_def map_digit_at)
  moreover have "numeral_of 10 (N div 10 ^ prec) (pad D ?q)"
    using dv_take_div(1) [OF P(2), of ?q] P False hd D ip decimals_pad [of D ?q]
    by (cases D) (auto simp: numeral_of_def pad_def split: nat.splits)
  moreover have "length fp = prec" by (simp add: fp_def)
  moreover have "decimals fp" unfolding fp using P(2) by (auto simp: list_all_iff dest: in_set_dropD)
  moreover have "dv fp = N mod 10 ^ prec"
    unfolding fp using dv_take_div(2) [OF P(2), of ?q] P by simp
  ultimately show ?thesis by blast
qed

section \<open>\<open>%f\<close>\<close>

text \<open>\<open>N\<close> is \<open>x\<close> rounded to the nearest integer, ties to even.\<close>

definition rounds_even :: "real \<Rightarrow> nat \<Rightarrow> bool" where
  "rounds_even x N \<longleftrightarrow> 2 * \<bar>real N - x\<bar> \<le> 1 \<and> (2 * \<bar>real N - x\<bar> = 1 \<longrightarrow> even N)"

lemma rhe_div_even: "0 < b \<Longrightarrow> rounds_even (real a / real b) (rhe_div a b)"
proof -
  assume b: "0 < b"
  define q r N where "q = a div b" and "r = a mod b" and "N = rhe_div a b"
  have a: "real a = real q * real b + real r" and r: "r < b"
    using b by (simp_all add: q_def r_def flip: of_nat_mult of_nat_add)
  have x: "real a / real b = real q + real r / real b" using a b by (simp add: field_simps)
  have cs: "2 * r < b \<and> N = q \<or> 2 * r > b \<and> N = q + 1 \<or> 2 * r = b \<and> even q \<and> N = q \<or>
      2 * r = b \<and> odd q \<and> N = q + 1"
    by (auto simp: N_def rhe_div_def Let_def q_def r_def)
  define y where "y = real r / real b"
  have half: "2 * r = b \<Longrightarrow> y = 1 / 2" using b by (simp add: y_def field_simps flip: of_nat_mult)
  have lo: "2 * r < b \<Longrightarrow> y < 1 / 2" and hi: "2 * r > b \<Longrightarrow> y > 1 / 2" and one: "y < 1" and nn: "0 \<le> y"
    using b r by (simp_all add: y_def field_simps flip: of_nat_mult)
  show ?thesis
    unfolding rounds_even_def N_def [symmetric] x y_def [symmetric] using cs half lo hi one nn by auto
qed

text \<open>Two roundings of the same value agree.\<close>

lemma rounds_even_near: "rounds_even x N \<Longrightarrow> real N - x \<le> 1 / 2 \<and> x - real N \<le> 1 / 2"
  unfolding rounds_even_def by (simp add: abs_if split: if_splits)

lemma rounds_even_step: "rounds_even x N \<Longrightarrow> \<not> rounds_even x (N + 1)"
proof
  assume N: "rounds_even x N" and M: "rounds_even x (N + 1)"
  have "x = real N + 1 / 2" using rounds_even_near [OF N] rounds_even_near [OF M] by simp
  then show False using N M by (auto simp: rounds_even_def)
qed

lemma rounds_even_unique: "rounds_even x M \<Longrightarrow> rounds_even x N \<Longrightarrow> M = N"
proof -
  assume M: "rounds_even x M" and N: "rounds_even x N"
  have "real M \<le> real N + 1" "real N \<le> real M + 1"
    using rounds_even_near [OF N] rounds_even_near [OF M] by simp_all
  then have "M = N \<or> M = N + 1 \<or> N = M + 1" by linarith
  then show ?thesis using M N rounds_even_step by blast
qed

lemma float_body_fixed:
  fixes m :: u64 and e2 :: int and prec :: nat
  defines "N \<equiv> rhe_div (unat m * 2 ^ nat e2 * 10 ^ prec) (2 ^ nat (- e2))"
  assumes e2: "- 1074 \<le> e2" "e2 \<le> 971" and m53: "unat m < 2 ^ 53"
    and fits: "unat m * 10 ^ nat (- e2) < B9 ^ BN_CAP"
  shows "\<exists>ip fp. numeral_of 10 (N div 10 ^ prec) ip \<and> length fp = prec \<and> decimals fp \<and>
    dv fp = N mod 10 ^ prec \<and>
    float_body m e2 102 upper prec hash =
      (let body = ip @ (if prec > 0 \<or> hash then 46 # fp else [])
       in if length body \<le> BODY_CAP then Some body else None)"
proof -
  obtain D decpt where D: "decimals D" "D \<noteq> []" "0 < decpt \<Longrightarrow> hd D \<noteq> 48"
      "dv (pad D (nat (decpt + int prec))) = N"
      and fb: "float_body m e2 102 upper prec hash =
        (let body = fixed_body D decpt prec hash
         in if length body \<le> BODY_CAP
            then Some (if upper then map (\<lambda>b. if b = 101 then 69 else b) body else body) else None)"
  proof (cases "m = 0")
    case True
    have "fixed_body [48] 1 prec hash = fixed_body [48] 0 prec hash"
      by (auto simp: fixed_body_def digit_at_def)
    then have "float_body m e2 102 upper prec hash =
        (let body = fixed_body [48] 0 prec hash
         in if length body \<le> BODY_CAP
            then Some (if upper then map (\<lambda>b. if b = 101 then 69 else b) body else body) else None)"
      using True by (simp add: float_body_def Let_def)
    moreover have "dv (pad [48] (nat (0 + int prec))) = N"
      using True by (cases prec) (simp_all add: N_def rhe_div_def pad_def digits_val_Cons digit_nat_def digit_of_def)
    ultimately show ?thesis by (intro that [of "[48]" 0]) (auto simp: is_digit_10)
  next
    case False
    obtain D0 d0 where x: "rt_exact_digits m e2 = Some (D0, d0)"
        "expands D0 d0 (unat m * 2 ^ nat e2) (2 ^ nat (- e2))"
      using rt_exact_digits_ok [OF False e2 m53] fits by (auto simp: expands_def)
    obtain D d where r: "rt_round_digits D0 d0 (d0 + int prec) = (D, d)" by fastforce
    show ?thesis
      using fixed_digits [OF x(2) r] x(1) r False
      by (intro that [of D d]) (auto simp: N_def float_body_def Let_def)
  qed
  obtain ip fp where f: "fixed_body D decpt prec hash = ip @ (if prec > 0 \<or> hash then 46 # fp else [])"
      "numeral_of 10 (N div 10 ^ prec) ip" "length fp = prec" "decimals fp" "dv fp = N mod 10 ^ prec"
    using fixed_body_ok [OF D] by blast
  have dec: "map (\<lambda>b. if b = 101 then 69 else b) ds = ds" if "decimals ds" for ds :: "u8 list"
    using that by (induction ds) (auto simp: is_digit_10)
  have "map (\<lambda>b. if b = 101 then 69 else b) (fixed_body D decpt prec hash) = fixed_body D decpt prec hash"
    unfolding f(1) using f(2,4) dec by (auto simp: numeral_of_def)
  then have "float_body m e2 102 upper prec hash =
      (let body = fixed_body D decpt prec hash in if length body \<le> BODY_CAP then Some body else None)"
    unfolding fb by (simp add: Let_def)
  then show ?thesis using f unfolding f(1) by blast
qed

text \<open>
  The same for the bits of a double at least \<open>2\<^bsup>-832\<^esup>\<close> in magnitude, or zero: there the
  bignum has room.
\<close>

lemma fits_normal: "191 \<le> e \<Longrightarrow> m < 2 ^ 53 \<Longrightarrow> m * 10 ^ nat (- (int e - 1075)) < B9 ^ BN_CAP"
proof -
  assume e: "191 \<le> e" and m: "m < (2::nat) ^ 53"
  have "(2::nat) ^ 53 \<le> 10 ^ 16" by simp
  then have "m < 10 ^ 16" using m by (rule order.strict_trans2 [rotated])
  moreover have "(10::nat) ^ nat (- (int e - 1075)) \<le> 10 ^ 884" using e by (intro power_increasing) auto
  ultimately have "m * 10 ^ nat (- (int e - 1075)) < 10 ^ 16 * 10 ^ 884"
    by (rule mult_less_le_imp_less [OF _ _ le0 zero_less_power [OF zero_less_numeral]])
  also have "(10::nat) ^ 16 * 10 ^ 884 = 10 ^ (16 + 884)" by (rule power_add [symmetric])
  also have "\<dots> = 10 ^ (9 * BN_CAP)" by (rule arg_cong [where f = "power 10"]) (simp add: BN_CAP_def)
  also have "\<dots> = B9 ^ BN_CAP"
    unfolding power_mult by (rule arg_cong [where f = "\<lambda>b. b ^ BN_CAP"]) (simp add: B9_def)
  finally show ?thesis .
qed

lemma dbl_ratio:
  assumes "real m * 2 powi e2 = x"
  shows "real (m * 2 ^ nat e2 * 10 ^ prec) / real (2 ^ nat (- e2)) = x * 10 ^ prec"
proof (cases "e2 \<ge> 0")
  case True
  then have "(2::real) powi e2 = 2 ^ nat e2" by (simp add: power_int_def)
  then show ?thesis using True assms by simp
next
  case False
  then have "(2::real) powi e2 = inverse (2 ^ nat (- e2))" by (simp add: power_int_def power_one_over inverse_eq_divide)
  then have "real m / 2 ^ nat (- e2) = x" using assms by (simp add: inverse_eq_divide)
  then show ?thesis using False by auto
qed

definition printable :: "u64 \<Rightarrow> bool" where
  "printable x \<longleftrightarrow> dbl_exp x \<noteq> 2047 \<and> (dbl_abs x = 0 \<or> 191 \<le> dbl_exp x)"

lemma printable_fits:
  assumes "printable x" "rt_unpack x = (0, neg, Some (m, e2))" "unat m < 2 ^ 53"
    "real (unat m) * 2 powi e2 = dbl_abs x"
  shows "unat m * 10 ^ nat (- e2) < B9 ^ BN_CAP"
proof (cases "191 \<le> dbl_exp x")
  case True
  then have "e2 = int (dbl_exp x) - 1075"
    using assms(2) by (auto simp: rt_unpack_def Let_def rt_unpack_exp split: if_splits)
  then show ?thesis using fits_normal [OF True assms(3)] by simp
next
  case False
  then have "real (unat m) = 0" using assms(1,4) by (auto simp: printable_def)
  then have "unat m = 0" by (simp only: of_nat_eq_0_iff)
  then show ?thesis by simp
qed

lemma emit_float_fixed:
  assumes x: "printable x" and k: "sk_stream k = None" and sp: "sp_prec sp = int prec"
    and conv: "conv = 102 \<or> conv = 70"
  shows "\<exists>N ip fp. rounds_even (dbl_abs x * 10 ^ prec) N \<and>
    numeral_of 10 (N div 10 ^ prec) ip \<and> length fp = prec \<and> decimals fp \<and> dv fp = N mod 10 ^ prec \<and>
    emit_float fw k x conv sp =
      (let body = ip @ (if prec > 0 \<or> sp_flags sp AND FL_HASH \<noteq> 0 then 46 # fp else [])
       in if length body \<le> BODY_CAP
          then sink_bytes fw k (pad_text (sign_ch sp (2 ^ 63 \<le> unat x)) 0 0 body sp (- 1))
          else None)"
proof -
  obtain m e2 where u: "rt_unpack x = (0, 2 ^ 63 \<le> unat x, Some (m, e2))" and m: "unat m < 2 ^ 53"
      "- 1074 \<le> e2" "e2 \<le> 971" "real (unat m) * 2 powi e2 = dbl_abs x"
    using rt_unpack_ok [of x] x by (auto simp: printable_def)
  define N where "N = rhe_div (unat m * 2 ^ nat e2 * 10 ^ prec) (2 ^ nat (- e2))"
  have "rounds_even (real (unat m * 2 ^ nat e2 * 10 ^ prec) / real (2 ^ nat (- e2))) N"
    unfolding N_def by (rule rhe_div_even) simp
  then have N: "rounds_even (dbl_abs x * 10 ^ prec) N" by (simp only: dbl_ratio [OF m(4)])
  obtain ip fp where f: "numeral_of 10 (N div 10 ^ prec) ip" "length fp = prec" "decimals fp"
      "dv fp = N mod 10 ^ prec"
      "float_body m e2 102 (conv = 70) prec (sp_flags sp AND FL_HASH \<noteq> 0) =
       (let body = ip @ (if prec > 0 \<or> sp_flags sp AND FL_HASH \<noteq> 0 then 46 # fp else [])
        in if length body \<le> BODY_CAP then Some body else None)"
    using float_body_fixed [OF m(2,3,1) printable_fits [OF x u m(1,4)],
        of prec "conv = 70" "sp_flags sp AND FL_HASH \<noteq> 0", folded N_def] by blast
  have c: "(conv \<in> {69, 70, 71}) = (conv = 70)" "(if conv = 70 then conv + 32 else conv) = 102"
      "(if sp_prec sp \<ge> 0 then nat (sp_prec sp) else 6) = prec"
    using conv sp by auto
  have "emit_float fw k x conv sp = do { t \<leftarrow> float_text conv sp x; sink_bytes fw k t }"
    using conv by (intro emit_float_text [OF k]) auto
  then have "emit_float fw k x conv sp =
      (let body = ip @ (if prec > 0 \<or> sp_flags sp AND FL_HASH \<noteq> 0 then 46 # fp else [])
       in if length body \<le> BODY_CAP
          then sink_bytes fw k (pad_text (sign_ch sp (2 ^ 63 \<le> unat x)) 0 0 body sp (- 1))
          else None)"
    unfolding float_text_def Let_def u prod.case option.case c f(5) by auto
  then show ?thesis using N f by blast
qed

section \<open>Where the bignum overflows\<close>

lemma rt_exact_digits_smallest: "rt_exact_digits 1 (- 1074) = None"
proof -
  have "B9 ^ BN_CAP = 10 ^ (9 * BN_CAP)"
    unfolding power_mult by (rule arg_cong [where f = "\<lambda>b. b ^ BN_CAP"]) (simp add: B9_def)
  moreover have "(10::nat) ^ (9 * BN_CAP) \<le> 10 ^ nat (- (- 1074))"
    by (intro power_increasing) (simp_all add: BN_CAP_def)
  ultimately have n: "\<not> unat (1 :: u64) * 10 ^ nat (- (- 1074)) < B9 ^ BN_CAP"
    by (simp only: unat_1 mult_1 not_less)
  have "(1 :: u64) \<noteq> 0" "(- 1074 :: int) \<le> - 1074" "(- 1074 :: int) \<le> 971"
      "unat (1 :: u64) < 2 ^ 53" by simp_all
  from rt_exact_digits_ok [OF this] show ?thesis unfolding if_not_P [OF n] .
qed

section \<open>Properties\<close>

text \<open>
  C2. \<open>%f\<close> and \<open>%F\<close> print the double, for every sign, width, flag and precision: integer part
  without leading zeros, point, \<open>prec\<close> fraction digits, the whole being the magnitude
  rounded half to even at that place. The text is lost (\<open>body\<close> overflows) exactly when it
  has more than 832 characters. \<open>printable\<close> leaves out the infinities, NaN and the values
  below \<open>2\<^bsup>-832\<^esup>\<close>.
\<close>

theorem printf_f_correct:
  assumes "printable x" and "sk_stream k = None" and "sp_prec sp = int prec"
    and "conv = 102 \<or> conv = 70"
  shows "\<exists>N ip fp. rounds_even (dbl_abs x * 10 ^ prec) N \<and>
    numeral_of 10 (N div 10 ^ prec) ip \<and> length fp = prec \<and> decimals fp \<and> dv fp = N mod 10 ^ prec \<and>
    emit_float fw k x conv sp =
      (let body = ip @ (if prec > 0 \<or> sp_flags sp AND FL_HASH \<noteq> 0 then 46 # fp else [])
       in if length body \<le> BODY_CAP
          then sink_bytes fw k (pad_text (sign_ch sp (2 ^ 63 \<le> unat x)) 0 0 body sp (- 1))
          else None)"
  using assms by (rule emit_float_fixed)

lemma printf_f_correct_witness:
  "\<exists>N ip fp. rounds_even (dbl_abs 0xBFF8000000000000 * 10 ^ 0) N \<and>
    numeral_of 10 (N div 10 ^ 0) ip \<and> length fp = 0 \<and> decimals fp \<and> dv fp = N mod 10 ^ 0 \<and>
    emit_float no_fwrite (buf_sink Map.empty 0 0) 0xBFF8000000000000 102
        \<lparr>sp_flags = 0, sp_width = 4, sp_prec = int 0\<rparr> =
      (let body = ip @ (if (0::nat) > 0 \<or> sp_flags \<lparr>sp_flags = 0, sp_width = 4, sp_prec = int 0\<rparr> AND FL_HASH \<noteq> 0
                        then 46 # fp else [])
       in if length body \<le> BODY_CAP
          then sink_bytes no_fwrite (buf_sink Map.empty 0 0)
            (pad_text (sign_ch \<lparr>sp_flags = 0, sp_width = 4, sp_prec = int 0\<rparr> (2 ^ 63 \<le> unat (0xBFF8000000000000 :: u64)))
              0 0 body \<lparr>sp_flags = 0, sp_width = 4, sp_prec = int 0\<rparr> (- 1))
          else None)"
  by (rule printf_f_correct) (simp_all add: printable_def dbl_exp_def buf_sink_def)

text \<open>
  The bignum is too small for the whole range of a double: printing the smallest
  positive one, with any floating conversion, flags and precision, stores outside the
  array.
\<close>

theorem smallest_double_overflows:
  "rt_unpack 1 = (0, False, Some (1, - 1074)) \<and> float_body 1 (- 1074) c upper prec hash = None"
  using rt_exact_digits_smallest by (simp add: rt_unpack_def float_body_def Let_def)

end
