(* ===== verification/WString.thy ===== *)
theory WString
  imports RtString
begin

text \<open>
  \<open>rt/rt_wstring.c\<close>: the wide-string routines. \<open>wchar_t\<close> is 16 bits; a wide memory
  names its units, so that the address of \<open>s[i]\<close> is \<open>s + i\<close>. The two conversions of
  the narrow/wide bridge work on a byte memory and a wide memory, which the C arrays they
  are given never share. Loops are written over the index the code counts with.
\<close>

type_synonym wmem = "u16 cells"

section \<open>Length and copying\<close>

partial_function (option) wcslen_loop :: "wmem \<Rightarrow> nat \<Rightarrow> nat \<Rightarrow> nat option" where
  [code]: "wcslen_loop m s n = do { c \<leftarrow> m (s + n); if c \<noteq> 0 then wcslen_loop m s (n + 1) else Some n }"

definition wcslen :: "wmem \<Rightarrow> nat \<Rightarrow> nat option" where
  "wcslen m s = wcslen_loop m s 0"

partial_function (option) wcscpy_loop :: "wmem \<Rightarrow> nat \<Rightarrow> nat \<Rightarrow> wmem option" where
  [code]: "wcscpy_loop m d s =
     do { c \<leftarrow> m s; m' \<leftarrow> st8 m d c;
          if c \<noteq> 0 then wcscpy_loop m' (d + 1) (s + 1) else Some m' }"

definition wcscpy :: "wmem \<Rightarrow> nat \<Rightarrow> nat \<Rightarrow> (nat \<times> wmem) option" where
  "wcscpy m d s = do { m' \<leftarrow> wcscpy_loop m d s; Some (d, m') }"

text \<open>The two loops of \<open>wcsncpy\<close>; \<open>k\<close> units are left to go, so \<open>i = n - k\<close>.\<close>

fun wzero_fill :: "wmem \<Rightarrow> nat \<Rightarrow> nat \<Rightarrow> nat \<Rightarrow> wmem option" where
  "wzero_fill m d i 0 = Some m"
| "wzero_fill m d i (Suc k) = do { m' \<leftarrow> st8 m (d + i) 0; wzero_fill m' d (i + 1) k }"

fun wcsncpy_loop :: "wmem \<Rightarrow> nat \<Rightarrow> nat \<Rightarrow> nat \<Rightarrow> nat \<Rightarrow> wmem option" where
  "wcsncpy_loop m d s i 0 = wzero_fill m d i 0"
| "wcsncpy_loop m d s i (Suc k) =
     do { c \<leftarrow> m (s + i);
          if c \<noteq> 0 then do { m' \<leftarrow> st8 m (d + i) c; wcsncpy_loop m' d s (i + 1) k }
          else wzero_fill m d i (Suc k) }"

definition wcsncpy :: "wmem \<Rightarrow> nat \<Rightarrow> nat \<Rightarrow> nat \<Rightarrow> (nat \<times> wmem) option" where
  "wcsncpy m d s n = do { m' \<leftarrow> wcsncpy_loop m d s 0 n; Some (d, m') }"

definition wcscat :: "wmem \<Rightarrow> nat \<Rightarrow> nat \<Rightarrow> (nat \<times> wmem) option" where
  "wcscat m d s = do { n \<leftarrow> wcslen m d; (r, m') \<leftarrow> wcscpy m (d + n) s; Some (d, m') }"

fun wcsncat_loop :: "wmem \<Rightarrow> nat \<Rightarrow> nat \<Rightarrow> nat \<Rightarrow> nat \<Rightarrow> nat \<Rightarrow> wmem option" where
  "wcsncat_loop m d dl s i 0 = st8 m (d + (dl + i)) 0"
| "wcsncat_loop m d dl s i (Suc k) =
     do { c \<leftarrow> m (s + i);
          if c \<noteq> 0 then do { m' \<leftarrow> st8 m (d + (dl + i)) c; wcsncat_loop m' d dl s (i + 1) k }
          else st8 m (d + (dl + i)) 0 }"

definition wcsncat :: "wmem \<Rightarrow> nat \<Rightarrow> nat \<Rightarrow> nat \<Rightarrow> (nat \<times> wmem) option" where
  "wcsncat m d s n =
     do { dl \<leftarrow> wcslen m d; m' \<leftarrow> wcsncat_loop m d dl s 0 n; Some (d, m') }"

section \<open>Comparing and searching\<close>

partial_function (option) wcscmp :: "wmem \<Rightarrow> nat \<Rightarrow> nat \<Rightarrow> int option" where
  [code]: "wcscmp m a b =
     do { x \<leftarrow> m a;
          if x \<noteq> 0
          then do { y \<leftarrow> m b;
                    if x = y then wcscmp m (a + 1) (b + 1) else Some (uint x - uint y) }
          else do { y \<leftarrow> m b; Some (uint x - uint y) } }"

fun wcsncmp_loop :: "wmem \<Rightarrow> nat \<Rightarrow> nat \<Rightarrow> nat \<Rightarrow> nat \<Rightarrow> int option" where
  "wcsncmp_loop m a b i 0 = Some 0"
| "wcsncmp_loop m a b i (Suc k) =
     do { x \<leftarrow> m (a + i); y \<leftarrow> m (b + i);
          if x \<noteq> y then Some (uint x - uint y)
          else if x = 0 then Some 0 else wcsncmp_loop m a b (i + 1) k }"

definition wcsncmp :: "wmem \<Rightarrow> nat \<Rightarrow> nat \<Rightarrow> nat \<Rightarrow> int option" where
  "wcsncmp m a b n = wcsncmp_loop m a b 0 n"

partial_function (option) wcschr :: "wmem \<Rightarrow> nat \<Rightarrow> u16 \<Rightarrow> nat option option" where
  [code]: "wcschr m s c =
     do { x \<leftarrow> m s;
          if x = c then Some (Some s) else if x = 0 then Some None else wcschr m (s + 1) c }"

partial_function (option) wcsrchr_loop :: "wmem \<Rightarrow> nat \<Rightarrow> u16 \<Rightarrow> nat option \<Rightarrow> nat option option" where
  [code]: "wcsrchr_loop m s c hit =
     do { x \<leftarrow> m s;
          let hit = (if x = c then Some s else hit)
          in if x = 0 then Some hit else wcsrchr_loop m (s + 1) c hit }"

definition wcsrchr :: "wmem \<Rightarrow> nat \<Rightarrow> u16 \<Rightarrow> nat option option" where
  "wcsrchr m s c = wcsrchr_loop m s c None"

text \<open>How far the inner loop of \<open>wcsstr\<close> runs: the first \<open>i\<close> with \<open>h[i] != n[i]\<close>, or \<open>nl\<close>.\<close>

fun wcsstr_match :: "wmem \<Rightarrow> nat \<Rightarrow> nat \<Rightarrow> nat \<Rightarrow> nat \<Rightarrow> nat option" where
  "wcsstr_match m h n i 0 = Some i"
| "wcsstr_match m h n i (Suc k) =
     do { x \<leftarrow> m (h + i); y \<leftarrow> m (n + i);
          if x = y then wcsstr_match m h n (i + 1) k else Some i }"

partial_function (option) wcsstr_loop :: "wmem \<Rightarrow> nat \<Rightarrow> nat \<Rightarrow> nat \<Rightarrow> nat option option" where
  [code]: "wcsstr_loop m h n nl =
     do { x \<leftarrow> m h;
          if x = 0 then Some None
          else do { i \<leftarrow> wcsstr_match m h n 0 nl;
                    if i = nl then Some (Some h) else wcsstr_loop m (h + 1) n nl } }"

definition wcsstr :: "wmem \<Rightarrow> nat \<Rightarrow> nat \<Rightarrow> nat option option" where
  "wcsstr m h n =
     do { nl \<leftarrow> wcslen m n; if nl = 0 then Some (Some h) else wcsstr_loop m h n nl }"

partial_function (option) wch_in :: "wmem \<Rightarrow> nat \<Rightarrow> u16 \<Rightarrow> bool option" where
  [code]: "wch_in m cset c =
     do { x \<leftarrow> m cset;
          if x = 0 then Some False else if x = c then Some True else wch_in m (cset + 1) c }"

partial_function (option) wcsspn_loop :: "wmem \<Rightarrow> nat \<Rightarrow> nat \<Rightarrow> nat \<Rightarrow> nat option" where
  [code]: "wcsspn_loop m s cset n =
     do { c \<leftarrow> m (s + n);
          if c = 0 then Some n
          else do { r \<leftarrow> wch_in m cset c; if r then wcsspn_loop m s cset (n + 1) else Some n } }"

definition wcsspn :: "wmem \<Rightarrow> nat \<Rightarrow> nat \<Rightarrow> nat option" where
  "wcsspn m s cset = wcsspn_loop m s cset 0"

partial_function (option) wcscspn_loop :: "wmem \<Rightarrow> nat \<Rightarrow> nat \<Rightarrow> nat \<Rightarrow> nat option" where
  [code]: "wcscspn_loop m s cset n =
     do { c \<leftarrow> m (s + n);
          if c = 0 then Some n
          else do { r \<leftarrow> wch_in m cset c; if \<not> r then wcscspn_loop m s cset (n + 1) else Some n } }"

definition wcscspn :: "wmem \<Rightarrow> nat \<Rightarrow> nat \<Rightarrow> nat option" where
  "wcscspn m s cset = wcscspn_loop m s cset 0"

partial_function (option) wcspbrk :: "wmem \<Rightarrow> nat \<Rightarrow> nat \<Rightarrow> nat option option" where
  [code]: "wcspbrk m s cset =
     do { c \<leftarrow> m s;
          if c = 0 then Some None
          else do { r \<leftarrow> wch_in m cset c; if r then Some (Some s) else wcspbrk m (s + 1) cset } }"

section \<open>Blocks of units\<close>

fun wcopy_up :: "wmem \<Rightarrow> nat \<Rightarrow> nat \<Rightarrow> nat \<Rightarrow> nat \<Rightarrow> wmem option" where
  "wcopy_up m d s i 0 = Some m"
| "wcopy_up m d s i (Suc k) =
     do { c \<leftarrow> m (s + i); m' \<leftarrow> st8 m (d + i) c; wcopy_up m' d s (i + 1) k }"

fun wcopy_down :: "wmem \<Rightarrow> nat \<Rightarrow> nat \<Rightarrow> nat \<Rightarrow> wmem option" where
  "wcopy_down m d s 0 = Some m"
| "wcopy_down m d s (Suc i) =
     do { c \<leftarrow> m (s + i); m' \<leftarrow> st8 m (d + i) c; wcopy_down m' d s i }"

definition wmemcpy :: "wmem \<Rightarrow> nat \<Rightarrow> nat \<Rightarrow> nat \<Rightarrow> (nat \<times> wmem) option" where
  "wmemcpy m d s n = do { m' \<leftarrow> wcopy_up m d s 0 n; Some (d, m') }"

definition wmemmove :: "wmem \<Rightarrow> nat \<Rightarrow> nat \<Rightarrow> nat \<Rightarrow> (nat \<times> wmem) option" where
  "wmemmove m d s n =
     do { m' \<leftarrow> (if d < s \<or> d \<ge> s + n then wcopy_up m d s 0 n else wcopy_down m d s n);
          Some (d, m') }"

fun wmemset_loop :: "wmem \<Rightarrow> nat \<Rightarrow> u16 \<Rightarrow> nat \<Rightarrow> nat \<Rightarrow> wmem option" where
  "wmemset_loop m d c i 0 = Some m"
| "wmemset_loop m d c i (Suc k) = do { m' \<leftarrow> st8 m (d + i) c; wmemset_loop m' d c (i + 1) k }"

definition wmemset :: "wmem \<Rightarrow> nat \<Rightarrow> u16 \<Rightarrow> nat \<Rightarrow> (nat \<times> wmem) option" where
  "wmemset m d c n = do { m' \<leftarrow> wmemset_loop m d c 0 n; Some (d, m') }"

fun wmemcmp_loop :: "wmem \<Rightarrow> nat \<Rightarrow> nat \<Rightarrow> nat \<Rightarrow> nat \<Rightarrow> int option" where
  "wmemcmp_loop m a b i 0 = Some 0"
| "wmemcmp_loop m a b i (Suc k) =
     do { x \<leftarrow> m (a + i); y \<leftarrow> m (b + i);
          if x \<noteq> y then Some (uint x - uint y) else wmemcmp_loop m a b (i + 1) k }"

definition wmemcmp :: "wmem \<Rightarrow> nat \<Rightarrow> nat \<Rightarrow> nat \<Rightarrow> int option" where
  "wmemcmp m a b n = wmemcmp_loop m a b 0 n"

fun wmemchr_loop :: "wmem \<Rightarrow> nat \<Rightarrow> u16 \<Rightarrow> nat \<Rightarrow> nat \<Rightarrow> nat option option" where
  "wmemchr_loop m s c i 0 = Some None"
| "wmemchr_loop m s c i (Suc k) =
     do { x \<leftarrow> m (s + i); if x = c then Some (Some (s + i)) else wmemchr_loop m s c (i + 1) k }"

definition wmemchr :: "wmem \<Rightarrow> nat \<Rightarrow> u16 \<Rightarrow> nat \<Rightarrow> nat option option" where
  "wmemchr m s c n = wmemchr_loop m s c 0 n"

section \<open>The narrow/wide bridge\<close>

definition wctob :: "u32 \<Rightarrow> int" where
  "wctob c = (if c < 128 then uint c else - 1)"

definition btowc :: "int \<Rightarrow> u32" where
  "btowc c = (if c \<ge> 0 \<and> c < 128 then word_of_int c else 65535)"

text \<open>
  The conversions count the units they convert; the terminator is only stored when there is
  room. \<open>k\<close> places are left, so \<open>i < n\<close> is \<open>k > 0\<close>.
\<close>

fun wcstombs_loop :: "mem \<Rightarrow> wmem \<Rightarrow> nat \<Rightarrow> nat \<Rightarrow> nat \<Rightarrow> nat \<Rightarrow> (nat \<times> mem) option" where
  "wcstombs_loop m w d s i 0 = Some (i, m)"
| "wcstombs_loop m w d s i (Suc k) =
     do { c \<leftarrow> w (s + i);
          if c \<noteq> 0
          then do { m' \<leftarrow> st8 m (d + i) (if c < 256 then ucast c else 63);
                    wcstombs_loop m' w d s (i + 1) k }
          else do { m' \<leftarrow> st8 m (d + i) 0; Some (i, m') } }"

definition wcstombs :: "mem \<Rightarrow> wmem \<Rightarrow> nat \<Rightarrow> nat \<Rightarrow> nat \<Rightarrow> (nat \<times> mem) option" where
  "wcstombs m w d s n = wcstombs_loop m w d s 0 n"

fun mbstowcs_loop :: "wmem \<Rightarrow> mem \<Rightarrow> nat \<Rightarrow> nat \<Rightarrow> nat \<Rightarrow> nat \<Rightarrow> (nat \<times> wmem) option" where
  "mbstowcs_loop w m d s i 0 = Some (i, w)"
| "mbstowcs_loop w m d s i (Suc k) =
     do { c \<leftarrow> m (s + i);
          if c \<noteq> 0
          then do { w' \<leftarrow> st8 w (d + i) (ucast c); mbstowcs_loop w' m d s (i + 1) k }
          else do { w' \<leftarrow> st8 w (d + i) 0; Some (i, w') } }"

definition mbstowcs :: "wmem \<Rightarrow> mem \<Rightarrow> nat \<Rightarrow> nat \<Rightarrow> nat \<Rightarrow> (nat \<times> wmem) option" where
  "mbstowcs w m d s n = mbstowcs_loop w m d s 0 n"


section \<open>The copying routines\<close>

lemma wcslen_loop_ok: "cstr m (s + n) xs \<Longrightarrow> wcslen_loop m s n = Some (n + length xs)"
proof (induction xs arbitrary: n)
  case Nil
  then show ?case by (subst wcslen_loop.simps) simp
next
  case (Cons x xs)
  then show ?case by (subst wcslen_loop.simps) simp
qed

lemma wcslen_ok: "cstr m s xs \<Longrightarrow> wcslen m s = Some (length xs)"
  using wcslen_loop_ok [of m s 0 xs] by (simp add: wcslen_def)

lemma wcscpy_loop_ok:
  "cstr m s bs \<Longrightarrow> mapped m d (length bs + 1) \<Longrightarrow> d \<le> s \<or> s + length bs < d \<Longrightarrow>
   wcscpy_loop m d s = Some (put_bytes m d (bs @ [0]))"
proof (induction bs arbitrary: m d s)
  case Nil
  then show ?case by (subst wcscpy_loop.simps) (auto simp: st8_mapped put_bytes_Cons)
next
  case (Cons b bs)
  let ?m = "put8 m d b"
  have "cstr ?m (Suc s) bs"
    using Cons.prems unfolding cstr_def by (auto intro: bytes_at_upd_other)
  moreover have "mapped ?m (Suc d) (length bs + 1)" using Cons.prems by simp
  ultimately have "wcscpy_loop ?m (Suc d) (Suc s) = Some (put_bytes ?m (Suc d) (bs @ [0]))"
    using Cons.prems(3) by (intro Cons.IH) auto
  with Cons.prems show ?case
    by (subst wcscpy_loop.simps) (simp add: st8_mapped put_bytes_Cons)
qed

lemma wcscat_ok:
  "cstr m d as \<Longrightarrow> cstr m s bs \<Longrightarrow> mapped m (d + length as) (length bs + 1) \<Longrightarrow>
   d + length as + length bs < s \<or> s + length bs < d + length as \<Longrightarrow>
   wcscat m d s = Some (d, put_bytes m (d + length as) (bs @ [0]))"
  using wcscpy_loop_ok [of m s bs "d + length as"]
  by (auto simp: wcscat_def wcscpy_def wcslen_ok)

lemma wzero_fill_ok:
  "mapped m (d + i) k \<Longrightarrow> wzero_fill m d i k = Some (put_bytes m (d + i) (replicate k 0))"
proof (induction k arbitrary: m i)
  case (Suc k)
  then have "m (d + i) \<noteq> None" "mapped (put8 m (d + i) 0) (d + Suc i) k" by auto
  with Suc.IH [of "put8 m (d + i) 0" "Suc i"] show ?case
    by (simp add: st8_mapped put_bytes_Cons)
qed simp

lemma wcsncpy_loop_ok:
  "cstr m (s + i) bs \<Longrightarrow> mapped m (d + i) k \<Longrightarrow> d + i + k \<le> s + i \<or> s + i + length bs < d + i \<Longrightarrow>
   wcsncpy_loop m d s i k =
     Some (put_bytes m (d + i) (take k bs @ replicate (k - length bs) 0))"
proof (induction k arbitrary: m i bs)
  case (Suc k)
  show ?case
  proof (cases bs)
    case Nil
    with Suc.prems show ?thesis using wzero_fill_ok [of m d i "Suc k"] by simp
  next
    case (Cons b bs')
    let ?m = "put8 m (d + i) b"
    have "cstr ?m (s + Suc i) bs'"
      using Suc.prems Cons unfolding cstr_def by (auto intro: bytes_at_upd_other)
    moreover have "mapped ?m (d + Suc i) k" using Suc.prems by simp
    ultimately have "wcsncpy_loop ?m d s (Suc i) k =
        Some (put_bytes ?m (d + Suc i) (take k bs' @ replicate (k - length bs') 0))"
      using Suc.prems(3) Cons by (intro Suc.IH) auto
    with Suc.prems Cons show ?thesis by (simp add: st8_mapped put_bytes_Cons)
  qed
qed simp

lemma wcsncpy_ok:
  "cstr m s bs \<Longrightarrow> mapped m d n \<Longrightarrow> d + n \<le> s \<or> s + length bs < d \<Longrightarrow>
   wcsncpy m d s n = Some (d, put_bytes m d (take n bs @ replicate (n - length bs) 0))"
  using wcsncpy_loop_ok [of m s 0 bs d n] by (simp add: wcsncpy_def)

lemma wcsncat_loop_ok:
  "cstr m (s + i) bs \<Longrightarrow> mapped m (d + (dl + i)) (min k (length bs) + 1) \<Longrightarrow>
   d + (dl + i) + k < s + i \<or> s + i + length bs < d + (dl + i) \<Longrightarrow>
   wcsncat_loop m d dl s i k = Some (put_bytes m (d + (dl + i)) (take k bs @ [0]))"
proof (induction k arbitrary: m i bs)
  case 0
  then show ?case by (simp add: st8_mapped put_bytes_Cons)
next
  case (Suc k)
  show ?case
  proof (cases bs)
    case Nil
    with Suc.prems show ?thesis by (simp add: st8_mapped put_bytes_Cons)
  next
    case (Cons b bs')
    let ?m = "put8 m (d + (dl + i)) b"
    have "cstr ?m (s + Suc i) bs'"
      using Suc.prems Cons unfolding cstr_def by (auto intro: bytes_at_upd_other)
    moreover have "mapped ?m (d + (dl + Suc i)) (min k (length bs') + 1)"
      using Suc.prems(2) Cons by simp
    ultimately have "wcsncat_loop ?m d dl s (Suc i) k =
        Some (put_bytes ?m (d + (dl + Suc i)) (take k bs' @ [0]))"
      using Suc.prems(3) Cons by (intro Suc.IH) auto
    with Suc.prems Cons show ?thesis by (simp add: st8_mapped put_bytes_Cons)
  qed
qed

lemma wcsncat_ok:
  "cstr m d as \<Longrightarrow> cstr m s bs \<Longrightarrow> mapped m (d + length as) (min n (length bs) + 1) \<Longrightarrow>
   d + length as + n < s \<or> s + length bs < d + length as \<Longrightarrow>
   wcsncat m d s n = Some (d, put_bytes m (d + length as) (take n bs @ [0]))"
  using wcsncat_loop_ok [of m s 0 bs d "length as" n] by (simp add: wcsncat_def wcslen_ok)

lemma wcopy_up_ok:
  "bytes_at m (s + i) bs \<Longrightarrow> mapped m (d + i) (length bs) \<Longrightarrow> d \<le> s \<or> s + i + length bs \<le> d + i \<Longrightarrow>
   wcopy_up m d s i (length bs) = Some (put_bytes m (d + i) bs)"
proof (induction bs arbitrary: m i)
  case (Cons b bs)
  let ?m = "put8 m (d + i) b"
  have "bytes_at ?m (s + Suc i) bs" using Cons.prems by (intro bytes_at_upd_other) auto
  with Cons.prems have "wcopy_up ?m d s (Suc i) (length bs) = Some (put_bytes ?m (d + Suc i) bs)"
    by (intro Cons.IH) auto
  with Cons.prems show ?case by (simp add: st8_mapped put_bytes_Cons)
qed simp

lemma wcopy_down_ok:
  "bytes_at m s bs \<Longrightarrow> mapped m d (length bs) \<Longrightarrow> s \<le> d \<Longrightarrow>
   wcopy_down m d s (length bs) = Some (put_bytes m d bs)"
proof (induction bs arbitrary: m rule: rev_induct)
  case (snoc b bs)
  let ?m = "put8 m (d + length bs) b"
  have "m (d + length bs) \<noteq> None"
    using snoc.prems(2) by (auto simp: mapped_def)
  moreover have "bytes_at ?m s bs"
    using snoc.prems by (intro bytes_at_upd_other) auto
  moreover have "mapped ?m d (length bs)"
    using snoc.prems(2) by (intro mapped_upd mapped_le [OF snoc.prems(2)]) simp
  ultimately show ?case
    using snoc.IH [of ?m] snoc.prems
    by (simp add: st8_mapped put_bytes_last)
qed simp

lemma wmemcpy_ok:
  "bytes_at m s bs \<Longrightarrow> mapped m d (length bs) \<Longrightarrow> d \<le> s \<or> s + length bs \<le> d \<Longrightarrow>
   wmemcpy m d s (length bs) = Some (d, put_bytes m d bs)"
  using wcopy_up_ok [of m s 0 bs d] by (simp add: wmemcpy_def)

lemma wmemmove_ok:
  "bytes_at m s bs \<Longrightarrow> mapped m d (length bs) \<Longrightarrow>
   wmemmove m d s (length bs) = Some (d, put_bytes m d bs)"
  using wcopy_up_ok [of m s 0 bs d] wcopy_down_ok [of m s bs d]
  by (cases "d < s \<or> s + length bs \<le> d") (auto simp: wmemmove_def)

lemma wmemset_loop_ok:
  "mapped m (d + i) k \<Longrightarrow> wmemset_loop m d c i k = Some (put_bytes m (d + i) (replicate k c))"
proof (induction k arbitrary: m i)
  case (Suc k)
  then have "m (d + i) \<noteq> None" "mapped (put8 m (d + i) c) (d + Suc i) k" by auto
  with Suc.IH [of "put8 m (d + i) c" "Suc i"] show ?case
    by (simp add: st8_mapped put_bytes_Cons)
qed simp

lemma wmemset_ok:
  "mapped m d n \<Longrightarrow> wmemset m d c n = Some (d, put_bytes m d (replicate n c))"
  using wmemset_loop_ok [of m d 0 n c] by (simp add: wmemset_def)

section \<open>Comparing and searching\<close>

lemma wcscmp_ok: "cstr m a s \<Longrightarrow> cstr m b t \<Longrightarrow> wcscmp m a b = Some (lex_cmp s t)"
proof (induction s t arbitrary: a b rule: lex_cmp.induct)
  case 1
  then show ?case by (subst wcscmp.simps) simp
next
  case (2 y ys)
  then show ?case by (subst wcscmp.simps) simp
next
  case (3 x xs)
  then show ?case by (subst wcscmp.simps) simp
next
  case (4 x xs y ys)
  then show ?case by (subst wcscmp.simps) simp
qed

lemma wcsncmp_loop_ok:
  "cstr m (a + i) s \<Longrightarrow> cstr m (b + i) t \<Longrightarrow>
   wcsncmp_loop m a b i n = Some (lex_cmp (take n s) (take n t))"
proof (induction s t arbitrary: i n rule: lex_cmp.induct)
  case 1
  then show ?case by (cases n) auto
next
  case (2 y ys)
  then show ?case by (cases n) auto
next
  case (3 x xs)
  then show ?case by (cases n) auto
next
  case (4 x xs y ys)
  then show ?case by (cases n) auto
qed

lemma wcsncmp_ok:
  "cstr m a s \<Longrightarrow> cstr m b t \<Longrightarrow> wcsncmp m a b n = Some (lex_cmp (take n s) (take n t))"
  using wcsncmp_loop_ok [of m a 0 s b t n] by (simp add: wcsncmp_def)

lemma wmemcmp_loop_ok:
  "bytes_at m (a + i) xs \<Longrightarrow> bytes_at m (b + i) ys \<Longrightarrow> length xs = n \<Longrightarrow> length ys = n \<Longrightarrow>
   wmemcmp_loop m a b i n = Some (lex_cmp xs ys)"
proof (induction xs ys arbitrary: i n rule: lex_cmp.induct)
  case (4 x xs y ys)
  then obtain k where "n = Suc k" by (cases n) auto
  with 4 show ?case by simp
qed auto

lemma wmemcmp_ok:
  "bytes_at m a xs \<Longrightarrow> bytes_at m b ys \<Longrightarrow> length ys = length xs \<Longrightarrow>
   wmemcmp m a b (length xs) = Some (lex_cmp xs ys)"
  using wmemcmp_loop_ok [of m a 0 xs b ys] by (simp add: wmemcmp_def)

lemma wcschr_ok: "cstr m p s \<Longrightarrow>
   wcschr m p b =
     (let k = length (takeWhile (\<lambda>x. x \<noteq> b) s)
      in Some (if k < length s \<or> b = 0 then Some (p + k) else None))"
proof (induction s arbitrary: p)
  case Nil
  then show ?case by (subst wcschr.simps) simp
next
  case (Cons c s)
  then have "m p = Some c" "c \<noteq> 0" "cstr m (Suc p) s" by auto
  with Cons.IH [of "Suc p"] show ?case
    by (subst wcschr.simps) (auto simp: Let_def)
qed

lemma wcsrchr_loop_ok: "cstr m p s \<Longrightarrow>
   wcsrchr_loop m p b hit =
     Some (case last_pos b (s @ [0]) of Some i \<Rightarrow> Some (p + i) | None \<Rightarrow> hit)"
proof (induction s arbitrary: p hit)
  case Nil
  then show ?case by (subst wcsrchr_loop.simps) (auto simp: Let_def)
next
  case (Cons c s)
  then have "m p = Some c" "c \<noteq> 0" "cstr m (Suc p) s" by auto
  with Cons.IH [of "Suc p"] show ?case
    by (subst wcsrchr_loop.simps) (auto simp: Let_def split: option.splits)
qed

lemma wmemchr_loop_ok:
  "bytes_at m (s + i) xs \<Longrightarrow>
   wmemchr_loop m s c i (length xs) =
     (let k = length (takeWhile (\<lambda>x. x \<noteq> c) xs)
      in Some (if k < length xs then Some (s + i + k) else None))"
proof (induction xs arbitrary: i)
  case (Cons x xs)
  then show ?case using Cons.IH [of "Suc i"] by (auto simp: Let_def)
qed simp

lemma wch_in_ok: "cstr m q cs \<Longrightarrow> wch_in m q c = Some (c \<in> set cs)"
proof (induction cs arbitrary: q)
  case Nil
  then show ?case by (subst wch_in.simps) simp
next
  case (Cons x cs)
  then show ?case by (subst wch_in.simps) auto
qed

lemma wcsspn_loop_ok: "cstr m (p + n) s \<Longrightarrow> cstr m q cs \<Longrightarrow>
   wcsspn_loop m p q n = Some (n + length (takeWhile (\<lambda>c. c \<in> set cs) s))"
proof (induction s arbitrary: n)
  case Nil
  then show ?case by (subst wcsspn_loop.simps) simp
next
  case (Cons c s)
  then show ?case by (subst wcsspn_loop.simps) (auto simp: wch_in_ok)
qed

lemma wcscspn_loop_ok: "cstr m (p + n) s \<Longrightarrow> cstr m q cs \<Longrightarrow>
   wcscspn_loop m p q n = Some (n + length (takeWhile (\<lambda>c. c \<notin> set cs) s))"
proof (induction s arbitrary: n)
  case Nil
  then show ?case by (subst wcscspn_loop.simps) simp
next
  case (Cons c s)
  then show ?case by (subst wcscspn_loop.simps) (auto simp: wch_in_ok)
qed

lemma wcspbrk_ok: "cstr m p s \<Longrightarrow> cstr m q cs \<Longrightarrow>
   wcspbrk m p q =
     (let k = length (takeWhile (\<lambda>c. c \<notin> set cs) s)
      in Some (if k < length s then Some (p + k) else None))"
proof (induction s arbitrary: p)
  case Nil
  then show ?case by (subst wcspbrk.simps) simp
next
  case (Cons c s)
  then show ?case by (subst wcspbrk.simps) (auto simp: Let_def wch_in_ok)
qed

text \<open>The inner loop of \<open>wcsstr\<close> reaches the end of the needle exactly at an occurrence.\<close>

lemma wcsstr_match_ok:
  "cstr m (h + i) hs \<Longrightarrow> bytes_at m (n + i) ns \<Longrightarrow> 0 \<notin> set ns \<Longrightarrow>
   \<exists>j. wcsstr_match m h n i (length ns) = Some j \<and> i \<le> j \<and>
     (j = i + length ns \<longleftrightarrow> take (length ns) hs = ns)"
proof (induction ns arbitrary: i hs)
  case (Cons x ns)
  show ?case
  proof (cases hs)
    case Nil
    with Cons.prems show ?thesis by simp
  next
    case (Cons y hs')
    show ?thesis
    proof (cases "y = x")
      case True
      obtain j where "wcsstr_match m h n (Suc i) (length ns) = Some j" and "Suc i \<le> j"
        and "j = Suc i + length ns \<longleftrightarrow> take (length ns) hs' = ns"
        using Cons.IH [of "Suc i" hs'] Cons.prems Cons by auto
      with True Cons Cons.prems show ?thesis by simp
    next
      case False
      with Cons Cons.prems show ?thesis by simp
    qed
  qed
qed simp

lemma wcsstr_loop_ok:
  "cstr m p h \<Longrightarrow> cstr m q n \<Longrightarrow> n \<noteq> [] \<Longrightarrow>
   wcsstr_loop m p q (length n) = Some (map_option (\<lambda>i. p + i) (first_sub n h))"
proof (induction h arbitrary: p)
  case Nil
  then show ?case by (subst wcsstr_loop.simps) simp
next
  case (Cons c h)
  obtain j where "wcsstr_match m p q 0 (length n) = Some j"
    and "j = length n \<longleftrightarrow> take (length n) (c # h) = n"
    using wcsstr_match_ok [of m p 0 "c # h" q n] Cons.prems by (auto simp: cstr_def)
  moreover have "wcsstr_loop m (Suc p) q (length n) = Some (map_option (\<lambda>i. Suc p + i) (first_sub n h))"
    using Cons.IH [of "Suc p"] Cons.prems by simp
  ultimately show ?case
    using Cons.prems by (subst wcsstr_loop.simps) (simp add: option.map_comp comp_def)
qed

lemma wcsstr_ok:
  "cstr m p h \<Longrightarrow> cstr m q n \<Longrightarrow>
   wcsstr m p q = Some (map_option (\<lambda>i. p + i) (first_sub n h))"
  using wcsstr_loop_ok [of m p h q n] wcslen_ok [of m q n]
  by (cases n; cases h) (auto simp: wcsstr_def)

section \<open>The bridge\<close>

lemma mbstowcs_loop_ok:
  "cstr m (s + i) cs \<Longrightarrow> mapped w (d + i) (min k (length cs + 1)) \<Longrightarrow>
   mbstowcs_loop w m d s i k =
     Some (i + min k (length cs), put_bytes w (d + i) (take k (map ucast cs @ [0])))"
proof (induction k arbitrary: w i cs)
  case (Suc k)
  show ?case
  proof (cases cs)
    case Nil
    with Suc.prems show ?thesis by (simp add: st8_mapped put_bytes_Cons)
  next
    case (Cons c cs')
    let ?w = "put8 w (d + i) (ucast c)"
    have "mbstowcs_loop ?w m d s (Suc i) k =
        Some (Suc i + min k (length cs'), put_bytes ?w (d + Suc i) (take k (map ucast cs' @ [0])))"
      using Suc.prems Cons by (intro Suc.IH) auto
    with Suc.prems Cons show ?thesis by (simp add: st8_mapped put_bytes_Cons)
  qed
qed simp

definition narrow :: "u16 \<Rightarrow> u8" where
  "narrow c = (if c < 256 then ucast c else 63)"

lemma wcstombs_loop_ok:
  "cstr w (s + i) cs \<Longrightarrow> mapped m (d + i) (min k (length cs + 1)) \<Longrightarrow>
   wcstombs_loop m w d s i k =
     Some (i + min k (length cs), put_bytes m (d + i) (take k (map narrow cs @ [0])))"
proof (induction k arbitrary: m i cs)
  case (Suc k)
  show ?case
  proof (cases cs)
    case Nil
    with Suc.prems show ?thesis by (simp add: st8_mapped put_bytes_Cons)
  next
    case (Cons c cs')
    let ?m = "put8 m (d + i) (narrow c)"
    have "wcstombs_loop ?m w d s (Suc i) k =
        Some (Suc i + min k (length cs'), put_bytes ?m (d + Suc i) (take k (map narrow cs' @ [0])))"
      using Suc.prems Cons by (intro Suc.IH) auto
    with Suc.prems Cons show ?thesis by (simp add: st8_mapped put_bytes_Cons narrow_def [symmetric])
  qed
qed simp

lemma narrow_ucast: "narrow (ucast (b :: u8)) = b"
proof -
  have "uint (ucast b :: u16) = uint b" by (simp add: uint_up_ucast is_up)
  moreover have "uint b < 256" using uint_lt2p [of b] by simp
  ultimately have "(ucast b :: u16) < 256" by (simp add: word_less_def)
  moreover have "(ucast (ucast b :: u16) :: u8) = b" by (rule ucast_up_ucast_id) (simp add: is_up)
  ultimately show ?thesis by (simp add: narrow_def)
qed

lemma mbstowcs_ok:
  "cstr m s cs \<Longrightarrow> mapped w d (min n (length cs + 1)) \<Longrightarrow>
   mbstowcs w m d s n =
     Some (min n (length cs), put_bytes w d (take n (map ucast cs @ [0])))"
  using mbstowcs_loop_ok [of m s 0 cs w d n] by (simp add: mbstowcs_def)

lemma wcstombs_ok:
  "cstr w s cs \<Longrightarrow> mapped m d (min n (length cs + 1)) \<Longrightarrow>
   wcstombs m w d s n =
     Some (min n (length cs), put_bytes m d (take n (map narrow cs @ [0])))"
  using wcstombs_loop_ok [of w s 0 cs m d n] by (simp add: wcstombs_def)

lemma btowc_wctob: "wctob (btowc c) = (if 0 \<le> c \<and> c < 128 then c else - 1)"
proof (cases "0 \<le> c \<and> c < 128")
  case True
  then have "uint (word_of_int c :: u32) = c" by (simp add: uint_word_of_int)
  with True show ?thesis by (simp add: wctob_def btowc_def word_less_def)
next
  case False
  then have "btowc c = 65535" by (auto simp: btowc_def)
  with False show ?thesis by (auto simp: wctob_def)
qed

section \<open>Properties\<close>



end
