(* ===== verification/Sbn.thy ===== *)
theory Sbn
  imports FloatDigits
begin

text \<open>
  The bignum of the scanner, \<open>Sbn\<close> of \<open>rt/rt_scan.c\<close>, again a list of limbs to base
  \<open>10\<^sup>9\<close>, lowest first. It differs from the printing one in what a full array does: a carry
  that no longer fits is dropped, so the value is kept modulo \<open>10\<^sup>9\<^sup>0\<^sup>0\<close>.
\<close>

section \<open>The code\<close>

definition SBN_CAP :: nat where
  "SBN_CAP = 100"

function sbn_carry :: "bn \<Rightarrow> u64 \<Rightarrow> bn" where
  "sbn_carry b carry =
     (if carry \<noteq> 0 \<and> length b < SBN_CAP
      then sbn_carry (b @ [ucast (carry mod 1000000000)]) (carry div 1000000000)
      else b)"
  by pat_completeness auto
termination
  by (relation "measure (\<lambda>(b, carry). SBN_CAP - length b)") auto

declare sbn_carry.simps [simp del]

definition sbn_zero :: bn where
  "sbn_zero = []"

definition sbn_is_zero :: "bn \<Rightarrow> bool" where
  "sbn_is_zero b \<longleftrightarrow> length b = 0"

definition sbn_push_digit :: "bn \<Rightarrow> int \<Rightarrow> bn" where
  "sbn_push_digit b d =
     (let (b', carry) = limb_pass (mul_step 10) b (ucast (word_of_int d :: u32)) in sbn_carry b' carry)"

definition sbn_mul_small :: "bn \<Rightarrow> u32 \<Rightarrow> bn" where
  "sbn_mul_small b m =
     (let (b', carry) = limb_pass (mul_step (ucast m)) b 0 in sbn_carry b' carry)"

definition sbn_half :: "bn \<Rightarrow> bn \<times> u64" where
  "sbn_half b = (let (b', r) = shr_pass 1 b in (bn_trim b', r))"

definition sbn_double :: "bn \<Rightarrow> bn" where
  "sbn_double b = sbn_mul_small b 2"

text \<open>The comparison from the top limb down, of lists already reversed.\<close>

fun cmp_limbs :: "u32 list \<Rightarrow> u32 list \<Rightarrow> int" where
  "cmp_limbs (x # xs) (y # ys) =
     (if x \<noteq> y then if x < y then - 1 else 1 else cmp_limbs xs ys)"
| "cmp_limbs _ _ = 0"

definition sbn_cmp :: "bn \<Rightarrow> bn \<Rightarrow> int" where
  "sbn_cmp a b =
     (if length a \<noteq> length b then if length a < length b then - 1 else 1
      else cmp_limbs (rev a) (rev b))"

text \<open>The limbs of \<open>b\<close> that are missing count as zero.\<close>

fun sub_pass :: "u32 list \<Rightarrow> u32 list \<Rightarrow> int \<Rightarrow> u32 list" where
  "sub_pass [] bs borrow = []"
| "sub_pass (l # ls) bs borrow =
     (let d = uint l - borrow - (case bs of [] \<Rightarrow> 0 | k # _ \<Rightarrow> uint k);
          (d, borrow) = (if d < 0 then (d + 1000000000, 1) else (d, 0))
      in word_of_int d # sub_pass ls (tl bs) borrow)"

definition sbn_sub :: "bn \<Rightarrow> bn \<Rightarrow> bn" where
  "sbn_sub a b = bn_trim (sub_pass a b 0)"

definition sbn_low64 :: "bn \<Rightarrow> u64" where
  "sbn_low64 b = foldr (\<lambda>l v. v * 1000000000 + ucast l) b 0"

section \<open>Scaling\<close>

lemma sbn_carry_fits: "bn_carry b c = Some b' \<Longrightarrow> sbn_carry b c = b'"
proof (induction b c rule: bn_carry.induct)
  case (1 b c)
  show ?case
  proof (cases "c = 0")
    case True
    with "1.prems" show ?thesis by (simp add: bn_carry.simps sbn_carry.simps)
  next
    case False
    then obtain b1 where p: "bn_push BN_CAP b (ucast (c mod 1000000000)) = Some b1"
      and r: "bn_carry b1 (c div 1000000000) = Some b'"
      using "1.prems" by (subst (asm) bn_carry.simps) (auto simp: bind_eq_Some)
    have b1: "b1 = b @ [ucast (c mod 1000000000)]" and len: "length b < SBN_CAP"
      using p by (auto simp: bn_push_def BN_CAP_def SBN_CAP_def split: if_splits)
    have "sbn_carry b1 (c div 1000000000) = b'" by (rule "1.IH" [OF False p r])
    then show ?thesis using False len b1 by (subst sbn_carry.simps) simp
  qed
qed

lemma unat_of_nat_u64: "n < 2 ^ 64 \<Longrightarrow> unat (of_nat n :: u64) = n"
  by (rule unat_of_nat_small) simp

interpretation push: limb_scaler "mul_step 10" 10
  by (rule mul_scaler) (simp_all add: B9_def)

interpretation twice: limb_scaler "mul_step 2" 2
  by (rule mul_scaler) (simp_all add: B9_def)

lemma sbn_push_digit_ok:
  assumes b: "bn_wf b" "length b \<le> BN_CAP" and d: "0 \<le> d" "d < 10"
    and v: "bn_val b * 10 + nat d < B9 ^ BN_CAP"
  shows "bn_wf (sbn_push_digit b d) \<and> length (sbn_push_digit b d) \<le> BN_CAP \<and>
    bn_val (sbn_push_digit b d) = bn_val b * 10 + nat d"
proof -
  let ?c = "ucast (word_of_int d :: u32) :: u64"
  have c: "unat ?c = nat d"
    using d by (subst unat_ucast_up) (simp_all add: unat_eq_nat_uint uint_word_of_int_eq take_bit_int_eq_self)
  obtain b' c' where pass: "limb_pass (mul_step 10) b ?c = (b', c')" by fastforce
  have d10: "unat ?c < 10" unfolding c using d by simp
  obtain b'' where "bn_carry b' c' = Some b''"
    and "bn_wf b''" "length b'' \<le> BN_CAP" "bn_val b'' = bn_val b * 10 + nat d"
    using push.scale_ok [OF b d10 pass] v unfolding c by auto
  then show ?thesis using pass by (simp add: sbn_push_digit_def sbn_carry_fits)
qed

lemma sbn_mul10_ok:
  assumes b: "bn_wf b" "length b \<le> BN_CAP" and v: "bn_val b * 10 < B9 ^ BN_CAP"
  shows "bn_wf (sbn_mul_small b 10) \<and> length (sbn_mul_small b 10) \<le> BN_CAP \<and>
    bn_val (sbn_mul_small b 10) = bn_val b * 10"
proof -
  obtain b' c' where pass: "limb_pass (mul_step 10) b 0 = (b', c')" by fastforce
  from push.scale_ok [OF b _ pass] v obtain b'' where "bn_carry b' c' = Some b''"
    and "bn_wf b''" "length b'' \<le> BN_CAP" "bn_val b'' = bn_val b * 10" by auto
  then show ?thesis using pass by (simp add: sbn_mul_small_def sbn_carry_fits)
qed

lemma sbn_double_ok:
  assumes b: "bn_wf b" "length b \<le> BN_CAP" and v: "2 * bn_val b < B9 ^ BN_CAP"
  shows "bn_wf (sbn_double b) \<and> length (sbn_double b) \<le> BN_CAP \<and>
    bn_val (sbn_double b) = 2 * bn_val b"
proof -
  obtain b' c' where pass: "limb_pass (mul_step 2) b 0 = (b', c')" by fastforce
  from twice.scale_ok [OF b _ pass] v obtain b'' where "bn_carry b' c' = Some b''"
    and "bn_wf b''" "length b'' \<le> BN_CAP" "bn_val b'' = bn_val b * 2" by auto
  then show ?thesis using pass by (simp add: sbn_double_def sbn_mul_small_def sbn_carry_fits)
qed

text \<open>A full array drops the carry.\<close>

lemma sbn_double_full:
  assumes l: "list_all (\<lambda>l. unat l < B9) b" and len: "length b = BN_CAP"
  shows "list_all (\<lambda>l. unat l < B9) (sbn_double b) \<and> length (sbn_double b) = BN_CAP \<and>
    bn_val (sbn_double b) = 2 * bn_val b mod B9 ^ BN_CAP"
proof -
  obtain b' c' where pass: "limb_pass (mul_step 2) b 0 = (b', c')" by fastforce
  have p: "length b' = BN_CAP" "list_all (\<lambda>l. unat l < B9) b'"
      "bn_val b' + B9 ^ BN_CAP * unat c' = bn_val b * 2"
    using twice.limb_pass_ok [OF l _ pass] len by simp_all
  have "bn_val b' < B9 ^ BN_CAP" using bn_val_bound [OF p(2)] p(1) by simp
  then have "2 * bn_val b mod B9 ^ BN_CAP = bn_val b'"
    by (metis p(3) mult.commute mod_less mod_mult_self2)
  moreover have "sbn_carry b' c' = b'"
    using p(1) by (subst sbn_carry.simps) (simp add: SBN_CAP_def BN_CAP_def)
  ultimately show ?thesis using p pass by (simp add: sbn_double_def sbn_mul_small_def)
qed

lemma sbn_is_zero_ok: "bn_wf b \<Longrightarrow> sbn_is_zero b \<longleftrightarrow> bn_val b = 0"
  by (auto simp: sbn_is_zero_def bn_val_0)

section \<open>Comparing and subtracting\<close>

lemma limbs_unique:
  "length a = length b \<Longrightarrow> list_all (\<lambda>l. unat l < B9) a \<Longrightarrow> list_all (\<lambda>l. unat l < B9) b \<Longrightarrow>
   bn_val a = bn_val b \<Longrightarrow> a = b"
proof (induction a b rule: list_induct2)
  case (Cons x xs y ys)
  have x: "unat x < B9" and y: "unat y < B9" using Cons.prems by simp_all
  have e: "unat x + B9 * bn_val xs = unat y + B9 * bn_val ys" using Cons.prems by simp
  have "unat x = (unat x + B9 * bn_val xs) mod B9" using x by simp
  also have "\<dots> = unat y" unfolding e using y by simp
  finally have "unat x = unat y" .
  moreover from this e have "bn_val xs = bn_val ys" by (simp add: B9_def)
  ultimately show ?case using Cons.IH Cons.prems by (simp add: word_unat_eq_iff)
qed simp

lemma cmp_limbs_append:
  "length xs = length ys \<Longrightarrow> cmp_limbs (xs @ us) (ys @ vs) =
     (if xs = ys then cmp_limbs us vs else cmp_limbs xs ys)"
  by (induction xs ys rule: list_induct2) auto

definition val_cmp :: "nat \<Rightarrow> nat \<Rightarrow> int" where
  "val_cmp x y = (if x < y then - 1 else if x = y then 0 else 1)"

lemma val_cmp_digit: "x < B \<Longrightarrow> y < B \<Longrightarrow> u \<noteq> v \<Longrightarrow> val_cmp (x + B * u) (y + B * v) = val_cmp u v"
proof -
  assume x: "x < B" and y: "y < B" and "u \<noteq> v"
  then consider "u < v" | "v < u" by linarith
  then show ?thesis
  proof cases
    case 1
    then have "B * (u + 1) \<le> B * v" by (intro mult_le_mono2) simp
    with x have "x + B * u < y + B * v" by simp
    with 1 show ?thesis by (simp add: val_cmp_def)
  next
    case 2
    then have "B * (v + 1) \<le> B * u" by (intro mult_le_mono2) simp
    with y have "y + B * v < x + B * u" by simp
    with 2 show ?thesis by (simp add: val_cmp_def)
  qed
qed

lemma cmp_rev:
  "length a = length b \<Longrightarrow> list_all (\<lambda>l. unat l < B9) a \<Longrightarrow> list_all (\<lambda>l. unat l < B9) b \<Longrightarrow>
   cmp_limbs (rev a) (rev b) = val_cmp (bn_val a) (bn_val b)"
proof (induction a b rule: list_induct2)
  case (Cons x xs y ys)
  have IH: "cmp_limbs (rev xs) (rev ys) = val_cmp (bn_val xs) (bn_val ys)" using Cons by simp
  have b: "unat x < B9" "unat y < B9" and l: "length (rev xs) = length (rev ys)"
    using Cons.prems Cons.hyps by simp_all
  show ?case
  proof (cases "xs = ys")
    case True
    have "val_cmp (unat x + B9 * bn_val ys) (unat y + B9 * bn_val ys) = val_cmp (unat x) (unat y)"
      by (simp add: val_cmp_def)
    moreover have "cmp_limbs [x] [y] = val_cmp (unat x) (unat y)"
      by (simp add: val_cmp_def word_less_nat_alt word_unat_eq_iff)
    ultimately show ?thesis using True by (simp add: cmp_limbs_append)
  next
    case False
    then have "bn_val xs \<noteq> bn_val ys" using limbs_unique [of xs ys] Cons.hyps Cons.prems by auto
    then have "val_cmp (bn_val (x # xs)) (bn_val (y # ys)) = val_cmp (bn_val xs) (bn_val ys)"
      using val_cmp_digit [OF b] by simp
    then show ?thesis using False IH l by (simp add: cmp_limbs_append)
  qed
qed (simp add: val_cmp_def)

lemma sbn_cmp_same_length:
  "length a = length b \<Longrightarrow> list_all (\<lambda>l. unat l < B9) a \<Longrightarrow> list_all (\<lambda>l. unat l < B9) b \<Longrightarrow>
   sbn_cmp a b = val_cmp (bn_val a) (bn_val b)"
  by (simp add: sbn_cmp_def cmp_rev)

lemma bn_wf_shorter: "bn_wf a \<Longrightarrow> bn_wf b \<Longrightarrow> length a < length b \<Longrightarrow> bn_val a < bn_val b"
proof -
  assume a: "bn_wf a" and b: "bn_wf b" and l: "length a < length b"
  have "length a \<le> length b - 1" using l by simp
  then have "bn_val a < B9 ^ (length b - 1)" using bn_wf_length [OF a] by blast
  also have "\<dots> \<le> bn_val b" using bn_val_lower [of b] b l by (cases "b = []") (auto simp: bn_wf_def)
  finally show ?thesis .
qed

lemma sbn_cmp_ok: "bn_wf a \<Longrightarrow> bn_wf b \<Longrightarrow> sbn_cmp a b = val_cmp (bn_val a) (bn_val b)"
proof -
  assume a: "bn_wf a" and b: "bn_wf b"
  consider "length a < length b" | "length b < length a" | "length a = length b" by linarith
  then show ?thesis
  proof cases
    case 1
    then show ?thesis using bn_wf_shorter [OF a b] by (simp add: sbn_cmp_def val_cmp_def)
  next
    case 2
    then show ?thesis using bn_wf_shorter [OF b a] by (simp add: sbn_cmp_def val_cmp_def)
  next
    case 3
    then show ?thesis using a b by (intro sbn_cmp_same_length) (auto simp: bn_wf_def)
  qed
qed

lemma limb_of_int: "0 \<le> d \<Longrightarrow> d < 1000000000 \<Longrightarrow> int (unat (word_of_int d :: u32)) = d"
  by (simp add: unat_eq_nat_uint uint_word_of_int_eq take_bit_int_eq_self)

lemma borrow_step:
  fixes x k w :: int
  assumes "0 \<le> x" "x < 1000000000" "0 \<le> k" "k < 1000000000" "0 \<le> w" "w \<le> 1"
  shows "0 \<le> (if x - w - k < 0 then x - w - k + 1000000000 else x - w - k) \<and>
    (if x - w - k < 0 then x - w - k + 1000000000 else x - w - k) < 1000000000"
  using assms by auto

text \<open>The borrow of the subtraction; with \<open>b \<le> a\<close> none is left at the end.\<close>

lemma sub_pass_ok:
  "list_all (\<lambda>l. unat l < B9) a \<Longrightarrow> list_all (\<lambda>l. unat l < B9) b \<Longrightarrow> length b \<le> length a \<Longrightarrow>
   w = 0 \<or> w = (1::int) \<Longrightarrow>
   \<exists>e. (e = 0 \<or> e = 1) \<and> list_all (\<lambda>l. unat l < B9) (sub_pass a b w) \<and>
     length (sub_pass a b w) = length a \<and>
     int (bn_val (sub_pass a b w)) = int (bn_val a) - int (bn_val b) - w + e * int (B9 ^ length a)"
proof (induction a arbitrary: b w)
  case Nil
  then show ?case by (intro exI [of _ w]) auto
next
  case (Cons l ls)
  define k where "k = (case b of [] \<Rightarrow> 0 | k # _ \<Rightarrow> uint k)"
  define d where "d = uint l - w - k"
  define d' w' where "d' = (if d < 0 then d + 1000000000 else d)" and "w' = (if d < 0 then 1 else 0 :: int)"
  have p: "sub_pass (l # ls) b w = word_of_int d' # sub_pass ls (tl b) w'"
    by (auto simp: Let_def k_def d_def d'_def w'_def)
  have B: "int B9 = 1000000000" by (simp add: B9_def)
  have lim: "uint x < 1000000000" if "unat x < B9" for x :: u32
    using that B unfolding uint_nat by linarith
  have l: "0 \<le> uint l" "uint l < 1000000000" using Cons.prems(1) lim by simp_all
  have "0 \<le> k \<and> k < 1000000000"
  proof (cases b)
    case (Cons x xs)
    then have "k = uint x" "unat x < B9" using Cons.prems(2) \<open>b = x # xs\<close> by (simp_all add: k_def)
    then show ?thesis using lim by simp
  qed (simp add: k_def)
  then have k: "0 \<le> k" "k < 1000000000" by simp_all
  have w: "0 \<le> w" "w \<le> 1" using Cons.prems(4) by auto
  have d': "0 \<le> d'" "d' < 1000000000" "d' = uint l - w - k + w' * 1000000000"
    using borrow_step [OF l k w] unfolding d'_def w'_def d_def by simp_all
  have u: "int (unat (word_of_int d' :: u32)) = d'"
    by (rule limb_of_int [OF d'(1,2)])
  have bv: "int (bn_val b) = k + int B9 * int (bn_val (tl b))"
    unfolding k_def by (cases b) (simp_all flip: uint_nat)
  obtain e where e: "e = 0 \<or> e = (1::int)" "list_all (\<lambda>l. unat l < B9) (sub_pass ls (tl b) w')"
    "length (sub_pass ls (tl b) w') = length ls"
    "int (bn_val (sub_pass ls (tl b) w')) = int (bn_val ls) - int (bn_val (tl b)) - w' + e * int (B9 ^ length ls)"
  proof -
    have "list_all (\<lambda>l. unat l < B9) ls" "list_all (\<lambda>l. unat l < B9) (tl b)" "length (tl b) \<le> length ls"
      using Cons.prems by (cases b; simp)+
    moreover have "w' = 0 \<or> w' = 1" by (simp add: w'_def)
    ultimately show ?thesis using Cons.IH [of "tl b" w'] that by blast
  qed
  have dB: "unat (word_of_int d' :: u32) < B9" using u d' B by linarith
  have "int (bn_val (sub_pass (l # ls) b w)) = d' + int B9 * int (bn_val (sub_pass ls (tl b) w'))"
    by (simp only: p bn_val.simps of_nat_add of_nat_mult u)
  also have "\<dots> = int (bn_val (l # ls)) - int (bn_val b) - w + e * int (B9 ^ length (l # ls))"
    unfolding e(4) bv d'(3) by (simp add: B algebra_simps flip: uint_nat)
  finally show ?case using e(1,2,3) dB unfolding p by (intro exI [of _ e]) simp
qed

lemma sbn_sub_ok:
  assumes a: "bn_wf a" and b: "bn_wf b" and le: "bn_val b \<le> bn_val a"
  shows "bn_wf (sbn_sub a b) \<and> length (sbn_sub a b) \<le> length a \<and>
    bn_val (sbn_sub a b) = bn_val a - bn_val b"
proof -
  have len: "length b \<le> length a" using bn_wf_shorter [OF a b] le by linarith
  let ?s = "sub_pass a b 0"
  obtain e where e: "e = 0 \<or> e = (1::int)" "list_all (\<lambda>l. unat l < B9) ?s" "length ?s = length a"
    "int (bn_val ?s) = int (bn_val a) - int (bn_val b) + e * int (B9 ^ length a)"
    using sub_pass_ok [of a b 0] a b len by (auto simp: bn_wf_def)
  have "bn_val ?s < B9 ^ length a" using bn_val_bound [OF e(2)] e(3) by simp
  then have "int (bn_val ?s) < int (B9 ^ length a)" by linarith
  then have "e = 0" using e(1,4) le by auto
  then have "bn_val ?s = bn_val a - bn_val b" using e(4) le by simp
  then show ?thesis using bn_trim_ok [OF e(2)] e(3) by (simp add: sbn_sub_def)
qed

lemma sbn_half_ok:
  assumes "bn_wf b"
  shows "bn_wf (fst (sbn_half b)) \<and> bn_val (fst (sbn_half b)) = bn_val b div 2 \<and>
    unat (snd (sbn_half b)) = bn_val b mod 2"
proof -
  obtain b' r where p: "shr_pass 1 b = (b', r)" by fastforce
  have "list_all (\<lambda>l. unat l < B9) b'" "unat r < 2" "bn_val b = 2 * bn_val b' + unat r"
    using shr_pass_ok [OF _ _ p] assms by (simp_all add: bn_wf_def)
  then show ?thesis using bn_trim_ok [of b'] by (simp add: sbn_half_def p [simplified])
qed

lemma sbn_low64_ok: "unat (sbn_low64 b) = bn_val b mod 2 ^ 64"
proof -
  have "sbn_low64 b = of_nat (bn_val b)"
    by (induction b) (simp_all add: sbn_low64_def B9_def of_nat_unat algebra_simps)
  then show ?thesis by (simp add: unat_of_nat)
qed

end
