(* ===== verification/Strtod.thy ===== *)
theory Strtod
  imports PrintfFloat Sbn
begin

text \<open>
  \<open>strtod\<close> of \<open>rt/rt_scan.c\<close>: collect the decimal digits, scale the fraction they stand
  for into \<open>[2\<^sup>5\<^sup>2, 2\<^sup>5\<^sup>3)\<close>, divide bit by bit and round. A double is its 64 bits;
  \<open>__c99m_errno_slot\<close> is passed in and returned. The scaling loops need not end when the
  bignum saturates, so they are partial functions: \<open>None\<close> is a fault or a loop without end.
\<close>

section \<open>Assembling a double\<close>

definition rt_make_double :: "bool \<Rightarrow> u64 \<Rightarrow> int \<Rightarrow> int \<Rightarrow> u64 \<times> int" where
  "rt_make_double neg mant e2 errno =
     (let biased = e2 + 1075;
          (bits, errno) =
            (if mant = 0 then (0, errno)
             else if biased \<ge> 0x7FF then (0x7FF0000000000000, RT_ERANGE)
             else if biased \<le> 0
                  then let shift = nat (1 - biased)
                       in if shift > 54 then (0, RT_ERANGE)
                          else let half = push_bit (shift - 1) 1;
                                   lost = mant AND (push_bit shift 1 - 1);
                                   kept = drop_bit shift mant
                               in (if lost > half \<or> (lost = half \<and> kept AND 1 \<noteq> 0)
                                   then kept + 1 else kept, errno)
             else (push_bit 52 (word_of_int biased) OR (mant AND 0xFFFFFFFFFFFFF), errno))
      in (if neg then bits OR push_bit 63 1 else bits, errno))"

section \<open>The text of a number\<close>

text \<open>The comparison of three letters, either case, reads no further than \<open>&&\<close> goes.\<close>

definition ci_char :: "mem \<Rightarrow> nat \<Rightarrow> u8 \<Rightarrow> bool option" where
  "ci_char m p c = do { x \<leftarrow> m p; Some (x = c \<or> x = c - 32) }"

fun ci_word :: "mem \<Rightarrow> nat \<Rightarrow> u8 list \<Rightarrow> bool option" where
  "ci_word m p [] = Some True"
| "ci_word m p (c # cs) = do { r \<leftarrow> ci_char m p c; if r then ci_word m (p + 1) cs else Some False }"

record digit_state =
  ds_big :: bn
  ds_dec_exp :: int
  ds_any :: bool
  ds_sticky :: bool
  ds_collected :: int
  ds_seen_point :: bool

definition DIGIT_MAX :: int where
  "DIGIT_MAX = 780"

definition digit_step :: "digit_state \<Rightarrow> u8 \<Rightarrow> digit_state" where
  "digit_step st c =
     (let st = st\<lparr>ds_any := True\<rparr>
      in if ds_collected st < DIGIT_MAX
         then st\<lparr>ds_big := sbn_push_digit (ds_big st) (uint c - 48),
                 ds_collected := ds_collected st + 1,
                 ds_dec_exp := (if ds_seen_point st then ds_dec_exp st - 1 else ds_dec_exp st)\<rparr>
         else st\<lparr>ds_sticky := (if c \<noteq> 48 then True else ds_sticky st),
                 ds_dec_exp := (if \<not> ds_seen_point st then ds_dec_exp st + 1 else ds_dec_exp st)\<rparr>)"

partial_function (option) digit_loop :: "mem \<Rightarrow> nat \<Rightarrow> digit_state \<Rightarrow> (nat \<times> digit_state) option" where
  [code]: "digit_loop m s st =
     do { c \<leftarrow> m s;
          if c \<ge> 48 \<and> c \<le> 57 then digit_loop m (s + 1) (digit_step st c)
          else if c = 46 \<and> \<not> ds_seen_point st
               then digit_loop m (s + 1) (st\<lparr>ds_seen_point := True\<rparr>)
          else Some (s, st) }"

definition digit_start :: digit_state where
  "digit_start = \<lparr>ds_big = sbn_zero, ds_dec_exp = 0, ds_any = False, ds_sticky = False,
     ds_collected = 0, ds_seen_point = False\<rparr>"

text \<open>The exponent: its digits, then whether there were any.\<close>

partial_function (option) exp_loop :: "mem \<Rightarrow> nat \<Rightarrow> int \<Rightarrow> bool \<Rightarrow> (nat \<times> int \<times> bool) option" where
  [code]: "exp_loop m p ev edigits =
     do { c \<leftarrow> m p;
          if c \<ge> 48 \<and> c \<le> 57
          then exp_loop m (p + 1) (if ev < 100000 then ev * 10 + (uint c - 48) else ev) True
          else Some (p, ev, edigits) }"

definition exp_part :: "mem \<Rightarrow> nat \<Rightarrow> nat \<Rightarrow> int \<Rightarrow> (nat \<times> int) option" where
  "exp_part m s ok_end dec_exp =
     do { c \<leftarrow> m s;
          if c = 101 \<or> c = 69
          then do { (eneg, p) \<leftarrow> strtox_sign m (s + 1);
                    (p, ev, edigits) \<leftarrow> exp_loop m p 0 False;
                    Some (if edigits then (p, dec_exp + (if eneg then - ev else ev))
                          else (ok_end, dec_exp)) }
          else Some (ok_end, dec_exp) }"

section \<open>The scaling and the long division\<close>

fun mul10_times :: "nat \<Rightarrow> bn \<Rightarrow> bn" where
  "mul10_times 0 b = b"
| "mul10_times (Suc k) b = mul10_times k (sbn_mul_small b 10)"

fun double_times :: "nat \<Rightarrow> bn \<Rightarrow> bn" where
  "double_times 0 b = b"
| "double_times (Suc k) b = double_times k (sbn_double b)"

partial_function (option) scale_up :: "bn \<Rightarrow> bn \<Rightarrow> int \<Rightarrow> (bn \<times> int) option" where
  [code]: "scale_up big lo e2 =
     (if sbn_cmp big lo < 0 then scale_up (sbn_double big) lo (e2 - 1) else Some (big, e2))"

text \<open>The second loop doubles \<open>denom\<close> too, whose value is not used any more.\<close>

partial_function (option) scale_down :: "bn \<Rightarrow> bn \<Rightarrow> bn \<Rightarrow> int \<Rightarrow> (bn \<times> int) option" where
  [code]: "scale_down big lo hi e2 =
     (if sbn_cmp big hi \<ge> 0 then scale_down big (sbn_double lo) (sbn_double hi) (e2 + 1)
      else Some (lo, e2))"

text \<open>\<open>k\<close> bits are still to come; the last of the 54 is not followed by a doubling.\<close>

fun long_div :: "nat \<Rightarrow> bn \<Rightarrow> bn \<Rightarrow> u64 \<Rightarrow> bn \<times> u64" where
  "long_div 0 denom r q = (r, q)"
| "long_div (Suc k) denom r q =
     (let q = push_bit 1 q;
          (r, q) = (if sbn_cmp r denom \<ge> 0 then (sbn_sub r denom, q OR 1) else (r, q))
      in long_div k denom (if k > 0 then sbn_double r else r) q)"

definition dec_to_double :: "bool \<Rightarrow> bn \<Rightarrow> int \<Rightarrow> bool \<Rightarrow> int \<Rightarrow> (u64 \<times> int) option" where
  "dec_to_double neg big dec_exp sticky errno =
     (let big = mul10_times (nat dec_exp) big;
          dec_exp = (if dec_exp > 0 then 0 else dec_exp);
          denom = mul10_times (nat (- dec_exp)) (sbn_push_digit sbn_zero 1);
          lo = double_times 52 denom;
          hi = sbn_double lo
      in do { (big, e2) \<leftarrow> scale_up big lo 0;
              (lo, e2) \<leftarrow> scale_down big lo hi e2;
              (let (r, q) = long_div 54 lo big 0;
                   sticky = (if \<not> sbn_is_zero r then True else sticky);
                   round_bit = q AND 1;
                   mant = drop_bit 1 q;
                   mant = (if round_bit \<noteq> 0 \<and> (sticky \<or> mant AND 1 \<noteq> 0) then mant + 1 else mant);
                   (mant, e2) = (if mant = push_bit 53 1 then (drop_bit 1 mant, e2 + 1) else (mant, e2))
               in Some (rt_make_double neg mant e2 errno)) })"

text \<open>
  A zero plus \<open>\<plusminus>1.0 * 1e308 * 1e308\<close> is the infinity of that sign: the product of the
  constants overflows.
\<close>

definition inf_bits :: "bool \<Rightarrow> u64" where
  "inf_bits neg = (if neg then 0xFFF0000000000000 else 0x7FF0000000000000)"

definition strtod :: "mem \<Rightarrow> int \<Rightarrow> nat \<Rightarrow> (u64 \<times> nat \<times> int) option" where
  "strtod m errno start =
     do { s \<leftarrow> skip_space m start;
          (neg, s) \<leftarrow> strtox_sign m s;
          is_inf \<leftarrow> ci_word m s (lit ''inf'');
          if is_inf then Some (inf_bits neg, s + 3, errno)
          else do {
            is_nan \<leftarrow> ci_word m s (lit ''nan'');
            if is_nan then Some (0x7FF8000000000000, s + 3, errno)
            else do {
              (s, st) \<leftarrow> digit_loop m s digit_start;
              if \<not> ds_any st then Some (0, start, errno)
              else do {
                (e, dec_exp) \<leftarrow> exp_part m s s (ds_dec_exp st);
                (bits, errno) \<leftarrow>
                  (if sbn_is_zero (ds_big st) then Some (rt_make_double neg 0 0 errno)
                   else if dec_exp > 350 then Some (rt_make_double neg (push_bit 52 1) 2000 RT_ERANGE)
                   else if dec_exp < - 400 then Some (rt_make_double neg 0 0 RT_ERANGE)
                   else dec_to_double neg (ds_big st) dec_exp (ds_sticky st) errno);
                Some (bits, e, errno) } } } }"

definition atof :: "mem \<Rightarrow> int \<Rightarrow> nat \<Rightarrow> (u64 \<times> int) option" where
  "atof m errno s = do { (v, _, errno) \<leftarrow> strtod m errno s; Some (v, errno) }"

section \<open>The digits\<close>

text \<open>The numbers below \<open>S_LIMIT\<close> are those the array can hold.\<close>

definition S_LIMIT :: nat where
  "S_LIMIT = B9 ^ BN_CAP"

lemma S_LIMIT_10: "S_LIMIT = 10 ^ (9 * 100)"
proof -
  have "B9 = 10 ^ 9" by (simp add: B9_def)
  then show ?thesis unfolding S_LIMIT_def by (simp only: BN_CAP_def power_mult)
qed

lemma power_LIMIT: "k \<le> 900 \<Longrightarrow> 10 ^ k \<le> S_LIMIT"
  unfolding S_LIMIT_10 by (rule power_increasing) simp_all

text \<open>A state that has collected \<open>n\<close> digits of value \<open>v\<close>.\<close>

definition digits_ok :: "digit_state \<Rightarrow> nat \<Rightarrow> nat \<Rightarrow> bool" where
  "digits_ok st v n \<longleftrightarrow> bn_wf (ds_big st) \<and> length (ds_big st) \<le> BN_CAP \<and> bn_val (ds_big st) = v \<and>
     ds_collected st = int n \<and> v < 10 ^ n"

lemma digit_step_ok:
  assumes st: "digits_ok st v n" and n: "n < 780" and c: "is_digit 10 c"
  shows "digits_ok (digit_step st c) (v * 10 + digit_nat c) (Suc n) \<and>
    ds_any (digit_step st c) \<and> ds_sticky (digit_step st c) = ds_sticky st \<and>
    ds_seen_point (digit_step st c) = ds_seen_point st \<and>
    ds_dec_exp (digit_step st c) = ds_dec_exp st - (if ds_seen_point st then 1 else 0)"
proof -
  obtain d where d: "digit_of (uint c) = Some d" "d < 10" using c by (auto simp: is_digit_Some)
  then have u: "uint c - 48 = d" "digit_nat c = nat d" and d0: "0 \<le> d"
    by (auto simp: digit_of_def digit_nat_def split: if_splits)
  have "nat d < 10" using d by simp
  moreover have "v + 1 \<le> 10 ^ n" using st by (simp add: digits_ok_def)
  then have "(v + 1) * 10 \<le> 10 ^ n * 10" by (rule mult_le_mono1)
  ultimately have lt: "v * 10 + nat d < 10 ^ Suc n" by simp
  also have "\<dots> \<le> S_LIMIT" by (rule power_LIMIT) (use n in simp)
  finally have fits: "bn_val (ds_big st) * 10 + nat d < B9 ^ BN_CAP"
    using st by (simp only: S_LIMIT_def digits_ok_def)
  note p = sbn_push_digit_ok [OF _ _ d0 d(2) fits]
  have "ds_collected st < DIGIT_MAX" using st n by (simp add: digits_ok_def DIGIT_MAX_def)
  then show ?thesis using p st lt by (simp add: digit_step_def digits_ok_def u)
qed

lemma digit_steps_ok:
  "digits_ok st v n \<Longrightarrow> n + length ds \<le> 780 \<Longrightarrow> decimals ds \<Longrightarrow>
   digits_ok (foldl digit_step st ds) (foldl (\<lambda>v c. v * 10 + digit_nat c) v ds) (n + length ds) \<and>
   ds_any (foldl digit_step st ds) = (ds_any st \<or> ds \<noteq> []) \<and>
   ds_sticky (foldl digit_step st ds) = ds_sticky st \<and>
   ds_seen_point (foldl digit_step st ds) = ds_seen_point st \<and>
   ds_dec_exp (foldl digit_step st ds) =
     ds_dec_exp st - (if ds_seen_point st then int (length ds) else 0)"
proof (induction ds arbitrary: st v n)
  case (Cons c ds)
  note s = digit_step_ok [OF Cons.prems(1), of c]
  have n: "n < 780" "is_digit 10 c" using Cons.prems by simp_all
  have "digits_ok (digit_step st c) (v * 10 + digit_nat c) (Suc n)" using s n by simp
  from Cons.IH [OF this] show ?case using Cons.prems s n by simp
qed simp

lemma digit_run:
  "bytes_at m s ds \<Longrightarrow> decimals ds \<Longrightarrow>
   digit_loop m s st = digit_loop m (s + length ds) (foldl digit_step st ds)"
proof (induction ds arbitrary: s st)
  case (Cons c ds)
  then have "m s = Some c" "48 \<le> c \<and> c \<le> 57" by (simp_all add: is_digit_10)
  then show ?case using Cons by (subst digit_loop.simps) simp
qed simp

text \<open>The exponent's value is kept up to 100000.\<close>

lemma foldl_digits_mono: "n \<le> foldl (\<lambda>v c. v * 10 + digit_nat c) n ds"
proof (induction ds arbitrary: n)
  case (Cons c ds)
  have "n \<le> n * 10 + digit_nat c" by simp
  also have "\<dots> \<le> foldl (\<lambda>v c. v * 10 + digit_nat c) (n * 10 + digit_nat c) ds" by (rule Cons.IH)
  finally show ?case by simp
qed simp

definition ends_number :: "u8 list \<Rightarrow> bool" where
  "ends_number rest \<longleftrightarrow> (case rest of [] \<Rightarrow> True | c # _ \<Rightarrow> \<not> is_digit 10 c)"

lemma exp_loop_ok:
  "cstr m p (ds @ rest) \<Longrightarrow> decimals ds \<Longrightarrow> ends_number rest \<Longrightarrow>
   foldl (\<lambda>v c. v * 10 + digit_nat c) n ds < 100000 \<Longrightarrow>
   exp_loop m p (int n) b =
     Some (p + length ds, int (foldl (\<lambda>v c. v * 10 + digit_nat c) n ds), b \<or> ds \<noteq> [])"
proof (induction ds arbitrary: p n b)
  case Nil
  then have "\<exists>c. m p = Some c \<and> \<not> (48 \<le> c \<and> c \<le> 57)"
    by (cases rest) (auto simp: ends_number_def is_digit_10)
  then show ?case by (subst exp_loop.simps) auto
next
  case (Cons c ds)
  then have c: "m p = Some c" "48 \<le> c \<and> c \<le> 57" and d: "is_digit 10 c"
    by (simp_all add: is_digit_10)
  have "n * 10 + digit_nat c < 100000"
    using foldl_digits_mono [of "n * 10 + digit_nat c" ds] Cons.prems(4) by simp
  then have n: "int n < 100000" by simp
  have u: "uint c - 48 = int (digit_nat c)"
    using d by (auto simp: is_digit_def digit_nat_def digit_of_def split: if_splits)
  have "exp_loop m (Suc p) (int (n * 10 + digit_nat c)) True =
      Some (Suc p + length ds, int (foldl (\<lambda>v c. v * 10 + digit_nat c) (n * 10 + digit_nat c) ds), True \<or> ds \<noteq> [])"
    using Cons.prems by (intro Cons.IH) simp_all
  then show ?case using c n u by (subst exp_loop.simps) (simp add: ac_simps)
qed

section \<open>Scaling\<close>

definition fits :: "bn \<Rightarrow> nat \<Rightarrow> bool" where
  "fits b v \<longleftrightarrow> bn_wf b \<and> length b \<le> BN_CAP \<and> bn_val b = v"

lemma mul10_times_ok: "fits b v \<Longrightarrow> v * 10 ^ k < S_LIMIT \<Longrightarrow> fits (mul10_times k b) (v * 10 ^ k)"
proof (induction k arbitrary: b v)
  case (Suc k)
  have "v * 10 * 1 \<le> v * 10 * 10 ^ k" by (intro mult_le_mono2) simp
  also have "\<dots> = v * 10 ^ Suc k" by simp
  finally have "v * 10 < S_LIMIT" using Suc.prems(2) by linarith
  then have "fits (sbn_mul_small b 10) (v * 10)"
    using Suc.prems(1) sbn_mul10_ok [of b] unfolding fits_def S_LIMIT_def by auto
  moreover have "v * 10 * 10 ^ k < S_LIMIT" using Suc.prems(2) by (simp only: power_Suc mult.assoc)
  ultimately show ?case using Suc.IH [of "sbn_mul_small b 10" "v * 10"] by (simp add: mult.assoc)
qed simp

lemma double_fits: "fits b v \<Longrightarrow> 2 * v < S_LIMIT \<Longrightarrow> fits (sbn_double b) (2 * v)"
  using sbn_double_ok [of b] unfolding fits_def S_LIMIT_def by auto

lemma double_times_ok: "fits b v \<Longrightarrow> 2 ^ k * v < S_LIMIT \<Longrightarrow> fits (double_times k b) (2 ^ k * v)"
proof (induction k arbitrary: b v)
  case (Suc k)
  have "1 * (2 * v) \<le> 2 ^ k * (2 * v)" by (intro mult_le_mono1) simp
  also have "\<dots> = 2 ^ Suc k * v" by simp
  finally have "2 * v < S_LIMIT" using Suc.prems(2) by linarith
  then have d: "fits (sbn_double b) (2 * v)" by (rule double_fits [OF Suc.prems(1)])
  have e: "2 ^ k * (2 * v) = 2 ^ Suc k * v" by simp
  from Suc.IH [OF d] show ?case using Suc.prems(2) unfolding e by simp
qed simp

lemma cmp_fits: "fits a v \<Longrightarrow> fits b w \<Longrightarrow> sbn_cmp a b = val_cmp v w"
  by (auto simp: fits_def sbn_cmp_ok)

lemma scale_up_ok:
  "fits big v \<Longrightarrow> fits lo l \<Longrightarrow> 0 < v \<Longrightarrow> 2 * l < S_LIMIT \<Longrightarrow>
   \<exists>i b. scale_up big lo e2 = Some (b, e2 - int i) \<and> fits b (2 ^ i * v) \<and> l \<le> 2 ^ i * v \<and>
     (2 ^ i * v < 2 * l \<or> i = 0)"
proof (induction "l - v" arbitrary: big v e2 rule: less_induct)
  case less
  have cmp: "sbn_cmp big lo = val_cmp v l" by (rule cmp_fits [OF less.prems(1,2)])
  show ?case
  proof (cases "v < l")
    case True
    then have "l - 2 * v < l - v" using less.prems(3) by simp
    moreover have d: "fits (sbn_double big) (2 * v)"
      using True less.prems by (intro double_fits) auto
    ultimately obtain i b where r: "scale_up (sbn_double big) lo (e2 - 1) = Some (b, e2 - 1 - int i)"
      "fits b (2 ^ i * (2 * v))" "l \<le> 2 ^ i * (2 * v)" "2 ^ i * (2 * v) < 2 * l \<or> i = 0"
      using less.hyps [of "2 * v" "sbn_double big" "e2 - 1"] less.prems by auto
    have "scale_up big lo e2 = Some (b, e2 - int (Suc i))"
      using r(1) True cmp by (subst scale_up.simps) (simp add: val_cmp_def diff_diff_eq)
    moreover have e: "2 ^ i * (2 * v) = 2 ^ Suc i * v" by simp
    moreover have "2 ^ Suc i * v < 2 * l" using r(4) True e by auto
    ultimately show ?thesis using r(2,3) unfolding e by blast
  next
    case False
    then have "scale_up big lo e2 = Some (big, e2 - int 0)"
      using cmp by (subst scale_up.simps) (simp add: val_cmp_def)
    then show ?thesis using False less.prems(1) by (intro exI [of _ 0] exI [of _ big]) simp
  qed
qed

lemma scale_down_ok:
  "fits big v \<Longrightarrow> fits lo l \<Longrightarrow> fits hi (2 * l) \<Longrightarrow> 0 < l \<Longrightarrow> l \<le> v \<Longrightarrow> 2 * v < S_LIMIT \<Longrightarrow>
   \<exists>j b. scale_down big lo hi e2 = Some (b, e2 + int j) \<and> fits b (2 ^ j * l) \<and>
     2 ^ j * l \<le> v \<and> v < 2 * (2 ^ j * l)"
proof (induction "v - l" arbitrary: lo l hi e2 rule: less_induct)
  case less
  have cmp: "sbn_cmp big hi = val_cmp v (2 * l)" by (rule cmp_fits [OF less.prems(1,3)])
  show ?case
  proof (cases "2 * l \<le> v")
    case True
    then have "v - 2 * l < v - l" using less.prems(4) by simp
    moreover have "fits (sbn_double lo) (2 * l)"
      using True less.prems by (intro double_fits) auto
    moreover have "fits (sbn_double hi) (2 * (2 * l))"
      using True less.prems by (intro double_fits) auto
    ultimately obtain j b where r: "scale_down big (sbn_double lo) (sbn_double hi) (e2 + 1) = Some (b, e2 + 1 + int j)"
      "fits b (2 ^ j * (2 * l))" "2 ^ j * (2 * l) \<le> v" "v < 2 * (2 ^ j * (2 * l))"
      using less.hyps [of "2 * l" "sbn_double lo" "sbn_double hi" "e2 + 1"] less.prems True by auto
    have "scale_down big lo hi e2 = Some (b, e2 + int (Suc j))"
      using r(1) True cmp by (subst scale_down.simps) (simp add: val_cmp_def add.assoc)
    moreover have e: "2 ^ j * (2 * l) = 2 ^ Suc j * l" by simp
    ultimately show ?thesis using r(2-4) unfolding e by blast
  next
    case False
    then have "scale_down big lo hi e2 = Some (lo, e2 + int 0)"
      using cmp by (subst scale_down.simps) (simp add: val_cmp_def)
    then show ?thesis using False less.prems by (intro exI [of _ 0] exI [of _ lo]) simp
  qed
qed

section \<open>The division\<close>

lemma long_div_ok:
  "fits d dd \<Longrightarrow> fits r rr \<Longrightarrow> rr < 2 * dd \<Longrightarrow> 2 * dd < S_LIMIT \<Longrightarrow> (unat q + 1) * 2 ^ k \<le> 2 ^ 63 \<Longrightarrow>
   0 < k \<Longrightarrow>
   \<exists>r' q'. long_div k d r q = (r', q') \<and> fits r' (2 ^ (k - 1) * rr + unat q * 2 ^ k * dd - unat q' * dd) \<and>
     unat q' * dd \<le> 2 ^ (k - 1) * rr + unat q * 2 ^ k * dd \<and>
     2 ^ (k - 1) * rr + unat q * 2 ^ k * dd < unat q' * dd + dd"
proof (induction k arbitrary: r rr q)
  case (Suc k)
  have q2: "unat q * 2 < 2 ^ 63"
  proof -
    have "(unat q + 1) * 2 \<le> (unat q + 1) * 2 ^ Suc k" by (intro mult_le_mono2) simp
    also have "\<dots> \<le> 2 ^ 63" by (rule Suc.prems(5))
    finally show ?thesis by simp
  qed
  have sh: "unat (push_bit 1 q) = unat q * 2"
    using q2 by (subst unat_push_bit_small) (auto simp: mult.commute)
  have or1: "unat (push_bit 1 q OR 1) = unat q * 2 + 1"
  proof -
    have "push_bit 1 q OR 1 = push_bit 1 q + 1" by (simp add: or_one_eq even_push_bit_iff)
    moreover have "unat (push_bit 1 q) + unat (1 :: u64) < 2 ^ LENGTH(64)" using sh q2 by simp
    ultimately show ?thesis using sh by (simp add: unat_add_small)
  qed
  define b where "b = (if dd \<le> rr then 1 else 0 :: nat)"
  define r1 q1 where "r1 = (if sbn_cmp r d \<ge> 0 then sbn_sub r d else r)"
    and "q1 = (if sbn_cmp r d \<ge> 0 then push_bit 1 q OR 1 else push_bit 1 q)"
  have cmp: "sbn_cmp r d \<ge> 0 \<longleftrightarrow> dd \<le> rr"
    using cmp_fits [OF Suc.prems(2,1)] by (auto simp: val_cmp_def)
  have r1: "fits r1 (rr - b * dd)"
    using sbn_sub_ok [of r d] Suc.prems(1,2) cmp by (auto simp: r1_def b_def fits_def)
  have q1: "unat q1 = unat q * 2 + b" using sh or1 cmp by (simp add: q1_def b_def)
  have rb: "b * dd \<le> rr" "rr < b * dd + dd" using Suc.prems(3) by (auto simp: b_def)
  have step: "long_div (Suc k) d r q = long_div k d (if k > 0 then sbn_double r1 else r1) q1"
    by (simp add: Let_def r1_def q1_def)
  show ?case
  proof (cases "k = 0")
    case True
    show ?thesis unfolding step using True r1 rb q1 by (auto simp: algebra_simps)
  next
    case False
    obtain k' where k': "k = Suc k'" using False by (cases k) auto
    let ?s = "2 * (rr - b * dd)"
    have "fits (sbn_double r1) ?s" using rb Suc.prems(4) by (intro double_fits [OF r1]) linarith
    moreover have "?s < 2 * dd" using rb by simp
    moreover have "(unat q1 + 1) * 2 ^ k \<le> 2 ^ 63"
    proof -
      have "(unat q1 + 1) * 2 ^ k \<le> (unat q + 1) * 2 * 2 ^ k"
        by (intro mult_le_mono1) (simp add: q1 b_def)
      then show ?thesis using Suc.prems(5) by (simp add: mult.assoc)
    qed
    ultimately obtain r' q' where h: "long_div k d (sbn_double r1) q1 = (r', q')"
      "fits r' (2 ^ (k - 1) * ?s + unat q1 * 2 ^ k * dd - unat q' * dd)"
      "unat q' * dd \<le> 2 ^ (k - 1) * ?s + unat q1 * 2 ^ k * dd"
      "2 ^ (k - 1) * ?s + unat q1 * 2 ^ k * dd < unat q' * dd + dd"
      using Suc.IH [of "sbn_double r1" ?s q1] Suc.prems(1,4) False by blast
    have e: "2 ^ (k - 1) * ?s + unat q1 * 2 ^ k * dd = 2 ^ (Suc k - 1) * rr + unat q * 2 ^ Suc k * dd"
    proof -
      obtain t where t: "rr = b * dd + t" using rb(1) by (metis le_Suc_ex)
      show ?thesis unfolding q1 k' t by (simp add: algebra_simps)
    qed
    from h show ?thesis unfolding step e using False by auto
  qed
qed simp

text \<open>A quotient with one bit more and the fact whether anything is left decide the rounding.\<close>

lemma rhe_half:
  assumes b: "0 < b" and q: "q * b \<le> 2 * a" "2 * a < q * b + b"
  shows "rhe_div a b =
    (if odd q \<and> (2 * a - q * b \<noteq> 0 \<or> odd (q div 2)) then q div 2 + 1 else q div 2)"
proof -
  define k where "k = q div 2"
  show ?thesis
  proof (cases "odd q")
    case False
    then have q2: "q = 2 * k" by (simp add: k_def)
    then have a: "k * b \<le> a" "2 * a < 2 * (k * b) + b" using q by (auto simp: mult.assoc)
    then have "a div b = k" by (intro div_nat_eqI) (auto simp: mult.commute)
    moreover from this have "a mod b = a - k * b" by (simp add: minus_div_mult_eq_mod [symmetric])
    moreover have "2 * (a - k * b) < b" using a by linarith
    ultimately show ?thesis using False by (simp add: rhe_div_def Let_def flip: k_def)
  next
    case True
    then have q2: "q = 2 * k + 1" by (simp add: k_def)
    then have a: "2 * (k * b) + b \<le> 2 * a" "a < k * b + b"
      using q by (auto simp: algebra_simps)
    then have d: "a div b = k" by (intro div_nat_eqI) (auto simp: mult.commute)
    then have m: "a mod b = a - k * b" by (simp add: minus_div_mult_eq_mod [symmetric])
    have z: "2 * a - q * b = 2 * (a - k * b) - b" using q2 by (simp add: algebra_simps)
    show ?thesis using a True d m z by (auto simp: rhe_div_def k_def Let_def)
  qed
qed

definition put_double :: "bool \<Rightarrow> nat \<Rightarrow> int \<Rightarrow> int \<Rightarrow> u64 \<times> int" where
  "put_double neg N e errno =
     (if N = 2 ^ 53 then rt_make_double neg (push_bit 52 1) (e + 1) errno
      else rt_make_double neg (of_nat N) e errno)"

lemma small_LIMIT: "b \<le> 400 \<Longrightarrow> 2 ^ 54 * 10 ^ b < S_LIMIT"
proof -
  assume b: "b \<le> 400"
  have "(2::nat) ^ 54 * 10 ^ b < 10 ^ 54 * 10 ^ b"
    by (intro mult_strict_right_mono power_strict_mono) simp_all
  also have "\<dots> = 10 ^ (54 + b)" by (simp only: power_add)
  also have "\<dots> \<le> S_LIMIT" by (rule power_LIMIT) (use b in simp)
  finally show ?thesis .
qed

lemma fits_one: "fits (sbn_push_digit sbn_zero 1) 1"
proof -
  have "bn_val [] * 10 + nat 1 < B9 ^ BN_CAP"
    using power_LIMIT [of 1] by (simp add: S_LIMIT_def)
  then show ?thesis
    using sbn_push_digit_ok [of "[]" 1] by (simp add: fits_def sbn_zero_def bn_wf_def)
qed

lemma word_bit_facts:
  fixes q :: u64
  shows "q AND 1 \<noteq> 0 \<longleftrightarrow> odd (unat q)" and "unat (drop_bit 1 q) = unat q div 2"
proof -
  show "q AND 1 \<noteq> 0 \<longleftrightarrow> odd (unat q)"
  proof -
    have "unat (q AND 1) = unat q mod 2 ^ 1" by (rule unat_and_mask) (simp add: mask_eq_exp_minus_1)
    then show ?thesis by (metis odd_iff_mod_2_eq_one not_mod_2_eq_1_eq_0 power_one_right unat_eq_zero)
  qed
  show "unat (drop_bit 1 q) = unat q div 2"
    by (simp add: drop_bit_eq_div unat_div_distrib)
qed

lemma dec_to_double_ok:
  assumes big: "fits big D" and D: "0 < D" and small: "2 * (D * 10 ^ nat X) < S_LIMIT" and X: "- 400 \<le> X"
  shows "\<exists>i j. let num = D * 10 ^ nat X * 2 ^ i; den = 10 ^ nat (- X) * 2 ^ j
    in 2 ^ 52 * den \<le> num \<and> num < 2 ^ 53 * den \<and>
       dec_to_double neg big X False errno = Some (put_double neg (rhe_div num den) (int j - int i) errno)"
proof -
  define A B where "A = D * 10 ^ nat X" and "B = (10::nat) ^ nat (- X)"
  have A: "0 < A" "2 * A < S_LIMIT" using D small by (simp_all add: A_def)
  have Blim: "2 ^ 54 * B < S_LIMIT" unfolding B_def by (rule small_LIMIT) (use X in simp)
  have B: "0 < B" by (simp add: B_def)
  have fa: "fits (mul10_times (nat X) big) A"
    unfolding A_def using mul10_times_ok [OF big, of "nat X"] A(2) by (simp add: A_def)
  define denom where "denom = mul10_times (nat (- X)) (sbn_push_digit sbn_zero 1)"
  have fd: "fits denom B"
    using mul10_times_ok [OF fits_one, of "nat (- X)"] Blim by (simp add: denom_def B_def)
  define lo where "lo = double_times 52 denom"
  have fl: "fits lo (2 ^ 52 * B)" unfolding lo_def using Blim by (intro double_times_ok [OF fd]) simp
  have fh: "fits (sbn_double lo) (2 * (2 ^ 52 * B))" using Blim by (intro double_fits [OF fl]) simp
  obtain i b1 where up: "scale_up (mul10_times (nat X) big) lo 0 = Some (b1, 0 - int i)"
    and f1: "fits b1 (2 ^ i * A)" and lo1: "2 ^ 52 * B \<le> 2 ^ i * A"
    and hi1: "2 ^ i * A < 2 * (2 ^ 52 * B) \<or> i = 0"
    using scale_up_ok [OF fa fl A(1), of 0] Blim by auto
  have v: "2 * (2 ^ i * A) < S_LIMIT" using hi1 A(2) Blim by auto
  obtain j lo2 where down: "scale_down b1 lo (sbn_double lo) (0 - int i) = Some (lo2, 0 - int i + int j)"
    and f2: "fits lo2 (2 ^ j * (2 ^ 52 * B))" and lo2: "2 ^ j * (2 ^ 52 * B) \<le> 2 ^ i * A"
    and hi2: "2 ^ i * A < 2 * (2 ^ j * (2 ^ 52 * B))"
  proof -
    have "0 < 2 ^ 52 * B" using B by simp
    from scale_down_ok [OF f1 fl fh this lo1 v, of "0 - int i"] that show ?thesis by blast
  qed
  define num den where "num = A * 2 ^ i" and "den = B * 2 ^ j"
  have den: "0 < den" using B by (simp add: den_def)
  have n1: "2 ^ i * A = num" and l2: "2 ^ j * (2 ^ 52 * B) = 2 ^ 52 * den"
    by (simp_all add: num_def den_def)
  have range: "2 ^ 52 * den \<le> num" "num < 2 ^ 53 * den" using lo2 hi2 unfolding n1 l2 by simp_all
  note f1' = f1 [unfolded n1] and f2' = f2 [unfolded l2]
  obtain r q where div: "long_div 54 lo2 b1 0 = (r, q)"
    and fr: "fits r (2 ^ 53 * num - unat q * (2 ^ 52 * den))"
    and q: "unat q * (2 ^ 52 * den) \<le> 2 ^ 53 * num" "2 ^ 53 * num < unat q * (2 ^ 52 * den) + 2 ^ 52 * den"
    using long_div_ok [OF f2' f1', of 0 54] range v n1 by auto
  have e52: "(2::nat) ^ 53 = 2 ^ 52 * 2" by simp
  have "2 ^ 52 * (unat q * den) \<le> 2 ^ 52 * (2 * num)" using q(1) unfolding e52 by (simp only: ac_simps)
  then have q1: "unat q * den \<le> 2 * num" by (simp only: mult_le_cancel1) simp
  have "2 ^ 52 * (2 * num) < 2 ^ 52 * (unat q * den + den)"
    using q(2) by (simp add: algebra_simps)
  then have q2: "2 * num < unat q * den + den" by (simp only: mult_less_cancel1)
  define z where "z = 2 * num - unat q * den"
  have "2 ^ 53 * num - unat q * (2 ^ 52 * den) = 2 ^ 52 * z"
    unfolding z_def by (simp add: diff_mult_distrib2 mult.assoc mult.left_commute)
  then have rz: "sbn_is_zero r \<longleftrightarrow> z = 0" using fr by (simp add: fits_def sbn_is_zero_ok)
  have up53: "unat q < 2 ^ 54"
  proof -
    have "2 * num < 2 ^ 54 * den" using range(2) by simp
    with q1 have "unat q * den < 2 ^ 54 * den" by (rule order.strict_trans1)
    then show ?thesis by (simp only: mult_less_cancel2)
  qed
  define N where "N = rhe_div num den"
  have N: "N = (if odd (unat q) \<and> (z \<noteq> 0 \<or> odd (unat q div 2)) then unat q div 2 + 1 else unat q div 2)"
    unfolding N_def z_def by (rule rhe_half [OF den q1 q2])
  define mant where "mant = (if q AND 1 \<noteq> 0 \<and> ((if \<not> sbn_is_zero r then True else False) \<or>
    drop_bit 1 q AND 1 \<noteq> 0) then drop_bit 1 q + 1 else drop_bit 1 q)"
  have inc: "unat (drop_bit 1 q + 1) = unat q div 2 + 1"
  proof -
    have dq: "unat (drop_bit 1 q) = unat q div 2" by (rule word_bit_facts)
    have "unat (drop_bit 1 q) + unat (1 :: u64) < 2 ^ LENGTH(64)" unfolding dq using up53 by simp
    then show ?thesis unfolding unat_add_small [OF \<open>unat (drop_bit 1 q) + unat (1 :: u64) < 2 ^ LENGTH(64)\<close>] dq by simp
  qed
  have uN: "unat mant = N"
  proof -
    have c: "(q AND 1 \<noteq> 0 \<and> ((if \<not> sbn_is_zero r then True else False) \<or> drop_bit 1 q AND 1 \<noteq> 0)) \<longleftrightarrow>
        odd (unat q) \<and> (z \<noteq> 0 \<or> odd (unat q div 2))"
      by (simp only: rz word_bit_facts if_bool_eq_conj) auto
    show ?thesis unfolding mant_def N c by (simp only: if_distrib [of unat] inc word_bit_facts(2))
  qed
  then have mN: "mant = of_nat N" by (metis of_nat_unat ucast_id)
  have "unat q div 2 < 2 ^ 53" using up53 by (simp add: div_less_iff_less_mult)
  then have "N \<le> 2 ^ 53" unfolding N by (simp split: if_split)
  then have m53: "mant = push_bit 53 1 \<longleftrightarrow> N = 2 ^ 53"
    using uN by (simp add: word_unat_eq_iff)
  have half: "drop_bit 1 (push_bit 53 1 :: u64) = push_bit 52 1" by simp
  have "dec_to_double neg big X False errno = Some (put_double neg N (int j - int i) errno)"
  proof -
    have x0: "nat (- (if X > 0 then 0 else X)) = nat (- X)" by simp
    show ?thesis
      unfolding dec_to_double_def Let_def x0
      using up down div m53 half mN unfolding lo_def denom_def mant_def put_double_def
      by simp
  qed
  then show ?thesis using range unfolding N_def num_def den_def A_def B_def Let_def by blast
qed

section \<open>The double that comes out\<close>

lemma unat_push_or:
  fixes a b :: u64
  assumes b: "unat b < 2 ^ k" and a: "unat a * 2 ^ k + 2 ^ k \<le> 2 ^ 64"
  shows "unat (push_bit k a OR b) = unat a * 2 ^ k + unat b"
proof -
  have tb: "take_bit k b = b"
    using b by (simp add: word_unat_eq_iff unsigned_take_bit_eq take_bit_nat_eq_self)
  have "push_bit k a AND b = 0"
  proof (rule bit_word_eqI)
    fix i
    have "bit b i \<Longrightarrow> i < k" using tb by (metis bit_take_bit_iff)
    then show "bit (push_bit k a AND b) i \<longleftrightarrow> bit 0 i" by (auto simp: bit_and_iff bit_push_bit_iff)
  qed
  then have o: "push_bit k a OR b = push_bit k a + b" by (simp only: disjunctive_add_eq_or)
  have "0 < (2::nat) ^ k" by simp
  then have "unat a * 2 ^ k < 2 ^ 64" using a by linarith
  then have "unat a * 2 ^ k < 2 ^ LENGTH(64)" by simp
  then have p: "unat (push_bit k a) = unat a * 2 ^ k" by (rule unat_push_bit_small)
  have "unat (push_bit k a) + unat b < 2 ^ LENGTH(64)" using a b p by simp
  then show ?thesis unfolding o by (simp only: unat_add_small p)
qed

lemma put_sign: "unat bits < 2 ^ 63 \<Longrightarrow>
    unat (if neg then bits OR push_bit 63 1 else bits :: u64) = unat bits + (if neg then 2 ^ 63 else 0)"
  using or_hidden_bit [of bits 63] by simp

lemma make_normal:
  assumes N: "2 ^ 52 \<le> N" "N < 2 ^ 53" and e: "- 1074 \<le> e" "e \<le> 971"
  shows "\<exists>bits. rt_make_double neg (of_nat N) e errno = (bits, errno) \<and> (2 ^ 63 \<le> unat bits \<longleftrightarrow> neg) \<and>
    dbl_exp bits \<noteq> 2047 \<and> dbl_abs bits = real N * 2 powi e"
proof -
  define b where "b = nat (e + 1075)"
  have b: "0 < b" "b < 2047" "e + 1075 = int b" using e by (simp_all add: b_def)
  define F where "F = N - 2 ^ 52"
  have F: "F < 2 ^ 52" "N = 2 ^ 52 + F" using N by (simp_all add: F_def)
  have uN: "unat (of_nat N :: u64) = N" using N by (intro unat_of_nat_u64) simp
  then have nz: "(of_nat N :: u64) \<noteq> 0" using N by (metis not_less unat_0 zero_less_numeral zero_less_power order.trans le_0_eq)
  define low where "low = (of_nat N AND 0xFFFFFFFFFFFFF :: u64)"
  have low: "unat low = F" unfolding low_def rt_unpack_frac uN using F by simp
  have ub: "unat (word_of_int (int b) :: u64) = b"
    using b by (simp add: unat_of_nat_u64)
  define w where "w = push_bit 52 (word_of_int (int b)) OR low"
  have w: "unat w = b * 2 ^ 52 + F"
  proof -
    have "b * 2 ^ 52 + 2 ^ 52 \<le> 2 ^ 64" using b by simp
    then show ?thesis unfolding w_def using F low ub by (subst unat_push_or) simp_all
  qed
  have w63: "unat w < 2 ^ 63" using w b F by simp
  define bits where "bits = (if neg then w OR push_bit 63 1 else w)"
  have r: "rt_make_double neg (of_nat N) e errno = (bits, errno)"
    using nz b by (simp add: rt_make_double_def Let_def bits_def w_def low_def)
  have ubits: "unat bits = (if neg then 2 ^ 63 else 0) + (b * 2 ^ 52 + F)"
    unfolding bits_def put_sign [OF w63] w by simp
  define K where "K = (if neg then 2 ^ 11 else 0) + b"
  have uK: "unat bits = K * 2 ^ 52 + F" unfolding ubits K_def by simp
  have de: "dbl_exp bits = b" 
  proof -
    have "unat bits div 2 ^ 52 = K" unfolding uK using F by simp
    moreover have "K mod 2 ^ 11 = b" using b by (simp add: K_def)
    ultimately show ?thesis by (simp only: dbl_exp_def)
  qed
  have dm: "unat bits mod 2 ^ 52 = F" unfolding uK using F by simp
  have "dbl_abs bits = (1 + real F / 2 ^ 52) * 2 powi (int b - 1023)"
    using b by (simp only: dbl_abs_def de dm Let_def) simp
  also have "\<dots> = (2 ^ 52 + real F) * 2 powi (int b - 1023 - 52)"
    by (subst powi_shift_52) (simp add: field_simps)
  also have "int b - 1023 - 52 = e" using b by simp
  finally have "dbl_abs bits = real N * 2 powi e" using F by simp
  moreover have "2 ^ 63 \<le> unat bits \<longleftrightarrow> neg" using ubits w w63 by simp
  ultimately show ?thesis using r de b by auto
qed

lemma make_infinite:
  "mant \<noteq> 0 \<Longrightarrow> 972 \<le> e \<Longrightarrow> rt_make_double neg mant e errno = (inf_bits neg, RT_ERANGE)"
  by (simp add: rt_make_double_def inf_bits_def)

definition round53 :: "real \<Rightarrow> real \<Rightarrow> bool" where
  "round53 x y \<longleftrightarrow> (\<exists>e N. 2 ^ 52 \<le> x / 2 powi e \<and> x / 2 powi e < 2 ^ 53 \<and>
     rounds_even (x / 2 powi e) N \<and> y = real N * 2 powi e)"

lemma powi_mono2: "a \<le> b \<Longrightarrow> (2::real) powi a \<le> 2 powi b"
  by (intro power_int_increasing) simp_all

lemma put_double_ok:
  assumes N: "2 ^ 52 \<le> N" "N \<le> 2 ^ 53" and y: "y = real N * 2 powi e"
  shows "\<exists>bits errno'. put_double neg N e errno = (bits, errno') \<and>
    (y < 2 powi 1024 \<longrightarrow> 2 powi - 1022 \<le> y \<longrightarrow>
      (2 ^ 63 \<le> unat bits \<longleftrightarrow> neg) \<and> dbl_exp bits \<noteq> 2047 \<and> dbl_abs bits = y \<and> errno' = errno) \<and>
    (2 powi 1024 \<le> y \<longrightarrow> bits = inf_bits neg \<and> errno' = RT_ERANGE)"
proof -
  obtain M f where M: "2 ^ 52 \<le> M" "M < 2 ^ 53" and yM: "y = real M * 2 powi f"
    and put: "put_double neg N e errno = rt_make_double neg (of_nat M) f errno"
  proof (cases "N = 2 ^ 53")
    case True
    have "(2::real) powi (e + 1) = 2 * 2 powi e" by (simp add: power_int_add)
    then have "y = real (2 ^ 52) * 2 powi (e + 1)" using y True by simp
    moreover have "(of_nat (2 ^ 52) :: u64) = push_bit 52 1" by simp
    ultimately show ?thesis using that [of "2 ^ 52" "e + 1"] True by (simp add: put_double_def)
  next
    case False
    then show ?thesis using that [of N e] N y by (simp add: put_double_def)
  qed
  have up: "y < 2 powi (53 + f)" and lo: "2 powi (52 + f) \<le> y"
    using M unfolding yM by (simp_all add: power_int_add)
  show ?thesis
  proof (cases "f \<le> 971")
    case True
    have "y < 2 powi 1024" using up powi_mono2 [of "53 + f" 1024] True by simp
    show ?thesis
    proof (cases "- 1074 \<le> f")
      case f: True
      obtain bits where "rt_make_double neg (of_nat M) f errno = (bits, errno)" "2 ^ 63 \<le> unat bits \<longleftrightarrow> neg"
        "dbl_exp bits \<noteq> 2047" "dbl_abs bits = y"
        using make_normal [OF M f True, of neg errno] yM by blast
      then show ?thesis using put \<open>y < 2 powi 1024\<close> by auto
    next
      case False
      have "y < 2 powi - 1022" using up powi_mono2 [of "53 + f" "- 1022"] False by simp
      then show ?thesis using put \<open>y < 2 powi 1024\<close> by (cases "put_double neg N e errno") auto
    qed
  next
    case False
    have "unat (of_nat M :: u64) = M" using M by (intro unat_of_nat_u64) simp
    then have "(of_nat M :: u64) \<noteq> 0" using M by auto
    then have "rt_make_double neg (of_nat M) f errno = (inf_bits neg, RT_ERANGE)"
      using False by (intro make_infinite) simp_all
    moreover have "2 powi 1024 \<le> y" using lo powi_mono2 [of 1024 "52 + f"] False by simp
    ultimately show ?thesis using put by auto
  qed
qed

end
