(* ===== verification/StrtodSpec.thy ===== *)
theory StrtodSpec
  imports Strtod
begin

text \<open>
  What \<open>strtod\<close> promises: the value of a decimal number rounded to 53 bits, a result for
  every short string; and where it breaks the promise: a full bignum, a long fraction, the
  denormal numbers.
\<close>

section \<open>Reading a decimal number\<close>

text \<open>
  The parts of a decimal floating constant: digits, point, digits, the \<open>e\<close> with its sign and
  the digits of the exponent, and what follows.
\<close>

definition first_not :: "(u8 \<Rightarrow> bool) \<Rightarrow> u8 list \<Rightarrow> bool" where
  "first_not P s \<longleftrightarrow> (case s of [] \<Rightarrow> True | c # _ \<Rightarrow> \<not> P c)"

definition dec_text :: "u8 list \<Rightarrow> u8 list \<Rightarrow> u8 list \<Rightarrow> u8 list \<Rightarrow> u8 list \<Rightarrow> u8 list \<Rightarrow> bool" where
  "dec_text ip pt fp es ed rest \<longleftrightarrow>
     decimals ip \<and> decimals fp \<and> decimals ed \<and> ip @ fp \<noteq> [] \<and> (pt = [46] \<or> pt = [] \<and> fp = []) \<and>
     first_not (is_digit 10) rest \<and>
     (if ed = [] then es = [] \<and> first_not (\<lambda>c. c = 101 \<or> c = 69 \<or> pt = [] \<and> c = 46) rest
      else es \<in> {[101], [101, 43], [101, 45], [69], [69, 43], [69, 45]})"

definition dec_exponent :: "u8 list \<Rightarrow> u8 list \<Rightarrow> u8 list \<Rightarrow> int" where
  "dec_exponent fp es ed = (if 45 \<in> set es then - int (dv ed) else int (dv ed)) - int (length fp)"

lemma first_not_Cons [simp]: "first_not P (c # s) \<longleftrightarrow> \<not> P c" "first_not P []"
  by (simp_all add: first_not_def)

lemma cstr_first: "cstr m p s \<Longrightarrow> first_not P s \<Longrightarrow> \<not> P 0 \<Longrightarrow> \<exists>c. m p = Some c \<and> \<not> P c"
  by (cases s) (auto simp: first_not_def)

lemma digit_stop:
  "m s = Some c \<Longrightarrow> \<not> is_digit 10 c \<Longrightarrow> c = 46 \<Longrightarrow> ds_seen_point st \<Longrightarrow> digit_loop m s st = Some (s, st)"
  "m s = Some c \<Longrightarrow> \<not> is_digit 10 c \<Longrightarrow> c \<noteq> 46 \<Longrightarrow> digit_loop m s st = Some (s, st)"
  by (subst digit_loop.simps; auto simp: is_digit_10)+

lemma dv_foldl: "foldl (\<lambda>v c. v * 10 + digit_nat c) (dv xs) ys = dv (xs @ ys)"
  by (simp add: digits_val_def)

lemma dv_foldl_0: "foldl (\<lambda>v c. v * 10 + digit_nat c) 0 ys = dv ys"
  by (simp add: digits_val_def)

lemma digit_start_ok: "digits_ok digit_start 0 0"
  by (simp add: digits_ok_def digit_start_def sbn_zero_def bn_wf_def)

lemma number_digits:
  assumes s: "cstr m s (ip @ pt @ fp @ rest)" and d: "decimals ip" "decimals fp"
    and pt: "pt = [46] \<or> pt = [] \<and> fp = []" and len: "length ip + length fp \<le> 780"
    and rest: "first_not (is_digit 10) rest" "first_not (\<lambda>c. pt = [] \<and> c = 46) rest"
  shows "\<exists>st. digit_loop m s digit_start = Some (s + length (ip @ pt @ fp), st) \<and>
    digits_ok st (dv (ip @ fp)) (length (ip @ fp)) \<and> ds_any st = (ip @ fp \<noteq> []) \<and> \<not> ds_sticky st \<and>
    ds_dec_exp st = - int (length fp)"
proof -
  define st1 where "st1 = foldl digit_step digit_start ip"
  have st1: "digits_ok st1 (dv ip) (length ip)" "ds_any st1 = (ip \<noteq> [])" "\<not> ds_sticky st1"
      "\<not> ds_seen_point st1" "ds_dec_exp st1 = 0"
    using digit_steps_ok [OF digit_start_ok, of ip] d len
    by (simp_all add: st1_def digit_start_def dv_foldl_0)
  have at: "bytes_at m s ip" using s by (simp add: cstr_def)
  have run1: "digit_loop m s digit_start = digit_loop m (s + length ip) st1"
    unfolding st1_def by (rule digit_run [OF at d(1)])
  have c1: "cstr m (s + length ip) (pt @ fp @ rest)" by (rule cstr_append [OF s])
  show ?thesis
  proof (cases "pt = []")
    case True
    then have "fp = []" using pt by simp
    then have "cstr m (s + length ip) rest" using c1 True by simp
    moreover have "first_not (\<lambda>c. is_digit 10 c \<or> c = 46) rest"
      using rest True by (cases rest) auto
    ultimately obtain c where "m (s + length ip) = Some c" "\<not> is_digit 10 c" "c \<noteq> 46"
      using cstr_first [of m "s + length ip" rest "\<lambda>c. is_digit 10 c \<or> c = 46"] by (auto simp: is_digit_10)
    then have "digit_loop m (s + length ip) st1 = Some (s + length ip, st1)" by (rule digit_stop)
    then show ?thesis using run1 st1 True \<open>fp = []\<close> by simp
  next
    case False
    then have p: "pt = [46]" using pt by simp
    let ?s = "Suc (s + length ip)" and ?st = "st1\<lparr>ds_seen_point := True\<rparr>"
    have m46: "m (s + length ip) = Some 46" and c2: "cstr m ?s (fp @ rest)" using c1 p by simp_all
    have run2: "digit_loop m (s + length ip) st1 = digit_loop m ?s ?st"
      using m46 st1(4) by (subst digit_loop.simps) (simp add: word_le_def)
    define st2 where "st2 = foldl digit_step ?st fp"
    have "digits_ok ?st (dv ip) (length ip)" using st1(1) by (simp add: digits_ok_def)
    from digit_steps_ok [OF this, of fp] d len st1
    have st2: "digits_ok st2 (dv (ip @ fp)) (length (ip @ fp))" "ds_any st2 = (ip @ fp \<noteq> [])"
        "\<not> ds_sticky st2" "ds_seen_point st2" "ds_dec_exp st2 = - int (length fp)"
      by (simp_all add: st2_def dv_foldl)
    have at2: "bytes_at m ?s fp" using c2 by (simp add: cstr_def)
    have run3: "digit_loop m ?s ?st = digit_loop m (?s + length fp) st2"
      unfolding st2_def by (rule digit_run [OF at2 d(2)])
    obtain c where "m (?s + length fp) = Some c" "\<not> is_digit 10 c"
      using cstr_first [OF cstr_append [OF c2] rest(1)] by (auto simp: is_digit_10)
    then have "digit_loop m (?s + length fp) st2 = Some (?s + length fp, st2)"
      using digit_stop st2(4) by (cases "c = 46") blast+
    then show ?thesis using run1 run2 run3 st2 p by auto
  qed
qed

lemma exp_part_ok:
  assumes s: "cstr m s (es @ ed @ rest)" and t: "dec_text ip pt fp es ed rest" and v: "dv ed < 100000"
  shows "exp_part m s s x = Some (s + length (es @ ed), x + (if 45 \<in> set es then - int (dv ed) else int (dv ed)))"
proof (cases "ed = []")
  case True
  then have "cstr m s rest" "first_not (\<lambda>c. c = 101 \<or> c = 69) rest" and es: "es = []"
    using s t by (auto simp: dec_text_def first_not_def split: list.splits if_splits)
  then obtain c where "m s = Some c" "c \<noteq> 101" "c \<noteq> 69"
    using cstr_first [of m s rest "\<lambda>c. c = 101 \<or> c = 69"] by auto
  then show ?thesis using True es by (simp add: exp_part_def)
next
  case False
  then obtain e sg where es: "es = e # sg" and e: "e = 101 \<or> e = 69" and sg: "sg = [] \<or> sg = [43] \<or> sg = [45]"
    using t by (auto simp: dec_text_def)
  have d: "decimals ed" "first_not (is_digit 10) rest" using t by (simp_all add: dec_text_def)
  obtain c ed' where ed: "ed = c # ed'" using False by (cases ed) auto
  have me: "m s = Some e" and c1: "cstr m (Suc s) (sg @ ed @ rest)" using s es by simp_all
  have "sign_text sg (ed @ rest)"
    using sg d(1) is_digit_not_sign [of 10 c] by (auto simp: sign_text_def ed)
  then have sign: "strtox_sign m (Suc s) = Some (sg = [45], Suc s + length sg)"
    by (rule strtox_sign_ok [OF c1])
  have "ends_number rest" using d(2) by (simp add: ends_number_def first_not_def)
  from exp_loop_ok [OF cstr_append [OF c1] d(1) this, of 0 False] v
  have loop: "exp_loop m (Suc s + length sg) 0 False = Some (Suc s + length sg + length ed, int (dv ed), True)"
    using False by (simp add: dv_foldl_0)
  have neg: "45 \<in> set es \<longleftrightarrow> sg = [45]" using es e sg by auto
  show ?thesis
    unfolding exp_part_def neg using me e sign loop by (auto simp: es)
qed

lemma ci_word_no: "m p = Some x \<Longrightarrow> x \<noteq> c \<Longrightarrow> x \<noteq> c - 32 \<Longrightarrow> ci_word m p (c # cs) = Some False"
  by (simp add: ci_char_def)

lemma bind_pair: "x \<bind> (\<lambda>(a, b). Some (a, e, b)) = map_option (\<lambda>(a, b). (a, e, b)) x"
  by (cases x) auto

lemma strtod_text:
  assumes s: "cstr m p (ws @ sg @ ip @ pt @ fp @ es @ ed @ rest)"
    and ws: "list_all (\<lambda>c. isspace (uint c)) ws" and sg: "sg = [] \<or> sg = [43] \<or> sg = [45]"
    and t: "dec_text ip pt fp es ed rest" and len: "length ip + length fp \<le> 780" and v: "dv ed < 100000"
  defines "D \<equiv> dv (ip @ fp)" and "X \<equiv> dec_exponent fp es ed" and "neg \<equiv> sg = [45]"
    and "e \<equiv> p + length (ws @ sg @ ip @ pt @ fp @ es @ ed)"
  shows "\<exists>big. fits big D \<and> strtod m errno p =
    map_option (\<lambda>(bits, errno). (bits, e, errno))
      (if D = 0 then Some (rt_make_double neg 0 0 errno)
       else if X > 350 then Some (rt_make_double neg (push_bit 52 1) 2000 RT_ERANGE)
       else if X < - 400 then Some (rt_make_double neg 0 0 RT_ERANGE)
       else dec_to_double neg big X False errno)"
proof -
  note t' = t [unfolded dec_text_def]
  obtain c u where cu: "ip @ pt @ fp @ es @ ed @ rest = c # u" and c: "is_digit 10 c \<or> c = 46"
  proof (cases ip)
    case Nil
    then have "pt = [46]" using t' by auto
    then show ?thesis using that [of 46] Nil by simp
  next
    case (Cons a ip')
    then show ?thesis using that [of a] t' by simp
  qed
  have c': "c \<noteq> 43 \<and> c \<noteq> 45 \<and> \<not> isspace (uint c)" "48 \<le> c \<and> c \<le> 57 \<or> c = 46"
    using c is_digit_not_sign [of 10 c] by (auto simp: isspace_def is_digit_10)
  have st: "sign_text sg (c # u)" using sg c' by (auto simp: sign_text_def)
  have s1: "cstr m (p + length ws) (sg @ c # u)" using cstr_append [OF s] cu by simp
  have skip: "skip_space m p = Some (p + length ws)"
    using s ws sg c' by (intro skip_space_ok [of m p ws "sg @ c # u"]) (auto simp: cu isspace_def)
  have sign: "strtox_sign m (p + length ws) = Some (neg, p + length ws + length sg)"
    unfolding neg_def by (rule strtox_sign_ok [OF s1 st])
  let ?s = "p + length ws + length sg"
  have s2: "cstr m ?s (ip @ pt @ fp @ es @ ed @ rest)" using cstr_append [OF s1] cu by simp
  then have mc: "m ?s = Some c" unfolding cu by simp
  have word: "ci_word m ?s (lit ''inf'') = Some False" "ci_word m ?s (lit ''nan'') = Some False"
    using mc c' by (auto simp: lit_def ci_char_def word_le_nat_alt)
  obtain st where loop: "digit_loop m ?s digit_start = Some (?s + length (ip @ pt @ fp), st)"
    and ok: "digits_ok st D (length (ip @ fp))" "ds_any st" "\<not> ds_sticky st" "ds_dec_exp st = - int (length fp)"
  proof -
    have h: "first_not (is_digit 10) (es @ ed @ rest)"
      "first_not (\<lambda>c. pt = [] \<and> c = 46) (es @ ed @ rest)"
      using t' by (auto simp: first_not_def is_digit_10 split: if_splits list.splits)
    from number_digits [OF _ _ _ _ len h, of m ?s] s2 t' that show ?thesis unfolding D_def by auto
  qed
  have expo: "exp_part m (?s + length (ip @ pt @ fp)) (?s + length (ip @ pt @ fp)) (ds_dec_exp st) =
      Some (e, X)"
  proof -
    have "cstr m (?s + length (ip @ pt @ fp)) (es @ ed @ rest)"
      using cstr_append [of m ?s "ip @ pt @ fp"] s2 by simp
    from exp_part_ok [OF this t v] ok(4) show ?thesis by (simp add: X_def dec_exponent_def e_def add.assoc)
  qed
  have zero: "sbn_is_zero (ds_big st) \<longleftrightarrow> D = 0"
    using ok(1) by (simp add: digits_ok_def sbn_is_zero_ok)
  have "strtod m errno p =
      map_option (\<lambda>(bits, errno). (bits, e, errno))
      (if D = 0 then Some (rt_make_double neg 0 0 errno)
       else if X > 350 then Some (rt_make_double neg (push_bit 52 1) 2000 RT_ERANGE)
       else if X < - 400 then Some (rt_make_double neg 0 0 RT_ERANGE)
       else dec_to_double neg (ds_big st) X False errno)"
    unfolding strtod_def using skip sign word loop expo ok(2,3) zero
    by (simp del: ci_word.simps lit_Cons add: bind_pair)
  moreover have "fits (ds_big st) D" using ok by (simp add: digits_ok_def fits_def)
  ultimately show ?thesis by blast
qed

section \<open>The value\<close>

lemma strtod_round:
  assumes big: "fits big D" and D: "0 < D" and lim: "D * 10 ^ nat X < 10 ^ 899" and X: "- 400 \<le> X"
  shows "\<exists>e N. 2 ^ 52 \<le> real D * 10 powi X / 2 powi e \<and> real D * 10 powi X / 2 powi e < 2 ^ 53 \<and>
    rounds_even (real D * 10 powi X / 2 powi e) N \<and> 2 ^ 52 \<le> N \<and> N \<le> 2 ^ 53 \<and>
    dec_to_double neg big X False errno = Some (put_double neg N e errno)"
proof -
  have "2 * (D * 10 ^ nat X) < 2 * 10 ^ 899" using lim by (rule mult_strict_left_mono) simp
  also have "\<dots> \<le> 10 * 10 ^ 899" by (rule mult_le_mono1) simp
  also have "\<dots> = 10 ^ 900" by (simp only: power_Suc [symmetric] Suc_numeral semiring_norm)
  also have "\<dots> \<le> S_LIMIT" by (rule power_LIMIT) simp
  finally have small: "2 * (D * 10 ^ nat X) < S_LIMIT" .
  obtain i j num den where num: "num = D * 10 ^ nat X * 2 ^ i" and den: "den = 10 ^ nat (- X) * 2 ^ j"
    and range: "2 ^ 52 * den \<le> num" "num < 2 ^ 53 * den"
    and r: "dec_to_double neg big X False errno = Some (put_double neg (rhe_div num den) (int j - int i) errno)"
    using dec_to_double_ok [OF big D small X, of neg errno] by (auto simp: Let_def)
  define e where "e = int j - int i"
  have d0: "0 < den" by (simp add: den)
  have x: "real D * 10 powi X / 2 powi e = real num / real den"
  proof -
    have "(2::real) powi e = 2 ^ j / 2 ^ i" unfolding e_def by (simp add: power_int_diff)
    moreover have "(10::real) powi X = 10 ^ nat X / 10 ^ nat (- X)"
      by (cases "0 \<le> X") (simp_all add: power_int_def inverse_eq_divide power_one_over)
    ultimately show ?thesis by (simp add: num den field_simps)
  qed
  define N where "N = rhe_div num den"
  have N: "2 ^ 52 \<le> N" "N \<le> 2 ^ 53"
  proof -
    have "2 ^ 52 \<le> num div den" using range(1) d0 by (simp add: less_eq_div_iff_mult_less_eq)
    moreover have "num div den < 2 ^ 53" using range(2) d0 by (simp add: div_less_iff_less_mult)
    ultimately show "2 ^ 52 \<le> N" "N \<le> 2 ^ 53"
      using rhe_div_bounds [OF d0, of num] unfolding N_def by linarith+
  qed
  have "2 ^ 52 * real den \<le> real num" "real num < 2 ^ 53 * real den"
    using range by (simp_all flip: of_nat_mult of_nat_power add: of_nat_le_iff of_nat_less_iff)
  then have "2 ^ 52 \<le> real num / real den" "real num / real den < 2 ^ 53"
    using d0 by (simp_all add: field_simps)
  moreover have "rounds_even (real num / real den) N" unfolding N_def by (rule rhe_div_even [OF d0])
  ultimately show ?thesis using N r unfolding x [symmetric] N_def e_def by blast
qed

lemma strtod_value:
  assumes big: "fits big D" and D: "0 < D" and lim: "D * 10 ^ nat X < 10 ^ 899" and X: "- 400 \<le> X"
  shows "\<exists>y bits errno'. round53 (real D * 10 powi X) y \<and>
    dec_to_double neg big X False errno = Some (bits, errno') \<and>
    (y < 2 powi 1024 \<longrightarrow> 2 powi - 1022 \<le> y \<longrightarrow>
      (2 ^ 63 \<le> unat bits \<longleftrightarrow> neg) \<and> dbl_exp bits \<noteq> 2047 \<and> dbl_abs bits = y \<and> errno' = errno) \<and>
    (2 powi 1024 \<le> y \<longrightarrow> bits = inf_bits neg \<and> errno' = RT_ERANGE)"
proof -
  obtain e N where r: "2 ^ 52 \<le> real D * 10 powi X / 2 powi e" "real D * 10 powi X / 2 powi e < 2 ^ 53"
      "rounds_even (real D * 10 powi X / 2 powi e) N"
    and N: "2 ^ 52 \<le> N" "N \<le> 2 ^ 53"
    and d: "dec_to_double neg big X False errno = Some (put_double neg N e errno)"
    using strtod_round [OF assms, of neg errno] by blast
  define y where "y = real N * 2 powi e"
  have "round53 (real D * 10 powi X) y" unfolding round53_def y_def using r by blast
  moreover obtain bits errno' where "put_double neg N e errno = (bits, errno')"
    "y < 2 powi 1024 \<longrightarrow> 2 powi - 1022 \<le> y \<longrightarrow>
      (2 ^ 63 \<le> unat bits \<longleftrightarrow> neg) \<and> dbl_exp bits \<noteq> 2047 \<and> dbl_abs bits = y \<and> errno' = errno"
    "2 powi 1024 \<le> y \<longrightarrow> bits = inf_bits neg \<and> errno' = RT_ERANGE"
    using put_double_ok [OF N y_def, of neg errno] by blast
  ultimately show ?thesis using d by metis
qed

lemma below_899: "n < 10 ^ k \<Longrightarrow> k \<le> 899 \<Longrightarrow> n < (10::nat) ^ 899"
  by (erule order.strict_trans2) (rule power_increasing, simp_all)

text \<open>The rounding is a function of the value.\<close>

lemma scale_unique:
  fixes x :: real
  assumes e: "2 ^ 52 \<le> x / 2 powi e" "x / 2 powi e < 2 ^ 53"
    and f: "2 ^ 52 \<le> x / 2 powi f" "x / 2 powi f < 2 ^ 53"
  shows "e = f"
proof -
  have no: "\<not> a < b" if a: "x / 2 powi a < 2 ^ 53" and b: "2 ^ 52 \<le> x / 2 powi b" for a b :: int
  proof
    assume "a < b"
    then have "2 * 2 powi a \<le> (2::real) powi b"
      using power_int_increasing [of "a + 1" b "2::real"] by (simp add: power_int_add)
    moreover have "x < 2 ^ 53 * 2 powi a" "2 ^ 52 * 2 powi b \<le> x"
      using a b by (simp_all add: divide_less_eq le_divide_eq)
    ultimately show False by simp
  qed
  show ?thesis using no [OF e(2) f(1)] no [OF f(2) e(1)] by linarith
qed

lemma round53_unique: "round53 x y \<Longrightarrow> round53 x z \<Longrightarrow> y = z"
  unfolding round53_def using scale_unique rounds_even_unique by (metis (no_types))

section \<open>Saturation\<close>

text \<open>
  A value that needs all 900 digits of the array defeats the second loop: \<open>hi\<close> grows past
  the array, loses its top, and never gets above \<open>big\<close>.
\<close>

definition S_GAP :: nat where
  "S_GAP = 2 ^ 900"

definition stuck :: "bn \<Rightarrow> bn \<Rightarrow> bool" where
  "stuck big hi \<longleftrightarrow>
     list_all (\<lambda>l. unat l < B9) big \<and> length big = BN_CAP \<and> S_LIMIT \<le> bn_val big + S_GAP \<and>
     (length hi < BN_CAP \<and> bn_wf hi \<and> (\<exists>j. bn_val hi = 2 ^ j) \<or>
      length hi = BN_CAP \<and> list_all (\<lambda>l. unat l < B9) hi \<and> S_GAP dvd bn_val hi)"

lemma dvd_LIMIT: "S_GAP dvd S_LIMIT"
proof -
  have "9 * 100 = (900::nat)" by simp
  then show ?thesis unfolding S_LIMIT_10 S_GAP_def power_10_split by (simp only: dvd_triv_right)
qed

lemma stuck_cmp: "stuck big hi \<Longrightarrow> 0 \<le> sbn_cmp big hi"
proof -
  assume st: "stuck big hi"
  show ?thesis
  proof (cases "length hi < BN_CAP")
    case True
    then show ?thesis using st by (simp add: stuck_def sbn_cmp_def)
  next
    case False
    then have hi: "length hi = BN_CAP" "list_all (\<lambda>l. unat l < B9) hi" "S_GAP dvd bn_val hi"
      and b: "length big = BN_CAP" "list_all (\<lambda>l. unat l < B9) big" "S_LIMIT \<le> bn_val big + S_GAP"
      using st by (auto simp: stuck_def)
    have lt: "bn_val hi < S_LIMIT" using bn_val_bound [OF hi(2)] hi(1) by (simp add: S_LIMIT_def)
    have "S_GAP dvd S_LIMIT - bn_val hi" using hi(3) dvd_LIMIT by (rule dvd_diff_nat [rotated])
    then have "S_GAP \<le> S_LIMIT - bn_val hi" by (rule dvd_imp_le) (use lt in simp)
    then have "bn_val hi \<le> bn_val big" using b(3) lt by linarith
    then show ?thesis using b hi by (subst sbn_cmp_same_length) (auto simp: val_cmp_def)
  qed
qed

lemma stuck_double: "stuck big hi \<Longrightarrow> stuck big (sbn_double hi)"
proof -
  assume st: "stuck big hi"
  show ?thesis
  proof (cases "length hi < BN_CAP")
    case True
    then obtain j where wf: "bn_wf hi" and v: "bn_val hi = 2 ^ j" using st by (auto simp: stuck_def)
    have "bn_val hi < B9 ^ (BN_CAP - 1)" using bn_wf_length [OF wf, of "BN_CAP - 1"] True by auto
    moreover have "B9 * B9 ^ (BN_CAP - 1) = B9 ^ BN_CAP"
      by (simp add: BN_CAP_def flip: power_Suc)
    ultimately have "2 * bn_val hi < B9 ^ BN_CAP"
    proof -
      assume a: "bn_val hi < B9 ^ (BN_CAP - 1)" and e: "B9 * B9 ^ (BN_CAP - 1) = B9 ^ BN_CAP"
      have "2 * bn_val hi < 2 * B9 ^ (BN_CAP - 1)" using a by simp
      also have "\<dots> \<le> B9 * B9 ^ (BN_CAP - 1)" by (rule mult_le_mono1) (simp add: B9_def)
      finally show ?thesis unfolding e .
    qed
    then have d: "bn_wf (sbn_double hi)" "length (sbn_double hi) \<le> BN_CAP" "bn_val (sbn_double hi) = 2 ^ Suc j"
      using sbn_double_ok [OF wf] True v by simp_all
    show ?thesis
    proof (cases "length (sbn_double hi) < BN_CAP")
      case True
      then show ?thesis using st d unfolding stuck_def by blast
    next
      case False
      then have len: "length (sbn_double hi) = BN_CAP" using d(2) by simp
      have ne: "sbn_double hi \<noteq> []" using len by (auto simp: BN_CAP_def)
      then have "B9 ^ (BN_CAP - 1) \<le> 2 ^ Suc j"
        using bn_val_lower [OF ne] d(1,3) len by (simp add: bn_wf_def)
      moreover have "S_GAP \<le> B9 ^ (BN_CAP - 1)"
      proof -
        have "S_GAP \<le> 2 ^ (29 * 99)" unfolding S_GAP_def by (rule power_increasing) simp_all
        also have "\<dots> = (2 ^ 29) ^ 99" by (simp only: power_mult)
        also have "\<dots> \<le> B9 ^ 99" by (rule power_mono) (simp_all add: B9_def)
        finally show ?thesis by (simp only: BN_CAP_def) simp
      qed
      ultimately have "S_GAP \<le> 2 ^ Suc j" by (rule order.trans [rotated])
      then have "900 \<le> Suc j" unfolding S_GAP_def by (rule power_le_imp_le_exp [rotated]) simp
      then have "S_GAP dvd bn_val (sbn_double hi)" unfolding d(3) S_GAP_def by (rule le_imp_power_dvd)
      then show ?thesis using st d len unfolding stuck_def bn_wf_def by blast
    qed
  next
    case False
    then have hi: "length hi = BN_CAP" "list_all (\<lambda>l. unat l < B9) hi" "S_GAP dvd bn_val hi"
      using st by (auto simp: stuck_def)
    note d = sbn_double_full [OF hi(2,1), folded S_LIMIT_def]
    have "S_GAP dvd 2 * bn_val hi mod S_LIMIT"
      using hi(3) dvd_LIMIT by (simp only: dvd_mod_iff) simp
    then show ?thesis using st d unfolding stuck_def by metis
  qed
qed

lemma scale_down_stuck: "stuck big hi \<Longrightarrow> scale_down big lo hi e2 = None"
proof (rule ccontr)
  assume st: "stuck big hi" and "scale_down big lo hi e2 \<noteq> None"
  then obtain r where "scale_down big lo hi e2 = Some r" by blast
  then have "\<not> stuck big hi"
  proof (induction rule: scale_down.raw_induct [rotated, consumes 1])
    case (1 f big lo hi e2 r)
    then show ?case using stuck_cmp [of big hi] stuck_double [of big hi]
      by (auto split: if_splits)
  qed
  with st show False by simp
qed

lemma dv_nines: "dv (replicate n 57) + 1 = 10 ^ n"
proof (induction n)
  case (Suc n)
  have "dv (replicate (Suc n) 57) = dv (replicate n 57) * 10 + 9"
    unfolding replicate_Suc replicate_append_same [symmetric]
    by (simp add: digits_val_snoc digit_nat_def digit_of_def)
  then show ?case using Suc by simp
qed simp

lemma dec_to_double_stuck:
  assumes big: "fits big D" and D: "D + 1 = 10 ^ 700"
  shows "dec_to_double neg big 200 sticky errno = None"
proof -
  define b where "b = mul10_times (nat 200) big"
  have n: "700 + 200 = (9 * 100 :: nat)" by simp
  have v: "D * 10 ^ 200 + 10 ^ 200 = S_LIMIT"
  proof -
    have "D * 10 ^ 200 + 10 ^ 200 = (D + 1) * 10 ^ 200" by (simp only: distrib_right mult_1)
    also have "\<dots> = S_LIMIT" unfolding D S_LIMIT_10 n [symmetric] by (simp only: power_add)
    finally show ?thesis .
  qed
  have "0 < (10::nat) ^ 200" by simp
  then have lt: "D * 10 ^ 200 < S_LIMIT" using v by linarith
  have fb: "fits b (D * 10 ^ 200)"
    using mul10_times_ok [OF big, of 200] lt by (simp only: b_def nat_numeral)
  have gap: "(10::nat) ^ 200 \<le> S_GAP"
  proof -
    have "(10::nat) ^ 200 \<le> (2 ^ 4) ^ 200" by (rule power_mono) simp_all
    also have "\<dots> = 2 ^ (4 * 200)" by (simp only: power_mult)
    also have "\<dots> \<le> S_GAP" unfolding S_GAP_def by (rule power_increasing) simp_all
    finally show ?thesis .
  qed
  define V where "V = D * 10 ^ 200"
  have B99: "B9 ^ 99 = 10 ^ (9 * 99)"
  proof -
    have "B9 = 10 ^ 9" by (simp add: B9_def)
    then show ?thesis by (simp only: power_mult)
  qed
  have large: "B9 ^ 99 \<le> V"
  proof -
    have "S_LIMIT = B9 * B9 ^ 99" unfolding S_LIMIT_def BN_CAP_def by (simp only: power_Suc [symmetric] Suc_numeral semiring_norm)
    moreover have "2 * B9 ^ 99 \<le> B9 * B9 ^ 99" by (rule mult_le_mono1) (simp add: B9_def)
    moreover have "(10::nat) ^ 200 \<le> B9 ^ 99" unfolding B99 by (rule power_increasing) simp_all
    ultimately show ?thesis using v unfolding V_def by linarith
  qed
  have wf: "bn_wf b" and bl: "length b \<le> BN_CAP" and bv: "bn_val b = V"
    using fb by (simp_all only: fits_def V_def)
  have "\<not> length b \<le> 99" using bn_wf_length [OF wf, of 99] large unfolding bv by (simp only: not_less)
  then have len: "length b = BN_CAP" using bl by (simp add: BN_CAP_def)
  define lo where "lo = double_times 52 (sbn_push_digit sbn_zero 1)"
  have L: "2 ^ 53 * 1 < S_LIMIT" using small_LIMIT [of 0] by simp
  have fl: "fits lo (2 ^ 52 * 1)" unfolding lo_def using L by (intro double_times_ok [OF fits_one]) simp
  have fh: "fits (sbn_double lo) (2 * (2 ^ 52 * 1))" using L by (intro double_fits [OF fl]) simp
  have "(2::nat) ^ 52 * 1 \<le> B9 ^ 99"
  proof -
    have "(2::nat) ^ 52 * 1 \<le> 10 ^ 52 * 1" by (intro mult_le_mono1 power_mono) simp_all
    also have "\<dots> \<le> B9 ^ 99" unfolding B99 mult_1_right by (rule power_increasing) simp_all
    finally show ?thesis .
  qed
  then have "2 ^ 52 * 1 \<le> V" using large by (rule order.trans)
  then have "\<not> sbn_cmp b lo < 0"
    unfolding cmp_fits [OF fb [folded V_def] fl] val_cmp_def by (simp only: not_less [symmetric]) simp
  then have up: "scale_up b lo 0 = Some (b, 0)" by (subst scale_up.simps) simp
  have "sbn_double lo \<noteq> []" using fh by (auto simp: fits_def)
  have "stuck b (sbn_double lo)"
  proof -
    have "length (sbn_double lo) < BN_CAP"
    proof -
      have "bn_val (sbn_double lo) < B9 ^ 99"
      proof -
        have "bn_val (sbn_double lo) < B9 ^ 2" using fh by (simp add: fits_def B9_def)
        also have "\<dots> \<le> B9 ^ 99" by (rule power_increasing) (simp_all add: B9_def)
        finally show ?thesis .
      qed
      then have "length (sbn_double lo) \<le> 99" using bn_wf_length [of "sbn_double lo" 99] fh by (simp add: fits_def)
      then show ?thesis by (simp add: BN_CAP_def)
    qed
    moreover have "bn_val (sbn_double lo) = 2 ^ 53" using fh by (simp add: fits_def)
    moreover have "list_all (\<lambda>l. unat l < B9) b" using wf by (simp add: bn_wf_def)
    moreover have "S_LIMIT \<le> bn_val b + S_GAP" using v gap unfolding bv V_def by linarith
    ultimately show ?thesis using len fh unfolding stuck_def fits_def by blast
  qed
  then have down: "scale_down b lo (sbn_double lo) 0 = None" by (rule scale_down_stuck)
  have z: "mul10_times (nat (- (if (200::int) > 0 then 0 else 200))) (sbn_push_digit sbn_zero 1) = sbn_push_digit sbn_zero 1"
    by simp
  show ?thesis
    unfolding dec_to_double_def Let_def z b_def [symmetric] lo_def [symmetric] using up down by simp
qed

lemma cstr_mem_of: "0 \<notin> set s \<Longrightarrow> cstr (mem_of p (s @ [0])) p s"
  unfolding cstr_def mem_of_def using bytes_at_put_bytes_same [of _ p "s @ [0]"] by blast

section \<open>Every string\<close>

text \<open>Each stage on any string: it ends inside it.\<close>

lemma skip_space_total: "cstr m p s \<Longrightarrow> \<exists>k\<le>length s. skip_space m p = Some (p + k)"
proof -
  assume s: "cstr m p s"
  let ?P = "\<lambda>c. isspace (uint c)"
  have "skip_space m p = Some (p + length (takeWhile ?P s))"
    using s by (intro skip_space_ok [of m p _ "dropWhile ?P s"])
      (auto simp: list_all_iff dropWhile_eq_Cons_conv dest: set_takeWhileD split: list.split)
  then show ?thesis using length_takeWhile_le by blast
qed

lemma strtox_sign_total: "cstr m p s \<Longrightarrow> \<exists>neg k. strtox_sign m p = Some (neg, p + k) \<and> k \<le> length s"
  by (cases s) (auto simp: strtox_sign_def intro: exI [of _ 0])

lemma ci_word_total:
  "cstr m p s \<Longrightarrow> 0 \<notin> set w \<Longrightarrow> 32 \<notin> set w \<Longrightarrow> \<exists>b. ci_word m p w = Some b \<and> (b \<longrightarrow> length w \<le> length s)"
proof (induction w arbitrary: p s)
  case (Cons c w)
  show ?case
  proof (cases s)
    case Nil
    have "c - 32 \<noteq> 0" using Cons.prems(3) by auto
    then show ?thesis using Cons.prems Nil by (auto simp: ci_char_def)
  next
    case (Cons x t)
    then obtain b where "ci_word m (Suc p) w = Some b" "b \<longrightarrow> length w \<le> length t"
      using Cons.IH [of "Suc p" t] Cons.prems by auto
    then show ?thesis using Cons.prems Cons by (auto simp: ci_char_def)
  qed
qed (rule exI [of _ True], simp)

lemma digit_loop_total:
  "cstr m p s \<Longrightarrow> digits_ok st v n \<Longrightarrow> n + length s \<le> 780 \<Longrightarrow> \<not> ds_sticky st \<Longrightarrow>
   \<exists>k st' v' n'. digit_loop m p st = Some (p + k, st') \<and> k \<le> length s \<and>
     digits_ok st' v' n' \<and> n' \<le> n + length s \<and> \<not> ds_sticky st'"
proof (induction s arbitrary: p st v n)
  case Nil
  then have "digit_loop m p st = Some (p + 0, st)" by (subst digit_loop.simps) (simp add: word_le_nat_alt)
  then show ?case using Nil.prems
    by - (rule exI [of _ 0], rule exI [of _ st], rule exI [of _ v], rule exI [of _ n], auto)
next
  case (Cons c s)
  then have c: "m p = Some c" and s: "cstr m (Suc p) s" by simp_all
  have next_step: "\<exists>k st' v' n'. digit_loop m p st = Some (p + k, st') \<and> k \<le> length (c # s) \<and>
     digits_ok st' v' n' \<and> n' \<le> n + length (c # s) \<and> \<not> ds_sticky st'"
    if "digit_loop m p st = digit_loop m (Suc p) st1" "digits_ok st1 v1 n1" "n1 \<le> Suc n" "\<not> ds_sticky st1"
    for st1 v1 n1
  proof -
    have "n1 + length s \<le> 780" using that(3) Cons.prems(3) by simp
    from Cons.IH [OF s that(2) this that(4)] obtain k st' v' n' where
      "digit_loop m (Suc p) st1 = Some (Suc p + k, st')" "k \<le> length s" "digits_ok st' v' n'"
      "n' \<le> n1 + length s" "\<not> ds_sticky st'" by blast
    then show ?thesis using that
      by (intro exI [of _ "Suc k"] exI [of _ st'] exI [of _ v'] exI [of _ n']) auto
  qed
  consider "is_digit 10 c" | "c = 46" "\<not> ds_seen_point st" | "c = 46" "ds_seen_point st" | "\<not> is_digit 10 c" "c \<noteq> 46"
    by blast
  then show ?case
  proof cases
    case 1
    then have "digit_loop m p st = digit_loop m (Suc p) (digit_step st c)"
      using c by (subst digit_loop.simps) (simp add: is_digit_10)
    moreover note digit_step_ok [OF Cons.prems(2) _ 1]
    ultimately show ?thesis
      using Cons.prems(3,4) by (intro next_step [of "digit_step st c" "v * 10 + digit_nat c" "Suc n"]) auto
  next
    case 2
    then have "digit_loop m p st = digit_loop m (Suc p) (st\<lparr>ds_seen_point := True\<rparr>)"
      using c by (subst digit_loop.simps) (simp add: word_le_nat_alt)
    then show ?thesis using Cons.prems(2,4) 
      by (intro next_step [of "st\<lparr>ds_seen_point := True\<rparr>" v n]) (auto simp: digits_ok_def)
  next
    case 3
    then have "digit_loop m p st = Some (p + 0, st)"
      using digit_stop(1) [of m p c st] c by (simp add: is_digit_10 word_le_nat_alt)
    then show ?thesis using Cons.prems(2,4)
      by - (rule exI [of _ 0], rule exI [of _ st], rule exI [of _ v], rule exI [of _ n], auto)
  next
    case 4
    then have "digit_loop m p st = Some (p + 0, st)" using digit_stop(2) [of m p c st] c by simp
    then show ?thesis using Cons.prems(2,4)
      by - (rule exI [of _ 0], rule exI [of _ st], rule exI [of _ v], rule exI [of _ n], auto)
  qed
qed

lemma exp_loop_total: "cstr m p s \<Longrightarrow> \<exists>k ev' b'. exp_loop m p ev b = Some (p + k, ev', b') \<and> k \<le> length s"
proof (induction s arbitrary: p ev b)
  case Nil
  then have "exp_loop m p ev b = Some (p + 0, ev, b)" by (subst exp_loop.simps) (simp add: word_le_nat_alt)
  then show ?case by auto
next
  case (Cons c s)
  then have c: "m p = Some c" and s: "cstr m (Suc p) s" by simp_all
  show ?case
  proof (cases "48 \<le> c \<and> c \<le> 57")
    case True
    define ev1 where "ev1 = (if ev < 100000 then ev * 10 + (uint c - 48) else ev)"
    have "exp_loop m p ev b = exp_loop m (Suc p) ev1 True"
      using c True by (subst exp_loop.simps) (simp add: ev1_def)
    moreover obtain k ev' b' where "exp_loop m (Suc p) ev1 True = Some (Suc p + k, ev', b')" "k \<le> length s"
      using Cons.IH [OF s] by blast
    ultimately show ?thesis by (intro exI [of _ "Suc k"]) auto
  next
    case False
    then have "exp_loop m p ev b = Some (p + 0, ev, b)" using c by (subst exp_loop.simps) auto
    then show ?thesis by - (rule exI [of _ 0], auto)
  qed
qed

lemma exp_part_total: "cstr m p s \<Longrightarrow> \<exists>k x'. exp_part m p p x = Some (p + k, x') \<and> k \<le> length s"
proof (cases s)
  case Nil
  assume "cstr m p s"
  then show ?thesis using Nil by (simp add: exp_part_def)
next
  case (Cons c t)
  assume s: "cstr m p s"
  show ?thesis
  proof (cases "c = 101 \<or> c = 69")
    case True
    have t: "cstr m (Suc p) t" and c: "m p = Some c" using s Cons by simp_all
    obtain neg k where sg: "strtox_sign m (Suc p) = Some (neg, Suc p + k)" "k \<le> length t"
      using strtox_sign_total [OF t] by blast
    obtain k2 ev' b' where lp: "exp_loop m (Suc p + k) 0 False = Some (Suc p + k + k2, ev', b')"
      "k2 \<le> length (drop k t)"
      using exp_loop_total [OF cstr_drop [OF t sg(2)]] by blast
    have "exp_part m p p x = Some (if b' then (p + (Suc (k + k2)), x + (if neg then - ev' else ev')) else (p + 0, x))"
      using c True sg(1) lp(1) by (simp add: exp_part_def)
    then show ?thesis using lp(2) sg(2) Cons by (cases b') (auto intro: exI [of _ 0])
  next
    case False
    then have "exp_part m p p x = Some (p + 0, x)" using s Cons by (simp add: exp_part_def)
    then show ?thesis by - (rule exI [of _ 0], auto)
  qed
qed

lemma dec_to_double_total:
  assumes big: "fits big D" and D: "0 < D" "D < 10 ^ n" and n: "n \<le> 548" and X: "- 400 \<le> X" "X \<le> 350"
  shows "dec_to_double neg big X False errno \<noteq> None"
proof -
  have "D * 10 ^ nat X < 10 ^ n * 10 ^ nat X" using D by simp
  also have "\<dots> = 10 ^ (n + nat X)" by (simp only: power_add)
  also have "\<dots> \<le> 10 ^ 899" by (rule power_increasing) (use n X in simp_all)
  finally have "D * 10 ^ nat X < 10 ^ 899" .
  from strtod_value [OF big D(1) this X(1), of neg errno] obtain bits errno'
    where "dec_to_double neg big X False errno = Some (bits, errno')" by blast
  then show ?thesis by simp
qed

lemma strtod_total:
  assumes s: "cstr m p s" and len: "length s \<le> 548"
  shows "\<exists>bits e errno'. strtod m errno p = Some (bits, e, errno') \<and> p \<le> e \<and> e \<le> p + length s"
proof -
  obtain k1 where k1: "k1 \<le> length s" "skip_space m p = Some (p + k1)" using skip_space_total [OF s] by blast
  define s1 where "s1 = drop k1 s"
  have s1: "cstr m (p + k1) s1" unfolding s1_def by (rule cstr_drop [OF s k1(1)])
  obtain neg k2 where k2: "strtox_sign m (p + k1) = Some (neg, p + k1 + k2)" "k2 \<le> length s1"
    using strtox_sign_total [OF s1] by blast
  let ?q = "p + k1 + k2"
  define s2 where "s2 = drop k2 s1"
  have s2: "cstr m ?q s2" unfolding s2_def by (rule cstr_drop [OF s1 k2(2)])
  have l2: "k1 + k2 + length s2 = length s" using k1(1) k2(2) by (simp add: s1_def s2_def)
  obtain b where b: "ci_word m ?q (lit ''inf'') = Some b" "b \<longrightarrow> 3 \<le> length s2"
    using ci_word_total [OF s2, of "lit ''inf''"] by (auto simp del: ci_word.simps)
  obtain b' where b': "ci_word m ?q (lit ''nan'') = Some b'" "b' \<longrightarrow> 3 \<le> length s2"
    using ci_word_total [OF s2, of "lit ''nan''"] by (auto simp del: ci_word.simps)
  obtain k3 st v n where k3: "digit_loop m ?q digit_start = Some (?q + k3, st)" "k3 \<le> length s2"
    and ok: "digits_ok st v n" "n \<le> length s2" "\<not> ds_sticky st"
    using digit_loop_total [OF s2 digit_start_ok] l2 len by (auto simp: digit_start_def)
  obtain k4 X where k4: "exp_part m (?q + k3) (?q + k3) (ds_dec_exp st) = Some (?q + k3 + k4, X)"
      "k4 \<le> length s2 - k3"
    using exp_part_total [OF cstr_drop [OF s2 k3(2)], of "ds_dec_exp st"] by auto
  have zero: "sbn_is_zero (ds_big st) \<longleftrightarrow> v = 0" using ok(1) by (simp add: digits_ok_def sbn_is_zero_ok)
  have "dec_to_double neg (ds_big st) X False errno \<noteq> None" if "v \<noteq> 0" "\<not> X > 350" "\<not> X < - 400"
    using ok(1,2) l2 len that by (intro dec_to_double_total [of _ v n]) (auto simp: digits_ok_def fits_def)
  then obtain r where r: "(if sbn_is_zero (ds_big st) then Some (rt_make_double neg 0 0 errno)
       else if X > 350 then Some (rt_make_double neg (push_bit 52 1) 2000 RT_ERANGE)
       else if X < - 400 then Some (rt_make_double neg 0 0 RT_ERANGE)
       else dec_to_double neg (ds_big st) X (ds_sticky st) errno) = Some r"
    using ok(3) unfolding zero by (cases "v = 0"; cases "X > 350"; cases "X < - 400") auto
  obtain bits errno' where rr: "r = (bits, errno')" by (cases r)
  have "strtod m errno p = Some (if b then (inf_bits neg, ?q + 3, errno)
     else if b' then (0x7FF8000000000000, ?q + 3, errno)
     else if \<not> ds_any st then (0, p, errno) else (bits, ?q + k3 + k4, errno'))"
    unfolding strtod_def using k1(2) k2(1) b(1) b'(1) k3(1) k4(1) r rr
    by (simp del: ci_word.simps lit_Cons)
  then show ?thesis using b(2) b'(2) k4(2) k3(2) l2
    by (cases b; cases b'; cases "ds_any st") auto
qed

lemma strtod_decimal:
  assumes "cstr m p (ws @ sg @ ip @ pt @ fp @ es @ ed @ rest)"
    and "list_all (\<lambda>c. isspace (uint c)) ws" and "sg = [] \<or> sg = [43] \<or> sg = [45]"
    and "dec_text ip pt fp es ed rest" and "length ip + length fp \<le> 780" and "dv ed < 100000"
    and "0 < dv (ip @ fp)" and "dv (ip @ fp) * 10 ^ nat (dec_exponent fp es ed) < 10 ^ 899"
    and "- 400 \<le> dec_exponent fp es ed" and "dec_exponent fp es ed \<le> 350"
  shows "\<exists>y bits errno'. round53 (real (dv (ip @ fp)) * 10 powi dec_exponent fp es ed) y \<and>
    strtod m errno p = Some (bits, p + length (ws @ sg @ ip @ pt @ fp @ es @ ed), errno') \<and>
    (y < 2 powi 1024 \<longrightarrow> 2 powi - 1022 \<le> y \<longrightarrow>
      (2 ^ 63 \<le> unat bits \<longleftrightarrow> sg = [45]) \<and> dbl_exp bits \<noteq> 2047 \<and> dbl_abs bits = y \<and> errno' = errno) \<and>
    (2 powi 1024 \<le> y \<longrightarrow> bits = inf_bits (sg = [45]) \<and> errno' = RT_ERANGE)"
proof -
  obtain big where big: "fits big (dv (ip @ fp))"
    and r: "strtod m errno p = map_option (\<lambda>(bits, errno'). (bits, p + length (ws @ sg @ ip @ pt @ fp @ es @ ed), errno'))
      (dec_to_double (sg = [45]) big (dec_exponent fp es ed) False errno)"
    using strtod_text [OF assms(1-6), of errno] assms(7,9,10) by auto
  obtain y bits errno' where "round53 (real (dv (ip @ fp)) * 10 powi dec_exponent fp es ed) y"
    and d: "dec_to_double (sg = [45]) big (dec_exponent fp es ed) False errno = Some (bits, errno')"
    and "y < 2 powi 1024 \<longrightarrow> 2 powi - 1022 \<le> y \<longrightarrow>
      (2 ^ 63 \<le> unat bits \<longleftrightarrow> sg = [45]) \<and> dbl_exp bits \<noteq> 2047 \<and> dbl_abs bits = y \<and> errno' = errno"
    and "2 powi 1024 \<le> y \<longrightarrow> bits = inf_bits (sg = [45]) \<and> errno' = RT_ERANGE"
    using strtod_value [OF big assms(7,8,9), of "sg = [45]" errno] by blast
  moreover have "strtod m errno p = Some (bits, p + length (ws @ sg @ ip @ pt @ fp @ es @ ed), errno')"
    unfolding r d by simp
  ultimately show ?thesis by blast
qed

section \<open>Properties\<close>

text \<open>
  C3. \<open>strtod\<close> on a decimal number, between white space and whatever follows: it reads just
  the number and returns its value rounded to 53 bits, half to even, with the sign; when the
  rounded value passes the largest double the result is infinite and \<open>errno\<close> is
  \<open>ERANGE\<close>. For up to 780 digits and a value below \<open>10\<^sup>8\<^sup>9\<^sup>9\<close>; of a value below the normal
  range it says only that a result comes back.
\<close>

theorem strtod_correct:
  assumes "cstr m p (ws @ sg @ ip @ pt @ fp @ es @ ed @ rest)"
    and "list_all (\<lambda>c. isspace (uint c)) ws" and "sg = [] \<or> sg = [43] \<or> sg = [45]"
    and "dec_text ip pt fp es ed rest" and "length ip + length fp \<le> 780" and "dv ed < 100000"
    and "0 < dv (ip @ fp)" and "dv (ip @ fp) * 10 ^ nat (dec_exponent fp es ed) < 10 ^ 899"
    and "- 400 \<le> dec_exponent fp es ed" and "dec_exponent fp es ed \<le> 350"
  shows "\<exists>y bits errno'. round53 (real (dv (ip @ fp)) * 10 powi dec_exponent fp es ed) y \<and>
    strtod m errno p = Some (bits, p + length (ws @ sg @ ip @ pt @ fp @ es @ ed), errno') \<and>
    (y < 2 powi 1024 \<longrightarrow> 2 powi - 1022 \<le> y \<longrightarrow>
      (2 ^ 63 \<le> unat bits \<longleftrightarrow> sg = [45]) \<and> dbl_exp bits \<noteq> 2047 \<and> dbl_abs bits = y \<and> errno' = errno) \<and>
    (2 powi 1024 \<le> y \<longrightarrow> bits = inf_bits (sg = [45]) \<and> errno' = RT_ERANGE)"
  using assms by (rule strtod_decimal)

lemma strtod_correct_witness:
  "\<exists>y bits errno'. round53 (real (dv ([49] @ [53])) * 10 powi dec_exponent [53] [101] [50]) y \<and>
    strtod (mem_of 10 [32, 45, 49, 46, 53, 101, 50, 0]) 0 10 =
      Some (bits, 10 + length [32 :: u8, 45, 49, 46, 53, 101, 50], errno') \<and>
    (y < 2 powi 1024 \<longrightarrow> 2 powi - 1022 \<le> y \<longrightarrow>
      (2 ^ 63 \<le> unat bits \<longleftrightarrow> [45 :: u8] = [45]) \<and> dbl_exp bits \<noteq> 2047 \<and> dbl_abs bits = y \<and> errno' = 0) \<and>
    (2 powi 1024 \<le> y \<longrightarrow> bits = inf_bits ([45 :: u8] = [45]) \<and> errno' = RT_ERANGE)"
proof -
  have D: "dv ([49] @ [53]) = 15" and X: "dec_exponent [53] [101] [50] = 1"
    by (simp_all add: digits_val_def digit_nat_def digit_of_def dec_exponent_def)
  have lim: "dv ([49] @ [53]) * 10 ^ nat (dec_exponent [53] [101] [50]) < 10 ^ 899"
    unfolding D X by (rule below_899 [of _ 3]) simp_all
  have pos: "0 < dv ([49] @ [53])" unfolding D by simp
  have t: "dec_text [49] [46] [53] [101] [50] []"
    by (simp add: dec_text_def is_digit_10 word_le_nat_alt)
  have cs: "cstr (mem_of 10 [32 :: u8, 45, 49, 46, 53, 101, 50, 0]) 10
      ([32] @ [45] @ [49] @ [46] @ [53] @ [101] @ [50] @ [])"
    by (simp add: mem_of_def put_bytes_Cons)
  have ws: "list_all (\<lambda>c. isspace (uint c)) [32 :: u8]" and v: "dv [50] < 100000"
    by (simp_all add: isspace_def digits_val_def digit_nat_def digit_of_def)
  have X': "- 400 \<le> dec_exponent [53] [101] [50]" "dec_exponent [53] [101] [50] \<le> 350"
    unfolding X by simp_all
  have sg: "[45] = [] \<or> [45] = [43] \<or> [45] = [45 :: u8]" and len: "length [49 :: u8] + length [53 :: u8] \<le> 780"
    by simp_all
  from strtod_correct [OF cs ws sg t len v pos lim X', of 0] show ?thesis
    by (simp only: append_Cons append_Nil)
qed

text \<open>
  C36. \<open>strtod\<close> returns on every string of at most 548 characters, whatever they are, and
  \<open>*end\<close> lies inside the string.
\<close>

theorem strtod_returns:
  assumes "cstr m p s" and "length s \<le> 548"
  shows "\<exists>bits e errno'. strtod m errno p = Some (bits, e, errno') \<and> p \<le> e \<and> e \<le> p + length s"
  using assms by (rule strtod_total)

lemma strtod_returns_witness:
  "\<exists>bits e errno'. strtod (mem_of 10 [46, 101, 0]) 0 10 = Some (bits, e, errno') \<and> 10 \<le> e \<and>
    e \<le> 10 + length [46 :: u8, 101]"
  by (rule strtod_returns) (simp_all add: mem_of_def put_bytes_Cons)

text \<open>
  C37. \<open>strtod\<close> does not return on 700 nines followed by \<open>e200\<close>, a number far past the
  largest double: the array of the bignum is full, and the loop that looks for a power of two
  above the value never finds one.
\<close>

theorem strtod_hangs:
  assumes s: "cstr m p (replicate 700 57 @ lit ''e200'')"
  shows "strtod m errno p = None"
proof -
  define D where "D = dv (replicate 700 57)"
  have t: "dec_text (replicate 700 57) [] [] [101] [50, 48, 48] []"
    by (simp add: dec_text_def is_digit_10 word_le_nat_alt list_all_iff)
  have v: "dv [50, 48, 48] = 200" by (simp add: digits_val_def digit_nat_def digit_of_def)
  have D: "D + 1 = 10 ^ 700" unfolding D_def by (rule dv_nines)
  have "D \<noteq> 0"
  proof
    assume "D = 0"
    with D have "10 ^ 0 = (10::nat) ^ 700" by (simp only: power_0 add_0)
    then show False by (subst (asm) power_inject_exp) simp_all
  qed
  have "cstr m p ([] @ [] @ replicate 700 57 @ [] @ [] @ [101] @ [50, 48, 48] @ [])"
    using s by simp
  from strtod_text [OF this _ _ t] v obtain big where big: "fits big D"
    and r: "strtod m errno p = map_option (\<lambda>(bits, errno). (bits, p + length (replicate 700 57 @ [101, 50, 48, 48 :: u8]), errno))
      (dec_to_double False big 200 False errno)"
    using \<open>D \<noteq> 0\<close> unfolding D_def by (auto simp: dec_exponent_def)
  show ?thesis unfolding r dec_to_double_stuck [OF big D] by simp
qed

lemma strtod_hangs_witness:
  "strtod (mem_of 10 ((replicate 700 57 @ lit ''e200'') @ [0])) 0 10 = None"
  by (rule strtod_hangs, rule cstr_mem_of) simp

text \<open>
  A number with more than 400 digits after its point is read as zero with \<open>ERANGE\<close>,
  whatever its value: the exponent is tested before the digits are counted in. Here 1, written
  with 401 zeros.
\<close>

theorem strtod_long_fraction:
  assumes s: "cstr m p (lit ''1.'' @ replicate 401 48)"
  shows "strtod m errno p = Some (0, p + 403, RT_ERANGE)"
proof -
  have t: "dec_text [49] [46] (replicate 401 48) [] [] []"
    by (simp add: dec_text_def is_digit_10 word_le_nat_alt list_all_iff)
  have "dv ([49] @ replicate 401 48) \<noteq> 0"
    by (simp add: dv_eq_0 is_digit_10 word_le_nat_alt)
  moreover have "cstr m p ([] @ [] @ [49] @ [46] @ replicate 401 48 @ [] @ [] @ [])"
    using s by simp
  moreover have "rt_make_double False 0 0 RT_ERANGE = (0, RT_ERANGE)" by (simp add: rt_make_double_def)
  ultimately show ?thesis using strtod_text [OF _ _ _ t, of m p "[]" "[]" errno]
    by (auto simp: dec_exponent_def)
qed

lemma strtod_long_fraction_witness:
  "strtod (mem_of 10 ((lit ''1.'' @ replicate 401 48) @ [0])) 0 10 = Some (0, 10 + 403, RT_ERANGE)"
  by (rule strtod_long_fraction, rule cstr_mem_of) simp

text \<open>
  A value in the denormal range is rounded twice, first to 53 bits and then to the bits that
  are left: \<open>2.4703282292062327209e-324\<close> lies above the middle between 0 and the smallest
  denormal, which is the nearest double, and is read as 0.
\<close>

theorem strtod_double_rounding:
  assumes s: "cstr m p (lit ''2.4703282292062327209e-324'')"
  shows "strtod m errno p = Some (0, p + 26, errno) \<and>
    2 powi - 1075 < 24703282292062327209 * (10::real) powi - 343"
proof -
  let ?D = "24703282292062327209 :: nat"
  define fp :: "u8 list" where
    "fp = [52, 55, 48, 51, 50, 56, 50, 50, 57, 50, 48, 54, 50, 51, 50, 55, 50, 48, 57]"
  have len: "length fp = 19" by (simp add: fp_def)
  have t: "dec_text [50] [46] fp [101, 45] [51, 50, 52] []"
    by (simp add: dec_text_def is_digit_10 word_le_nat_alt fp_def)
  have D: "dv ([50] @ fp) = ?D" and v: "dv [51, 50, 52] = 324"
    by (simp_all add: digits_val_def digit_nat_def digit_of_def fp_def)
  have X: "dec_exponent fp [101, 45] [51, 50, 52] = - 343" unfolding dec_exponent_def v len by simp
  have s': "cstr m p ([] @ [] @ [50] @ [46] @ fp @ [101, 45] @ [51, 50, 52] @ [])"
    using s by (simp add: fp_def)
  have e26: "p + length ([] @ [] @ [50] @ [46] @ fp @ [101, 45] @ [51, 50, 52] :: u8 list) = p + 26"
    by (simp add: len)
  obtain big where big: "fits big ?D"
    and r: "strtod m errno p = map_option (\<lambda>(bits, errno). (bits, p + 26, errno)) (dec_to_double False big (- 343) False errno)"
    using strtod_text [OF s' _ _ t, of errno] v len unfolding D X e26 by auto
  have lim: "?D * 10 ^ nat (- 343) < 10 ^ 899" by (rule below_899 [of _ 20]) simp_all
  have d0: "0 < ?D" and x400: "- 400 \<le> (- 343 :: int)" by simp_all
  define x where "x = real ?D * 10 powi - 343"
  obtain e N where e: "2 ^ 52 \<le> x / 2 powi e" "x / 2 powi e < 2 ^ 53" "rounds_even (x / 2 powi e) N"
    and d: "dec_to_double False big (- 343) False errno = Some (put_double False N e errno)"
    using strtod_round [OF big d0 lim x400, of False errno] unfolding x_def by blast
  define z where "z = x / 2 powi - 1127"
  have xq: "z = real (?D * 2 ^ 1127) / real (10 ^ 343)"
    unfolding z_def x_def by (simp only: power_int_minus power_int_numeral of_nat_mult of_nat_power of_nat_numeral)
      (simp only: divide_inverse inverse_inverse_eq mult.assoc mult.commute [of "2 ^ 1127"])
  have lo: "2 ^ 52 * 10 ^ 343 < ?D * 2 ^ 1127" and hi: "4 * (?D * 2 ^ 1127) < (4 * 2 ^ 52 + 1) * 10 ^ 343"
    by simp_all
  have pos: "0 < real (10 ^ 343)" by (simp only: of_nat_0_less_iff zero_less_power zero_less_numeral)
  have "real (2 ^ 52) * real (10 ^ 343) < real (?D * 2 ^ 1127)"
    using lo by (simp only: of_nat_mult [symmetric] of_nat_less_iff)
  then have lo': "2 ^ 52 < z"
    unfolding xq using pos by (simp only: less_divide_eq of_nat_power of_nat_numeral) simp
  have "real (4 * (?D * 2 ^ 1127)) < real ((4 * 2 ^ 52 + 1) * 10 ^ 343)"
    using hi by (simp only: of_nat_less_iff)
  then have "4 * real (?D * 2 ^ 1127) < (4 * 2 ^ 52 + 1) * real (10 ^ 343)"
    by (simp only: of_nat_mult of_nat_add of_nat_power of_nat_numeral of_nat_1)
  then have hi': "4 * z < 4 * 2 ^ 52 + 1"
    unfolding xq using pos by (simp only: times_divide_eq_right divide_less_eq) simp
  have z: "2 ^ 52 \<le> z" "z < 2 ^ 53" using lo' hi' by simp_all
  have e1127: "e = - 1127" using scale_unique [OF e(1,2) z [unfolded z_def]] .
  have "rounds_even z N" using e(3) unfolding e1127 z_def .
  then have "N = 2 ^ 52" using rounds_even_near [of z N] lo' hi' by simp
  moreover have "put_double False (2 ^ 52) (- 1127) errno = (0, errno)"
    by (simp add: put_double_def rt_make_double_def)
  ultimately have "strtod m errno p = Some (0, p + 26, errno)" using r d unfolding e1127 by simp
  moreover have "2 powi - 1075 < x"
  proof -
    have "(2::real) powi - 1075 = 2 ^ 52 * 2 powi - 1127"
      using power_int_add [of "2::real" 52 "- 1127"] by simp
    also have "\<dots> < z * 2 powi - 1127"
      using lo' by (intro mult_strict_right_mono zero_less_power_int) simp_all
    also have "\<dots> = x" unfolding z_def by (rule nonzero_eq_divide_eq [THEN iffD1, OF _ refl]) simp
    finally show ?thesis .
  qed
  ultimately show ?thesis unfolding x_def of_nat_numeral by blast
qed

lemma strtod_double_rounding_witness:
  "strtod (mem_of 10 (lit ''2.4703282292062327209e-324'' @ [0])) 0 10 = Some (0, 10 + 26, 0) \<and>
   2 powi - 1075 < 24703282292062327209 * (10::real) powi - 343"
  by (rule strtod_double_rounding, rule cstr_mem_of) simp

end
