(* ===== verification/Strtof.thy ===== *)
theory Strtof
  imports StrtodSpec
begin

text \<open>
  \<open>strtof\<close> of \<open>rt/rt_scan.c\<close>: \<open>strtod\<close> and the conversion of its result to \<open>float\<close>.
  A float is its 32 bits, as a double is its 64.
\<close>

section \<open>The conversion\<close>

text \<open>
  The C conversion to \<open>float\<close>, to nearest and ties to even: a finite double is \<open>m * 2\<^sup>e\<close>,
  and \<open>2\<^sup>f\<close> is the unit in the last place of a float of its size.
\<close>

definition double_to_float :: "u64 \<Rightarrow> u32" where
  "double_to_float d =
     (let be = unat d div 2 ^ 52 mod 2 ^ 11;
          frac = unat d mod 2 ^ 52;
          bits = (if be = 2047 then (if frac = 0 then 0x7F800000 else 0x7FC00000 OR of_nat (frac div 2 ^ 29))
                  else let m = (if be = 0 then frac else 2 ^ 52 + frac);
                           e = (if be = 0 then - 1074 else int be - 1075);
                           f = max (- 149) (e + 29);
                           n = nat (f + 149) * 2 ^ 23 + rhe_div m (2 ^ nat (f - e))
                       in if n \<ge> 0x7F800000 then 0x7F800000 else of_nat n)
      in if unat d \<ge> 2 ^ 63 then bits OR push_bit 31 1 else bits)"

definition strtof :: "mem \<Rightarrow> int \<Rightarrow> nat \<Rightarrow> (u32 \<times> nat \<times> int) option" where
  "strtof m errno s =
     do { (v, e, errno) \<leftarrow> strtod m errno s; Some (double_to_float v, e, errno) }"

section \<open>The value of a float\<close>

definition flt_exp :: "u32 \<Rightarrow> nat" where
  "flt_exp bits = unat bits div 2 ^ 23 mod 2 ^ 8"

definition flt_abs :: "u32 \<Rightarrow> real" where
  "flt_abs bits =
     (let f = real (unat bits mod 2 ^ 23) / 2 ^ 23 in
      if flt_exp bits = 0 then f * 2 powi - 126
      else (1 + f) * 2 powi (int (flt_exp bits) - 127))"

text \<open>\<open>z\<close> is \<open>x\<close> rounded half to even to a multiple of the unit of a float of its size.\<close>

definition round24 :: "real \<Rightarrow> real \<Rightarrow> bool" where
  "round24 x z \<longleftrightarrow> (\<exists>f N. - 149 \<le> f \<and> x < 2 powi (f + 24) \<and> (f = - 149 \<or> 2 powi (f + 23) \<le> x) \<and>
     rounds_even (x / 2 powi f) N \<and> z = real N * 2 powi f)"

lemma put_sign32:
  assumes "unat bits < 2 ^ 31"
  shows "unat (if neg then bits OR push_bit 31 1 else bits :: u32) = unat bits + (if neg then 2 ^ 31 else 0)"
proof -
  define k :: nat where "k = 31"
  have b: "unat bits < 2 ^ k" and p: "push_bit 31 1 = (push_bit k 1 :: u32)" using assms by (simp_all add: k_def)
  have tb: "take_bit k bits = bits"
    using b by (simp add: word_unat_eq_iff unsigned_take_bit_eq take_bit_nat_eq_self)
  have "push_bit k 1 AND bits = 0"
  proof (rule bit_word_eqI)
    fix i
    have "bit bits i \<Longrightarrow> i < k" using tb by (metis bit_take_bit_iff)
    then show "bit (push_bit k 1 AND bits) i \<longleftrightarrow> bit 0 i" by (auto simp: bit_and_iff bit_exp_iff)
  qed
  then have "push_bit k 1 OR bits = push_bit k 1 + bits" by (simp only: disjunctive_add_eq_or)
  then have "bits OR push_bit 31 1 = bits + push_bit 31 1" unfolding p by (simp only: ac_simps)
  moreover have "unat (bits + push_bit 31 1) = unat bits + 2 ^ 31"
    using assms by (subst unat_add_small) simp_all
  ultimately show ?thesis by simp
qed

lemma quotient_unique:
  fixes c :: nat
  assumes "a * c + r = b * c + s" "r < c" "s < c"
  shows "b = a \<and> s = r"
proof -
  have "(a * c + r) div c = (b * c + s) div c" "(a * c + r) mod c = (b * c + s) mod c"
    using assms(1) by simp_all
  then show ?thesis using assms(2,3) by simp
qed

lemma flt_split: "unat b mod 2 ^ 31 = e * 2 ^ 23 + r \<Longrightarrow> r < 2 ^ 23 \<Longrightarrow> flt_exp b = e \<and> unat b mod 2 ^ 23 = r"
  for b :: u32
proof -
  assume b: "unat b mod 2 ^ 31 = e * 2 ^ 23 + r" and r: "r < 2 ^ 23"
  have "unat b mod (2 ^ 23 * 2 ^ 8) = 2 ^ 23 * (unat b div 2 ^ 23 mod 2 ^ 8) + unat b mod 2 ^ 23"
    by (rule mod_mult2_eq)
  then have "e * 2 ^ 23 + r = flt_exp b * 2 ^ 23 + unat b mod 2 ^ 23"
    using b by (simp add: flt_exp_def)
  moreover have "unat b mod 2 ^ 23 < 2 ^ 23" by simp
  ultimately show ?thesis using r quotient_unique [of e "2 ^ 23" r] by blast
qed

lemma powi_plus_nat: "(2::real) powi (numeral k + f) = 2 ^ numeral k * 2 powi f"
  by (simp add: power_int_add)

lemma flt_fields:
  assumes Q: "Q \<le> 2 ^ 24" and f: "- 149 \<le> f" "f \<noteq> - 149 \<Longrightarrow> 2 ^ 23 \<le> Q"
    and n: "n = nat (f + 149) * 2 ^ 23 + Q" "n < 0x7F800000" and b: "unat b mod 2 ^ 31 = n"
  shows "flt_exp b \<noteq> 255 \<and> flt_abs b = real Q * 2 powi f"
proof -
  define E where "E = nat (f + 149)"
  have fE: "f = int E - 149" using f(1) by (simp add: E_def)
  have b: "unat b mod 2 ^ 31 = E * 2 ^ 23 + Q" using b n by (simp add: E_def)
  consider "Q < 2 ^ 23" | "2 ^ 23 \<le> Q" "Q < 2 ^ 24" | "Q = 2 ^ 24" using Q by linarith
  then show ?thesis
  proof cases
    case 1
    then have "f = - 149" using f(2) by (metis not_le)
    then have "E = 0" by (simp add: E_def)
    then have "flt_exp b = 0 \<and> unat b mod 2 ^ 23 = Q" using b 1 by (intro flt_split) simp_all
    moreover have "(2::real) powi - 126 = 2 ^ 23 * 2 powi - 149" by (simp add: power_int_minus field_simps)
    ultimately show ?thesis using \<open>f = - 149\<close> by (simp add: flt_abs_def)
  next
    case 2
    then have "flt_exp b = E + 1 \<and> unat b mod 2 ^ 23 = Q - 2 ^ 23"
      using b by (intro flt_split) simp_all
    moreover have "E + 1 < 255" using n 2 by (simp add: E_def)
    moreover have "int (E + 1) - 127 = 23 + f" by (simp add: fE)
    then have "(2::real) powi (int (E + 1) - 127) = 2 ^ 23 * 2 powi f" by (simp only: powi_plus_nat)
    moreover have "real (Q - 2 ^ 23) = real Q - 2 ^ 23" using 2 by (simp add: of_nat_diff)
    ultimately show ?thesis by (simp add: flt_abs_def field_simps)
  next
    case 3
    then have "flt_exp b = E + 2 \<and> unat b mod 2 ^ 23 = 0"
      using b by (intro flt_split) simp_all
    moreover have "E + 2 < 255" using n 3 by (simp add: E_def)
    moreover have "int (E + 2) - 127 = 24 + f" by (simp add: fE)
    then have "(2::real) powi (int (E + 2) - 127) = 2 ^ 24 * 2 powi f" by (simp only: powi_plus_nat)
    ultimately show ?thesis using 3 by (simp add: flt_abs_def field_simps)
  qed
qed

lemma rounds_up_to:
  assumes "0 < c" "a \<le> B * c" shows "rhe_div a c \<le> B"
proof (cases "a = B * c")
  case True
  then show ?thesis using assms(1) by (simp add: rhe_div_def)
next
  case False
  then have "a div c < B" using assms by (simp add: div_less_iff_less_mult)
  then show ?thesis using rhe_div_bounds [OF assms(1), of a] by simp
qed

lemma rounds_down_to:
  assumes "0 < c" "B * c \<le> a" shows "B \<le> rhe_div a c"
  using rhe_div_bounds [OF assms(1), of a] assms by (meson div_le_mono le_trans less_eq_div_iff_mult_less_eq)

text \<open>The mantissa, exponent and unit of a finite double.\<close>

lemma dbl_value:
  assumes "dbl_exp d \<noteq> 2047"
  obtains m e where "dbl_abs d = real m * 2 powi e" "m < 2 ^ 53" "dbl_exp d = 0 \<or> 2 ^ 52 \<le> m"
    "m = (if dbl_exp d = 0 then unat d mod 2 ^ 52 else 2 ^ 52 + unat d mod 2 ^ 52)"
    "e = (if dbl_exp d = 0 then - 1074 else int (dbl_exp d) - 1075)" "e < 972"
proof -
  define F where "F = unat d mod 2 ^ 52"
  have F: "F < 2 ^ 52" by (simp add: F_def)
  have "dbl_exp d < 2 ^ 11" by (simp add: dbl_exp_def)
  then have ex: "dbl_exp d < 2047" using assms by simp
  show ?thesis
  proof (cases "dbl_exp d = 0")
    case True
    have "dbl_abs d = real F * 2 powi - 1074"
      unfolding dbl_abs_def Let_def F_def [symmetric] using True powi_plus_nat [of "num.Bit0 num.One" 0]
      by simp
    then show ?thesis using that [of F "- 1074"] True F by (simp add: F_def)
  next
    case False
    have "int (dbl_exp d) - 1023 = 52 + (int (dbl_exp d) - 1075)" by simp
    then have "(2::real) powi (int (dbl_exp d) - 1023) = 2 ^ 52 * 2 powi (int (dbl_exp d) - 1075)"
      by (simp only: powi_plus_nat)
    then have "dbl_abs d = real (2 ^ 52 + F) * 2 powi (int (dbl_exp d) - 1075)"
      using False unfolding dbl_abs_def Let_def F_def [symmetric] by (simp add: field_simps)
    then show ?thesis using that [of "2 ^ 52 + F" "int (dbl_exp d) - 1075"] False F ex by (simp add: F_def)
  qed
qed

lemma rounds_powi:
  assumes "e \<le> f"
  shows "rounds_even (real m * 2 powi e / 2 powi f) (rhe_div m (2 ^ nat (f - e)))"
proof -
  have "f = int (nat (f - e)) + e" using assms by simp
  then have "(2::real) powi f = 2 ^ nat (f - e) * 2 powi e"
    by (metis power_int_add power_int_of_nat zero_neq_numeral)
  then have "real m * 2 powi e / 2 powi f = real m / real (2 ^ nat (f - e))"
    by (simp add: field_simps)
  then show ?thesis using rhe_div_even [of "2 ^ nat (f - e)" m] by simp
qed

lemma float_limit:
  assumes Q: "Q \<le> 2 ^ 24" and f: "- 149 \<le> f" "f \<noteq> - 149 \<Longrightarrow> 2 ^ 23 \<le> Q"
  shows "nat (f + 149) * 2 ^ 23 + Q < 0x7F800000 \<longleftrightarrow> real Q * 2 powi f < 2 powi 128"
proof -
  consider "f \<le> 103" | "f = 104" | "105 \<le> f" by linarith
  then show ?thesis
  proof cases
    case 1
    then have "nat (f + 149) \<le> 252" by simp
    then have "nat (f + 149) * 2 ^ 23 + Q \<le> 252 * 2 ^ 23 + 2 ^ 24" using Q by (intro add_mono mult_le_mono1)
    also have "\<dots> < 0x7F800000" by simp
    finally have "nat (f + 149) * 2 ^ 23 + Q < 0x7F800000" .
    moreover have "real Q * 2 powi f \<le> 2 ^ 24 * 2 powi 103"
      using Q 1 powi_mono2 [of f 103] by (intro mult_mono) simp_all
    moreover have "(2::real) ^ 24 * 2 powi 103 < 2 powi 128" by simp
    ultimately have "real Q * 2 powi f < 2 powi 128" "nat (f + 149) * 2 ^ 23 + Q < 0x7F800000"
      by linarith+
    then show ?thesis by blast
  next
    case 2
    have "real Q * 2 powi 104 < 2 powi 128 \<longleftrightarrow> real Q < 2 ^ 24" by simp
    also have "\<dots> \<longleftrightarrow> Q < 2 ^ 24" by simp
    finally show ?thesis using 2 by simp
  next
    case 3
    then have "254 \<le> nat (f + 149)" and Q1: "2 ^ 23 \<le> Q" using f by simp_all
    then have "254 * 2 ^ 23 + 2 ^ 23 \<le> nat (f + 149) * 2 ^ 23 + Q" by (intro add_mono mult_le_mono1)
    moreover have "0x7F800000 \<le> (254 * 2 ^ 23 + 2 ^ 23 :: nat)" by simp
    ultimately have "\<not> nat (f + 149) * 2 ^ 23 + Q < 0x7F800000" by (meson le_trans not_less)
    moreover have "(2::real) ^ 23 * 2 powi 105 \<le> real Q * 2 powi f"
      using 3 Q1 powi_mono2 [of 105 f] by (intro mult_mono) simp_all
    moreover have "(2::real) ^ 23 * 2 powi 105 = 2 powi 128" by simp
    ultimately have "\<not> real Q * 2 powi f < 2 powi 128" by linarith
    then show ?thesis using \<open>\<not> nat (f + 149) * 2 ^ 23 + Q < 0x7F800000\<close> by blast
  qed
qed

lemma double_to_float_rounds:
  assumes "dbl_exp d \<noteq> 2047"
  shows "\<exists>z. round24 (dbl_abs d) z \<and> (2 ^ 31 \<le> unat (double_to_float d) \<longleftrightarrow> 2 ^ 63 \<le> unat d) \<and>
    (if z < 2 powi 128 then flt_exp (double_to_float d) \<noteq> 255 \<and> flt_abs (double_to_float d) = z
     else unat (double_to_float d) mod 2 ^ 31 = 0x7F800000)"
proof -
  obtain m e where x: "dbl_abs d = real m * 2 powi e" and m: "m < 2 ^ 53" "dbl_exp d = 0 \<or> 2 ^ 52 \<le> m"
    and m_def: "m = (if dbl_exp d = 0 then unat d mod 2 ^ 52 else 2 ^ 52 + unat d mod 2 ^ 52)"
    and e_def: "e = (if dbl_exp d = 0 then - 1074 else int (dbl_exp d) - 1075)"
    using dbl_value [OF assms] by metis
  define f where "f = max (- 149) (e + 29)"
  define Q where "Q = rhe_div m (2 ^ nat (f - e))"
  define n where "n = nat (f + 149) * 2 ^ 23 + Q"
  have f: "- 149 \<le> f" "e + 29 \<le> f" "e \<le> f" by (simp_all add: f_def)
  have sub: "dbl_exp d = 0 \<Longrightarrow> f = - 149" by (simp add: f_def e_def)
  have big: "f \<noteq> - 149 \<Longrightarrow> f = e + 29 \<and> 2 ^ 52 \<le> m" using sub m(2) by (auto simp: f_def max_def split: if_splits)
  have Q: "Q \<le> 2 ^ 24"
  proof -
    have "(2::nat) ^ 29 \<le> 2 ^ nat (f - e)" using f by (intro power_increasing) simp_all
    then have "(2::nat) ^ 24 * 2 ^ 29 \<le> 2 ^ 24 * 2 ^ nat (f - e)" by (rule mult_le_mono2)
    then show ?thesis unfolding Q_def using m(1) by (intro rounds_up_to) simp_all
  qed
  have Q23: "2 ^ 23 \<le> Q" if "f \<noteq> - 149"
    unfolding Q_def using big [OF that] by (intro rounds_down_to) simp_all
  have "round24 (dbl_abs d) (real Q * 2 powi f)"
    unfolding round24_def
  proof (intro exI conjI)
    have "dbl_abs d < 2 ^ 53 * 2 powi e" unfolding x using m(1) by (intro mult_strict_right_mono) simp_all
    also have "\<dots> \<le> 2 ^ 53 * 2 powi (f - 29)" using f powi_mono2 [of e "f - 29"] by simp
    also have "\<dots> = 2 powi (f + 24)" using powi_plus_nat [of "num.Bit1 (num.Bit0 (num.Bit1 (num.Bit0 (num.Bit1 num.One))))" "f - 29"] by (simp add: ac_simps)
    finally show "dbl_abs d < 2 powi (f + 24)" .
    show "f = - 149 \<or> 2 powi (f + 23) \<le> dbl_abs d"
    proof (cases "f = - 149")
      case False
      then have "(2::real) powi (f + 23) = 2 powi (52 + e)" using big by simp
      also have "\<dots> = 2 ^ 52 * 2 powi e" by (rule powi_plus_nat)
      also have "\<dots> \<le> dbl_abs d" unfolding x using big [OF False] by (intro mult_right_mono) simp_all
      finally show ?thesis ..
    qed simp
    show "rounds_even (dbl_abs d / 2 powi f) Q" unfolding x Q_def by (rule rounds_powi [OF f(3)])
  qed (use f in simp_all)
  moreover define w :: u32 where "w = (if n \<ge> 0x7F800000 then 0x7F800000 else of_nat n)"
  have w: "unat w = min n 0x7F800000" by (simp add: w_def unat_of_nat_small)
  have r: "double_to_float d = (if 2 ^ 63 \<le> unat d then w OR push_bit 31 1 else w)"
    unfolding double_to_float_def Let_def dbl_exp_def [symmetric] m_def [symmetric] e_def [symmetric]
      f_def [symmetric] Q_def [symmetric] n_def [symmetric]
    using assms by (simp only: w_def if_False)
  have u: "unat (double_to_float d) = min n 0x7F800000 + (if 2 ^ 63 \<le> unat d then 2 ^ 31 else 0)"
    unfolding r by (subst put_sign32) (simp_all add: w)
  moreover have "unat (double_to_float d) mod 2 ^ 31 = min n 0x7F800000" unfolding u by simp
  moreover have "n < 0x7F800000 \<longleftrightarrow> real Q * 2 powi f < 2 powi 128"
    unfolding n_def using Q f(1) Q23 by (rule float_limit)
  ultimately show ?thesis
    using flt_fields [OF Q f(1) Q23 n_def, of "double_to_float d"] by (intro exI [of _ "real Q * 2 powi f"]) auto
qed

text \<open>
  \<open>strtof\<close> on a decimal number: its value rounded to 53 bits and then to 24, half to even
  both times, with the sign. When the second rounding passes the largest float the result is
  infinite and \<open>errno\<close> is left as it was, where C99 7.20.1.3 asks for \<open>ERANGE\<close>.
\<close>

theorem strtof_correct:
  assumes "cstr m p (ws @ sg @ ip @ pt @ fp @ es @ ed @ rest)"
    and "list_all (\<lambda>c. isspace (uint c)) ws" and "sg = [] \<or> sg = [43] \<or> sg = [45]"
    and "dec_text ip pt fp es ed rest" and "length ip + length fp \<le> 780" and "dv ed < 100000"
    and "0 < dv (ip @ fp)" and "dv (ip @ fp) * 10 ^ nat (dec_exponent fp es ed) < 10 ^ 899"
    and "- 400 \<le> dec_exponent fp es ed" and "dec_exponent fp es ed \<le> 350"
  shows "\<exists>y bits errno'. round53 (real (dv (ip @ fp)) * 10 powi dec_exponent fp es ed) y \<and>
    strtof m errno p = Some (bits, p + length (ws @ sg @ ip @ pt @ fp @ es @ ed), errno') \<and>
    (y < 2 powi 1024 \<longrightarrow> 2 powi - 1022 \<le> y \<longrightarrow> errno' = errno \<and> (2 ^ 31 \<le> unat bits \<longleftrightarrow> sg = [45]) \<and>
      (\<exists>z. round24 y z \<and> (if z < 2 powi 128 then flt_exp bits \<noteq> 255 \<and> flt_abs bits = z
                            else unat bits mod 2 ^ 31 = 0x7F800000)))"
proof -
  obtain y d errno' where y: "round53 (real (dv (ip @ fp)) * 10 powi dec_exponent fp es ed) y"
    and r: "strtod m errno p = Some (d, p + length (ws @ sg @ ip @ pt @ fp @ es @ ed), errno')"
    and v: "y < 2 powi 1024 \<longrightarrow> 2 powi - 1022 \<le> y \<longrightarrow>
      (2 ^ 63 \<le> unat d \<longleftrightarrow> sg = [45]) \<and> dbl_exp d \<noteq> 2047 \<and> dbl_abs d = y \<and> errno' = errno"
    using strtod_decimal [OF assms, of errno] by blast
  have "strtof m errno p = Some (double_to_float d, p + length (ws @ sg @ ip @ pt @ fp @ es @ ed), errno')"
    by (simp add: strtof_def r)
  moreover have "y < 2 powi 1024 \<longrightarrow> 2 powi - 1022 \<le> y \<longrightarrow> errno' = errno \<and>
      (2 ^ 31 \<le> unat (double_to_float d) \<longleftrightarrow> sg = [45]) \<and>
      (\<exists>z. round24 y z \<and> (if z < 2 powi 128 then flt_exp (double_to_float d) \<noteq> 255 \<and> flt_abs (double_to_float d) = z
                            else unat (double_to_float d) mod 2 ^ 31 = 0x7F800000))"
    using v double_to_float_rounds [of d] by metis
  ultimately show ?thesis using y by blast
qed

lemma strtof_correct_witness:
  "\<exists>y bits errno'. round53 (real (dv ([49] @ [53])) * 10 powi dec_exponent [53] [101] [50]) y \<and>
    strtof (mem_of 10 [32, 45, 49, 46, 53, 101, 50, 0]) 0 10 =
      Some (bits, 10 + length [32 :: u8, 45, 49, 46, 53, 101, 50], errno') \<and>
    (y < 2 powi 1024 \<longrightarrow> 2 powi - 1022 \<le> y \<longrightarrow> errno' = 0 \<and> (2 ^ 31 \<le> unat bits \<longleftrightarrow> [45 :: u8] = [45]) \<and>
      (\<exists>z. round24 y z \<and> (if z < 2 powi 128 then flt_exp bits \<noteq> 255 \<and> flt_abs bits = z
                            else unat bits mod 2 ^ 31 = 0x7F800000)))"
proof -
  have D: "dv ([49] @ [53]) = 15" and X: "dec_exponent [53] [101] [50] = 1"
    by (simp_all add: digits_val_def digit_nat_def digit_of_def dec_exponent_def)
  have lim: "dv ([49] @ [53]) * 10 ^ nat (dec_exponent [53] [101] [50]) < 10 ^ 899"
    unfolding D X by (rule below_899 [of _ 3]) simp_all
  have pos: "0 < dv ([49] @ [53])" unfolding D by simp
  have t: "dec_text [49] [46] [53] [101] [50] []"
    by (simp add: dec_text_def is_digit_10 word_le_nat_alt)
  have cs: "cstr (mem_of 10 [32 :: u8, 45, 49, 46, 53, 101, 50, 0]) 10
      ([32] @ [45] @ [49] @ [46] @ [53] @ [101] @ [50] @ [])"
    by (simp add: mem_of_def put_bytes_Cons)
  have ws: "list_all (\<lambda>c. isspace (uint c)) [32 :: u8]" and v: "dv [50] < 100000"
    by (simp_all add: isspace_def digits_val_def digit_nat_def digit_of_def)
  have X': "- 400 \<le> dec_exponent [53] [101] [50]" "dec_exponent [53] [101] [50] \<le> 350"
    unfolding X by simp_all
  have sg: "[45] = [] \<or> [45] = [43] \<or> [45] = [45 :: u8]" and len: "length [49 :: u8] + length [53 :: u8] \<le> 780"
    by simp_all
  from strtof_correct [OF cs ws sg t len v pos lim X', of 0] show ?thesis
    by (simp only: append_Cons append_Nil)
qed

end
