(* ===== verification/Scanf.thy ===== *)
theory Scanf
  imports Strtof
begin

text \<open>
  \<open>sscanf\<close> of \<open>rt/rt_scan.c\<close>. The loop over the format works on a state of
  the two cursors, the arguments not yet read, the count and the memory; each directive is
  a definition that returns the next state, to go on with or to stop at (\<open>goto done\<close>).
  \<open>None\<close> is a fault, a missing argument, a width above \<open>INT_MAX\<close> or a loop without end.
\<close>

section \<open>The state of a scan\<close>

record scan =
  sc_mem :: mem
  sc_errno :: int
  sc_s :: nat
  sc_p :: nat
  sc_ap :: "u64 list"
  sc_converted :: int

datatype scan_next = Go_on scan | Done scan

text \<open>The star, the width and the length letters between \<open>%\<close> and the conversion.\<close>

record scan_dir =
  sd_suppress :: bool
  sd_has_width :: bool
  sd_width :: int
  sd_len :: lenmod

partial_function (option) scan_width :: "mem \<Rightarrow> nat \<Rightarrow> int \<Rightarrow> bool \<Rightarrow> (int \<times> bool \<times> nat) option" where
  [code]: "scan_width m p width has_width =
     do { c \<leftarrow> m p;
          if 48 \<le> c \<and> c \<le> 57
          then let width = width * 10 + (uint c - 48)
               in if width < 2 ^ 31 then scan_width m (p + 1) width True else None
          else Some (width, has_width, p) }"

partial_function (option) scan_len :: "mem \<Rightarrow> nat \<Rightarrow> lenmod \<Rightarrow> (lenmod \<times> nat) option" where
  [code]: "scan_len m p l =
     do { c \<leftarrow> m p;
          if c = 108 then scan_len m (p + 1) (l\<lparr>len_l := len_l l + 1\<rparr>)
          else if c = 104 then scan_len m (p + 1) (l\<lparr>len_h := len_h l + 1\<rparr>)
          else if c = 122 \<or> c = 106 then scan_len m (p + 1) (l\<lparr>len_ll := True\<rparr>)
          else Some (if len_l l \<ge> 2 then l\<lparr>len_ll := True\<rparr> else l, p) }"

definition scan_dir_parse :: "mem \<Rightarrow> nat \<Rightarrow> (scan_dir \<times> u8 \<times> nat) option" where
  "scan_dir_parse m p =
     do { c \<leftarrow> m p;
          let (suppress, p) = (if c = 42 then (True, p + 1) else (False, p));
          (width, has_width, p) \<leftarrow> scan_width m p 0 False;
          (l, p) \<leftarrow> scan_len m p \<lparr>len_h = 0, len_l = 0, len_ll = False, len_z = False\<rparr>;
          conv \<leftarrow> m p;
          Some (\<lparr>sd_suppress = suppress, sd_has_width = has_width, sd_width = width, sd_len = l\<rparr>,
                conv, p + 1) }"

text \<open>The \<open>char *\<close> argument of a conversion; a suppressed one reads none and has a null.\<close>

definition out_arg :: "scan_dir \<Rightarrow> u64 list \<Rightarrow> (nat \<times> u64 list) option" where
  "out_arg d ap =
     (if sd_suppress d then Some (0, ap)
      else do { (x, ap) \<leftarrow> va_arg ap; Some (unat x, ap) })"

definition out_put :: "mem \<Rightarrow> nat \<Rightarrow> nat \<Rightarrow> u8 \<Rightarrow> mem option" where
  "out_put m out i c = (if out \<noteq> 0 then st8 m (out + i) c else Some m)"

definition add_converted :: "scan_dir \<Rightarrow> scan \<Rightarrow> scan" where
  "add_converted d st =
     (if sd_suppress d then st else st\<lparr>sc_converted := sc_converted st + 1\<rparr>)"

section \<open>The conversions\<close>

definition scan_n :: "nat \<Rightarrow> scan_dir \<Rightarrow> scan \<Rightarrow> scan_next option" where
  "scan_n input d st =
     (if sd_suppress d then Some (Go_on st)
      else do { (x, ap) \<leftarrow> va_arg (sc_ap st);
                m \<leftarrow> stn (sc_mem st) (unat x)
                      (bytes_of_u64 4 (word_of_int (int (sc_s st) - int input)));
                Some (Go_on (st\<lparr>sc_mem := m, sc_ap := ap\<rparr>)) })"

text \<open>\<open>n\<close> characters are still to be read, \<open>i\<close> have been; the flag is false at the end of the text.\<close>

fun scan_chars :: "nat \<Rightarrow> mem \<Rightarrow> nat \<Rightarrow> nat \<Rightarrow> nat \<Rightarrow> (mem \<times> nat \<times> bool) option" where
  "scan_chars 0 m s out i = Some (m, s, True)"
| "scan_chars (Suc n) m s out i =
     do { c \<leftarrow> m s;
          if c = 0 then Some (m, s, False)
          else do { m \<leftarrow> out_put m out i c; scan_chars n m (s + 1) out (i + 1) } }"

definition scan_c :: "scan_dir \<Rightarrow> scan \<Rightarrow> scan_next option" where
  "scan_c d st =
     do { (out, ap) \<leftarrow> out_arg d (sc_ap st);
          (m, s, full) \<leftarrow> scan_chars (if sd_has_width d then nat (sd_width d) else 1)
                           (sc_mem st) (sc_s st) out 0;
          let st = st\<lparr>sc_mem := m, sc_s := s, sc_ap := ap\<rparr>;
          Some (if full then Go_on (add_converted d st) else Done st) }"

text \<open>The characters \<open>ok\<close> accepts go to \<open>out\<close>, up to the width if there is one.\<close>

partial_function (option) scan_run ::
    "(u8 \<Rightarrow> bool) \<Rightarrow> scan_dir \<Rightarrow> mem \<Rightarrow> nat \<Rightarrow> nat \<Rightarrow> nat \<Rightarrow> (mem \<times> nat \<times> nat) option" where
  [code]: "scan_run ok d m s out i =
     do { c \<leftarrow> m s;
          if c \<noteq> 0 \<and> (\<not> sd_has_width d \<or> int i < sd_width d) \<and> ok c
          then do { m \<leftarrow> out_put m out i c; scan_run ok d m (s + 1) out (i + 1) }
          else Some (m, s, i) }"

definition scan_s :: "scan_dir \<Rightarrow> scan \<Rightarrow> scan_next option" where
  "scan_s d st =
     do { (out, ap) \<leftarrow> out_arg d (sc_ap st);
          s \<leftarrow> skip_space (sc_mem st) (sc_s st);
          c \<leftarrow> sc_mem st s;
          if c = 0 then Some (Done (st\<lparr>sc_s := s, sc_ap := ap\<rparr>))
          else do { (m, s, i) \<leftarrow> scan_run (\<lambda>c. \<not> isspace (uint c)) d (sc_mem st) s out 0;
                    m \<leftarrow> out_put m out i 0;
                    Some (Go_on (add_converted d (st\<lparr>sc_mem := m, sc_s := s, sc_ap := ap\<rparr>))) } }"

text \<open>The array \<open>set\<close> is the predicate of the characters set to 1.\<close>

partial_function (option) scan_set_items ::
    "mem \<Rightarrow> nat \<Rightarrow> (u8 \<Rightarrow> bool) \<Rightarrow> ((u8 \<Rightarrow> bool) \<times> nat) option" where
  [code]: "scan_set_items m p cs =
     do { c \<leftarrow> m p;
          if c \<noteq> 0 \<and> c \<noteq> 93
          then do { c1 \<leftarrow> m (p + 1);
                    if c1 = 45
                    then do { hi \<leftarrow> m (p + 2);
                              if hi \<noteq> 0 \<and> hi \<noteq> 93
                              then scan_set_items m (p + 3) (\<lambda>x. cs x \<or> c \<le> x \<and> x \<le> hi)
                              else scan_set_items m (p + 1) (cs(c := True)) }
                    else scan_set_items m (p + 1) (cs(c := True)) }
          else Some (cs, p) }"

definition scan_set :: "mem \<Rightarrow> nat \<Rightarrow> ((u8 \<Rightarrow> bool) \<times> nat) option" where
  "scan_set m p =
     do { c \<leftarrow> m p;
          let (negate, p) = (if c = 94 then (True, p + 1) else (False, p));
          c \<leftarrow> m p;
          let (cs, p) = (if c = 93 then ((\<lambda>x. False)(93 := True), p + 1) else (\<lambda>x. False, p));
          (cs, p) \<leftarrow> scan_set_items m p cs;
          c \<leftarrow> m p;
          Some (\<lambda>x. if negate then \<not> cs x else cs x, if c = 93 then p + 1 else p) }"

definition scan_bracket :: "scan_dir \<Rightarrow> scan \<Rightarrow> scan_next option" where
  "scan_bracket d st =
     do { (ok, p) \<leftarrow> scan_set (sc_mem st) (sc_p st);
          (out, ap) \<leftarrow> out_arg d (sc_ap st);
          (m, s, i) \<leftarrow> scan_run ok d (sc_mem st) (sc_s st) out 0;
          let st = st\<lparr>sc_mem := m, sc_s := s, sc_p := p, sc_ap := ap\<rparr>;
          if i = 0 then Some (Done st)
          else do { m \<leftarrow> out_put m out i 0; Some (Go_on (add_converted d (st\<lparr>sc_mem := m\<rparr>))) } }"

text \<open>\<open>int\<close> and \<open>long\<close> are four bytes here.\<close>

definition int_bytes :: "lenmod \<Rightarrow> nat" where
  "int_bytes l = (if len_ll l then 8 else if len_h l = 1 then 2 else if len_h l \<ge> 2 then 1 else 4)"

text \<open>A number read from \<open>s\<close> up to \<open>e\<close> is stored as its \<open>n\<close> low bytes \<open>w\<close>.\<close>

definition scan_store :: "scan_dir \<Rightarrow> nat \<Rightarrow> u64 \<Rightarrow> nat \<Rightarrow> scan \<Rightarrow> scan_next option" where
  "scan_store d n w e st =
     (if e = sc_s st then Some (Done st)
      else let st = st\<lparr>sc_s := e\<rparr>
      in if sd_suppress d then Some (Go_on st)
         else do { (x, ap) \<leftarrow> va_arg (sc_ap st);
                   m \<leftarrow> stn (sc_mem st) (unat x) (bytes_of_u64 n w);
                   Some (Go_on (add_converted d (st\<lparr>sc_mem := m, sc_ap := ap\<rparr>))) })"

definition scan_int :: "u8 \<Rightarrow> scan_dir \<Rightarrow> scan \<Rightarrow> scan_next option" where
  "scan_int conv d st =
     (let base = (if conv = 120 then 16 else if conv = 111 then 8
                  else if conv = 100 \<or> conv = 117 then 10 else 0)
      in do { (v, e, errno) \<leftarrow>
                (if conv = 117 \<or> conv = 120 \<or> conv = 111
                 then do { (v, e, errno) \<leftarrow> strtoull (sc_mem st) (sc_errno st) (sc_s st) base;
                           Some (sint v, e, errno) }
                 else strtoll (sc_mem st) (sc_errno st) (sc_s st) base);
              scan_store d (int_bytes (sd_len d)) (word_of_int v) e (st\<lparr>sc_errno := errno\<rparr>) })"

definition scan_float :: "scan_dir \<Rightarrow> scan \<Rightarrow> scan_next option" where
  "scan_float d st =
     do { (v, e, errno) \<leftarrow> strtod (sc_mem st) (sc_errno st) (sc_s st);
          let st = st\<lparr>sc_errno := errno\<rparr>;
          if len_l (sd_len d) \<noteq> 0 \<or> len_ll (sd_len d) then scan_store d 8 v e st
          else scan_store d 4 (ucast (double_to_float v)) e st }"

section \<open>The loop\<close>

definition scan_conv :: "nat \<Rightarrow> u8 \<Rightarrow> scan_dir \<Rightarrow> scan \<Rightarrow> scan_next option" where
  "scan_conv input conv d st =
     (if conv = 110 then scan_n input d st
      else if conv = 99 then scan_c d st
      else if conv = 115 then scan_s d st
      else if conv = 91 then scan_bracket d st
      else do { s \<leftarrow> skip_space (sc_mem st) (sc_s st);
                let st = st\<lparr>sc_s := s\<rparr>;
                if conv \<in> {100, 105, 117, 120, 111} then scan_int conv d st
                else if conv \<in> {102, 101, 103, 97} then scan_float d st
                else if conv = 37
                     then do { c \<leftarrow> sc_mem st s;
                               Some (if c \<noteq> 37 then Done st else Go_on (st\<lparr>sc_s := s + 1\<rparr>)) }
                else Some (Done st) })"

text \<open>One turn of the loop, at a format character \<open>c\<close> that is not the end.\<close>

definition scan_turn :: "nat \<Rightarrow> u8 \<Rightarrow> scan \<Rightarrow> scan_next option" where
  "scan_turn input c st =
     (if isspace (uint c)
      then do { s \<leftarrow> skip_space (sc_mem st) (sc_s st);
                Some (Go_on (st\<lparr>sc_s := s, sc_p := sc_p st + 1\<rparr>)) }
      else if c \<noteq> 37
      then do { b \<leftarrow> sc_mem st (sc_s st);
                Some (if b \<noteq> c then Done st
                      else Go_on (st\<lparr>sc_s := sc_s st + 1, sc_p := sc_p st + 1\<rparr>)) }
      else do { (d, conv, p) \<leftarrow> scan_dir_parse (sc_mem st) (sc_p st + 1);
                scan_conv input conv d (st\<lparr>sc_p := p\<rparr>) })"

partial_function (option) scan_loop :: "nat \<Rightarrow> scan \<Rightarrow> scan option" where
  [code]: "scan_loop input st =
     do { c \<leftarrow> sc_mem st (sc_p st);
          if c = 0 then Some st
          else do { r \<leftarrow> scan_turn input c st;
                    case r of Go_on st \<Rightarrow> scan_loop input st | Done st \<Rightarrow> Some st } }"

definition sscanf :: "mem \<Rightarrow> int \<Rightarrow> nat \<Rightarrow> nat \<Rightarrow> u64 list \<Rightarrow> (mem \<times> int \<times> int) option" where
  "sscanf m errno input fmt ap =
     do { st \<leftarrow> scan_loop input \<lparr>sc_mem = m, sc_errno = errno, sc_s = input, sc_p = fmt,
                 sc_ap = ap, sc_converted = 0\<rparr>;
          Some (sc_mem st, sc_errno st, sc_converted st) }"

end
