(* ===== verification/ScanfSpec.thy ===== *)
theory ScanfSpec
  imports Scanf
begin

text \<open>
  What \<open>sscanf\<close> does with a format and an input, as a relation on the two texts
  (\<open>scans\<close>), and the proof by rule induction that the loop over memory implements it; then
  what holds of every format.
\<close>

section \<open>What a format reads\<close>

abbreviation spaces :: "u8 list \<Rightarrow> bool" where
  "spaces ws \<equiv> list_all (\<lambda>c. isspace (uint c)) ws"

abbreviation no_space :: "u8 list \<Rightarrow> bool" where
  "no_space t \<equiv> first_not (\<lambda>c. isspace (uint c)) t"

definition len_mod :: "u8 list \<Rightarrow> lenmod" where
  "len_mod ls = \<lparr>len_h = length (filter ((=) 104) ls), len_l = length (filter ((=) 108) ls),
     len_ll = (122 \<in> set ls \<or> 106 \<in> set ls \<or> 2 \<le> length (filter ((=) 108) ls)), len_z = False\<rparr>"

definition scan_dir_text :: "u8 list \<Rightarrow> scan_dir \<Rightarrow> u8 \<Rightarrow> bool" where
  "scan_dir_text dt d conv \<longleftrightarrow>
     (\<exists>star ds ls. dt = star @ ds @ ls @ [conv] \<and> (star = [] \<or> star = [42]) \<and> decimals ds \<and>
        dv ds < 2 ^ 31 \<and> set ls \<subseteq> {108, 104, 122, 106} \<and>
        conv \<notin> {42, 108, 104, 122, 106} \<and> \<not> is_digit 10 conv \<and>
        d = \<lparr>sd_suppress = (star = [42]), sd_has_width = (ds \<noteq> []), sd_width = int (dv ds),
             sd_len = len_mod ls\<rparr>)"

text \<open>The members of a scan set, and its text behind the \<open>[\<close>.\<close>

fun set_members :: "u8 list \<Rightarrow> u8 \<Rightarrow> bool" where
  "set_members (a # b # c # cs) x =
     (if b = 45 then a \<le> x \<and> x \<le> c \<or> set_members cs x else x = a \<or> set_members (b # c # cs) x)"
| "set_members cs x = (x \<in> set cs)"

definition set_text :: "u8 list \<Rightarrow> (u8 \<Rightarrow> bool) \<Rightarrow> bool" where
  "set_text st ok \<longleftrightarrow>
     (\<exists>neg cl cs. st = neg @ cl @ cs @ [93] \<and> (neg = [] \<or> neg = [94]) \<and> (cl = [] \<or> cl = [93]) \<and>
        93 \<notin> set cs \<and> (cl = [] \<longrightarrow> cs \<noteq> [] \<and> (neg = [] \<longrightarrow> hd cs \<noteq> 94)) \<and>
        ok = (\<lambda>x. (neg = [94]) \<noteq> (x \<in> set cl \<or> set_members cs x)))"

definition take_run :: "(u8 \<Rightarrow> bool) \<Rightarrow> scan_dir \<Rightarrow> u8 list \<Rightarrow> u8 list" where
  "take_run ok d t = takeWhile ok (if sd_has_width d then take (nat (sd_width d)) t else t)"

text \<open>A conversion takes an argument and stores bytes through it, unless it is suppressed.\<close>

definition stores :: "scan_dir \<Rightarrow> u8 list \<Rightarrow> u64 list \<Rightarrow> (nat \<times> u8 list) list \<Rightarrow> u64 list \<Rightarrow> bool" where
  "stores d bs ap W ap' \<longleftrightarrow>
     (if sd_suppress d then W = [] \<and> ap' = ap else \<exists>x. ap = x # ap' \<and> W = [(unat x, bs)])"

definition sd_hit :: "scan_dir \<Rightarrow> nat" where
  "sd_hit d = (if sd_suppress d then 0 else 1)"

definition char_count :: "scan_dir \<Rightarrow> nat" where
  "char_count d = (if sd_has_width d then nat (sd_width d) else 1)"

definition int_base :: "u8 \<Rightarrow> int" where
  "int_base conv = (if conv = 120 then 16 else if conv = 111 then 8 else if conv = 105 then 0 else 10)"

definition int_word :: "u8 \<Rightarrow> u8 list \<Rightarrow> nat \<Rightarrow> u64" where
  "int_word conv sg n =
     (if conv = 100 \<or> conv = 105 then word_of_int (clamp (- (2 ^ 63)) (2 ^ 63 - 1) (signed_val sg n))
      else if 2 ^ 64 \<le> n then - 1 else word_of_int (signed_val sg n))"

text \<open>
  \<open>scans off f t ap W n\<close>: the format \<open>f\<close> applied to the input \<open>t\<close>, of which \<open>off\<close>
  characters have been read before, stores \<open>W\<close> through the arguments \<open>ap\<close> and converts \<open>n\<close>
  fields. Floating conversions have no rule.
\<close>

inductive scans ::
    "nat \<Rightarrow> u8 list \<Rightarrow> u8 list \<Rightarrow> u64 list \<Rightarrow> (nat \<times> u8 list) list \<Rightarrow> nat \<Rightarrow> bool" where
  sc_end: "scans off [] t ap [] 0"
| sc_space: "isspace (uint c) \<Longrightarrow> spaces ws \<Longrightarrow> no_space t \<Longrightarrow> scans (off + length ws) f t ap W n \<Longrightarrow>
    scans off (c # f) (ws @ t) ap W n"
| sc_char: "\<not> isspace (uint c) \<Longrightarrow> c \<noteq> 37 \<Longrightarrow> scans (off + 1) f t ap W n \<Longrightarrow>
    scans off (c # f) (c # t) ap W n"
| sc_char_stop: "\<not> isspace (uint c) \<Longrightarrow> c \<noteq> 37 \<Longrightarrow> first_not ((=) c) t \<Longrightarrow> scans off (c # f) t ap [] 0"
| sc_pos: "scan_dir_text dt d 110 \<Longrightarrow> stores d (bytes_of_u64 4 (of_nat off)) ap W ap' \<Longrightarrow>
    scans off f t ap' W' n \<Longrightarrow> scans off (37 # dt @ f) t ap (W @ W') n"
| sc_chars: "scan_dir_text dt d 99 \<Longrightarrow> length cs = char_count d \<Longrightarrow> stores d cs ap W ap' \<Longrightarrow>
    scans (off + length cs) f t ap' W' n \<Longrightarrow> scans off (37 # dt @ f) (cs @ t) ap (W @ W') (sd_hit d + n)"
| sc_chars_stop: "scan_dir_text dt d 99 \<Longrightarrow> length cs < char_count d \<Longrightarrow> stores d cs ap W ap' \<Longrightarrow>
    scans off (37 # dt @ f) cs ap W 0"
| sc_word: "scan_dir_text dt d 115 \<Longrightarrow> spaces ws \<Longrightarrow> no_space t \<Longrightarrow> t \<noteq> [] \<Longrightarrow>
    run = take_run (\<lambda>c. \<not> isspace (uint c)) d t \<Longrightarrow> stores d (run @ [0]) ap W ap' \<Longrightarrow>
    scans (off + length ws + length run) f (drop (length run) t) ap' W' n \<Longrightarrow>
    scans off (37 # dt @ f) (ws @ t) ap (W @ W') (sd_hit d + n)"
| sc_word_stop: "scan_dir_text dt d 115 \<Longrightarrow> spaces ws \<Longrightarrow> stores d [] ap W ap' \<Longrightarrow>
    scans off (37 # dt @ f) ws ap [] 0"
| sc_set: "scan_dir_text dt d 91 \<Longrightarrow> set_text st ok \<Longrightarrow> run = take_run ok d t \<Longrightarrow> run \<noteq> [] \<Longrightarrow>
    stores d (run @ [0]) ap W ap' \<Longrightarrow> scans (off + length run) f (drop (length run) t) ap' W' n \<Longrightarrow>
    scans off (37 # dt @ st @ f) t ap (W @ W') (sd_hit d + n)"
| sc_set_stop: "scan_dir_text dt d 91 \<Longrightarrow> set_text st ok \<Longrightarrow> take_run ok d t = [] \<Longrightarrow>
    stores d [] ap W ap' \<Longrightarrow> scans off (37 # dt @ st @ f) t ap [] 0"
| sc_int: "scan_dir_text dt d conv \<Longrightarrow> conv \<in> {100, 105, 117, 120, 111} \<Longrightarrow> spaces ws \<Longrightarrow>
    sign_text sg (pre @ ds @ t) \<Longrightarrow> numeral_text (int_base conv) pre b ds t \<Longrightarrow> ds \<noteq> [] \<Longrightarrow>
    stores d (bytes_of_u64 (int_bytes (sd_len d)) (int_word conv sg (digits_val b ds))) ap W ap' \<Longrightarrow>
    scans (off + length (ws @ sg @ pre @ ds)) f t ap' W' n \<Longrightarrow>
    scans off (37 # dt @ f) (ws @ sg @ pre @ ds @ t) ap (W @ W') (sd_hit d + n)"
| sc_int_stop: "scan_dir_text dt d conv \<Longrightarrow> conv \<in> {100, 105, 117, 120, 111} \<Longrightarrow> spaces ws \<Longrightarrow>
    sign_text sg t \<Longrightarrow> numeral_text (int_base conv) [] b [] t \<Longrightarrow>
    scans off (37 # dt @ f) (ws @ sg @ t) ap [] 0"
| sc_percent: "scan_dir_text dt d 37 \<Longrightarrow> spaces ws \<Longrightarrow> scans (off + length ws + 1) f t ap W n \<Longrightarrow>
    scans off (37 # dt @ f) (ws @ 37 # t) ap W n"
| sc_percent_stop: "scan_dir_text dt d 37 \<Longrightarrow> spaces ws \<Longrightarrow> no_space t \<Longrightarrow> first_not ((=) 37) t \<Longrightarrow>
    scans off (37 # dt @ f) (ws @ t) ap [] 0"
| sc_unknown: "scan_dir_text dt d conv \<Longrightarrow>
    conv \<notin> {110, 99, 115, 91, 100, 105, 117, 120, 111, 102, 101, 103, 97, 37} \<Longrightarrow>
    scans off (37 # dt @ f) t ap [] 0"

text \<open>The stores made one after the other.\<close>

definition put_all :: "mem \<Rightarrow> (nat \<times> u8 list) list \<Rightarrow> mem" where
  "put_all m W = foldl (\<lambda>m (a, bs). put_bytes m a bs) m W"

definition stores_ok :: "nat set \<Rightarrow> mem \<Rightarrow> (nat \<times> u8 list) list \<Rightarrow> bool" where
  "stores_ok A m W \<longleftrightarrow>
     list_all (\<lambda>(a, bs). a \<noteq> 0 \<and> mapped m a (length bs) \<and> A \<inter> {a..<a + length bs} = {}) W"

lemma put_all_simps [simp]:
  "put_all m [] = m" "put_all m ((a, bs) # W) = put_all (put_bytes m a bs) W"
  by (simp_all add: put_all_def)

lemma stores_ok_simps [simp]:
  "stores_ok A m []"
  "stores_ok A m ((a, bs) # W) \<longleftrightarrow>
     a \<noteq> 0 \<and> mapped m a (length bs) \<and> A \<inter> {a..<a + length bs} = {} \<and> stores_ok A m W"
  by (simp_all add: stores_ok_def)

lemma stores_ok_mono: "stores_ok A m W \<Longrightarrow> B \<subseteq> A \<Longrightarrow> stores_ok B m W"
  by (fastforce simp: stores_ok_def list_all_iff)

lemma stores_ok_put: "stores_ok (dom lo) m W \<Longrightarrow> stores_ok (dom lo) (put_bytes m a bs) W"
  by (fastforce simp: stores_ok_def list_all_iff)

lemma map_le_put: "lo \<subseteq>\<^sub>m m \<Longrightarrow> dom lo \<inter> {a..<a + length bs} = {} \<Longrightarrow> lo \<subseteq>\<^sub>m put_bytes m a bs"
  by (auto simp: map_le_def put_bytes_def)

section \<open>Directives\<close>

lemma digits_first_ge: "m * 10 ^ k + r < B \<Longrightarrow> m < (B::nat)"
proof -
  assume "m * 10 ^ k + r < B"
  moreover have "m * 1 \<le> m * 10 ^ k" by (rule mult_le_mono2) simp
  ultimately show "m < B" by linarith
qed

lemma scan_width_ok:
  "bytes_at m p (ds @ c # cs) \<Longrightarrow> decimals ds \<Longrightarrow> \<not> is_digit 10 c \<Longrightarrow>
   n * 10 ^ length ds + dv ds < 2 ^ 31 \<Longrightarrow>
   scan_width m p (int n) h = Some (int (n * 10 ^ length ds + dv ds), h \<or> ds \<noteq> [], p + length ds)"
proof (induction ds arbitrary: p n h)
  case Nil
  then show ?case by (subst scan_width.simps) (auto simp: is_digit_10)
next
  case (Cons e ds)
  have e: "is_digit 10 e" "48 \<le> e" "e \<le> 57" using Cons.prems by (auto simp: is_digit_10)
  let ?n = "n * 10 + digit_nat e"
  have v: "?n * 10 ^ length ds + dv ds = n * 10 ^ length (e # ds) + dv (e # ds)"
    by (simp add: digits_val_Cons algebra_simps)
  have "?n < 2 ^ 31" using Cons.prems(4) unfolding v [symmetric] by (rule digits_first_ge)
  then have "int ?n < 2 ^ 31" by simp
  moreover have "int ?n = int n * 10 + (uint e - 48)"
    using digit_nat_10 [OF e(1)] e by (simp add: word_le_nat_alt of_nat_diff)
  ultimately have "scan_width m p (int n) h = scan_width m (Suc p) (int ?n) True"
    using Cons.prems e by (subst scan_width.simps) (simp add: Let_def)
  then show ?case using Cons.IH [of "Suc p" ?n] Cons.prems v by simp
qed

definition len_upd :: "lenmod \<Rightarrow> u8 list \<Rightarrow> lenmod" where
  "len_upd l ls =
     l\<lparr>len_h := len_h l + length (filter ((=) 104) ls), len_l := len_l l + length (filter ((=) 108) ls),
       len_ll := (len_ll l \<or> 122 \<in> set ls \<or> 106 \<in> set ls)\<rparr>"

lemma len_upd_Cons: "len_upd l (c # ls) = len_upd (len_upd l [c]) ls"
  by (auto simp: len_upd_def disj_ac)

lemma scan_len_ok:
  "bytes_at m p (ls @ c # cs) \<Longrightarrow> set ls \<subseteq> {108, 104, 122, 106} \<Longrightarrow> c \<notin> {108, 104, 122, 106} \<Longrightarrow>
   scan_len m p l = Some (let l = len_upd l ls in if len_l l \<ge> 2 then l\<lparr>len_ll := True\<rparr> else l,
     p + length ls)"
proof (induction ls arbitrary: p l)
  case Nil
  then show ?case by (subst scan_len.simps) (auto simp: len_upd_def)
next
  case (Cons e ls)
  have "scan_len m p l = scan_len m (Suc p) (len_upd l [e])"
    using Cons.prems by (subst scan_len.simps) (auto simp: len_upd_def)
  then show ?case using Cons.IH [of "Suc p" "len_upd l [e]"] Cons.prems len_upd_Cons [of l e ls] by simp
qed

lemma len_mod_upd:
  "(let l = len_upd \<lparr>len_h = 0, len_l = 0, len_ll = False, len_z = False\<rparr> ls
    in if len_l l \<ge> 2 then l\<lparr>len_ll := True\<rparr> else l) = len_mod ls"
  by (simp add: len_upd_def len_mod_def Let_def disj_ac)

lemma len_not_digit: "c \<in> {108, 104, 122, 106} \<Longrightarrow> \<not> is_digit 10 c \<and> c \<noteq> 42"
  by (auto simp: is_digit_10)

lemma scan_dir_parse_ok:
  assumes "bytes_at m p dt" and "scan_dir_text dt d conv"
  shows "scan_dir_parse m p = Some (d, conv, p + length dt)"
proof -
  obtain star ds ls where dt: "dt = star @ ds @ ls @ [conv]" and star: "star = [] \<or> star = [42]"
    and ds: "decimals ds" "dv ds < 2 ^ 31" and ls: "set ls \<subseteq> {108, 104, 122, 106}"
    and conv: "conv \<notin> {42, 108, 104, 122, 106}" "\<not> is_digit 10 conv"
    and d: "d = \<lparr>sd_suppress = (star = [42]), sd_has_width = (ds \<noteq> []), sd_width = int (dv ds),
             sd_len = len_mod ls\<rparr>"
    using assms(2) by (auto simp: scan_dir_text_def)
  have at: "bytes_at m (p + length star) (ds @ ls @ [conv])"
    "bytes_at m (p + length star + length ds) (ls @ [conv])"
    "m (p + length star + length ds + length ls) = Some conv"
    using assms(1) by (simp_all add: dt add.assoc)
  obtain c cs where c: "ls @ [conv] = c # cs" "\<not> is_digit 10 c" "c \<noteq> 42"
    using conv ls len_not_digit by (cases ls) auto
  have w: "scan_width m (p + length star) (int 0) False = Some (int (0 * 10 ^ length ds + dv ds), False \<or> ds \<noteq> [], p + length star + length ds)"
    using at(1) ds c by (intro scan_width_ok [where c = c and cs = cs]) simp_all
  have l: "scan_len m (p + length star + length ds) \<lparr>len_h = 0, len_l = 0, len_ll = False, len_z = False\<rparr> =
      Some (len_mod ls, p + length star + length ds + length ls)"
    using scan_len_ok [OF at(2) ls, of "\<lparr>len_h = 0, len_l = 0, len_ll = False, len_z = False\<rparr>"] conv
    unfolding len_mod_upd by simp
  have first: "\<exists>a. m p = Some a \<and> (star = [42] \<longleftrightarrow> a = 42)"
  proof (cases "star = []")
    case True
    have "ds \<noteq> [] \<Longrightarrow> hd ds \<noteq> 42" using ds(1) by (cases ds) (auto simp: is_digit_10)
    moreover have "bytes_at m p (ds @ c # cs)" using at(1) True c by simp
    ultimately show ?thesis using True c by (cases ds) auto
  next
    case False
    then show ?thesis using star assms(1) by (auto simp: dt)
  qed
  then obtain a where a: "m p = Some a" "star = [42] \<longleftrightarrow> a = 42" by blast
  have "(if a = 42 then (True, p + 1) else (False, p)) = (star = [42], p + length star)"
    using a star by auto
  then show ?thesis
    using a w l at(3) by (simp add: scan_dir_parse_def d dt)
qed

section \<open>Runs of characters\<close>

lemma cstr_mono: "cstr lo p s \<Longrightarrow> lo \<subseteq>\<^sub>m m \<Longrightarrow> cstr m p s"
  unfolding cstr_def by (blast intro: bytes_at_mono)

lemma out_put_ok:
  "out = 0 \<or> m (out + i) \<noteq> None \<Longrightarrow>
   out_put m out i c = Some (if out = 0 then m else put8 m (out + i) c)"
  by (auto simp: out_put_def st8_mapped)

text \<open>The characters \<open>bs\<close> put at \<open>out\<close> from index \<open>i\<close> on, if \<open>out\<close> is not null.\<close>

definition out_bytes :: "mem \<Rightarrow> nat \<Rightarrow> nat \<Rightarrow> u8 list \<Rightarrow> mem" where
  "out_bytes m out i bs = (if out = 0 then m else put_bytes m (out + i) bs)"

definition out_ok :: "mem \<Rightarrow> mem \<Rightarrow> nat \<Rightarrow> nat \<Rightarrow> nat \<Rightarrow> bool" where
  "out_ok lo m out i n \<longleftrightarrow>
     out = 0 \<or> mapped m (out + i) n \<and> dom lo \<inter> {out + i..<out + i + n} = {}"

lemma out_step:
  assumes "out_ok lo m out i (Suc n)" and "lo \<subseteq>\<^sub>m m"
  shows "\<exists>m1. out_put m out i c = Some m1 \<and> lo \<subseteq>\<^sub>m m1 \<and> out_ok lo m1 out (Suc i) n \<and>
    out_bytes m1 out (Suc i) bs = out_bytes m out i (c # bs)"
proof (cases "out = 0")
  case True
  then show ?thesis using assms by (simp add: out_put_def out_ok_def out_bytes_def)
next
  case False
  then have dj: "dom lo \<inter> {out + i..<out + i + Suc n} = {}" and m: "mapped m (out + i) (Suc n)"
    using assms(1) by (simp_all add: out_ok_def)
  have "lo \<subseteq>\<^sub>m put8 m (out + i) c"
    using assms(2) dj by (auto simp: map_le_def put8_apply)
  moreover have "dom lo \<inter> {out + Suc i..<out + Suc i + n} = {}" using dj by auto
  ultimately show ?thesis
    using False m by (simp add: out_put_ok out_ok_def out_bytes_def put_bytes_Cons)
qed

text \<open>The characters still allowed by the width after \<open>i\<close>.\<close>

definition run_from :: "(u8 \<Rightarrow> bool) \<Rightarrow> scan_dir \<Rightarrow> nat \<Rightarrow> u8 list \<Rightarrow> u8 list" where
  "run_from ok d i t = takeWhile ok (if sd_has_width d then take (nat (sd_width d) - i) t else t)"

lemma run_from_Cons:
  "run_from ok d i (c # t) =
     (if (\<not> sd_has_width d \<or> int i < sd_width d) \<and> ok c then c # run_from ok d (Suc i) t else [])"
proof (cases "sd_has_width d \<and> \<not> int i < sd_width d")
  case True
  then have "nat (sd_width d) - i = 0" by linarith
  then show ?thesis using True by (simp add: run_from_def)
next
  case False
  then have "sd_has_width d \<Longrightarrow> nat (sd_width d) - i = Suc (nat (sd_width d) - Suc i)" by linarith
  then show ?thesis using False by (auto simp: run_from_def)
qed

lemma run_from_Nil [simp]: "run_from ok d i [] = []"
  by (simp add: run_from_def)

lemma take_run_from: "take_run ok d t = run_from ok d 0 t"
  by (simp add: take_run_def run_from_def)

lemma scan_run_ok:
  "cstr lo s t \<Longrightarrow> lo \<subseteq>\<^sub>m m \<Longrightarrow> out_ok lo m out i (length (run_from ok d i t) + n) \<Longrightarrow>
   \<exists>m1. scan_run ok d m s out i = Some (m1, s + length (run_from ok d i t), i + length (run_from ok d i t)) \<and>
     m1 = out_bytes m out i (run_from ok d i t) \<and> lo \<subseteq>\<^sub>m m1 \<and>
     out_ok lo m1 out (i + length (run_from ok d i t)) n"
proof (induction t arbitrary: s m i)
  case Nil
  then have "m s = Some 0" by (auto dest: map_le_SomeD)
  then show ?case using Nil by (subst scan_run.simps) (simp add: out_bytes_def)
next
  case (Cons c t)
  then have c: "m s = Some c" "c \<noteq> 0" by (auto dest: map_le_SomeD)
  show ?case
  proof (cases "(\<not> sd_has_width d \<or> int i < sd_width d) \<and> ok c")
    case True
    let ?r = "run_from ok d (Suc i) t"
    have r: "run_from ok d i (c # t) = c # ?r" using True by (simp add: run_from_Cons)
    obtain m1 where m1: "out_put m out i c = Some m1" "lo \<subseteq>\<^sub>m m1"
        "out_ok lo m1 out (Suc i) (length ?r + n)" "out_bytes m1 out (Suc i) ?r = out_bytes m out i (c # ?r)"
      using out_step [of lo m out i "length ?r + n" c ?r] Cons.prems unfolding r by auto
    then show ?thesis
      using Cons.IH [of "Suc s" m1 "Suc i"] Cons.prems(1) True c unfolding r
      by (subst scan_run.simps) auto
  next
    case False
    then show ?thesis using Cons.prems c
      by (subst scan_run.simps) (auto simp: run_from_Cons out_bytes_def)
  qed
qed

lemma out_bytes_snoc: "out \<noteq> 0 \<Longrightarrow> put8 (out_bytes m out 0 bs) (out + length bs) b = out_bytes m out 0 (bs @ [b])"
  by (simp add: out_bytes_def put_bytes_snoc)

lemma run_and_end_ok:
  assumes r: "r = take_run ok d t"
    and c: "cstr lo s t" "lo \<subseteq>\<^sub>m m" and out: "out_ok lo m out 0 (length r + 1)"
  shows "\<exists>m1. scan_run ok d m s out 0 = Some (m1, s + length r, length r) \<and>
    out_put m1 out (length r) 0 = Some (out_bytes m out 0 (r @ [0]))"
proof -
  obtain m1 where m1: "scan_run ok d m s out 0 = Some (m1, s + length r, length r)"
      "m1 = out_bytes m out 0 r" "out_ok lo m1 out (length r) 1"
    using scan_run_ok [of lo s t m out 0 ok d 1] c out by (auto simp: r take_run_from)
  then have "out_put m1 out (length r) 0 = Some (out_bytes m out 0 (r @ [0]))"
    by (cases "out = 0") (auto simp: out_put_def out_ok_def st8_mapped out_bytes_def put_bytes_snoc)
  then show ?thesis using m1 by auto
qed

lemma scan_run_empty:
  assumes "take_run ok d t = []" "cstr lo s t" "lo \<subseteq>\<^sub>m m"
  shows "scan_run ok d m s out 0 = Some (m, s, 0)"
  using scan_run_ok [of lo s t m out 0 ok d 0] assms
  by (auto simp: take_run_from out_ok_def out_bytes_def)

lemma take_run_le: "length (take_run ok d t) \<le> length t"
proof -
  have "length (take_run ok d t) \<le> length (if sd_has_width d then take (nat (sd_width d)) t else t)"
    unfolding take_run_def by (rule length_takeWhile_le)
  also have "\<dots> \<le> length t" by simp
  finally show ?thesis .
qed

lemma scan_chars_ok:
  "cstr lo s (cs @ t) \<Longrightarrow> lo \<subseteq>\<^sub>m m \<Longrightarrow> out_ok lo m out i (length cs) \<Longrightarrow>
   scan_chars (length cs) m s out i = Some (out_bytes m out i cs, s + length cs, True)"
proof (induction cs arbitrary: s m i)
  case (Cons c cs)
  then have c: "m s = Some c" "c \<noteq> 0" by (auto dest: map_le_SomeD)
  obtain m1 where "out_put m out i c = Some m1" "lo \<subseteq>\<^sub>m m1"
      "out_ok lo m1 out (Suc i) (length cs)" "out_bytes m1 out (Suc i) cs = out_bytes m out i (c # cs)"
    using out_step [of lo m out i "length cs" c cs] Cons.prems by auto
  then show ?case using Cons.IH [of "Suc s" m1 "Suc i"] Cons.prems c by simp
qed (simp add: out_bytes_def)

lemma scan_chars_short:
  "cstr lo s cs \<Longrightarrow> lo \<subseteq>\<^sub>m m \<Longrightarrow> out_ok lo m out i (length cs) \<Longrightarrow> length cs < n \<Longrightarrow>
   scan_chars n m s out i = Some (out_bytes m out i cs, s + length cs, False)"
proof (induction cs arbitrary: s m i n)
  case Nil
  then show ?case by (cases n) (auto simp: out_bytes_def dest: map_le_SomeD)
next
  case (Cons c cs)
  then have c: "m s = Some c" "c \<noteq> 0" by (auto dest: map_le_SomeD)
  obtain m1 where "out_put m out i c = Some m1" "lo \<subseteq>\<^sub>m m1"
      "out_ok lo m1 out (Suc i) (length cs)" "out_bytes m1 out (Suc i) cs = out_bytes m out i (c # cs)"
    using out_step [of lo m out i "length cs" c cs] Cons.prems by auto
  then show ?case using Cons.IH [of "Suc s" m1 "Suc i" "n - 1"] Cons.prems c by (cases n) auto
qed

section \<open>One turn of the loop\<close>

lemma stores_arg: "stores d bs ap W ap' \<Longrightarrow> \<exists>out. out_arg d ap = Some (out, ap')"
  by (auto simp: stores_def out_arg_def split: if_splits)

lemma stores_put:
  assumes "stores d bs ap W ap'" and "stores_ok (dom lo) m (W @ W')" and "lo \<subseteq>\<^sub>m m"
  shows "lo \<subseteq>\<^sub>m put_all m W \<and> stores_ok (dom lo) (put_all m W) W'"
  using assms by (auto simp: stores_def map_le_put stores_ok_put split: if_splits)

lemma stores_out:
  assumes "stores d bs ap W ap'" and "stores_ok (dom lo) m (W @ W')"
  shows "\<exists>out. out_arg d ap = Some (out, ap') \<and> out_ok lo m out 0 (length bs) \<and>
    out_bytes m out 0 bs = put_all m W"
proof (cases "sd_suppress d")
  case True
  then show ?thesis using assms by (simp add: stores_def out_arg_def out_ok_def out_bytes_def)
next
  case False
  then obtain x where x: "ap = x # ap'" "W = [(unat x, bs)]" using assms(1) by (auto simp: stores_def)
  then have "unat x \<noteq> 0" "mapped m (unat x) (length bs)" "dom lo \<inter> {unat x..<unat x + length bs} = {}"
    using assms(2) by simp_all
  then show ?thesis using False x by (simp add: out_arg_def out_ok_def out_bytes_def)
qed

lemma add_converted_hit:
  "add_converted d st = st\<lparr>sc_converted := sc_converted st + int (sd_hit d)\<rparr>"
  by (simp add: add_converted_def sd_hit_def)

lemma scan_store_ok:
  assumes "stores d (bytes_of_u64 n w) (sc_ap st) W ap'" and "stores_ok (dom lo) (sc_mem st) (W @ W')"
    and "e \<noteq> sc_s st"
  shows "scan_store d n w e st =
    Some (Go_on (add_converted d (st\<lparr>sc_s := e, sc_mem := put_all (sc_mem st) W, sc_ap := ap'\<rparr>)))"
proof (cases "sd_suppress d")
  case True
  then show ?thesis using assms by (simp add: scan_store_def stores_def add_converted_def Let_def)
next
  case False
  then obtain x where x: "sc_ap st = x # ap'" "W = [(unat x, bytes_of_u64 n w)]"
    using assms(1) by (auto simp: stores_def)
  then show ?thesis
    using False assms by (simp add: scan_store_def stn_mapped Let_def)
qed

definition ready :: "mem \<Rightarrow> nat \<Rightarrow> nat \<Rightarrow> u8 list \<Rightarrow> u8 list \<Rightarrow> u64 list \<Rightarrow> (nat \<times> u8 list) list \<Rightarrow>
    scan \<Rightarrow> bool" where
  "ready lo input off f t ap W st \<longleftrightarrow>
     cstr lo (sc_p st) f \<and> cstr lo (sc_s st) t \<and> sc_s st = input + off \<and> sc_ap st = ap \<and>
     lo \<subseteq>\<^sub>m sc_mem st \<and> stores_ok (dom lo) (sc_mem st) W"

lemma readyD:
  assumes "ready lo input off f t ap W st"
  shows "cstr lo (sc_p st) f" "cstr lo (sc_s st) t" "sc_s st = input + off" "sc_ap st = ap"
    "lo \<subseteq>\<^sub>m sc_mem st" "stores_ok (dom lo) (sc_mem st) W"
  using assms unfolding ready_def by blast+

definition delivers :: "nat \<Rightarrow> scan \<Rightarrow> (nat \<times> u8 list) list \<Rightarrow> nat \<Rightarrow> bool" where
  "delivers input st W n \<longleftrightarrow>
     (\<exists>st'. scan_loop input st = Some st' \<and> sc_mem st' = put_all (sc_mem st) W \<and>
        sc_converted st' = sc_converted st + int n \<and> sc_errno st' \<in> {sc_errno st, RT_ERANGE})"

lemma put_all_append: "put_all m (W @ W') = put_all (put_all m W) W'"
  by (simp add: put_all_def)

lemma delivers_done:
  assumes "sc_mem st (sc_p st) = Some c" "c \<noteq> 0" "scan_turn input c st = Some (Done st1)"
    and "sc_mem st1 = put_all (sc_mem st) W" "sc_converted st1 = sc_converted st"
    and "sc_errno st1 \<in> {sc_errno st, RT_ERANGE}"
  shows "delivers input st W 0"
  unfolding delivers_def using assms by (subst scan_loop.simps) simp

lemma delivers_go:
  assumes "sc_mem st (sc_p st) = Some c" "c \<noteq> 0" "scan_turn input c st = Some (Go_on st1)"
    and "sc_mem st1 = put_all (sc_mem st) W" "sc_converted st1 = sc_converted st + int k"
    and "sc_errno st1 \<in> {sc_errno st, RT_ERANGE}" and "delivers input st1 W' n"
  shows "delivers input st (W @ W') (k + n)"
  unfolding delivers_def
  using assms(4-7) by (subst scan_loop.simps) (auto simp: assms(1-3) delivers_def put_all_append)

lemma ready_chars:
  assumes "ready lo input off (c # f) t ap W st"
  shows "sc_mem st (sc_p st) = Some c" "c \<noteq> 0"
  using assms by (auto simp: ready_def dest: map_le_SomeD)

lemma turn_percent:
  assumes "ready lo input off (37 # dt @ f) t ap W st" and "scan_dir_text dt d conv"
  shows "scan_turn input 37 st = scan_conv input conv d (st\<lparr>sc_p := sc_p st + 1 + length dt\<rparr>)"
    and "cstr lo (sc_p st + 1 + length dt) f"
proof -
  have c: "cstr lo (sc_p st) ((37 # dt) @ f)" and le: "lo \<subseteq>\<^sub>m sc_mem st"
    using assms(1) by (simp_all add: ready_def)
  have "bytes_at (sc_mem st) (sc_p st + 1) dt"
    using cstr_bytes [OF cstr_mono [OF c le]] by simp
  then show "scan_turn input 37 st = scan_conv input conv d (st\<lparr>sc_p := sc_p st + 1 + length dt\<rparr>)"
    using scan_dir_parse_ok [OF _ assms(2), of "sc_mem st" "sc_p st + 1"]
    by (simp add: scan_turn_def isspace_def)
  show "cstr lo (sc_p st + 1 + length dt) f" using cstr_append [OF c] by simp
qed

lemma ready_space:
  assumes "cstr lo (sc_s st) (ws @ t)" "lo \<subseteq>\<^sub>m sc_mem st" "spaces ws" "no_space t"
  shows "skip_space (sc_mem st) (sc_s st) = Some (sc_s st + length ws)"
  using skip_space_ok [OF cstr_mono [OF assms(1,2)] assms(3)] assms(4) by (simp add: first_not_def)

lemma set_members_Cons:
  "\<not> (\<exists>c cs'. cs = 45 # c # cs') \<Longrightarrow> set_members (a # cs) x \<longleftrightarrow> x = a \<or> set_members cs x"
  by (cases "(a # cs, x)" rule: set_members.cases) auto

lemma scan_set_items_ok:
  "bytes_at m p (cs @ [93]) \<Longrightarrow> 93 \<notin> set cs \<Longrightarrow> 0 \<notin> set cs \<Longrightarrow>
   scan_set_items m p F = Some (\<lambda>x. F x \<or> set_members cs x, p + length cs)"
proof (induction "length cs" arbitrary: cs p F rule: less_induct)
  case less
  show ?case
  proof (cases cs)
    case Nil
    then show ?thesis using less.prems by (subst scan_set_items.simps) simp
  next
    case (Cons a cs1)
    have a: "m p = Some a" "a \<noteq> 0" "a \<noteq> 93" using less.prems Cons by auto
    show ?thesis
    proof (cases "\<exists>c cs2. cs1 = 45 # c # cs2")
      case True
      then obtain c cs2 where cs: "cs = a # 45 # c # cs2" using Cons by blast
      then show ?thesis
        using less.hyps [of cs2 "p + 3" "\<lambda>x. F x \<or> a \<le> x \<and> x \<le> c"] less.prems a
        by (subst scan_set_items.simps) (auto simp: add_2_eq_Suc' numeral_3_eq_3)
    next
      case False
      have "scan_set_items m p F = scan_set_items m (p + 1) (F(a := True))"
        using less.prems Cons a False
        by (cases cs1 rule: remdups_adj.cases; subst scan_set_items.simps) (auto simp: add_2_eq_Suc')
      also have "\<dots> = Some (\<lambda>x. (F(a := True)) x \<or> set_members cs1 x, p + 1 + length cs1)"
        using less.hyps [of cs1 "p + 1" "F(a := True)"] less.prems Cons by simp
      finally show ?thesis using set_members_Cons [OF False] Cons by (auto simp: fun_eq_iff)
    qed
  qed
qed

lemma scan_set_ok:
  assumes "cstr m p (st @ rest)" and "set_text st ok"
  shows "scan_set m p = Some (ok, p + length st)"
proof -
  obtain neg cl cs where st: "st = neg @ cl @ cs @ [93]" and neg: "neg = [] \<or> neg = [94]"
    and cl: "cl = [] \<or> cl = [93]" "93 \<notin> set cs" "cl = [] \<longrightarrow> cs \<noteq> [] \<and> (neg = [] \<longrightarrow> hd cs \<noteq> 94)"
    and ok: "ok = (\<lambda>x. (neg = [94]) \<noteq> (x \<in> set cl \<or> set_members cs x))"
    using assms(2) by (auto simp: set_text_def)
  have at: "bytes_at m p st" "0 \<notin> set cs" using assms(1) by (auto simp: cstr_def st)
  let ?q = "p + length neg" let ?r = "?q + length cl"
  have q: "bytes_at m ?q (cl @ cs @ [93])" and r: "bytes_at m ?r (cs @ [93])"
    using at(1) by (simp_all add: st add.assoc)
  obtain a where a: "m p = Some a" "(if a = 94 then (True, p + 1) else (False, p)) = (neg = [94], ?q)"
    using at(1) neg cl by (cases neg; cases cl; cases cs) (auto simp: st)
  obtain b where b: "m ?q = Some b"
      "(if b = 93 then ((\<lambda>x. False)(93 := True), ?q + 1) else (\<lambda>x. False, ?q)) = ((\<lambda>x. x \<in> set cl), ?r)"
    using q cl by (cases cl; cases cs) (auto simp: fun_eq_iff)
  have e: "m (?r + length cs) = Some 93" using r by simp
  show ?thesis
    using a b scan_set_items_ok [OF r cl(2) at(2)] e by (simp add: scan_set_def ok st fun_eq_iff)
qed

definition goes :: "mem \<Rightarrow> nat \<Rightarrow> u8 \<Rightarrow> nat \<Rightarrow> u8 list \<Rightarrow> u8 list \<Rightarrow> u64 list \<Rightarrow>
    (nat \<times> u8 list) list \<Rightarrow> (nat \<times> u8 list) list \<Rightarrow> nat \<Rightarrow> scan \<Rightarrow> bool" where
  "goes lo input c off f t ap W W' k st \<longleftrightarrow>
     (\<exists>st1. scan_turn input c st = Some (Go_on st1) \<and> sc_mem st1 = put_all (sc_mem st) W \<and>
        sc_converted st1 = sc_converted st + int k \<and> sc_errno st1 \<in> {sc_errno st, RT_ERANGE} \<and>
        ready lo input off f t ap W' st1)"

definition stops :: "nat \<Rightarrow> u8 \<Rightarrow> (nat \<times> u8 list) list \<Rightarrow> scan \<Rightarrow> bool" where
  "stops input c W st \<longleftrightarrow>
     (\<exists>st1. scan_turn input c st = Some (Done st1) \<and> sc_mem st1 = put_all (sc_mem st) W \<and>
        sc_converted st1 = sc_converted st \<and> sc_errno st1 \<in> {sc_errno st, RT_ERANGE})"

lemma stops_delivers:
  "ready lo input off (c # f) t ap W st \<Longrightarrow> stops input c W st \<Longrightarrow> delivers input st W 0"
  unfolding stops_def by (elim exE conjE, rule delivers_done [OF ready_chars])

lemma goes_delivers:
  assumes "ready lo input off0 (c # f0) t0 ap0 (W @ W') st" and "goes lo input c off f t ap W W' k st"
    and "\<And>st. ready lo input off f t ap W' st \<Longrightarrow> delivers input st W' n"
  shows "delivers input st (W @ W') (k + n)"
  using assms(2) unfolding goes_def
  by (elim exE conjE) (rule delivers_go [OF ready_chars [OF assms(1)] _ _ _ _ assms(3)])

lemma go_space:
  assumes "ready lo input off (c # f) (ws @ t) ap W st" "isspace (uint c)" "spaces ws" "no_space t"
  shows "goes lo input c (off + length ws) f t ap [] W 0 st"
proof -
  have r: "cstr lo (sc_p st) (c # f)" "cstr lo (sc_s st) (ws @ t)" "lo \<subseteq>\<^sub>m sc_mem st"
    using readyD [OF assms(1)] by blast+
  show ?thesis
    using ready_space [OF r(2,3) assms(3,4)] cstr_append [OF r(2)] assms(1,2)
    by (auto simp: goes_def scan_turn_def ready_def)
qed

lemma go_char:
  assumes "ready lo input off (c # f) (c # t) ap W st" "\<not> isspace (uint c)" "c \<noteq> 37"
  shows "goes lo input c (off + 1) f t ap [] W 0 st"
proof -
  have "sc_mem st (sc_s st) = Some c" using readyD [OF assms(1)] by (auto dest: map_le_SomeD)
  then show ?thesis using assms by (auto simp: goes_def scan_turn_def ready_def)
qed

lemma stop_char:
  assumes "ready lo input off (c # f) t ap W st" "\<not> isspace (uint c)" "c \<noteq> 37" "first_not ((=) c) t"
  shows "stops input c [] st"
proof -
  have "cstr (sc_mem st) (sc_s st) t" "c \<noteq> 0"
    using assms(1) by (auto simp: ready_def intro: cstr_mono)
  then obtain b where "sc_mem st (sc_s st) = Some b" "c \<noteq> b"
    using cstr_first [of _ _ t "(=) c"] assms(4) by auto
  then show ?thesis using assms(2,3) by (simp add: stops_def scan_turn_def)
qed

lemma go_pos:
  assumes r: "ready lo input off (37 # dt @ f) t ap (W @ W') st" and d: "scan_dir_text dt d 110"
    and st: "stores d (bytes_of_u64 4 (of_nat off)) ap W ap'"
  shows "goes lo input 37 off f t ap' W W' 0 st"
proof -
  have le: "lo \<subseteq>\<^sub>m sc_mem st" and ok: "stores_ok (dom lo) (sc_mem st) (W @ W')"
    and ap: "sc_ap st = ap" and s: "sc_s st = input + off" "cstr lo (sc_s st) t"
    using readyD [OF r] by simp_all
  have "int (sc_s st) - int input = int off" using s by simp
  then have "scan_n input d (st\<lparr>sc_p := sc_p st + 1 + length dt\<rparr>) =
      Some (Go_on (st\<lparr>sc_p := sc_p st + 1 + length dt, sc_mem := put_all (sc_mem st) W, sc_ap := ap'\<rparr>))"
    using st ok ap by (auto simp: scan_n_def stores_def stn_mapped split: if_splits)
  then show ?thesis
    using turn_percent [OF r d] stores_put [OF st ok le] s
    by (auto simp: goes_def scan_conv_def ready_def)
qed

lemma go_chars:
  assumes r: "ready lo input off (37 # dt @ f) (cs @ t) ap (W @ W') st" and d: "scan_dir_text dt d 99"
    and n: "length cs = char_count d" and st: "stores d cs ap W ap'"
  shows "goes lo input 37 (off + length cs) f t ap' W W' (sd_hit d) st"
proof -
  have le: "lo \<subseteq>\<^sub>m sc_mem st" and ok: "stores_ok (dom lo) (sc_mem st) (W @ W')"
    and ap: "sc_ap st = ap" and s: "sc_s st = input + off" "cstr lo (sc_s st) (cs @ t)"
    using readyD [OF r] by simp_all
  obtain out where out: "out_arg d ap = Some (out, ap')" "out_ok lo (sc_mem st) out 0 (length cs)"
      "out_bytes (sc_mem st) out 0 cs = put_all (sc_mem st) W"
    using stores_out [OF st ok] by blast
  have "scan_c d (st\<lparr>sc_p := sc_p st + 1 + length dt\<rparr>) =
      Some (Go_on (add_converted d (st\<lparr>sc_p := sc_p st + 1 + length dt, sc_mem := put_all (sc_mem st) W,
        sc_s := sc_s st + length cs, sc_ap := ap'\<rparr>)))"
    using scan_chars_ok [OF s(2) le out(2)] out(1,3) ap n by (simp add: scan_c_def char_count_def)
  then show ?thesis
    using turn_percent [OF r d] stores_put [OF st ok le] s cstr_append [OF s(2)]
    by (auto simp: goes_def scan_conv_def ready_def add_converted_hit)
qed

lemma stop_chars:
  assumes r: "ready lo input off (37 # dt @ f) cs ap W st" and d: "scan_dir_text dt d 99"
    and n: "length cs < char_count d" and st: "stores d cs ap W ap'"
  shows "stops input 37 W st"
proof -
  have le: "lo \<subseteq>\<^sub>m sc_mem st" and ok: "stores_ok (dom lo) (sc_mem st) (W @ [])"
    and ap: "sc_ap st = ap" and s: "cstr lo (sc_s st) cs"
    using readyD [OF r] by simp_all
  obtain out where out: "out_arg d ap = Some (out, ap')" "out_ok lo (sc_mem st) out 0 (length cs)"
      "out_bytes (sc_mem st) out 0 cs = put_all (sc_mem st) W"
    using stores_out [OF st ok] by blast
  have "scan_c d (st\<lparr>sc_p := sc_p st + 1 + length dt\<rparr>) =
      Some (Done (st\<lparr>sc_p := sc_p st + 1 + length dt, sc_mem := put_all (sc_mem st) W,
        sc_s := sc_s st + length cs, sc_ap := ap'\<rparr>))"
    using scan_chars_short [OF s le out(2) n] out(1,3) ap by (simp add: scan_c_def char_count_def)
  then show ?thesis
    using turn_percent [OF r d] by (auto simp: stops_def scan_conv_def)
qed

lemma go_word:
  assumes r: "ready lo input off (37 # dt @ f) (ws @ t) ap (W @ W') st" and d: "scan_dir_text dt d 115"
    and ws: "spaces ws" "no_space t" "t \<noteq> []" and run: "run = take_run (\<lambda>c. \<not> isspace (uint c)) d t"
    and st: "stores d (run @ [0]) ap W ap'"
  shows "goes lo input 37 (off + length ws + length run) f (drop (length run) t) ap' W W' (sd_hit d) st"
proof -
  have le: "lo \<subseteq>\<^sub>m sc_mem st" and ok: "stores_ok (dom lo) (sc_mem st) (W @ W')"
    and ap: "sc_ap st = ap" and s: "sc_s st = input + off" "cstr lo (sc_s st) (ws @ t)"
    using readyD [OF r] by simp_all
  have t: "cstr lo (sc_s st + length ws) t" using cstr_append [OF s(2)] .
  then obtain c where c: "sc_mem st (sc_s st + length ws) = Some c" "c \<noteq> 0"
    using ws(3) le by (cases t) (auto dest: map_le_SomeD)
  obtain out where out: "out_arg d ap = Some (out, ap')" "out_ok lo (sc_mem st) out 0 (length run + 1)"
      "out_bytes (sc_mem st) out 0 (run @ [0]) = put_all (sc_mem st) W"
    using stores_out [OF st ok] by auto
  have rest: "cstr lo (sc_s st + length ws + length run) (drop (length run) t)"
    using cstr_drop [OF t, of "length run"] take_run_le [of "\<lambda>c. \<not> isspace (uint c)" d t] run by simp
  have "scan_s d (st\<lparr>sc_p := sc_p st + 1 + length dt\<rparr>) =
      Some (Go_on (add_converted d (st\<lparr>sc_p := sc_p st + 1 + length dt, sc_mem := put_all (sc_mem st) W,
        sc_s := sc_s st + length ws + length run, sc_ap := ap'\<rparr>)))"
    using ready_space [OF s(2) le ws(1,2)] run_and_end_ok [OF run t le out(2)] out(1,3) c ap
    by (auto simp: scan_s_def)
  then show ?thesis
    using turn_percent [OF r d] stores_put [OF st ok le] s rest
    by (auto simp: goes_def scan_conv_def ready_def add_converted_hit)
qed

lemma stop_word:
  assumes r: "ready lo input off (37 # dt @ f) ws ap [] st" and d: "scan_dir_text dt d 115"
    and ws: "spaces ws" and st: "stores d [] ap W ap'"
  shows "stops input 37 [] st"
proof -
  have le: "lo \<subseteq>\<^sub>m sc_mem st" and ap: "sc_ap st = ap" and s: "cstr lo (sc_s st) (ws @ [])"
    using readyD [OF r] by simp_all
  have "sc_mem st (sc_s st + length ws) = Some 0"
    using cstr_end [OF s] le by (auto dest: map_le_SomeD)
  moreover obtain out where "out_arg d ap = Some (out, ap')" using stores_arg [OF st] by blast
  ultimately show ?thesis
    using turn_percent [OF r d] ready_space [OF s le ws] ap
    by (auto simp: stops_def scan_conv_def scan_s_def)
qed

lemma turn_set:
  assumes r: "ready lo input off (37 # dt @ st @ f) t ap W s" and d: "scan_dir_text dt d 91"
    and ok: "set_text st ok"
  shows "scan_set (sc_mem s) (sc_p s + 1 + length dt) = Some (ok, sc_p s + 1 + length dt + length st)"
    and "cstr lo (sc_p s + 1 + length dt + length st) f"
proof -
  have c: "cstr lo (sc_p s + 1 + length dt) (st @ f)" using turn_percent(2) [OF r d] .
  show "scan_set (sc_mem s) (sc_p s + 1 + length dt) = Some (ok, sc_p s + 1 + length dt + length st)"
    using scan_set_ok [OF cstr_mono [OF c] ok] readyD(5) [OF r] by simp
  show "cstr lo (sc_p s + 1 + length dt + length st) f" using cstr_append [OF c] .
qed

lemma go_set:
  assumes r: "ready lo input off (37 # dt @ st @ f) t ap (W @ W') s" and d: "scan_dir_text dt d 91"
    and ok: "set_text st ok" and run: "run = take_run ok d t" "run \<noteq> []"
    and st: "stores d (run @ [0]) ap W ap'"
  shows "goes lo input 37 (off + length run) f (drop (length run) t) ap' W W' (sd_hit d) s"
proof -
  have le: "lo \<subseteq>\<^sub>m sc_mem s" and W: "stores_ok (dom lo) (sc_mem s) (W @ W')"
    and ap: "sc_ap s = ap" and t: "sc_s s = input + off" "cstr lo (sc_s s) t"
    using readyD [OF r] by simp_all
  obtain out where out: "out_arg d ap = Some (out, ap')" "out_ok lo (sc_mem s) out 0 (length run + 1)"
      "out_bytes (sc_mem s) out 0 (run @ [0]) = put_all (sc_mem s) W"
    using stores_out [OF st W] by auto
  have rest: "cstr lo (sc_s s + length run) (drop (length run) t)"
    using cstr_drop [OF t(2), of "length run"] take_run_le [of ok d t] run by simp
  have "scan_bracket d (s\<lparr>sc_p := sc_p s + 1 + length dt\<rparr>) =
      Some (Go_on (add_converted d (s\<lparr>sc_s := sc_s s + length run,
        sc_p := sc_p s + 1 + length dt + length st, sc_ap := ap', sc_mem := put_all (sc_mem s) W\<rparr>)))"
    using turn_set(1) [OF r d ok] run_and_end_ok [OF run(1) t(2) le out(2)] out(1,3) ap run(2)
    by (auto simp: scan_bracket_def)
  then show ?thesis
    using turn_percent(1) [OF r d] turn_set(2) [OF r d ok] stores_put [OF st W le] t rest
    by (auto simp: goes_def scan_conv_def ready_def add_converted_hit)
qed

lemma stop_set:
  assumes r: "ready lo input off (37 # dt @ st @ f) t ap [] s" and d: "scan_dir_text dt d 91"
    and ok: "set_text st ok" and run: "take_run ok d t = []" and st: "stores d [] ap W ap'"
  shows "stops input 37 [] s"
proof -
  have le: "lo \<subseteq>\<^sub>m sc_mem s" and ap: "sc_ap s = ap" and t: "cstr lo (sc_s s) t"
    using readyD [OF r] by simp_all
  obtain out where "out_arg d ap = Some (out, ap')" using stores_arg [OF st] by blast
  then show ?thesis
    using turn_percent(1) [OF r d] turn_set(1) [OF r d ok] scan_run_empty [OF run t le] ap
    by (auto simp: stops_def scan_conv_def scan_bracket_def)
qed

text \<open>The number read by an integer conversion.\<close>

lemma scan_int_value:
  assumes s: "subject m p (int_base conv) [] sg pre b ds rest" and conv: "conv \<in> {100, 105, 117, 120, 111}"
  shows "\<exists>v e. (if conv = 117 \<or> conv = 120 \<or> conv = 111
     then do { (v, q, errno) \<leftarrow> strtoull m errno p (int_base conv); Some (sint v, q, errno) }
     else strtoll m errno p (int_base conv)) =
       Some (v, if ds = [] then p else p + length (sg @ pre @ ds), e) \<and>
     word_of_int v = int_word conv sg (digits_val b ds) \<and> e \<in> {errno, RT_ERANGE}"
proof (cases "conv = 117 \<or> conv = 120 \<or> conv = 111")
  case True
  then show ?thesis using strtoull_ok [OF s, of errno] by (auto simp: int_word_def)
next
  case False
  then show ?thesis using strtoll_ok [OF refl s, of errno] conv by (auto simp: int_word_def)
qed

lemma scan_int_ok:
  assumes "conv \<in> {100, 105, 117, 120, 111}"
    and "(if conv = 117 \<or> conv = 120 \<or> conv = 111
     then do { (v, q, errno) \<leftarrow> strtoull (sc_mem st) (sc_errno st) (sc_s st) (int_base conv); Some (sint v, q, errno) }
     else strtoll (sc_mem st) (sc_errno st) (sc_s st) (int_base conv)) = Some (v, e, er)"
  shows "scan_int conv d st =
    scan_store d (int_bytes (sd_len d)) (word_of_int v) e (st\<lparr>sc_errno := er\<rparr>)"
proof -
  have b: "(if conv = 120 then 16 else if conv = 111 then 8
      else if conv = 100 \<or> conv = 117 then 10 else 0) = int_base conv"
    using assms(1) by (auto simp: int_base_def)
  show ?thesis unfolding scan_int_def Let_def b assms(2) by simp
qed

lemma turn_int:
  assumes r: "ready lo input off (37 # dt @ f) (ws @ sg @ pre @ ds @ t) ap W st"
    and d: "scan_dir_text dt d conv" and conv: "conv \<in> {100, 105, 117, 120, 111}"
    and ws: "spaces ws" and sg: "sign_text sg (pre @ ds @ t)"
    and n: "numeral_text (int_base conv) pre b ds t"
  shows "\<exists>e. e \<in> {sc_errno st, RT_ERANGE} \<and>
    (let s = sc_s st + length ws in
     scan_turn input 37 st = scan_store d (int_bytes (sd_len d)) (int_word conv sg (digits_val b ds))
       (if ds = [] then s else s + length (sg @ pre @ ds))
       (st\<lparr>sc_p := sc_p st + 1 + length dt, sc_s := s, sc_errno := e\<rparr>))"
proof -
  note c = readyD(2) [OF r] and le = readyD(5) [OF r]
  let ?s = "sc_s st + length ws"
  have sp: "skip_space (sc_mem st) (sc_s st) = Some ?s"
    using ready_space [OF c le ws] sign_text_start [OF sg] by (simp add: first_not_def)
  have "subject (sc_mem st) ?s (int_base conv) [] sg pre b ds t"
    using cstr_mono [OF cstr_append [OF c] le] sg n by (simp add: subject_def)
  from scan_int_value [OF this conv, of "sc_errno st"] obtain v e where
    v: "(if conv = 117 \<or> conv = 120 \<or> conv = 111
     then do { (v, q, errno) \<leftarrow> strtoull (sc_mem st) (sc_errno st) ?s (int_base conv); Some (sint v, q, errno) }
     else strtoll (sc_mem st) (sc_errno st) ?s (int_base conv)) =
       Some (v, if ds = [] then ?s else ?s + length (sg @ pre @ ds), e)"
     "word_of_int v = int_word conv sg (digits_val b ds)" "e \<in> {sc_errno st, RT_ERANGE}"
    by blast
  let ?st = "st\<lparr>sc_p := sc_p st + 1 + length dt, sc_s := ?s\<rparr>"
  have "scan_int conv d ?st = scan_store d (int_bytes (sd_len d)) (int_word conv sg (digits_val b ds))
       (if ds = [] then ?s else ?s + length (sg @ pre @ ds)) (?st\<lparr>sc_errno := e\<rparr>)"
  proof -
    have sel: "sc_mem ?st = sc_mem st" "sc_errno ?st = sc_errno st" "sc_s ?st = ?s" by simp_all
    show ?thesis unfolding v(2) [symmetric] by (rule scan_int_ok [OF conv]) (unfold sel, rule v(1))
  qed
  moreover have "scan_turn input 37 st = scan_int conv d ?st"
    using turn_percent(1) [OF r d] sp conv by (auto simp: scan_conv_def)
  ultimately have "scan_turn input 37 st =
      scan_store d (int_bytes (sd_len d)) (int_word conv sg (digits_val b ds))
       (if ds = [] then ?s else ?s + length (sg @ pre @ ds)) (?st\<lparr>sc_errno := e\<rparr>)" by simp
  then show ?thesis using v(3) by (auto simp: Let_def)
qed

lemma go_int:
  assumes r: "ready lo input off (37 # dt @ f) (ws @ sg @ pre @ ds @ t) ap (W @ W') st"
    and d: "scan_dir_text dt d conv" and conv: "conv \<in> {100, 105, 117, 120, 111}"
    and ws: "spaces ws" and sg: "sign_text sg (pre @ ds @ t)"
    and n: "numeral_text (int_base conv) pre b ds t" and ds: "ds \<noteq> []"
    and st: "stores d (bytes_of_u64 (int_bytes (sd_len d)) (int_word conv sg (digits_val b ds))) ap W ap'"
  shows "goes lo input 37 (off + length (ws @ sg @ pre @ ds)) f t ap' W W' (sd_hit d) st"
proof -
  note R = readyD [OF r]
  obtain e where e: "e \<in> {sc_errno st, RT_ERANGE}" and turn: "scan_turn input 37 st =
      scan_store d (int_bytes (sd_len d)) (int_word conv sg (digits_val b ds))
       (sc_s st + length ws + length (sg @ pre @ ds))
       (st\<lparr>sc_p := sc_p st + 1 + length dt, sc_s := sc_s st + length ws, sc_errno := e\<rparr>)"
    using turn_int [OF r d conv ws sg n] ds by (auto simp: Let_def)
  have "cstr lo (sc_s st + length ws + length (sg @ pre @ ds)) t"
    using cstr_append [of lo "sc_s st" "ws @ sg @ pre @ ds" t] R(2) by (simp add: add.assoc)
  then show ?thesis
    using turn scan_store_ok [of d _ _ "st\<lparr>sc_p := sc_p st + 1 + length dt, sc_s := sc_s st + length ws,
        sc_errno := e\<rparr>" W ap' lo W' "sc_s st + length ws + length (sg @ pre @ ds)"]
      st R e ds turn_percent(2) [OF r d] stores_put [OF st R(6,5)]
    by (auto simp: goes_def ready_def add_converted_hit)
qed

lemma stop_int:
  assumes r: "ready lo input off (37 # dt @ f) (ws @ sg @ t) ap W st"
    and d: "scan_dir_text dt d conv" and conv: "conv \<in> {100, 105, 117, 120, 111}"
    and ws: "spaces ws" and sg: "sign_text sg t" and n: "numeral_text (int_base conv) [] b [] t"
  shows "stops input 37 [] st"
  using turn_int [of lo input off dt f ws sg "[]" "[]" t ap W st d conv b] assms
  by (auto simp: stops_def scan_store_def Let_def)

lemma first_skipped:
  assumes "ready lo input off f0 (ws @ t) ap W st" "spaces ws" "no_space t"
  shows "skip_space (sc_mem st) (sc_s st) = Some (sc_s st + length ws)"
    and "sc_mem st (sc_s st + length ws) = Some (case t of [] \<Rightarrow> 0 | c # _ \<Rightarrow> c)"
proof -
  note R = readyD [OF assms(1)]
  show "skip_space (sc_mem st) (sc_s st) = Some (sc_s st + length ws)"
    using ready_space [OF R(2,5) assms(2,3)] .
  show "sc_mem st (sc_s st + length ws) = Some (case t of [] \<Rightarrow> 0 | c # _ \<Rightarrow> c)"
    using cstr_append [OF cstr_mono [OF R(2,5)]] by (cases t) auto
qed

lemma go_percent:
  assumes r: "ready lo input off (37 # dt @ f) (ws @ 37 # t) ap W st" and d: "scan_dir_text dt d 37"
    and ws: "spaces ws"
  shows "goes lo input 37 (off + length ws + 1) f t ap [] W 0 st"
proof -
  have "no_space (37 # t)" by (simp add: isspace_def)
  then show ?thesis
    using first_skipped [OF r ws] turn_percent [OF r d] readyD [OF r]
      cstr_append [of lo "sc_s st" "ws @ [37]" t]
    by (auto simp: goes_def scan_conv_def ready_def)
qed

lemma stop_percent:
  assumes r: "ready lo input off (37 # dt @ f) (ws @ t) ap W st" and d: "scan_dir_text dt d 37"
    and ws: "spaces ws" "no_space t" and t: "first_not ((=) 37) t"
  shows "stops input 37 [] st"
  using first_skipped [OF r ws] turn_percent(1) [OF r d] t
  by (cases t) (auto simp: stops_def scan_conv_def)

lemma first_not_dropWhile: "first_not P (dropWhile P t)"
  by (induction t) (simp_all add: first_not_def)

lemma stop_unknown:
  assumes r: "ready lo input off (37 # dt @ f) t ap W st" and d: "scan_dir_text dt d conv"
    and conv: "conv \<notin> {110, 99, 115, 91, 100, 105, 117, 120, 111, 102, 101, 103, 97, 37}"
  shows "stops input 37 [] st"
proof -
  let ?p = "\<lambda>c::u8. isspace (uint c)"
  have t: "t = takeWhile ?p t @ dropWhile ?p t" by simp
  have "spaces (takeWhile ?p t)" unfolding list_all_iff by (blast dest: set_takeWhileD)
  moreover have "no_space (dropWhile ?p t)" by (rule first_not_dropWhile)
  ultimately have "skip_space (sc_mem st) (sc_s st) = Some (sc_s st + length (takeWhile ?p t))"
    using first_skipped(1) [of lo input off "37 # dt @ f" "takeWhile ?p t" "dropWhile ?p t" ap W st] r by simp
  then have "scan_conv input conv d (st\<lparr>sc_p := sc_p st + 1 + length dt\<rparr>) =
      Some (Done (st\<lparr>sc_p := sc_p st + 1 + length dt, sc_s := sc_s st + length (takeWhile ?p t)\<rparr>))"
    using conv unfolding scan_conv_def by simp
  then show ?thesis
    unfolding stops_def turn_percent(1) [OF r d] by simp
qed

section \<open>The whole format\<close>

lemmas goes_delivers_none = goes_delivers [where W = "[]" and k = 0, simplified]

lemmas goes_delivers_pos = goes_delivers [where k = 0, simplified]

lemma scans_ok:
  "scans off f t ap W n \<Longrightarrow> ready lo input off f t ap W st \<Longrightarrow> delivers input st W n"
proof (induction arbitrary: st rule: scans.induct)
  case (sc_end off t ap)
  then have "sc_mem st (sc_p st) = Some 0" using readyD [OF sc_end.prems] by (auto dest: map_le_SomeD)
  then show ?case unfolding delivers_def by (subst scan_loop.simps) simp
next
  case (sc_space c ws t off f ap W n)
  show ?case
    by (rule goes_delivers_none [OF sc_space.prems go_space [OF sc_space.prems sc_space.hyps(1-3)]
      sc_space.IH])
next
  case (sc_char c off f t ap W n)
  show ?case
    by (rule goes_delivers_none [OF sc_char.prems go_char [OF sc_char.prems sc_char.hyps(1,2)] sc_char.IH])
next
  case (sc_char_stop c t off f ap)
  show ?case
    by (rule stops_delivers [OF sc_char_stop.prems stop_char [OF sc_char_stop.prems sc_char_stop.hyps]])
next
  case (sc_pos dt d off ap W ap' f t W' n)
  show ?case
    by (rule goes_delivers_pos [OF sc_pos.prems go_pos [OF sc_pos.prems sc_pos.hyps(1,2)] sc_pos.IH])
next
  case (sc_chars dt d cs ap W ap' off f t W' n)
  show ?case
    by (rule goes_delivers [OF sc_chars.prems go_chars [OF sc_chars.prems sc_chars.hyps(1-3)] sc_chars.IH])
next
  case (sc_chars_stop dt d cs ap W ap' off f)
  show ?case
    by (rule stops_delivers [OF sc_chars_stop.prems stop_chars [OF sc_chars_stop.prems sc_chars_stop.hyps]])
next
  case (sc_word dt d ws t run ap W ap' off f W' n)
  show ?case
    by (rule goes_delivers [OF sc_word.prems go_word [OF sc_word.prems sc_word.hyps(1-6)] sc_word.IH])
next
  case (sc_word_stop dt d ws ap W ap' off f)
  show ?case
    by (rule stops_delivers [OF sc_word_stop.prems stop_word [OF sc_word_stop.prems sc_word_stop.hyps]])
next
  case (sc_set dt d st ok run t ap W ap' off f W' n)
  show ?case
    by (rule goes_delivers [OF sc_set.prems go_set [OF sc_set.prems sc_set.hyps(1-5)] sc_set.IH])
next
  case (sc_set_stop dt d st ok t ap W ap' off f)
  show ?case
    by (rule stops_delivers [OF sc_set_stop.prems stop_set [OF sc_set_stop.prems sc_set_stop.hyps]])
next
  case (sc_int dt d conv ws sg pre ds t b ap W ap' off f W' n)
  show ?case
    by (rule goes_delivers [OF sc_int.prems go_int [OF sc_int.prems sc_int.hyps(1-7)] sc_int.IH])
next
  case (sc_int_stop dt d conv ws sg t b off f ap)
  show ?case
    by (rule stops_delivers [OF sc_int_stop.prems stop_int [OF sc_int_stop.prems sc_int_stop.hyps]])
next
  case (sc_percent dt d ws off f t ap W n)
  show ?case
    by (rule goes_delivers_none [OF sc_percent.prems go_percent [OF sc_percent.prems sc_percent.hyps(1,2)]
      sc_percent.IH])
next
  case (sc_percent_stop dt d ws t off f ap)
  show ?case
    by (rule stops_delivers [OF sc_percent_stop.prems
      stop_percent [OF sc_percent_stop.prems sc_percent_stop.hyps]])
next
  case (sc_unknown dt d conv off f t ap)
  show ?case
    by (rule stops_delivers [OF sc_unknown.prems stop_unknown [OF sc_unknown.prems sc_unknown.hyps]])
qed


lemma cstr_restrict:
  assumes "cstr m p s" and "{p..p + length s} \<subseteq> A"
  shows "cstr (m |` A) p s"
proof -
  have "p + i \<in> A" if "i < length (s @ [0])" for i using assms(2) that by auto
  then show ?thesis using assms(1) by (auto simp: cstr_def bytes_at_def restrict_map_def)
qed

lemma sscanf_ok:
  assumes sc: "scans 0 f t ap W n" and f: "cstr m fmt f" and t: "cstr m input t"
    and W: "stores_ok ({fmt..fmt + length f} \<union> {input..input + length t}) m W"
  shows "\<exists>e\<in>{errno, RT_ERANGE}. sscanf m errno input fmt ap = Some (put_all m W, e, int n)"
proof -
  let ?st = "\<lparr>sc_mem = m, sc_errno = errno, sc_s = input, sc_p = fmt, sc_ap = ap, sc_converted = 0\<rparr>"
  let ?lo = "m |` ({fmt..fmt + length f} \<union> {input..input + length t})"
  have "?lo \<subseteq>\<^sub>m m" by (auto simp: map_le_def)
  moreover have "stores_ok (dom ?lo) m W" using W by (rule stores_ok_mono) auto
  moreover have "cstr ?lo fmt f" "cstr ?lo input t"
    using f t by (auto intro!: cstr_restrict)
  ultimately have "ready ?lo input 0 f t ap W ?st" by (simp add: ready_def)
  from scans_ok [OF sc this] show ?thesis by (auto simp: delivers_def sscanf_def)
qed

text \<open>
  C4. \<open>sscanf\<close> on a format of text, white space and non-floating directives with any star,
  width and length: it makes exactly the stores the format stands for, one after the other,
  stops where the input no longer matches, and returns the number of converted fields.
\<close>

theorem sscanf_reads:
  assumes "scans 0 f t ap W n" and "cstr m fmt f" and "cstr m input t"
    and "stores_ok ({fmt..fmt + length f} \<union> {input..input + length t}) m W"
  shows "\<exists>e\<in>{errno, RT_ERANGE}. sscanf m errno input fmt ap = Some (put_all m W, e, int n)"
  using assms by (rule sscanf_ok)

definition demo_text :: "u8 list" where
  "demo_text = [37, 100, 32, 37, 50, 115, 0, 45, 55, 32, 97, 98, 99, 0, 1, 1, 1, 1, 1, 1, 1]"

lemma sscanf_reads_witness:
  "\<exists>e\<in>{0, RT_ERANGE}. sscanf (mem_of 10 demo_text) 0 17 10 [24, 28] =
    Some (put_all (mem_of 10 demo_text) [(24, bytes_of_u64 4 (- 7)), (28, [97, 98, 0])], e, int 2)"
proof (rule sscanf_reads)
  define d1 where "d1 = \<lparr>sd_suppress = False, sd_has_width = False, sd_width = 0, sd_len = len_mod []\<rparr>"
  define d2 where "d2 = \<lparr>sd_suppress = False, sd_has_width = True, sd_width = 2, sd_len = len_mod []\<rparr>"
  have dt1: "scan_dir_text [100] d1 100"
    unfolding scan_dir_text_def d1_def
    by (intro exI [of _ "[]"]) (simp add: is_digit_10)
  have dt2: "scan_dir_text [50, 115] d2 115"
    unfolding scan_dir_text_def d2_def
    by (rule exI [of _ "[]"], rule exI [of _ "[50]"], rule exI [of _ "[]"])
      (simp add: is_digit_10 digits_val_def digit_nat_def digit_of_def)
  have "scans 3 (37 # [50, 115] @ []) ([] @ [97, 98, 99]) [28] ([(28, [97, 98, 0])] @ []) (sd_hit d2 + 0)"
    by (rule sc_word [OF dt2 _ _ _ _ _ sc_end, where run = "[97, 98]" and ap' = "[]"])
      (simp_all add: take_run_def d2_def stores_def isspace_def)
  then have "scans (2 + length [32 :: u8]) [37, 50, 115] [97, 98, 99] [28] [(28, [97, 98, 0])] 1"
    by (simp add: sd_hit_def d2_def)
  then have "scans 2 (32 # [37, 50, 115]) ([32] @ [97, 98, 99]) [28] [(28, [97, 98, 0])] 1"
    by (intro sc_space) (simp_all add: isspace_def)
  then have "scans (0 + length ([] @ [45] @ [] @ [55 :: u8])) [32, 37, 50, 115] [32, 97, 98, 99] [28] [(28, [97, 98, 0])] 1"
    by (simp add: numeral_2_eq_2)
  then have "scans 0 (37 # [100] @ [32, 37, 50, 115]) ([] @ [45] @ [] @ [55] @ [32, 97, 98, 99]) [24, 28]
      ([(24, bytes_of_u64 4 (- 7))] @ [(28, [97, 98, 0])]) (sd_hit d1 + 1)"
    by (intro sc_int [OF dt1, where b = 10 and ap' = "[28]"])
      (simp_all add: stores_def d1_def sign_text_def numeral_text_def int_base_def is_digit_10 int_bytes_def
        len_mod_def int_word_def signed_val_def clamp_def digits_val_def digit_nat_def digit_of_def)
  then show "scans 0 [37, 100, 32, 37, 50, 115] [45, 55, 32, 97, 98, 99] [24, 28]
      [(24, bytes_of_u64 4 (- 7)), (28, [97, 98, 0])] 2"
    by (simp add: sd_hit_def d1_def numeral_2_eq_2)
  show "cstr (mem_of 10 demo_text) 10 [37, 100, 32, 37, 50, 115]"
    "cstr (mem_of 10 demo_text) 17 [45, 55, 32, 97, 98, 99]"
    by (simp_all add: demo_text_def mem_of_def put_bytes_Cons)
  show "stores_ok ({10..10 + length [37 :: u8, 100, 32, 37, 50, 115]} \<union> {17..17 + length [45 :: u8, 55, 32, 97, 98, 99]})
      (mem_of 10 demo_text) [(24, bytes_of_u64 4 (- 7)), (28, [97, 98, 0])]"
    by (auto simp: demo_text_def mem_of_def mapped_def put_bytes_def)
qed

section \<open>Whatever the format\<close>

definition same_dom :: "mem \<Rightarrow> mem \<Rightarrow> bool" where
  "same_dom m m' \<longleftrightarrow> dom m' = dom m"

lemma same_dom_refl [simp]: "same_dom m m"
  by (simp add: same_dom_def)

lemma same_dom_trans: "same_dom a b \<Longrightarrow> same_dom b c \<Longrightarrow> same_dom a c"
  by (simp add: same_dom_def)

definition keeps :: "scan \<Rightarrow> scan \<Rightarrow> bool" where
  "keeps st st' \<longleftrightarrow> same_dom (sc_mem st) (sc_mem st') \<and> sc_converted st \<le> sc_converted st' \<and>
     sc_converted st' + int (length (sc_ap st')) \<le> sc_converted st + int (length (sc_ap st))"

lemma keeps_trans: "keeps a b \<Longrightarrow> keeps b c \<Longrightarrow> keeps a c"
  by (auto simp: keeps_def intro: same_dom_trans)

lemma st8_dom: "st8 m p b = Some m' \<Longrightarrow> same_dom m m'"
  by (auto simp: st8_def put8_def same_dom_def split: if_splits)

lemma stn_dom: "stn m p bs = Some m' \<Longrightarrow> same_dom m m'"
  by (induction bs arbitrary: m p) (auto simp: bind_eq_Some dest!: st8_dom intro: same_dom_trans)

lemma out_put_dom: "out_put m out i c = Some m' \<Longrightarrow> same_dom m m'"
  by (auto simp: out_put_def dest: st8_dom split: if_splits)

lemma scan_chars_dom: "scan_chars n m s out i = Some (m', s', fl) \<Longrightarrow> same_dom m m'"
proof (induction n arbitrary: m s i)
  case (Suc n)
  then show ?case by (auto simp: bind_eq_Some dest!: out_put_dom intro: same_dom_trans split: if_splits)
qed simp

lemma scan_run_dom': "scan_run ok d m s out i = Some r \<Longrightarrow> same_dom m (fst r)"
proof (induction rule: scan_run.raw_induct [rotated, consumes 1])
  case (1 run ok d m s out i r)
  then show ?case by (cases r) (auto simp: bind_eq_Some dest!: out_put_dom intro: same_dom_trans split: if_splits)
qed

lemma scan_run_dom: "scan_run ok d m s out i = Some (m', s', i') \<Longrightarrow> same_dom m m'"
  by (drule scan_run_dom') simp

lemma out_arg_keeps: "out_arg d ap = Some (out, ap') \<Longrightarrow> length ap = length ap' + sd_hit d"
  by (cases ap) (auto simp: out_arg_def sd_hit_def split: if_splits)

lemma va_arg_length: "va_arg ap = Some (x, ap') \<Longrightarrow> length ap = Suc (length ap')"
  by (cases ap) auto

definition next_of :: "scan_next \<Rightarrow> scan" where
  "next_of r = (case r of Go_on st \<Rightarrow> st | Done st \<Rightarrow> st)"

lemma next_of_simps [simp]: "next_of (Go_on st) = st" "next_of (Done st) = st"
  by (simp_all add: next_of_def)

lemma scan_n_keeps: "scan_n input d st = Some r \<Longrightarrow> keeps st (next_of r)"
  by (auto simp: scan_n_def keeps_def bind_eq_Some dest!: stn_dom va_arg_length split: if_splits)

lemma scan_c_keeps: "scan_c d st = Some r \<Longrightarrow> keeps st (next_of r)"
  unfolding scan_c_def Let_def
  by (auto simp: keeps_def bind_eq_Some add_converted_hit simp del: scan_chars.simps
    dest!: scan_chars_dom out_arg_keeps split: if_split_asm)

lemma scan_s_keeps: "scan_s d st = Some r \<Longrightarrow> keeps st (next_of r)"
  by (auto simp: scan_s_def keeps_def bind_eq_Some add_converted_hit
    dest!: scan_run_dom out_put_dom out_arg_keeps intro: same_dom_trans split: if_splits)

lemma scan_bracket_keeps: "scan_bracket d st = Some r \<Longrightarrow> keeps st (next_of r)"
  unfolding scan_bracket_def Let_def
  by (auto simp: keeps_def bind_eq_Some add_converted_hit
    dest!: scan_run_dom out_put_dom out_arg_keeps intro: same_dom_trans split: if_splits)

lemma scan_store_keeps: "scan_store d n w e st = Some r \<Longrightarrow> keeps st (next_of r)"
  by (auto simp: scan_store_def keeps_def bind_eq_Some Let_def add_converted_hit sd_hit_def
    dest!: stn_dom va_arg_length split: if_splits)

lemma keeps_upd [simp]:
  "keeps st (st\<lparr>sc_s := s\<rparr>)" "keeps (st\<lparr>sc_p := p\<rparr>) st' \<longleftrightarrow> keeps st st'"
  "keeps (st\<lparr>sc_s := s\<rparr>) st' \<longleftrightarrow> keeps st st'" "keeps (st\<lparr>sc_errno := e\<rparr>) st' \<longleftrightarrow> keeps st st'"
  by (simp_all add: keeps_def)

lemma scan_int_keeps: "scan_int conv d st = Some r \<Longrightarrow> keeps st (next_of r)"
  unfolding scan_int_def Let_def bind_eq_Some by (elim exE conjE) (auto dest!: scan_store_keeps)

lemma scan_float_keeps: "scan_float d st = Some r \<Longrightarrow> keeps st (next_of r)"
  unfolding scan_float_def Let_def bind_eq_Some
  by (elim exE conjE) (auto dest!: scan_store_keeps split: if_splits)

lemmas conv_keeps = scan_n_keeps scan_c_keeps scan_s_keeps scan_bracket_keeps scan_int_keeps scan_float_keeps

lemma scan_conv_keeps: "scan_conv input conv d st = Some r \<Longrightarrow> keeps st (next_of r)"
  unfolding scan_conv_def Let_def
  by (auto simp: bind_eq_Some dest!: conv_keeps split: if_split_asm)

lemma scan_turn_keeps: "scan_turn input c st = Some r \<Longrightarrow> keeps st (next_of r)"
  by (auto simp: scan_turn_def bind_eq_Some dest!: scan_conv_keeps split: if_splits)
    (simp_all add: keeps_def)

lemma scan_loop_keeps: "scan_loop input st = Some st' \<Longrightarrow> keeps st st'"
proof (induction rule: scan_loop.raw_induct [rotated, consumes 1])
  case (1 loop input st st')
  obtain c where c: "sc_mem st (sc_p st) = Some c" using 1(2) by (auto simp: bind_eq_Some)
  show ?case
  proof (cases "c = 0")
    case True
    then show ?thesis using 1(2) c by (simp add: keeps_def)
  next
    case False
    then obtain r where r: "scan_turn input c st = Some r"
        "(case r of Go_on st \<Rightarrow> loop input st | Done st \<Rightarrow> Some st) = Some st'"
      using 1(2) c by (auto simp: bind_eq_Some)
    then show ?thesis
      using scan_turn_keeps [OF r(1)] 1(1) by (cases r) (auto intro: keeps_trans)
  qed
qed


end
