(* ===== verification/ScanfProps.thy ===== *)
theory ScanfProps
  imports ScanfSpec
begin

text \<open>
  Consequences for single formats: integers printed by \<open>vsnprintf\<close> are read back, and two
  places where \<open>sscanf\<close> departs from the C standard.
\<close>

section \<open>Integers out and in\<close>

lemma bytes_of_u64_take: "take_bit (8 * n) v = take_bit (8 * n) w \<Longrightarrow> bytes_of_u64 n v = bytes_of_u64 n w"
proof (induction n arbitrary: v w)
  case (Suc n)
  have b: "bit v i = bit w i" if "i < 8 * Suc n" for i
  proof -
    have "bit (take_bit (8 * Suc n) v) i = bit (take_bit (8 * Suc n) w) i"
      using Suc.prems by (rule arg_cong)
    then show ?thesis using that by (simp only: bit_take_bit_iff simp_thms)
  qed
  have "(ucast v :: u8) = ucast w" by (rule bit_word_eqI) (simp add: bit_ucast_iff b)
  moreover have "take_bit (8 * n) (drop_bit 8 v) = take_bit (8 * n) (drop_bit 8 w)"
    by (rule bit_word_eqI) (auto simp: bit_take_bit_iff bit_drop_bit_eq b)
  then have "bytes_of_u64 n (drop_bit 8 v) = bytes_of_u64 n (drop_bit 8 w)" by (rule Suc.IH)
  ultimately show ?case by simp
qed simp

lemma wrap_s32_bytes: "bytes_of_u64 4 (word_of_int (wrap_s32 (sint x))) = bytes_of_u64 4 (x :: u64)"
proof (rule bytes_of_u64_take)
  have e: "n = 31" if "31 \<le> n" "n < 32" for n :: nat using that by simp
  show "take_bit (8 * 4) (word_of_int (wrap_s32 (sint x)) :: u64) = take_bit (8 * 4) x"
    by (intro bit_word_eqI) (auto simp: bit_simps min_def bit_sint_iff dest: e)
qed

text \<open>The decimal text of a signed number.\<close>

definition int_text :: "int \<Rightarrow> u8 list" where
  "int_text v = (if v < 0 then [45] else []) @ base_text False 10 (nat \<bar>v\<bar>)"

definition int_item :: "u8 list \<Rightarrow> item" where
  "int_item L = Conv \<lparr>d_flags = [], d_width = Digits [], d_prec = None, d_len = L, d_conv = 100\<rparr>"

lemma base_text_numeral: "n < 2 ^ 64 \<Longrightarrow> numeral_of 10 n (base_text False 10 n)"
  using rt_utoa_ok [of 10 "of_nat n" False] by (simp add: rt_utoa_text unat_of_nat_small)

lemma int_text_out:
  "set L \<subseteq> len_chars \<Longrightarrow>
   items_ok [int_item L] \<and> items_out m [int_item L] [x] = Some (int_text (signed_arg (lens L) x))"
  by (auto simp: int_item_def directive_ok_def directive_spec_def conv_chars_def conv_text_def signed_text_def
    sign_ch_def digits_arg_def no_zero_def pad_text_def opt_ch_def int_text_def FL_MINUS_def FL_PLUS_def
    FL_SPACE_def FL_ZERO_def Let_def)

lemma int_text_parts:
  assumes "\<bar>v\<bar> \<le> 2 ^ 63"
  obtains sg ds where "int_text v = sg @ ds" "sg = (if v < 0 then [45] else [])" "decimals ds" "ds \<noteq> []"
    "length ds \<le> 19" "signed_val sg (dv ds) = v" "dv ds \<le> 2 ^ 63"
proof -
  define n where "n = nat \<bar>v\<bar>"
  define ds where "ds = base_text False 10 n"
  have n: "n \<le> 2 ^ 63" using nat_mono [OF assms] by (simp add: n_def nat_power_eq)
  then have num: "numeral_of 10 n ds" unfolding ds_def by (intro base_text_numeral) simp
  have "length ds \<le> 19"
  proof (cases "n = 0")
    case True
    then show ?thesis by (simp add: ds_def base_text.simps)
  next
    case False
    from numeral_of_lower [OF num False] have "10 ^ (length ds - 1) \<le> n" by simp
    also have "\<dots> < 10 ^ 19" using n by simp
    finally have "length ds - 1 < 19" by (rule power_less_imp_less_exp [rotated]) simp
    then show ?thesis by simp
  qed
  then show ?thesis
    using that [of _ ds] num n by (simp add: numeral_of_def int_text_def ds_def n_def signed_val_def)
qed

lemma int_text_length: "\<bar>v\<bar> \<le> 2 ^ 63 \<Longrightarrow> length (int_text v) \<le> 20"
  by (elim int_text_parts) (simp split: if_splits)

lemma int_text_no_zero: "\<bar>v\<bar> \<le> 2 ^ 63 \<Longrightarrow> 0 \<notin> set (int_text v)"
  using is_digit_not_sign [of 10 0] by (elim int_text_parts) (auto simp: list_all_iff)

lemma int_text_scans:
  assumes d: "scan_dir_text dt d 100" and v: "- (2 ^ 63) \<le> v" "v < 2 ^ 63"
    and st: "stores d (bytes_of_u64 (int_bytes (sd_len d)) (word_of_int v)) ap W ap'"
  shows "scans off (37 # dt) (int_text v) ap W (sd_hit d)"
proof -
  have "\<bar>v\<bar> \<le> 2 ^ 63" using v by simp
  then obtain sg ds where t: "int_text v = sg @ ds" "sg = (if v < 0 then [45] else [])"
      and ds: "decimals ds" "ds \<noteq> []" and val: "signed_val sg (dv ds) = v"
    by (elim int_text_parts)
  have w: "int_word 100 sg (dv ds) = word_of_int v" using v by (simp add: int_word_def val clamp_def)
  have "sign_text sg ([] @ ds @ [])"
    using ds is_digit_not_sign by (cases ds) (auto simp: sign_text_def t(2))
  moreover have "numeral_text (int_base 100) [] 10 ds []"
    using ds(1) by (simp add: numeral_text_def int_base_def)
  ultimately have "scans off (37 # dt @ []) ([] @ sg @ [] @ ds @ []) ap (W @ []) (sd_hit d + 0)"
    using ds(2) st unfolding w [symmetric]
    by (intro sc_int [OF d _ _ _ _ _ _ sc_end, where ap' = ap']) simp_all
  then show ?thesis by (simp add: t(1))
qed

text \<open>The directive \<open>%d\<close>, \<open>%ld\<close> or \<open>%lld\<close> for \<open>sscanf\<close>.\<close>

definition int_dir :: "u8 list \<Rightarrow> scan_dir" where
  "int_dir L = \<lparr>sd_suppress = False, sd_has_width = False, sd_width = 0, sd_len = len_mod L\<rparr>"

lemma int_dir_text: "set L \<subseteq> {108, 104, 122, 106} \<Longrightarrow> scan_dir_text (L @ [100]) (int_dir L) 100"
  unfolding scan_dir_text_def
  by (rule exI [of _ "[]"], rule exI [of _ "[]"], rule exI [of _ L]) (auto simp: int_dir_def is_digit_10)

lemma int_arg_bytes:
  assumes "L \<in> {[], [108], [108, 108]}"
  shows "bytes_of_u64 (int_bytes (len_mod L)) (word_of_int (signed_arg (lens L) x)) =
    bytes_of_u64 (int_bytes (len_mod L)) x"
  using assms by (auto simp: int_bytes_def len_mod_def lens_def signed_arg_def wrap_s32_bytes)

text \<open>
  C5. What \<open>vsnprintf\<close> prints with \<open>%d\<close>, \<open>%ld\<close> or \<open>%lld\<close> into a buffer of at least 21
  bytes, \<open>sscanf\<close> reads back with the same format: it stores the bytes of the argument and
  returns 1.
\<close>

theorem print_scan_int:
  assumes L: "L \<in> {[], [108], [108, 108]}" and fmt: "cstr m fmt (37 # L @ [100])"
    and buf: "buf \<noteq> 0" "21 \<le> cap" "mapped m buf cap" "{fmt..fmt + length L + 2} \<inter> {buf..<buf + cap} = {}"
    and out: "out \<noteq> 0" "out < 2 ^ 64" "mapped m out (int_bytes (len_mod L))"
      "({fmt..fmt + length L + 2} \<union> {buf..<buf + cap}) \<inter> {out..<out + int_bytes (len_mod L)} = {}"
  shows "\<exists>r m1. vsnprintf m buf cap fmt [x] = Some (r, m1) \<and>
    (\<exists>e\<in>{errno, RT_ERANGE}. sscanf m1 errno buf fmt [of_nat out] =
       Some (put_bytes m1 out (bytes_of_u64 (int_bytes (len_mod L)) x), e, 1))"
proof -
  define v where "v = signed_arg (lens L) x"
  define t where "t = int_text v"
  define n where "n = int_bytes (len_mod L)"
  have v: "- (2 ^ 63) \<le> v" "v < 2 ^ 63" using signed_arg_range [of "lens L" x] by (simp_all add: v_def)
  have len: "length t \<le> 20" unfolding t_def using v by (intro int_text_length) simp
  have Lc: "set L \<subseteq> {108, 104, 122, 106}" "set L \<subseteq> len_chars" using L by (auto simp: len_chars_def)
  let ?lo = "m |` {fmt..fmt + length L + 2}"
  have lo: "cstr ?lo fmt (37 # L @ [100])" using fmt by (rule cstr_restrict) auto
  have ftxt: "concat (map item_text [int_item L]) = 37 # L @ [100]"
    by (simp add: int_item_def directive_text_def prec_text_def)
  have at: "bytes_at ?lo fmt (concat (map item_text [int_item L]) @ [0])"
    using lo unfolding ftxt cstr_def by blast
  have sub: "?lo \<subseteq>\<^sub>m m" by (auto simp: map_le_def)
  have dj: "dom ?lo \<inter> {buf..<buf + cap} = {}" using buf(4) by auto
  have its: "items_ok [int_item L]" "items_out ?lo [int_item L] [x] = Some t"
    using int_text_out [OF Lc(2), of ?lo x] by (simp_all only: t_def v_def simp_thms)
  note pr = vsnprintf_ok [OF its at sub dj buf(1) _ buf(3)]
  define m1 where "m1 = put_bytes m buf (t @ [0])"
  have pr1: "vsnprintf m buf cap fmt [x] = Some (wrap_s32 (int (length t)), m1)"
    using pr len buf(2) unfolding m1_def by simp
  have st: "stores (int_dir L) (bytes_of_u64 (int_bytes (sd_len (int_dir L))) (word_of_int v)) [of_nat out]
      [(out, bytes_of_u64 n x)] []"
    using int_arg_bytes [OF L, of x] out(2) by (simp add: stores_def int_dir_def v_def n_def unat_of_nat_small)
  have "scans 0 (37 # L @ [100]) t [of_nat out] [(out, bytes_of_u64 n x)] 1"
    using int_text_scans [OF int_dir_text [OF Lc(1)] v st, of 0] by (simp add: t_def sd_hit_def int_dir_def)
  moreover have "?lo \<subseteq>\<^sub>m m1"
    unfolding m1_def
    by (rule map_le_put [OF sub], rule disjoint_mono [OF order_refl dj]) (use len buf(2) in auto)
  then have "cstr m1 fmt (37 # L @ [100])" using lo by (rule cstr_mono [rotated])
  moreover have "0 \<notin> set t" unfolding t_def using v by (intro int_text_no_zero) simp
  then have "cstr m1 buf t" unfolding cstr_def m1_def using bytes_at_put_bytes_same by blast
  moreover have "stores_ok ({fmt..fmt + length (37 # L @ [100])} \<union> {buf..buf + length t}) m1 [(out, bytes_of_u64 n x)]"
  proof -
    have "{fmt..fmt + length (37 # L @ [100])} \<union> {buf..buf + length t} \<subseteq>
        {fmt..fmt + length L + 2} \<union> {buf..<buf + cap}"
      using len buf(2) by auto
    from disjoint_mono [OF this out(4) order_refl] show ?thesis
      using out(1,3) by (simp add: m1_def n_def)
  qed
  ultimately have "\<exists>e\<in>{errno, RT_ERANGE}. sscanf m1 errno buf fmt [of_nat out] =
      Some (put_all m1 [(out, bytes_of_u64 n x)], e, int 1)"
    by (rule sscanf_ok)
  then show ?thesis using pr1 by (auto simp: n_def)
qed

lemma print_scan_int_witness:
  "\<exists>r m1. vsnprintf (mem_of 10 ([37, 100, 0] @ replicate 40 1)) 20 21 10 [- 5] = Some (r, m1) \<and>
    (\<exists>e\<in>{0, RT_ERANGE}. sscanf m1 0 20 10 [of_nat 44] =
       Some (put_bytes m1 44 (bytes_of_u64 (int_bytes (len_mod [])) (- 5)), e, 1))"
proof (rule print_scan_int)
  have m: "mapped (mem_of 10 ([37, 100, 0 :: u8] @ replicate 40 1)) a n" if "13 \<le> a" "a + n \<le> 53" for a n
    using that by (simp add: mapped_def mem_of_def put_bytes_def)
  have l: "int_bytes (len_mod []) = 4" by (simp add: int_bytes_def len_mod_def)
  show "mapped (mem_of 10 ([37, 100, 0 :: u8] @ replicate 40 1)) 20 21"
    "mapped (mem_of 10 ([37, 100, 0 :: u8] @ replicate 40 1)) 44 (int_bytes (len_mod []))"
    using m by (simp_all add: l)
  show "({10..10 + length [] + 2} \<union> {20..<20 + 21}) \<inter> {44..<44 + int_bytes (len_mod [])} = {}"
    by (auto simp: l)
qed (auto simp: mem_of_def put_bytes_Cons)

section \<open>What the standard says otherwise\<close>

text \<open>
  An integer conversion ignores its width: with the format \<open>%<w>d\<close>, for any single
  digit \<open>w\<close>, \<open>sscanf\<close> reads the whole run of digits and not at most \<open>w\<close> of them.
\<close>

theorem int_width_ignored:
  assumes "is_digit 10 w" and "cstr m fmt [37, w, 100]"
    and "decimals ds" and "ds \<noteq> []" and "dv ds < 2 ^ 31" and "cstr m input ds"
    and "out \<noteq> 0" and "out < 2 ^ 64" and "mapped m out 4"
    and "({fmt..fmt + 3} \<union> {input..input + length ds}) \<inter> {out..<out + 4} = {}"
  shows "\<exists>e\<in>{errno, RT_ERANGE}. sscanf m errno input fmt [of_nat out] =
    Some (put_bytes m out (bytes_of_u64 4 (of_nat (dv ds))), e, 1)"
proof -
  let ?d = "\<lparr>sd_suppress = False, sd_has_width = True, sd_width = int (dv [w]), sd_len = len_mod []\<rparr>"
  let ?W = "[(out, bytes_of_u64 4 (of_nat (dv ds)))]"
  have "dv [w] < 2 ^ 31" using digit_nat_bound [OF assms(1)] by (simp add: digits_val_Cons)
  then have d: "scan_dir_text [w, 100] ?d 100"
    using assms(1) unfolding scan_dir_text_def
    by (intro exI [of _ "[]"] exI [of _ "[w]"] exI [of _ "[]"]) (simp add: is_digit_10)
  have "sign_text [] ([] @ ds @ [])"
    using assms(3,4) is_digit_not_sign by (cases ds) (auto simp: sign_text_def)
  moreover have "numeral_text (int_base 100) [] 10 ds []"
    using assms(3) by (simp add: numeral_text_def int_base_def)
  moreover have "int_word 100 [] (dv ds) = of_nat (dv ds)"
    using assms(5) by (simp add: int_word_def signed_val_def clamp_def)
  then have "stores ?d (bytes_of_u64 (int_bytes (sd_len ?d)) (int_word 100 [] (dv ds))) [of_nat out] ?W []"
    using assms(8) by (simp add: stores_def int_bytes_def len_mod_def unat_of_nat_small)
  ultimately have "scans 0 (37 # [w, 100] @ []) ([] @ [] @ [] @ ds @ []) [of_nat out] (?W @ []) (sd_hit ?d + 0)"
    using assms(4) by (intro sc_int [OF d _ _ _ _ _ _ sc_end]) simp_all
  then have "scans 0 [37, w, 100] ds [of_nat out] ?W 1" by (simp add: sd_hit_def)
  moreover have "stores_ok ({fmt..fmt + length [37, w, 100]} \<union> {input..input + length ds}) m ?W"
    using assms(7,9,10) by (simp add: numeral_3_eq_3)
  ultimately show ?thesis using sscanf_ok [OF _ assms(2,6), of "[of_nat out]" ?W 1 errno] by auto
qed

lemma int_width_ignored_witness:
  "\<exists>e\<in>{0, RT_ERANGE}. sscanf (mem_of 10 [37, 50, 100, 0, 49, 50, 51, 0, 1, 1, 1, 1]) 0 14 10 [of_nat 18] =
    Some (put_bytes (mem_of 10 [37, 50, 100, 0, 49, 50, 51, 0, 1, 1, 1, 1]) 18
      (bytes_of_u64 4 (of_nat (dv [49, 50, 51]))), e, 1)"
proof (rule int_width_ignored [where w = 50])
  show "mapped (mem_of 10 [37 :: u8, 50, 100, 0, 49, 50, 51, 0, 1, 1, 1, 1]) 18 4"
    by (simp add: mapped_def mem_of_def put_bytes_def)
qed (auto simp: mem_of_def put_bytes_Cons is_digit_10 digits_val_def digit_nat_def digit_of_def)

text \<open>
  At the end of the input \<open>sscanf\<close> returns 0 and not \<open>EOF\<close>: with an empty input, any
  format that starts with a conversion other than \<open>%n\<close>, \<open>%c\<close> and the floating ones.
\<close>

theorem empty_input_returns_zero:
  assumes "cstr m fmt (37 # dt @ f)" and "scan_dir_text dt d conv" and "conv \<notin> {110, 99, 91, 102, 101, 103, 97}"
    and "\<not> sd_suppress d \<longrightarrow> ap \<noteq> []" and "m input = Some 0"
  shows "\<exists>e\<in>{errno, RT_ERANGE}. sscanf m errno input fmt ap = Some (m, e, 0)"
proof -
  obtain W ap' where st: "stores d [] ap W ap'"
    using assms(4) by (cases "sd_suppress d"; cases ap) (auto simp: stores_def)
  have sg: "sign_text [] []" by (simp add: sign_text_def)
  have num: "numeral_text (int_base conv) [] (if conv = 105 then 10 else int_base conv) [] []"
    by (simp add: numeral_text_def int_base_def)
  consider "conv = 115" | "conv \<in> {100, 105, 117, 120, 111}" | "conv = 37"
    | "conv \<notin> {110, 99, 115, 91, 100, 105, 117, 120, 111, 102, 101, 103, 97, 37}"
    using assms(3) by blast
  then have "scans 0 (37 # dt @ f) [] ap [] 0"
  proof cases
    case 1
    then show ?thesis using sc_word_stop [OF _ _ st, of dt "[]"] assms(2) by simp
  next
    case 2
    then show ?thesis using sc_int_stop [OF assms(2) 2 _ sg num, of "[]"] by simp
  next
    case 3
    then show ?thesis using sc_percent_stop [of dt d "[]" "[]"] assms(2) by simp
  next
    case 4
    then show ?thesis using sc_unknown [OF assms(2)] by blast
  qed
  moreover have "cstr m input []" using assms(5) by simp
  ultimately show ?thesis using sscanf_ok [OF _ assms(1), of "[]" ap "[]" 0 input errno] by simp
qed

lemma empty_input_returns_zero_witness:
  "\<exists>e\<in>{0, RT_ERANGE}. sscanf (mem_of 10 [37, 100, 0]) 0 12 10 [20] = Some (mem_of 10 [37, 100, 0], e, 0)"
proof (rule empty_input_returns_zero [where dt = "[100]" and f = "[]"])
  show "scan_dir_text [100] (int_dir []) 100" using int_dir_text [of "[]"] by simp
qed (simp_all add: mem_of_def put_bytes_Cons)

end
