(* ===== verification/Ieee.thy ===== *)
theory Ieee
  imports Strtof
begin

text \<open>
  The \<open>double\<close> arithmetic of the C program: IEEE-754 binary64 on the 64 bits of a value,
  rounded to nearest with ties to even, as the SSE2 instructions of the target compute it.
  Every operation works on integers, a finite double being \<open>\<plusminus>m * 2\<^sup>e\<close>; the theorems relate it
  to the reals. The sign and the payload of a NaN that an operation makes are not specified
  by C, so all of them make the same one.
\<close>

section \<open>Doubles\<close>

type_synonym f64 = u64
type_synonym f32 = u32

definition f_sign :: "f64 \<Rightarrow> bool" where
  "f_sign x \<longleftrightarrow> 2 ^ 63 \<le> unat x"

definition f_frac :: "f64 \<Rightarrow> nat" where
  "f_frac x = unat x mod 2 ^ 52"

definition f_fin :: "f64 \<Rightarrow> bool" where
  "f_fin x \<longleftrightarrow> dbl_exp x \<noteq> 2047"

definition f_isnan :: "f64 \<Rightarrow> bool" where
  "f_isnan x \<longleftrightarrow> dbl_exp x = 2047 \<and> f_frac x \<noteq> 0"

definition f_man :: "f64 \<Rightarrow> nat" where
  "f_man x = (if dbl_exp x = 0 then f_frac x else 2 ^ 52 + f_frac x)"

definition f_ex :: "f64 \<Rightarrow> int" where
  "f_ex x = (if dbl_exp x = 0 then - 1074 else int (dbl_exp x) - 1075)"

definition f_int :: "f64 \<Rightarrow> int" where
  "f_int x = (if f_sign x then - int (f_man x) else int (f_man x))"

definition fval :: "f64 \<Rightarrow> real" where
  "fval x = of_int (f_int x) * 2 powi f_ex x"

definition f_pack :: "bool \<Rightarrow> nat \<Rightarrow> f64" where
  "f_pack s n = of_nat (if s then n + 2 ^ 63 else n)"

definition f_inf :: "bool \<Rightarrow> f64" where "f_inf s = f_pack s 0x7FF0000000000000"
definition f_zero :: "bool \<Rightarrow> f64" where "f_zero s = f_pack s 0"
definition f_nan :: f64 where "f_nan = 0x7FF8000000000000"

section \<open>Rounding\<close>

fun bit_len :: "nat \<Rightarrow> nat" where
  "bit_len n = (if n = 0 then 0 else Suc (bit_len (n div 2)))"

declare bit_len.simps [simp del]

text \<open>\<open>f_round s a b e\<close> is \<open>\<plusminus>a / b * 2\<^sup>e\<close> rounded; \<open>2\<^sup>k \<le> a / b < 2\<^sup>k\<^sup>+\<^sup>1\<close>.\<close>

definition ratio_log :: "nat \<Rightarrow> nat \<Rightarrow> int" where
  "ratio_log a b =
     (let k = int (bit_len a) - int (bit_len b)
      in if b * 2 ^ nat k \<le> a * 2 ^ nat (- k) then k else k - 1)"

definition f_round :: "bool \<Rightarrow> nat \<Rightarrow> nat \<Rightarrow> int \<Rightarrow> f64" where
  "f_round s a b e =
     (if a = 0 then f_zero s
      else let f = max (- 1074) (e + ratio_log a b - 52);
               q = rhe_div (a * 2 ^ nat (e - f)) (b * 2 ^ nat (f - e));
               n = nat (f + 1074) * 2 ^ 52 + q
           in f_pack s (min n 0x7FF0000000000000))"

section \<open>The operations\<close>

definition f_minus :: "f64 \<Rightarrow> f64" where
  "f_minus x = x XOR push_bit 63 1"

definition f_add :: "f64 \<Rightarrow> f64 \<Rightarrow> f64" where
  "f_add x y =
     (if f_isnan x \<or> f_isnan y then f_nan
      else if \<not> f_fin x then (if \<not> f_fin y \<and> f_sign x \<noteq> f_sign y then f_nan else x)
      else if \<not> f_fin y then y
      else let e = min (f_ex x) (f_ex y);
               z = f_int x * 2 ^ nat (f_ex x - e) + f_int y * 2 ^ nat (f_ex y - e)
           in f_round (if z = 0 then f_sign x \<and> f_sign y else z < 0) (nat \<bar>z\<bar>) 1 e)"

definition f_sub :: "f64 \<Rightarrow> f64 \<Rightarrow> f64" where
  "f_sub x y = f_add x (f_minus y)"

definition f_mul :: "f64 \<Rightarrow> f64 \<Rightarrow> f64" where
  "f_mul x y =
     (let s = (f_sign x \<noteq> f_sign y)
      in if f_isnan x \<or> f_isnan y then f_nan
         else if \<not> f_fin x \<or> \<not> f_fin y
              then (if f_fin x \<and> f_man x = 0 \<or> f_fin y \<and> f_man y = 0 then f_nan else f_inf s)
         else f_round s (f_man x * f_man y) 1 (f_ex x + f_ex y))"

definition f_div :: "f64 \<Rightarrow> f64 \<Rightarrow> f64" where
  "f_div x y =
     (let s = (f_sign x \<noteq> f_sign y)
      in if f_isnan x \<or> f_isnan y then f_nan
         else if \<not> f_fin x then (if \<not> f_fin y then f_nan else f_inf s)
         else if \<not> f_fin y then f_zero s
         else if f_man y = 0 then (if f_man x = 0 then f_nan else f_inf s)
         else f_round s (f_man x) (f_man y) (f_ex x - f_ex y))"

text \<open>The order of the bits, negative ones reversed, is that of the values.\<close>

definition f_key :: "f64 \<Rightarrow> int" where
  "f_key x = (if f_sign x then - int (unat x - 2 ^ 63) else int (unat x))"

definition f_lt :: "f64 \<Rightarrow> f64 \<Rightarrow> bool" where
  "f_lt x y \<longleftrightarrow> \<not> f_isnan x \<and> \<not> f_isnan y \<and> f_key x < f_key y"

definition f_le :: "f64 \<Rightarrow> f64 \<Rightarrow> bool" where
  "f_le x y \<longleftrightarrow> \<not> f_isnan x \<and> \<not> f_isnan y \<and> f_key x \<le> f_key y"

definition f_eq :: "f64 \<Rightarrow> f64 \<Rightarrow> bool" where
  "f_eq x y \<longleftrightarrow> \<not> f_isnan x \<and> \<not> f_isnan y \<and> f_key x = f_key y"

text \<open>From an integer, to an integer of a width (out of its range C leaves it undefined).\<close>

definition f_of_int :: "int \<Rightarrow> f64" where
  "f_of_int n = f_round (n < 0) (nat \<bar>n\<bar>) 1 0"

definition f_trunc :: "f64 \<Rightarrow> int" where
  "f_trunc x = sgn (f_int x) * int (f_man x * 2 ^ nat (f_ex x) div 2 ^ nat (- f_ex x))"

definition f_to_int :: "nat \<Rightarrow> f64 \<Rightarrow> int option" where
  "f_to_int w x =
     (if f_fin x \<and> - (2 ^ (w - 1)) \<le> f_trunc x \<and> f_trunc x < 2 ^ (w - 1) then Some (f_trunc x) else None)"

text \<open>A decimal literal of the source: its digits and how many follow the point.\<close>

definition f_dec :: "nat \<Rightarrow> nat \<Rightarrow> f64" where
  "f_dec n k = f_round False n (10 ^ k) 0"

text \<open>A \<open>float\<close> argument becomes a \<open>double\<close>.\<close>

definition float_to_double :: "f32 \<Rightarrow> f64" where
  "float_to_double x =
     (let s = (2 ^ 31 \<le> unat x);
          frac = unat x mod 2 ^ 23
      in if flt_exp x = 255 then (if frac = 0 then f_inf s else f_nan)
         else if flt_exp x = 0 then f_round s frac 1 (- 149)
         else f_round s (2 ^ 23 + frac) 1 (int (flt_exp x) - 150))"

section \<open>Fields\<close>

lemma unat_f_pack: "n < 2 ^ 63 \<Longrightarrow> unat (f_pack s n) = n + (if s then 2 ^ 63 else 0)"
  by (simp add: f_pack_def unat_of_nat_small)

lemma f_pack_fields:
  assumes "n < 2 ^ 63"
  shows "f_sign (f_pack s n) = s" "dbl_exp (f_pack s n) = n div 2 ^ 52" "f_frac (f_pack s n) = n mod 2 ^ 52"
proof -
  note u = unat_f_pack [OF assms, of s]
  show "f_sign (f_pack s n) = s" unfolding f_sign_def u using assms by simp
  have d: "n div 2 ^ 52 < 2 ^ 11" using assms by (simp add: div_less_iff_less_mult)
  have p: "(2::nat) ^ 63 = 2 ^ 11 * 2 ^ 52" by simp
  have "(n + 2 ^ 11 * 2 ^ 52) div 2 ^ 52 = 2 ^ 11 + n div 2 ^ (52::nat)" by (rule div_mult_self1) simp
  then have "(n + (if s then 2 ^ 63 else 0)) div 2 ^ 52 = n div 2 ^ 52 + (if s then 2 ^ 11 else 0)"
    unfolding p by (cases s) simp_all
  then show "dbl_exp (f_pack s n) = n div 2 ^ 52"
    unfolding dbl_exp_def u using d by simp
  have "(n + 2 ^ 11 * 2 ^ 52) mod 2 ^ 52 = n mod 2 ^ (52::nat)" by (rule mod_mult_self1)
  then have "(n + (if s then 2 ^ 63 else 0)) mod 2 ^ 52 = n mod 2 ^ 52"
    unfolding p by (cases s) simp_all
  then show "f_frac (f_pack s n) = n mod 2 ^ 52" unfolding f_frac_def u .
qed

lemma f_frac_less: "f_frac x < 2 ^ 52"
  by (simp add: f_frac_def)

lemma f_man_less: "f_man x < 2 ^ 53"
  using f_frac_less [of x] by (simp add: f_man_def)

lemma f_ex_range: "- 1074 \<le> f_ex x" "f_fin x \<Longrightarrow> f_ex x \<le> 971"
proof -
  have "dbl_exp x < 2 ^ 11" by (simp add: dbl_exp_def)
  then show "f_fin x \<Longrightarrow> f_ex x \<le> 971" by (simp add: f_ex_def f_fin_def)
  show "- 1074 \<le> f_ex x" by (simp add: f_ex_def)
qed

lemma f_man_ge: "f_ex x \<noteq> - 1074 \<Longrightarrow> 2 ^ 52 \<le> f_man x"
  by (auto simp: f_ex_def f_man_def)

lemma fval_abs: "\<bar>fval x\<bar> = real (f_man x) * 2 powi f_ex x"
  by (simp add: fval_def f_int_def abs_mult)

lemma fval_sign: "fval x = (if f_sign x then - 1 else 1) * (real (f_man x) * 2 powi f_ex x)"
  by (simp add: fval_def f_int_def)

lemma fval_zero_iff: "fval x = 0 \<longleftrightarrow> f_man x = 0"
  by (simp add: fval_def f_int_def)

lemma fin_not_nan [simp]: "f_fin x \<Longrightarrow> \<not> f_isnan x"
  by (simp add: f_fin_def f_isnan_def)

lemma f_inf_simps [simp]:
  "f_sign (f_inf s) = s" "\<not> f_fin (f_inf s)" "\<not> f_isnan (f_inf s)"
  using f_pack_fields [of "0x7FF0000000000000" s] by (simp_all add: f_inf_def f_fin_def f_isnan_def)

lemma f_zero_simps [simp]:
  "f_sign (f_zero s) = s" "f_fin (f_zero s)" "fval (f_zero s) = 0" "f_man (f_zero s) = 0"
  using f_pack_fields [of 0 s] by (simp_all add: f_zero_def f_fin_def fval_zero_iff f_man_def)

lemma f_nan_simps [simp]: "f_isnan f_nan" "\<not> f_fin f_nan"
  by (simp_all add: f_nan_def f_isnan_def f_fin_def dbl_exp_def f_frac_def)

text \<open>A sum of the exponent and a mantissa that may reach the hidden bit and the one above.\<close>

lemma pack_value:
  assumes Q: "Q \<le> 2 ^ 53" and f: "- 1074 \<le> f" "f \<noteq> - 1074 \<Longrightarrow> 2 ^ 52 \<le> Q"
    and n: "n = nat (f + 1074) * 2 ^ 52 + Q" "n < 0x7FF0000000000000"
  shows "f_fin (f_pack s n) \<and> f_sign (f_pack s n) = s \<and> \<bar>fval (f_pack s n)\<bar> = real Q * 2 powi f"
proof -
  define E where "E = nat (f + 1074)"
  have fE: "f = int E - 1074" using f(1) by (simp add: E_def)
  have nE: "n = E * 2 ^ 52 + Q" using n by (simp add: E_def)
  have n63: "n < 2 ^ 63" using n(2) by simp
  note p = f_pack_fields [OF n63, of s]
  have fields: "dbl_exp (f_pack s n) = e \<and> f_frac (f_pack s n) = r" if "n = e * 2 ^ 52 + r" "r < 2 ^ 52" for e r
    using that unfolding p by simp
  consider "Q < 2 ^ 52" | "2 ^ 52 \<le> Q" "Q < 2 ^ 53" | "Q = 2 ^ 53" using Q by linarith
  then show ?thesis
  proof cases
    case 1
    then have "f = - 1074" using f(2) by (metis not_le)
    then have "E = 0" by (simp add: E_def)
    then have "dbl_exp (f_pack s n) = 0 \<and> f_frac (f_pack s n) = Q" using 1 nE by (intro fields) simp_all
    then show ?thesis using \<open>f = - 1074\<close> by (simp add: f_fin_def p(1) fval_abs f_man_def f_ex_def)
  next
    case 2
    then have "dbl_exp (f_pack s n) = E + 1 \<and> f_frac (f_pack s n) = Q - 2 ^ 52"
      using nE by (intro fields) simp_all
    moreover have "E + 1 < 2047" using n 2 by (simp add: E_def)
    ultimately show ?thesis using 2 by (simp add: f_fin_def p(1) fval_abs f_man_def f_ex_def fE)
  next
    case 3
    then have "dbl_exp (f_pack s n) = E + 2 \<and> f_frac (f_pack s n) = 0"
      using nE by (intro fields) simp_all
    moreover have "E + 2 < 2047" using n 3 by (simp add: E_def)
    moreover have "(2::real) powi (1 + f) = 2 * 2 powi f" by (simp add: power_int_add)
    ultimately show ?thesis using 3 by (simp add: f_fin_def p(1) fval_abs f_man_def f_ex_def fE ac_simps)
  qed
qed

section \<open>The result of a rounding\<close>

text \<open>\<open>z\<close> is \<open>x\<close> rounded half to even to a multiple of the unit of a double of its size.\<close>

definition rounds64 :: "real \<Rightarrow> real \<Rightarrow> bool" where
  "rounds64 x z \<longleftrightarrow> (\<exists>f N. - 1074 \<le> f \<and> x < 2 powi (f + 53) \<and> (f = - 1074 \<or> 2 powi (f + 52) \<le> x) \<and>
     rounds_even (x / 2 powi f) N \<and> z = real N * 2 powi f)"

lemma bit_len_bounds: "0 < n \<Longrightarrow> 2 ^ bit_len n \<le> 2 * n \<and> n < 2 ^ bit_len n"
proof (induction n rule: bit_len.induct)
  case (1 n)
  show ?case
  proof (cases "n div 2 = 0")
    case True
    then have "n = 1" using 1 by simp
    moreover have "bit_len 0 = 0" by (subst bit_len.simps) simp
    moreover have "bit_len 1 = Suc (bit_len (1 div 2))" by (subst bit_len.simps) simp
    ultimately show ?thesis by simp
  next
    case False
    have "bit_len n = Suc (bit_len (n div 2))" using 1 by (subst bit_len.simps) simp
    moreover have "2 ^ bit_len (n div 2) \<le> 2 * (n div 2) \<and> n div 2 < 2 ^ bit_len (n div 2)"
      using False 1 by simp
    moreover have "2 * (n div 2) \<le> n" "n \<le> 2 * (n div 2) + 1" by simp_all
    ultimately show ?thesis by (simp only: power_Suc) linarith
  qed
qed

lemma bit_len_real: "0 < n \<Longrightarrow> 2 ^ bit_len n \<le> 2 * real n" "0 < n \<Longrightarrow> real n < 2 ^ bit_len n"
proof -
  assume "0 < n"
  from bit_len_bounds [OF this] have "real (2 ^ bit_len n) \<le> real (2 * n)" "real n < real (2 ^ bit_len n)"
    by (simp_all only: of_nat_le_iff of_nat_less_iff)
  then show "2 ^ bit_len n \<le> 2 * real n" "real n < 2 ^ bit_len n" by simp_all
qed

lemma powi_split: "(2::real) powi k = 2 ^ nat k / 2 ^ nat (- k)"
  by (simp add: power_int_def field_simps)

lemma ratio_log_ok:
  assumes "0 < a" "0 < b"
  shows "2 powi ratio_log a b \<le> real a / real b \<and> real a / real b < 2 powi (ratio_log a b + 1)"
proof -
  define k where "k = int (bit_len a) - int (bit_len b)"
  note a = bit_len_real [OF assms(1)] and b = bit_len_real [OF assms(2)]
  have k: "(2::real) powi k = 2 ^ bit_len a / 2 ^ bit_len b"
    by (simp add: k_def power_int_diff)
  have "real a / real b < 2 * 2 powi k"
  proof -
    have "real a * 2 ^ bit_len b < 2 ^ bit_len a * (2 * real b)"
      using a(2) b(1) assms by (intro mult_less_le_imp_less) simp_all
    then show ?thesis unfolding k using assms by (simp add: field_simps)
  qed
  then have hi: "real a / real b < 2 powi (k + 1)" by (simp add: power_int_add)
  have "2 powi k < 2 * (real a / real b)"
  proof -
    have "2 ^ bit_len a * real b < 2 * real a * 2 ^ bit_len b"
      using a(1) b(2) assms by (intro mult_le_less_imp_less) simp_all
    then show ?thesis unfolding k using assms by (simp add: field_simps)
  qed
  moreover have "2 * (2::real) powi (k - 1) = 2 powi k" by (simp add: power_int_diff)
  ultimately have lo: "2 powi (k - 1) \<le> real a / real b" by simp
  have "b * 2 ^ nat k \<le> a * 2 ^ nat (- k) \<longleftrightarrow> real (b * 2 ^ nat k) \<le> real (a * 2 ^ nat (- k))"
    by (simp only: of_nat_le_iff)
  also have "\<dots> \<longleftrightarrow> 2 powi k \<le> real a / real b"
    unfolding powi_split [of k] using assms by (simp add: field_simps)
  finally show ?thesis using hi lo by (auto simp: ratio_log_def Let_def k_def [symmetric])
qed

lemma rounds_even_ge: "rounds_even x N \<Longrightarrow> real M \<le> x \<Longrightarrow> M \<le> N"
  using rounds_even_near [of x N] by linarith

lemma double_limit:
  assumes Q: "Q \<le> 2 ^ 53" and f: "- 1074 \<le> f" "f \<noteq> - 1074 \<Longrightarrow> 2 ^ 52 \<le> Q"
  shows "nat (f + 1074) * 2 ^ 52 + Q < 0x7FF0000000000000 \<longleftrightarrow> real Q * 2 powi f < 2 powi 1024"
proof -
  have e: "(2::real) powi 1024 = 2 ^ 54 * 2 powi 970" "(2::real) powi 1024 = 2 ^ 53 * 2 powi 971"
    "(2::real) powi 1024 = 2 ^ 52 * 2 powi 972"
    using powi_plus_nat [of "num.Bit0 (num.Bit1 (num.Bit1 (num.Bit0 (num.Bit1 num.One))))" 970]
      powi_plus_nat [of "num.Bit1 (num.Bit0 (num.Bit1 (num.Bit0 (num.Bit1 num.One))))" 971]
      powi_plus_nat [of "num.Bit0 (num.Bit0 (num.Bit1 (num.Bit0 (num.Bit1 num.One))))" 972] by simp_all
  consider "f \<le> 970" | "f = 971" | "972 \<le> f" by linarith
  then show ?thesis
  proof cases
    case 1
    then have "nat (f + 1074) \<le> 2044" by simp
    then have "nat (f + 1074) * 2 ^ 52 + Q \<le> 2044 * 2 ^ 52 + 2 ^ 53" using Q by (intro add_mono mult_le_mono1)
    also have "\<dots> < 0x7FF0000000000000" by simp
    finally have n: "nat (f + 1074) * 2 ^ 52 + Q < 0x7FF0000000000000" .
    have "real Q \<le> real (2 ^ 53)" using Q by (simp only: of_nat_le_iff)
    then have "real Q * 2 powi f \<le> 2 ^ 53 * 2 powi 970"
      using powi_mono2 [OF 1] by (intro mult_mono) simp_all
    also have "\<dots> < 2 powi 1024" unfolding e(1) by (intro mult_strict_right_mono) simp_all
    finally show ?thesis using n by blast
  next
    case 2
    have "real Q * 2 powi 971 < 2 powi 1024 \<longleftrightarrow> real Q < real (2 ^ 53)"
      unfolding e(2) by (subst mult_less_cancel_right_pos) simp_all
    also have "\<dots> \<longleftrightarrow> Q < 2 ^ 53" by (simp only: of_nat_less_iff)
    finally show ?thesis using 2 by simp
  next
    case 3
    then have "2046 \<le> nat (f + 1074)" and Q1: "2 ^ 52 \<le> Q" using f by simp_all
    then have "2046 * 2 ^ 52 + 2 ^ 52 \<le> nat (f + 1074) * 2 ^ 52 + Q" by (intro add_mono mult_le_mono1)
    moreover have "0x7FF0000000000000 \<le> (2046 * 2 ^ 52 + 2 ^ 52 :: nat)" by simp
    ultimately have n: "\<not> nat (f + 1074) * 2 ^ 52 + Q < 0x7FF0000000000000" by (meson le_trans not_less)
    have "real (2 ^ 52) \<le> real Q" using Q1 by (simp only: of_nat_le_iff)
    then have "2 powi 1024 \<le> real Q * 2 powi f"
      unfolding e(3) using powi_mono2 [OF 3] by (intro mult_mono) simp_all
    then show ?thesis using n by simp
  qed
qed

lemma f_round_ok:
  assumes a: "0 < a" and b: "0 < b"
  shows "\<exists>z. rounds64 (real a / real b * 2 powi e) z \<and>
    (if z < 2 powi 1024 then f_fin (f_round s a b e) \<and> f_sign (f_round s a b e) = s \<and> \<bar>fval (f_round s a b e)\<bar> = z
     else f_round s a b e = f_inf s)"
proof -
  define x where "x = real a / real b * 2 powi e"
  define k where "k = ratio_log a b"
  define f where "f = max (- 1074) (e + k - 52)"
  define q where "q = rhe_div (a * 2 ^ nat (e - f)) (b * 2 ^ nat (f - e))"
  define n where "n = nat (f + 1074) * 2 ^ 52 + q"
  have f: "- 1074 \<le> f" "e + k - 52 \<le> f" by (simp_all add: f_def)
  have k: "2 powi k \<le> real a / real b" "real a / real b < 2 powi (k + 1)"
    using ratio_log_ok [OF a b] by (simp_all add: k_def)
  have "x < 2 powi (k + 1) * 2 powi e" unfolding x_def using k(2) by (intro mult_strict_right_mono) simp_all
  also have "\<dots> = 2 powi (e + k - 52 + 53)" by (simp add: power_int_add flip: power_int_numeral)
  also have "\<dots> \<le> 2 powi (f + 53)" using f(2) by (intro powi_mono2) simp
  finally have hi: "x < 2 powi (f + 53)" .
  have lo: "2 powi (f + 52) \<le> x" if "f \<noteq> - 1074"
  proof -
    have "f + 52 = k + e" using that by (simp add: f_def max_def split: if_splits)
    then have "(2::real) powi (f + 52) = 2 powi k * 2 powi e" by (simp add: power_int_add)
    also have "\<dots> \<le> x" unfolding x_def using k(1) by (intro mult_right_mono) simp_all
    finally show ?thesis .
  qed
  have "(2::real) powi (e - f) = 2 ^ nat (e - f) / 2 ^ nat (f - e)" using powi_split [of "e - f"] by simp
  moreover have "x / 2 powi f = real a / real b * 2 powi (e - f)" by (simp add: x_def power_int_diff)
  ultimately have "x / 2 powi f = real (a * 2 ^ nat (e - f)) / real (b * 2 ^ nat (f - e))" by simp
  then have r: "rounds_even (x / 2 powi f) q"
    unfolding q_def using rhe_div_even [of "b * 2 ^ nat (f - e)" "a * 2 ^ nat (e - f)"] b by simp
  have Q: "q \<le> 2 ^ 53"
  proof -
    have "x / 2 powi f < 2 ^ 53" using hi by (simp add: power_int_add field_simps)
    then have "real q < real (2 ^ 53) + 1" using rounds_even_near [OF r] by simp
    then show ?thesis by linarith
  qed
  have Q52: "2 ^ 52 \<le> q" if "f \<noteq> - 1074"
  proof -
    have "real (2 ^ 52) \<le> x / 2 powi f" using lo [OF that] by (simp add: power_int_add field_simps)
    from rounds_even_ge [OF r this] show ?thesis .
  qed
  have res: "f_round s a b e = f_pack s (min n 0x7FF0000000000000)"
    using a by (simp add: f_round_def Let_def f_def k_def q_def n_def)
  have "rounds64 x (real q * 2 powi f)"
    unfolding rounds64_def using f(1) hi lo r by blast
  moreover have "n < 0x7FF0000000000000 \<longleftrightarrow> real q * 2 powi f < 2 powi 1024"
    unfolding n_def using Q f(1) Q52 by (rule double_limit)
  ultimately show ?thesis
    unfolding x_def [symmetric] using pack_value [OF Q f(1) Q52 n_def]
    by (intro exI [of _ "real q * 2 powi f"]) (auto simp: res f_inf_def)
qed

section \<open>Exact results\<close>

definition representable :: "real \<Rightarrow> bool" where
  "representable v \<longleftrightarrow> \<bar>v\<bar> < 2 powi 1024 \<and>
     (\<exists>N f. \<bar>v\<bar> = real N * 2 powi f \<and> N < 2 ^ 53 \<and> - 1074 \<le> f)"

lemma rounds_even_int: "rounds_even (real M) N \<Longrightarrow> N = M"
  using rounds_even_near [of "real M" N] by linarith

lemma powi_times_pow: "a \<le> b \<Longrightarrow> (2::real) powi b = 2 ^ nat (b - a) * 2 powi a"
  using power_int_add [of "2::real" "b - a" a] by (simp add: power_int_def)

lemma rounds64_ge:
  assumes "rounds64 x z" and v: "real N * 2 powi e \<le> x" "N < 2 ^ 53" "- 1074 \<le> e"
  shows "real N * 2 powi e \<le> z"
proof -
  obtain f M where f: "- 1074 \<le> f" "f = - 1074 \<or> 2 powi (f + 52) \<le> x"
    and M: "rounds_even (x / 2 powi f) M" and z: "z = real M * 2 powi f"
    using assms(1) by (auto simp: rounds64_def)
  show ?thesis
  proof (cases "f \<le> e")
    case True
    then have e: "real N * 2 powi e = real (N * 2 ^ nat (e - f)) * 2 powi f"
      by (simp add: powi_times_pow)
    have "real (N * 2 ^ nat (e - f)) \<le> x / 2 powi f"
      using v(1) unfolding e by (simp add: field_simps)
    from rounds_even_ge [OF M this] have "real (N * 2 ^ nat (e - f)) \<le> real M" by (simp only: of_nat_le_iff)
    then show ?thesis unfolding e z by (intro mult_right_mono) simp_all
  next
    case False
    then have x: "2 powi (f + 52) \<le> x" using f v(3) by auto
    have "real N < real (2 ^ 53)" using v(2) by (simp only: of_nat_less_iff)
    then have "real N * 2 powi e \<le> 2 ^ 53 * 2 powi e" by (intro mult_right_mono) simp_all
    also have "\<dots> \<le> 2 ^ 53 * 2 powi (f - 1)" using False by (intro mult_left_mono powi_mono2) simp_all
    also have "\<dots> = real (2 ^ 52) * 2 powi f" by (simp add: power_int_diff)
    also have "\<dots> \<le> z"
    proof -
      have "real (2 ^ 52) \<le> x / 2 powi f" using x by (simp add: power_int_add field_simps)
      from rounds_even_ge [OF M this] have "real (2 ^ 52) \<le> real M" by (simp only: of_nat_le_iff)
      then show ?thesis unfolding z by (intro mult_right_mono) simp_all
    qed
    finally show ?thesis .
  qed
qed

lemma rounds64_exact:
  assumes "rounds64 (real N * 2 powi e) z" and v: "N < 2 ^ 53" "- 1074 \<le> e"
  shows "z = real N * 2 powi e"
proof -
  let ?x = "real N * 2 powi e"
  obtain f M where f: "- 1074 \<le> f" "f = - 1074 \<or> 2 powi (f + 52) \<le> ?x"
    and M: "rounds_even (?x / 2 powi f) M" and z: "z = real M * 2 powi f"
    using assms(1) by (auto simp: rounds64_def)
  have "f \<le> e"
  proof (rule ccontr)
    assume "\<not> f \<le> e"
    then have x: "2 powi (f + 52) \<le> ?x" "e + 53 \<le> f + 52" using f v(2) by auto
    have "real N < real (2 ^ 53)" using v(1) by (simp only: of_nat_less_iff)
    then have "?x < 2 powi (e + 53)" by (simp add: power_int_add)
    also have "\<dots> \<le> 2 powi (f + 52)" using x(2) by (rule powi_mono2)
    finally show False using x(1) by simp
  qed
  then have x: "?x = real (N * 2 ^ nat (e - f)) * 2 powi f" by (simp add: powi_times_pow)
  have "?x / 2 powi f = real (N * 2 ^ nat (e - f))" unfolding x by simp
  then have "M = N * 2 ^ nat (e - f)" using M rounds_even_int by metis
  then show ?thesis unfolding x z by simp
qed

text \<open>\<open>f_result v r\<close>: \<open>r\<close> is the double that an operation with the real result \<open>v\<close> gives.\<close>

definition f_result :: "real \<Rightarrow> f64 \<Rightarrow> bool" where
  "f_result v r \<longleftrightarrow>
     (if v = 0 then f_fin r \<and> fval r = 0
      else \<exists>z. rounds64 \<bar>v\<bar> z \<and>
        (if z < 2 powi 1024 then f_fin r \<and> f_sign r = (v < 0) \<and> \<bar>fval r\<bar> = z else r = f_inf (v < 0)))"

lemma fval_of_abs: "\<bar>fval r\<bar> = \<bar>v\<bar> \<Longrightarrow> v \<noteq> 0 \<Longrightarrow> f_sign r = (v < 0) \<Longrightarrow> fval r = v"
proof -
  assume a: "\<bar>fval r\<bar> = \<bar>v\<bar>" "v \<noteq> 0" "f_sign r = (v < 0)"
  define t where "t = real (f_man r) * 2 powi f_ex r"
  have "0 \<le> t" by (simp add: t_def)
  then show ?thesis using a fval_sign [of r] unfolding t_def [symmetric] by (auto simp: abs_if split: if_splits)
qed

lemma f_result_exact: "f_result v r \<Longrightarrow> representable v \<Longrightarrow> f_fin r \<and> fval r = v"
proof (cases "v = 0")
  case False
  assume "f_result v r" and rep: "representable v"
  then obtain z where z: "rounds64 \<bar>v\<bar> z"
      "if z < 2 powi 1024 then f_fin r \<and> f_sign r = (v < 0) \<and> \<bar>fval r\<bar> = z else r = f_inf (v < 0)"
    using False by (auto simp: f_result_def)
  obtain N f where N: "\<bar>v\<bar> = real N * 2 powi f" "N < 2 ^ 53" "- 1074 \<le> f"
    using rep by (auto simp: representable_def)
  have zv: "z = \<bar>v\<bar>" using rounds64_exact [of N f z] z(1) N by simp
  moreover have "z < 2 powi 1024" using rep zv by (simp only: representable_def)
  ultimately have "f_fin r" "f_sign r = (v < 0)" "\<bar>fval r\<bar> = \<bar>v\<bar>" using z(2) by (simp_all only: if_True simp_thms)
  then show ?thesis using fval_of_abs False by blast
qed (simp add: f_result_def)

lemma f_round_result:
  assumes b: "0 < b" and v: "v = (if s then - 1 else 1) * (real a / real b * 2 powi e)"
  shows "f_result v (f_round s a b e)"
proof (cases "a = 0")
  case True
  then show ?thesis using v by (simp add: f_result_def f_round_def)
next
  case False
  define t where "t = real a / real b * 2 powi e"
  have "0 < t" using False b by (simp add: t_def)
  then have t: "\<bar>v\<bar> = t" "v \<noteq> 0" "(v < 0) = s" unfolding v t_def [symmetric] by auto
  obtain z where "rounds64 t z" "if z < 2 powi 1024
      then f_fin (f_round s a b e) \<and> f_sign (f_round s a b e) = s \<and> \<bar>fval (f_round s a b e)\<bar> = z
      else f_round s a b e = f_inf s"
    using f_round_ok [of a b e s] False b unfolding t_def by auto
  then show ?thesis unfolding f_result_def t using t(2) by (simp only: if_False) blast
qed

section \<open>The operations on finite doubles\<close>

lemma align:
  assumes "e \<le> f_ex x"
  shows "fval x = of_int (f_int x * 2 ^ nat (f_ex x - e)) * 2 powi e"
  using powi_times_pow [OF assms] by (simp add: fval_def)

lemma f_add_result:
  assumes "f_fin x" "f_fin y"
  shows "f_result (fval x + fval y) (f_add x y)"
proof -
  define e where "e = min (f_ex x) (f_ex y)"
  define z where "z = f_int x * 2 ^ nat (f_ex x - e) + f_int y * 2 ^ nat (f_ex y - e)"
  define s where "s = (if z = 0 then f_sign x \<and> f_sign y else z < 0)"
  have "fval x + fval y = of_int z * 2 powi e"
    using align [of e x] align [of e y] by (simp add: e_def z_def distrib_right)
  also have "of_int z = (if s then - 1 else 1) * (real (nat \<bar>z\<bar>) / real 1)"
    by (simp add: s_def)
  finally have v: "fval x + fval y = (if s then - 1 else 1) * (real (nat \<bar>z\<bar>) / real 1 * 2 powi e)"
    by simp
  have r: "f_add x y = f_round s (nat \<bar>z\<bar>) 1 e"
    using assms by (simp add: f_add_def Let_def e_def z_def s_def)
  show ?thesis unfolding r by (rule f_round_result [OF _ v]) simp
qed

lemma f_mul_result:
  assumes "f_fin x" "f_fin y"
  shows "f_result (fval x * fval y) (f_mul x y)"
proof -
  have v: "fval x * fval y = (if f_sign x \<noteq> f_sign y then - 1 else 1) *
      (real (f_man x * f_man y) / real 1 * 2 powi (f_ex x + f_ex y))"
    by (simp add: fval_sign power_int_add)
  have r: "f_mul x y = f_round (f_sign x \<noteq> f_sign y) (f_man x * f_man y) 1 (f_ex x + f_ex y)"
    using assms by (simp add: f_mul_def)
  show ?thesis unfolding r by (rule f_round_result [OF _ v]) simp
qed

lemma f_div_result:
  assumes "f_fin x" "f_fin y" "fval y \<noteq> 0"
  shows "f_result (fval x / fval y) (f_div x y)"
proof -
  have v: "fval x / fval y = (if f_sign x \<noteq> f_sign y then - 1 else 1) *
      (real (f_man x) / real (f_man y) * 2 powi (f_ex x - f_ex y))"
    by (simp add: fval_sign power_int_diff)
  have m: "f_man y \<noteq> 0" using assms(3) by (simp add: fval_zero_iff)
  then have r: "f_div x y = f_round (f_sign x \<noteq> f_sign y) (f_man x) (f_man y) (f_ex x - f_ex y)"
    using assms by (simp add: f_div_def)
  show ?thesis unfolding r by (rule f_round_result [OF _ v]) (use m in simp)
qed

lemma f_of_int_result: "f_result (of_int n) (f_of_int n)"
  unfolding f_of_int_def by (rule f_round_result) simp_all

text \<open>The sign bit.\<close>

lemma f_pack_id: "f_pack (f_sign x) (unat x mod 2 ^ 63) = x"
proof -
  have "unat x < 2 * 2 ^ 63" using unsigned_less [of x] by simp
  then have "unat x mod 2 ^ 63 + (if f_sign x then 2 ^ 63 else 0) = unat x"
    by (auto simp: f_sign_def mod_if)
  then have "unat (f_pack (f_sign x) (unat x mod 2 ^ 63)) = unat x" by (subst unat_f_pack) simp_all
  then show ?thesis unfolding word_unat_eq_iff .
qed

lemma f_pack_cases:
  obtains s n where "x = f_pack s n" "n < 2 ^ 63"
  using f_pack_id [of x] by (metis mod_less_divisor zero_less_numeral zero_less_power)

lemma xor_top:
  assumes "unat w < 2 ^ 63"
  shows "w XOR push_bit 63 1 = w OR push_bit 63 (1 :: u64)"
proof (rule bit_word_eqI)
  define k :: nat where "k = 63"
  fix i
  have "take_bit k w = w"
    using assms by (simp add: k_def word_unat_eq_iff unsigned_take_bit_eq take_bit_nat_eq_self)
  then have "\<not> bit w k" by (metis bit_take_bit_iff less_irrefl)
  then show "bit (w XOR push_bit 63 1) i \<longleftrightarrow> bit (w OR push_bit 63 1) i"
    unfolding k_def [symmetric] by (auto simp: bit_xor_iff bit_or_iff bit_exp_iff)
qed

lemma f_minus_pack: "n < 2 ^ 63 \<Longrightarrow> f_minus (f_pack s n) = f_pack (\<not> s) n"
proof -
  assume n: "n < 2 ^ 63"
  have u: "unat (of_nat n :: u64) = n" using n by (simp add: unat_of_nat_small)
  then have t: "f_pack True n = of_nat n OR push_bit 63 1"
    using or_hidden_bit [of "of_nat n" 63] n by (simp add: word_unat_eq_iff unat_f_pack)
  have x: "of_nat n XOR push_bit 63 1 = of_nat n OR push_bit 63 (1 :: u64)"
    using n u by (intro xor_top) simp
  show ?thesis
  proof (cases s)
    case True
    have "f_minus (f_pack True n) = (of_nat n XOR push_bit 63 1) XOR push_bit 63 1"
      unfolding f_minus_def t x ..
    also have "\<dots> = of_nat n" by (simp only: xor.assoc xor_self_eq xor.right_neutral)
    finally show ?thesis using True by (simp add: f_pack_def)
  next
    case False
    then show ?thesis using t x by (simp add: f_minus_def f_pack_def)
  qed
qed

lemma f_minus_fields [simp]:
  "f_sign (f_minus x) \<longleftrightarrow> \<not> f_sign x" "dbl_exp (f_minus x) = dbl_exp x" "f_frac (f_minus x) = f_frac x"
  by (cases x rule: f_pack_cases; simp add: f_minus_pack f_pack_fields)+

lemma f_minus_simps [simp]:
  "f_fin (f_minus x) = f_fin x" "f_isnan (f_minus x) = f_isnan x" "f_man (f_minus x) = f_man x"
  "f_ex (f_minus x) = f_ex x" "fval (f_minus x) = - fval x"
  by (simp_all add: f_fin_def f_isnan_def f_man_def f_ex_def fval_sign)

lemma f_sub_result: "f_fin x \<Longrightarrow> f_fin y \<Longrightarrow> f_result (fval x - fval y) (f_sub x y)"
  using f_add_result [of x "f_minus y"] by (simp add: f_sub_def)

section \<open>The order\<close>

text \<open>The magnitude grows with the bits below the sign.\<close>

definition mag :: "nat \<Rightarrow> real" where
  "mag n = (let e = n div 2 ^ 52; r = n mod 2 ^ 52
     in if e = 0 then real r * 2 powi - 1074 else (2 ^ 52 + real r) * 2 powi (int e - 1075))"

lemma fval_pack: "n < 2 ^ 63 \<Longrightarrow> fval (f_pack s n) = (if s then - mag n else mag n)"
  by (simp add: fval_sign f_pack_fields f_man_def f_ex_def mag_def Let_def)

lemma mag_mono: "m < n \<Longrightarrow> mag m < mag n"
proof -
  assume mn: "m < n"
  define e r where "e = m div 2 ^ 52" and "r = m mod 2 ^ 52"
  define e' r' where "e' = n div 2 ^ 52" and "r' = n mod 2 ^ 52"
  have r: "real r < 2 ^ 52" unfolding r_def by (metis mod_less_divisor of_nat_less_numeral_power_cancel_iff zero_less_numeral zero_less_power of_nat_numeral)
  have m: "m = e * 2 ^ 52 + r" and n: "n = e' * 2 ^ 52 + r'" by (simp_all add: e_def r_def e'_def r'_def)
  have le: "e \<le> e'" unfolding e_def e'_def using mn by (intro div_le_mono) simp
  show ?thesis
  proof (cases "e = e'")
    case True
    then have "r < r'" using mn m n by simp
    then show ?thesis
      unfolding mag_def Let_def e_def [symmetric] r_def [symmetric] e'_def [symmetric] r'_def [symmetric]
      using True by simp
  next
    case False
    have "(if e = 0 then real r * 2 powi - 1074 else (2 ^ 52 + real r) * 2 powi (int e - 1075)) <
        2 ^ 52 * 2 powi (int e' - 1075)"
    proof (cases "e = 0")
      case True
      have "real r * 2 powi - 1074 < 2 ^ 52 * 2 powi - 1074" using r by (intro mult_strict_right_mono) simp_all
      also have "\<dots> \<le> 2 ^ 52 * 2 powi (int e' - 1075)"
        using False True le by (intro mult_left_mono powi_mono2) simp_all
      finally show ?thesis using True by simp
    next
      case e: False
      have "(2 ^ 52 + real r) * 2 powi (int e - 1075) < 2 ^ 53 * 2 powi (int e - 1075)"
        using r by (intro mult_strict_right_mono) simp_all
      also have "\<dots> = 2 ^ 52 * 2 powi (int e + 1 - 1075)" by (simp add: power_int_diff power_int_add)
      also have "\<dots> \<le> 2 ^ 52 * 2 powi (int e' - 1075)"
        using False le by (intro mult_left_mono powi_mono2) simp_all
      finally show ?thesis using e by simp
    qed
    also have "\<dots> \<le> (2 ^ 52 + real r') * 2 powi (int e' - 1075)" by (intro mult_right_mono) simp_all
    finally show ?thesis
      unfolding mag_def Let_def e_def [symmetric] r_def [symmetric] e'_def [symmetric] r'_def [symmetric]
      using False le by simp
  qed
qed

lemma mag_0 [simp]: "mag 0 = 0"
  by (simp add: mag_def)

lemma mag_le_iff: "mag m \<le> mag n \<longleftrightarrow> m \<le> n" "mag m < mag n \<longleftrightarrow> m < n"
  using mag_mono by (metis less_le not_less order.strict_iff_not nless_le)+

lemma f_key_pack: "n < 2 ^ 63 \<Longrightarrow> f_key (f_pack s n) = (if s then - int n else int n)"
  by (simp add: f_key_def f_pack_fields unat_f_pack)

lemma key_le_iff: "f_key x \<le> f_key y \<longleftrightarrow> fval x \<le> fval y"
proof -
  obtain s m where x: "x = f_pack s m" "m < 2 ^ 63" by (rule f_pack_cases)
  obtain t n where y: "y = f_pack t n" "n < 2 ^ 63" by (rule f_pack_cases)
  have nn: "0 \<le> mag k" for k using mag_le_iff(1) [of 0 k] by simp
  have z: "mag k = 0 \<longleftrightarrow> k = 0" for k using mag_le_iff(2) [of 0 k] nn [of k] by fastforce
  show ?thesis
    unfolding x(1) y(1) f_key_pack [OF x(2)] f_key_pack [OF y(2)] fval_pack [OF x(2)] fval_pack [OF y(2)]
    using nn [of m] nn [of n] mag_le_iff [of m n] mag_le_iff [of n m] z [of m] z [of n]
    by (cases s; cases t) (auto; linarith)+
qed

lemma f_le_iff: "f_fin x \<Longrightarrow> f_fin y \<Longrightarrow> f_le x y \<longleftrightarrow> fval x \<le> fval y"
  by (simp add: f_le_def key_le_iff)

lemma f_lt_iff: "f_fin x \<Longrightarrow> f_fin y \<Longrightarrow> f_lt x y \<longleftrightarrow> fval x < fval y"
  using key_le_iff [of y x] by (auto simp: f_lt_def)

lemma f_eq_iff: "f_fin x \<Longrightarrow> f_fin y \<Longrightarrow> f_eq x y \<longleftrightarrow> fval x = fval y"
  using key_le_iff [of y x] key_le_iff [of x y] by (auto simp: f_eq_def)

end
