(* ===== verification/RtMath.thy ===== *)
theory RtMath
  imports Ieee
begin

text \<open>
  \<open>rt_math.c\<close>: the functions of \<open><math.h>\<close>. A \<open>double\<close> is its bits, so \<open>rt_bits\<close> and
  \<open>rt_from_bits\<close> are the identity; its arithmetic is that of theory \<open>Ieee\<close>, and a decimal
  literal is the double nearest to it. Functions that convert a double to an integer type, or
  recurse, return an option: \<open>None\<close> is a conversion outside the range of the type. The
  names of HOL's own \<open>floor\<close>, \<open>sqrt\<close>, \<open>exp\<close> and so on get the suffix \<open>_d\<close>.
\<close>

section \<open>Constants and classification\<close>

definition RT_PI :: f64 where "RT_PI = f_dec 314159265358979323846 20"
definition RT_LN2_HI :: f64 where "RT_LN2_HI = f_dec 693147180369123816490 21"
definition RT_LN2_LO :: f64 where "RT_LN2_LO = f_dec 190821492927058770002 30"
definition RT_INV_LN2 :: f64 where "RT_INV_LN2 = f_dec 144269504088896338700 20"

definition rt_inf :: f64 where "rt_inf = 0x7FF0000000000000"
definition rt_nan :: f64 where "rt_nan = 0x7FF8000000000000"

definition isnan :: "f64 \<Rightarrow> bool" where
  "isnan b \<longleftrightarrow> drop_bit 52 b AND 0x7FF = 0x7FF \<and> b AND 0xFFFFFFFFFFFFF \<noteq> 0"

definition finite_d :: "f64 \<Rightarrow> bool" where
  "finite_d b \<longleftrightarrow> drop_bit 52 b AND 0x7FF \<noteq> 0x7FF"

definition fabs :: "f64 \<Rightarrow> f64" where
  "fabs b = b AND NOT (push_bit 63 1)"

definition copysign :: "f64 \<Rightarrow> f64 \<Rightarrow> f64" where
  "copysign x y = (x AND NOT (push_bit 63 1)) OR (y AND push_bit 63 1)"

text \<open>A \<open>float\<close> version converts its argument and its result.\<close>

definition float_fn :: "(f64 \<Rightarrow> f64) \<Rightarrow> f32 \<Rightarrow> f32" where
  "float_fn g x = double_to_float (g (float_to_double x))"

definition float_fn_opt :: "(f64 \<Rightarrow> f64 option) \<Rightarrow> f32 \<Rightarrow> f32 option" where
  "float_fn_opt g x = map_option double_to_float (g (float_to_double x))"

definition fabsf :: "f32 \<Rightarrow> f32" where "fabsf = float_fn fabs"

section \<open>Rounding to an integer\<close>

abbreviation one :: f64 where "one \<equiv> f_of_int 1"
abbreviation zero :: f64 where "zero \<equiv> f_of_int 0"

definition floor_d :: "f64 \<Rightarrow> f64" where
  "floor_d b =
     (let e = uint (drop_bit 52 b AND 0x7FF) - 1023
      in if e \<ge> 52 \<or> isnan b then b
         else if e < 0
              then (if f_eq b zero then b else if drop_bit 63 b \<noteq> 0 then f_minus one else zero)
         else let frac_mask = push_bit (nat (52 - e)) 1 - 1
              in if b AND frac_mask = 0 then b
                 else if drop_bit 63 b \<noteq> 0 then f_sub (b AND NOT frac_mask) one
                 else b AND NOT frac_mask)"

definition ceil :: "f64 \<Rightarrow> f64" where
  "ceil x = f_minus (floor_d (f_minus x))"

definition trunc :: "f64 \<Rightarrow> f64" where
  "trunc x = (if f_lt x zero then f_minus (floor_d (f_minus x)) else floor_d x)"

definition round_d :: "f64 \<Rightarrow> f64" where
  "round_d x = (let f = floor_d x in if f_le (f_dec 5 1) (f_sub x f) then f_add f one else f)"

definition nearbyint :: "f64 \<Rightarrow> f64" where
  "nearbyint x = round_d x"

text \<open>\<open>*ip\<close> is the first result.\<close>

definition modf :: "f64 \<Rightarrow> f64 \<times> f64" where
  "modf x = (let i = trunc x
     in (i, if \<not> finite_d x then (if isnan x then x else zero) else f_sub x i))"

section \<open>Remainder\<close>

partial_function (option) fmod_scale :: "f64 \<Rightarrow> f64 \<Rightarrow> f64 option" where
  [code]: "fmod_scale ax d = (if f_le d (f_sub ax d) then fmod_scale ax (f_add d d) else Some d)"

partial_function (option) fmod_loop :: "f64 \<Rightarrow> f64 \<Rightarrow> f64 option" where
  [code]: "fmod_loop ax ay =
     (if f_le ay ax
      then do { d \<leftarrow> fmod_scale ax ay; fmod_loop (f_sub ax d) ay }
      else Some ax)"

definition fmod :: "f64 \<Rightarrow> f64 \<Rightarrow> f64 option" where
  "fmod x y =
     (let ax = fabs x; ay = fabs y
      in if f_eq y zero \<or> \<not> finite_d x \<or> isnan y then Some rt_nan
         else if \<not> finite_d y then Some (if isnan y then y else x)
         else if f_lt ax ay then Some x
         else do { ax \<leftarrow> fmod_loop ax ay; Some (if f_lt x zero then f_minus ax else ax) })"

section \<open>Exponents\<close>

text \<open>\<open>*eout\<close> is the second result.\<close>

partial_function (option) frexp :: "f64 \<Rightarrow> (f64 \<times> int) option" where
  [code]: "frexp b =
     (let e = uint (drop_bit 52 b AND 0x7FF)
      in if e = 0x7FF \<or> f_eq b zero then Some (b, 0)
         else if e = 0
              then do { (m, eout) \<leftarrow> frexp (f_mul b (f_of_int 18446744073709551616));
                        Some (m, eout - 64) }
         else Some ((b AND 0x800FFFFFFFFFFFFF) OR 0x3FE0000000000000, e - 1022))"

function ldexp_up :: "f64 \<Rightarrow> int \<Rightarrow> f64 \<times> int" where
  "ldexp_up x n = (if n > 1023 then ldexp_up (f_mul x (push_bit 52 2046)) (n - 1023) else (x, n))"
  by pat_completeness auto
termination
  by (relation "measure (\<lambda>(x, n). nat n)") auto

function ldexp_down :: "f64 \<Rightarrow> int \<Rightarrow> f64 \<times> int" where
  "ldexp_down x n = (if n < - 1074 then ldexp_down (f_mul x 1) (n + 1074) else (x, n))"
  by pat_completeness auto
termination
  by (relation "measure (\<lambda>(x, n). nat (- n))") auto

declare ldexp_up.simps [simp del] ldexp_down.simps [simp del]

definition ldexp :: "f64 \<Rightarrow> int \<Rightarrow> f64" where
  "ldexp x n =
     (let (x, n) = ldexp_up x n;
          (x, n) = ldexp_down x n
      in if n \<ge> - 1022 then f_mul x (push_bit 52 (word_of_int (1023 + n)))
         else let x = f_mul x (push_bit 52 (word_of_int (1023 - 1022)));
                  n = n + 1022
              in f_mul x (push_bit 52 (word_of_int (1023 + n))))"

definition ldexpf :: "f32 \<Rightarrow> int \<Rightarrow> f32" where
  "ldexpf x n = double_to_float (ldexp (float_to_double x) n)"

definition frexpf :: "f32 \<Rightarrow> (f32 \<times> int) option" where
  "frexpf x = map_option (\<lambda>(m, e). (double_to_float m, e)) (frexp (float_to_double x))"

section \<open>Square root\<close>

definition rt_make_from_mant :: "u64 \<Rightarrow> int \<Rightarrow> f64" where
  "rt_make_from_mant m e =
     (let biased = e + 1075
      in if biased \<le> 0 \<or> biased \<ge> 0x7FF then ldexp (f_of_int (uint m)) e
         else push_bit 52 (word_of_int biased) OR (m AND 0xFFFFFFFFFFFFF))"

definition rt_sq128 :: "u64 \<Rightarrow> u64 \<times> u64" where
  "rt_sq128 v =
     (let a = drop_bit 32 v;
          c = v AND 0xFFFFFFFF;
          cross = a * c;
          l = c * c;
          h = a * a;
          l2 = l + push_bit 33 cross;
          h = (if l2 < l then h + 1 else h)
      in (h + drop_bit 31 cross, l2))"

text \<open>\<open>i\<close> counts the bits still to try, from 54 down.\<close>

fun sqrt_loop :: "nat \<Rightarrow> u64 \<Rightarrow> u64 \<Rightarrow> u64 \<Rightarrow> u64" where
  "sqrt_loop 0 target_hi target_lo rt = rt"
| "sqrt_loop (Suc i) target_hi target_lo rt =
     (let cand = rt OR push_bit i 1;
          (t_hi, t_lo) = rt_sq128 cand
      in sqrt_loop i target_hi target_lo
           (if t_hi < target_hi \<or> t_hi = target_hi \<and> t_lo \<le> target_lo then cand else rt))"

definition sqrt_normal :: "u64 \<Rightarrow> int \<Rightarrow> f64" where
  "sqrt_normal m e =
     (let (m, e) = (if e mod 2 \<noteq> 0 then (push_bit 1 m, e - 1) else (m, e));
          target_hi = drop_bit 12 m;
          target_lo = push_bit 52 m;
          rt = sqrt_loop 54 target_hi target_lo 0;
          rexp = (e - 52) div 2;
          (r_hi, r_lo) = rt_sq128 rt;
          rem_lo = target_lo - r_lo;
          rem_hi = target_hi - r_hi;
          rem_hi = (if target_lo < r_lo then rem_hi - 1 else rem_hi);
          rt = (if rem_hi > 0 \<or> rem_lo > rt then rt + 1 else rt);
          (rt, rexp) = (if rt \<ge> push_bit 53 1 then (drop_bit 1 rt, rexp + 1) else (rt, rexp))
      in rt_make_from_mant rt rexp)"

partial_function (option) sqrt_d :: "f64 \<Rightarrow> f64 option" where
  [code]: "sqrt_d b =
     (if f_lt b zero then Some rt_nan
      else if f_eq b zero \<or> \<not> finite_d b then Some b
      else let e = uint (drop_bit 52 b AND 0x7FF)
           in if e = 0
              then do { r \<leftarrow> sqrt_d (f_mul b (push_bit 52 (1023 + 108)));
                        Some (f_mul r (push_bit 52 (1023 - 54))) }
              else Some (sqrt_normal ((b AND 0xFFFFFFFFFFFFF) OR push_bit 52 1) (e - 1075)))"

definition sqrtf :: "f32 \<Rightarrow> f32 option" where "sqrtf = float_fn_opt sqrt_d"

definition hypot :: "f64 \<Rightarrow> f64 \<Rightarrow> f64 option" where
  "hypot a b = sqrt_d (f_add (f_mul a a) (f_mul b b))"

end
