(* ===== verification/RtMathProps.thy ===== *)
theory RtMathProps
  imports RtMath
begin

section \<open>The fields of a double\<close>

lemma isnan_iff [simp]: "isnan b \<longleftrightarrow> f_isnan b"
proof -
  have "drop_bit 52 b AND 0x7FF = 0x7FF \<longleftrightarrow> uint (drop_bit 52 b AND 0x7FF) = uint (0x7FF :: u64)"
    by (simp only: word_uint_eq_iff)
  also have "\<dots> \<longleftrightarrow> dbl_exp b = 2047" unfolding rt_unpack_exp by simp
  finally have "drop_bit 52 b AND 0x7FF = 0x7FF \<longleftrightarrow> dbl_exp b = 2047" .
  moreover have "b AND 0xFFFFFFFFFFFFF \<noteq> 0 \<longleftrightarrow> f_frac b \<noteq> 0"
    unfolding word_unat_eq_iff [of "b AND _"] rt_unpack_frac by (simp add: f_frac_def)
  ultimately show ?thesis by (simp only: isnan_def f_isnan_def)
qed

lemma finite_d_iff [simp]: "finite_d b \<longleftrightarrow> f_fin b"
proof -
  have "drop_bit 52 b AND 0x7FF = 0x7FF \<longleftrightarrow> uint (drop_bit 52 b AND 0x7FF) = uint (0x7FF :: u64)"
    by (simp only: word_uint_eq_iff)
  also have "\<dots> \<longleftrightarrow> dbl_exp b = 2047" unfolding rt_unpack_exp by simp
  finally show ?thesis by (simp only: finite_d_def f_fin_def)
qed

lemma top_bit_iff: "drop_bit 63 b \<noteq> 0 \<longleftrightarrow> f_sign (b :: f64)"
proof -
  have "drop_bit 63 b = 0 \<longleftrightarrow> unat (drop_bit 63 b) = unat (0 :: u64)" by (simp only: word_unat_eq_iff)
  also have "\<dots> \<longleftrightarrow> unat b div 2 ^ 63 = 0" unfolding unat_drop_bit_eq drop_bit_eq_div [of 63 "unat b"] by simp
  also have "\<dots> \<longleftrightarrow> \<not> f_sign b" by (simp add: f_sign_def div_eq_0_iff not_le)
  finally show ?thesis by simp
qed

lemma clear_low_bits: "m = mask k \<Longrightarrow> unat (w AND NOT m :: u64) = unat w - unat w mod 2 ^ k"
  by (simp only: unat_and_not_mask minus_mod_eq_div_mult)

lemma fabs_pack: "n < 2 ^ 63 \<Longrightarrow> fabs (f_pack s n) = f_pack False n"
proof -
  assume n: "n < 2 ^ 63"
  define w where "w = f_pack s n"
  have "NOT (push_bit 63 1 :: u64) = mask 63" by (simp add: mask_eq_exp_minus_1)
  then have "unat (fabs w) = unat w mod 2 ^ 63" unfolding fabs_def by (rule unat_and_mask)
  also have "\<dots> = n" using n by (simp add: w_def unat_f_pack)
  finally have "unat (fabs w) = unat (f_pack False n)" using n by (simp add: unat_f_pack)
  then show ?thesis unfolding w_def [symmetric] word_unat_eq_iff .
qed

lemma fabs_simps [simp]:
  "\<not> f_sign (fabs x)" "dbl_exp (fabs x) = dbl_exp x" "f_frac (fabs x) = f_frac x"
  by (cases x rule: f_pack_cases; simp add: fabs_pack f_pack_fields)+

lemma fabs_value [simp]:
  "f_fin (fabs x) = f_fin x" "f_isnan (fabs x) = f_isnan x" "f_man (fabs x) = f_man x"
  "f_ex (fabs x) = f_ex x" "fval (fabs x) = \<bar>fval x\<bar>"
  by (simp_all add: f_fin_def f_isnan_def f_man_def f_ex_def fval_sign fval_abs)

section \<open>Exact values\<close>

lemma representable_int: "\<bar>k\<bar> < 2 ^ 53 \<Longrightarrow> representable (of_int k)"
proof -
  assume k: "\<bar>k\<bar> < 2 ^ 53"
  have "real_of_int \<bar>k\<bar> < of_int (2 ^ 53)" using k by (simp only: of_int_less_iff)
  also have "\<dots> \<le> (2::real) powi 1024" using powi_mono2 [of 53 1024] by simp
  finally have "\<bar>real_of_int k\<bar> < 2 powi 1024" by simp
  moreover have "\<bar>real_of_int k\<bar> = real (nat \<bar>k\<bar>) * 2 powi 0 \<and> nat \<bar>k\<bar> < 2 ^ 53 \<and> - 1074 \<le> (0 :: int)"
    using k by (auto simp: nat_less_iff)
  ultimately show ?thesis unfolding representable_def by blast
qed

lemma representable_pow2: "- 1074 \<le> e \<Longrightarrow> e < 1024 \<Longrightarrow> representable (2 powi e)"
proof -
  assume e: "- 1074 \<le> e" "e < 1024"
  have "(2::real) powi e < 2 powi 1024" using e(2) by (rule power_int_strict_increasing) simp
  moreover have "\<bar>2 powi e :: real\<bar> = real 1 * 2 powi e \<and> 1 < (2::nat) ^ 53 \<and> - 1074 \<le> e" using e by simp
  moreover have "\<bar>2 powi e :: real\<bar> = 2 powi e" by simp
  ultimately show ?thesis unfolding representable_def by metis
qed

lemma f_of_int_small: "\<bar>k\<bar> < 2 ^ 53 \<Longrightarrow> f_fin (f_of_int k) \<and> fval (f_of_int k) = of_int k"
  using f_result_exact [OF f_of_int_result representable_int] by blast

lemma zero_one [simp]:
  "f_fin zero" "fval zero = 0" "f_fin one" "fval one = 1"
  using f_of_int_small [of 0] f_of_int_small [of 1] by simp_all

lemma representable_fval: "f_fin x \<Longrightarrow> representable (fval x)"
proof -
  assume x: "f_fin x"
  have "real (f_man x) < real (2 ^ 53)" using f_man_less [of x] by (simp only: of_nat_less_iff)
  then have "\<bar>fval x\<bar> < 2 ^ 53 * 2 powi f_ex x" unfolding fval_abs by (intro mult_strict_right_mono) simp_all
  also have "\<dots> \<le> 2 ^ 53 * 2 powi 971" using f_ex_range(2) [OF x] by (intro mult_left_mono powi_mono2) simp_all
  also have "\<dots> = (2::real) powi 1024" using powi_times_pow [of 971 1024] by simp
  finally show ?thesis
    unfolding representable_def using fval_abs [of x] f_man_less [of x] f_ex_range(1) [of x] by blast
qed

section \<open>Rounding to an integer\<close>

lemma f_pack_value:
  assumes "n = E * 2 ^ 52 + F" "F < 2 ^ 52" "0 < E" "E < 2047"
  shows "f_fin (f_pack s n)" "fval (f_pack s n) = (if s then - 1 else 1) * ((2 ^ 52 + real F) * 2 powi (int E - 1075))"
proof -
  have n: "n < 2 ^ 63" using assms by simp
  have "n div 2 ^ 52 = E" "n mod 2 ^ 52 = F" using assms by simp_all
  then have d: "dbl_exp (f_pack s n) = E" "f_frac (f_pack s n) = F" "f_sign (f_pack s n) = s"
    using f_pack_fields [OF n, of s] by simp_all
  then show "f_fin (f_pack s n)" using assms by (simp add: f_fin_def)
  show "fval (f_pack s n) = (if s then - 1 else 1) * ((2 ^ 52 + real F) * 2 powi (int E - 1075))"
    using assms d by (simp add: fval_sign f_man_def f_ex_def)
qed

text \<open>Clearing the bits below the point of a double of magnitude at least 1.\<close>

lemma clear_fraction:
  assumes e: "e = int (dbl_exp x) - 1023" "0 \<le> e" "e < 52"
    and m: "m = push_bit (nat (52 - e)) 1 - 1"
  shows "f_fin (x AND NOT m) \<and>
    fval (x AND NOT m) = (if f_sign x then - 1 else 1) * real (f_man x div 2 ^ nat (52 - e))"
    and "x AND m = 0 \<longleftrightarrow> f_man x mod 2 ^ nat (52 - e) = 0"
proof -
  define k where "k = nat (52 - e)"
  have k: "k \<le> 52" "0 < k" using e by (simp_all add: k_def)
  have mk: "m = mask k" unfolding m k_def by (simp add: mask_eq_exp_minus_1 push_bit_eq_mult)
  obtain s n where x: "x = f_pack s n" "n < 2 ^ 63" by (rule f_pack_cases)
  define E F where "E = n div 2 ^ 52" and "F = n mod 2 ^ 52"
  have n: "n = E * 2 ^ 52 + F" "F < 2 ^ 52" by (simp_all add: E_def F_def)
  have d: "dbl_exp x = E" "f_frac x = F" "f_sign x = s"
    using f_pack_fields [OF x(2), of s] by (simp_all add: x(1) E_def F_def)
  have E: "0 < E" "E < 2047" using e d by simp_all
  have man: "f_man x = 2 ^ 52 + F" using d E by (simp add: f_man_def)
  have p52: "(2::nat) ^ 52 = 2 ^ (52 - k) * 2 ^ k" using k by (simp flip: power_add)
  have mods: "unat x mod 2 ^ k = F mod 2 ^ k" "f_man x mod 2 ^ k = F mod 2 ^ k"
  proof -
    have "(2::nat) ^ 63 = 2 ^ 11 * 2 ^ (52 - k) * 2 ^ k" using k by (simp flip: power_add)
    then have "unat x = (E * 2 ^ (52 - k) + (if s then 2 ^ 11 * 2 ^ (52 - k) else 0)) * 2 ^ k + F"
      using unat_f_pack [OF x(2), of s] unfolding x(1) n(1) p52 by (simp add: algebra_simps)
    then show "unat x mod 2 ^ k = F mod 2 ^ k" by simp
    show "f_man x mod 2 ^ k = F mod 2 ^ k" unfolding man p52 by simp
  qed
  show "x AND m = 0 \<longleftrightarrow> f_man x mod 2 ^ nat (52 - e) = 0"
    unfolding k_def [symmetric] word_unat_eq_iff unat_and_mask [OF mk] mods by simp
  define F' where "F' = F - F mod 2 ^ k"
  have F': "F' < 2 ^ 52" "F' = F div 2 ^ k * 2 ^ k" "F mod 2 ^ k \<le> F"
    using le_less_trans [OF div_times_less_eq_dividend n(2)] by (simp_all only: F'_def minus_mod_eq_div_mult mod_less_eq_dividend)
  have n': "E * 2 ^ 52 + F' < 2 ^ 63"
    using E F' by (simp add: less_Suc_eq_le)
  have "unat (x AND NOT m) = unat x - F mod 2 ^ k" unfolding clear_low_bits [OF mk] mods ..
  also have "\<dots> = unat (f_pack s (E * 2 ^ 52 + F'))"
  proof -
    obtain r where r: "r = F mod 2 ^ k" "r \<le> F" using F'(3) by blast
    then show ?thesis
      using unat_f_pack [OF x(2), of s] unat_f_pack [OF n', of s]
      unfolding x(1) n(1) F'_def r(1) [symmetric] by (cases s) simp_all
  qed
  finally have c: "x AND NOT m = f_pack s (E * 2 ^ 52 + F')" unfolding word_unat_eq_iff .
  have "f_man x div 2 ^ k = 2 ^ (52 - k) + F div 2 ^ k" unfolding man p52 by simp
  moreover have "(2::real) ^ 52 = 2 ^ (52 - k) * 2 ^ k" using k by (simp flip: power_add)
  moreover have ek: "int E - 1075 = - int k" using e d k by (simp add: k_def)
  ultimately have "real (f_man x div 2 ^ k) = (2 ^ 52 + real F') * 2 powi (int E - 1075)"
    unfolding F'(2) ek by (simp add: power_int_minus field_simps)
  then show "f_fin (x AND NOT m) \<and>
      fval (x AND NOT m) = (if f_sign x then - 1 else 1) * real (f_man x div 2 ^ nat (52 - e))"
    unfolding k_def [symmetric] c d using f_pack_value [OF refl F'(1) E] by simp
qed

lemma big_integral:
  assumes "f_fin x" "52 \<le> int (dbl_exp x) - 1023"
  shows "of_int \<lfloor>fval x\<rfloor> = fval x"
proof -
  have e: "f_ex x = int (nat (f_ex x))" using assms by (simp add: f_ex_def)
  have "fval x = of_int (f_int x * 2 ^ nat (f_ex x))"
    unfolding fval_def by (subst e) (simp only: power_int_of_nat of_int_mult of_int_power of_int_numeral)
  then show ?thesis by (metis floor_of_int)
qed

lemma small_below_one:
  assumes "int (dbl_exp x) - 1023 < 0"
  shows "\<bar>fval x\<bar> < 1"
proof -
  have "real (f_man x) < real (2 ^ 53)" using f_man_less [of x] by (simp only: of_nat_less_iff)
  then have "\<bar>fval x\<bar> < 2 ^ 53 * 2 powi f_ex x" unfolding fval_abs by (intro mult_strict_right_mono) simp_all
  also have "\<dots> \<le> 2 ^ 53 * 2 powi - 53" using assms by (intro mult_left_mono powi_mono2) (auto simp: f_ex_def)
  finally show ?thesis by (simp add: power_int_minus)
qed

lemma f_sign_neg: "fval x \<noteq> 0 \<Longrightarrow> f_sign x \<longleftrightarrow> fval x < 0"
proof -
  assume x: "fval x \<noteq> 0"
  define t where "t = real (f_man x) * 2 powi f_ex x"
  have "0 \<le> t" by (simp add: t_def)
  then show ?thesis using x fval_sign [of x] unfolding t_def [symmetric] by (cases "f_sign x") simp_all
qed

lemma floor_nat_div:
  "\<lfloor>real a / real b\<rfloor> = int (a div b)"
  "0 < b \<Longrightarrow> a mod b \<noteq> 0 \<Longrightarrow> \<lfloor>- (real a / real b)\<rfloor> = - int (a div b) - 1"
proof -
  show "\<lfloor>real a / real b\<rfloor> = int (a div b)" by (simp add: floor_divide_of_nat_eq)
  assume b: "0 < b" "a mod b \<noteq> 0"
  have "real a = real (a div b) * real b + real (a mod b)"
    by (metis div_mult_mod_eq of_nat_add of_nat_mult)
  then have a: "real a / real b = real (a div b) + real (a mod b) / real b"
    using b by (simp add: add_divide_distrib)
  have "real (a mod b) < real b" "0 < real (a mod b)" using b by simp_all
  then have "0 < real (a mod b) / real b" "real (a mod b) / real b < 1" by simp_all
  then show "\<lfloor>- (real a / real b)\<rfloor> = - int (a div b) - 1" unfolding a by linarith
qed

lemma floor_d_ok:
  assumes x: "f_fin x"
  shows "f_fin (floor_d x) \<and> fval (floor_d x) = of_int \<lfloor>fval x\<rfloor>"
proof -
  define e where "e = int (dbl_exp x) - 1023"
  define m :: u64 where "m = push_bit (nat (52 - e)) 1 - 1"
  note nn = fin_not_nan [OF x]
  have def: "floor_d x =
     (if e \<ge> 52 \<or> isnan x then x
      else if e < 0 then (if f_eq x zero then x else if f_sign x then f_minus one else zero)
      else if x AND m = 0 then x
      else if f_sign x then f_sub (x AND NOT m) one else x AND NOT m)"
    unfolding floor_d_def rt_unpack_exp Let_def top_bit_iff e_def m_def ..
  consider "52 \<le> e" | "e < 0" | "0 \<le> e" "e < 52" by linarith
  then show ?thesis
  proof cases
    case 1
    then have "floor_d x = x" by (simp add: def)
    then show ?thesis using x big_integral [OF x] 1 unfolding e_def by metis
  next
    case 2
    then have s: "\<bar>fval x\<bar> < 1" unfolding e_def by (rule small_below_one)
    show ?thesis
    proof (cases "fval x = 0")
      case True
      then show ?thesis using 2 nn x by (simp add: def f_eq_iff)
    next
      case False
      have "\<lfloor>fval x\<rfloor> = (if fval x < 0 then - 1 else 0)" using s False by (auto simp: floor_eq_iff)
      then show ?thesis using 2 nn x False f_sign_neg [OF False] by (simp add: def f_eq_iff)
    qed
  next
    case 3
    define k where "k = nat (52 - e)"
    have k: "0 < k" "k \<le> 52" using 3 by (simp_all add: k_def)
    note c = clear_fraction [OF e_def 3 m_def, folded k_def]
    have "f_ex x = - int k" using 3 by (simp add: f_ex_def e_def k_def)
    then have v: "fval x = (if f_sign x then - 1 else 1) * (real (f_man x) / real (2 ^ k))"
      by (simp add: fval_sign power_int_minus field_simps)
    define q where "q = f_man x div 2 ^ k"
    have "(2::nat) ^ 53 = 2 ^ (53 - k) * 2 ^ k" using k by (simp flip: power_add)
    then have "q < 2 ^ (53 - k)" using f_man_less [of x] by (simp add: q_def div_less_iff_less_mult)
    also have "(2::nat) ^ (53 - k) \<le> 2 ^ 52" using k by (intro power_increasing) simp_all
    finally have q: "int q + 1 < 2 ^ 53" by simp
    show ?thesis
    proof (cases "f_man x mod 2 ^ k = 0")
      case True
      then have "f_man x = q * 2 ^ k" by (metis div_mult_mod_eq add.right_neutral q_def)
      then have "fval x = of_int ((if f_sign x then - 1 else 1) * int q)" by (simp add: v)
      then have "of_int \<lfloor>fval x\<rfloor> = fval x" by (metis floor_of_int)
      moreover have "floor_d x = x" using True c(2) 3 nn by (simp add: def)
      ultimately show ?thesis using x by metis
    next
      case False
      then have x0: "x AND m \<noteq> 0" using c(2) by simp
      show ?thesis
      proof (cases "f_sign x")
        case True
        have fl: "\<lfloor>fval x\<rfloor> = - int q - 1" using v True floor_nat_div(2) [of "2 ^ k" "f_man x"] False by (simp add: q_def)
        have "f_result (fval (x AND NOT m) - 1) (f_sub (x AND NOT m) one)"
          using f_sub_result [of "x AND NOT m" one] c(1) by simp
        moreover have "fval (x AND NOT m) - 1 = of_int (- int q - 1)" using c(1) True by (simp add: q_def)
        moreover have "representable (of_int (- int q - 1))" using q by (intro representable_int) simp
        ultimately have "f_fin (f_sub (x AND NOT m) one) \<and> fval (f_sub (x AND NOT m) one) = of_int (- int q - 1)"
          using f_result_exact by metis
        then show ?thesis using True 3 nn x0 fl by (simp add: def)
      next
        case f: False
        have "\<lfloor>fval x\<rfloor> = int q" using v f floor_nat_div(1) [of "f_man x" "2 ^ k"] by (simp add: q_def)
        then show ?thesis using f 3 nn x0 c(1) by (simp add: def q_def)
      qed
    qed
  qed
qed

lemma ceil_ok: "f_fin x \<Longrightarrow> f_fin (ceil x) \<and> fval (ceil x) = of_int \<lceil>fval x\<rceil>"
  using floor_d_ok [of "f_minus x"] by (simp add: ceil_def ceiling_def)

lemma trunc_ok:
  assumes x: "f_fin x"
  shows "f_fin (trunc x) \<and> fval (trunc x) = (if fval x < 0 then of_int \<lceil>fval x\<rceil> else of_int \<lfloor>fval x\<rfloor>)"
  using assms floor_d_ok [of x] floor_d_ok [of "f_minus x"] by (simp add: trunc_def f_lt_iff ceiling_def)

section \<open>Exact sums and products\<close>

lemma representable_scaled:
  assumes "\<bar>Z\<bar> < 2 ^ 53" "- 1074 \<le> e" "\<bar>of_int Z * 2 powi e :: real\<bar> < 2 powi 1024"
  shows "representable (of_int Z * 2 powi e)"
proof -
  have "\<bar>of_int Z * 2 powi e :: real\<bar> = real (nat \<bar>Z\<bar>) * 2 powi e \<and> nat \<bar>Z\<bar> < 2 ^ 53"
    using assms(1) by (auto simp: abs_mult nat_less_iff)
  then show ?thesis using assms(2,3) unfolding representable_def by blast
qed

lemma fval_less_top: "f_fin x \<Longrightarrow> \<bar>fval x\<bar> < 2 powi 1024"
  using representable_fval by (simp only: representable_def)

text \<open>The difference of two doubles within a factor of two is exact.\<close>

lemma sterbenz:
  assumes x: "f_fin x" and d: "f_fin d" "0 \<le> fval d"
    and "fval d \<le> fval x" "fval x - fval d < fval d"
  shows "f_fin (f_sub x d) \<and> fval (f_sub x d) = fval x - fval d"
proof -
  have dp: "0 < fval d" using assms by linarith
  have xd: "real (f_man x) * 2 powi f_ex x = fval x" "real (f_man d) * 2 powi f_ex d = fval d"
    using assms dp fval_abs [of x] fval_abs [of d] by auto
  have ex: "f_ex d \<le> f_ex x"
  proof (rule ccontr)
    assume "\<not> f_ex d \<le> f_ex x"
    then have lt: "f_ex x + 1 \<le> f_ex d" by simp
    then have "2 ^ 52 \<le> f_man d" using f_ex_range(1) [of x] by (intro f_man_ge) simp
    then have "real (2 ^ 52) \<le> real (f_man d)" by (simp only: of_nat_le_iff)
    then have "2 ^ 52 * 2 powi (f_ex x + 1) \<le> fval d"
      unfolding xd(2) [symmetric] using powi_mono2 [OF lt] by (intro mult_mono) simp_all
    also have "\<dots> \<le> fval x" using assms by simp
    also have "fval x < 2 ^ 53 * 2 powi f_ex x"
    proof -
      have "real (f_man x) < real (2 ^ 53)" using f_man_less [of x] by (simp only: of_nat_less_iff)
      then show ?thesis unfolding xd(1) [symmetric] by (intro mult_strict_right_mono) simp_all
    qed
    finally show False by (simp add: power_int_add)
  qed
  define Z where "Z = f_int x * 2 ^ nat (f_ex x - f_ex d) - f_int d"
  have Z: "fval x - fval d = of_int Z * 2 powi f_ex d"
    using align [OF ex] by (simp add: Z_def fval_def left_diff_distrib)
  have pos: "(0::real) < 2 powi f_ex d" by simp
  have "of_int Z * 2 powi f_ex d < real (f_man d) * 2 powi f_ex d"
    using assms unfolding Z [symmetric] xd by simp
  then have "real_of_int Z < real (f_man d)" using pos by (simp only: mult_less_cancel_right_pos)
  then have Z1: "Z < int (f_man d)" by linarith
  have "0 \<le> of_int Z * (2::real) powi f_ex d" using assms unfolding Z [symmetric] by simp
  then have "0 \<le> Z" using pos by (simp add: zero_le_mult_iff)
  moreover have "int (f_man d) < 2 ^ 53" using f_man_less [of d] by simp
  ultimately have "\<bar>Z\<bar> < 2 ^ 53" using Z1 by simp
  moreover have "\<bar>of_int Z * 2 powi f_ex d :: real\<bar> < 2 powi 1024"
    using assms fval_less_top [OF x] unfolding Z [symmetric] by linarith
  ultimately have "representable (fval x - fval d)"
    unfolding Z using f_ex_range(1) by (intro representable_scaled)
  then show ?thesis using f_result_exact [OF f_sub_result [OF x d(1)]] by blast
qed

lemma rounds64_le:
  assumes "rounds64 x z" and v: "x \<le> real N * 2 powi e" "N < 2 ^ 53" "- 1074 \<le> e"
  shows "z \<le> real N * 2 powi e"
proof -
  obtain f M where f: "- 1074 \<le> f" "f = - 1074 \<or> 2 powi (f + 52) \<le> x"
    and M: "rounds_even (x / 2 powi f) M" and z: "z = real M * 2 powi f"
    using assms(1) by (auto simp: rounds64_def)
  have "f \<le> e"
  proof (rule ccontr)
    assume "\<not> f \<le> e"
    then have x: "2 powi (f + 52) \<le> x" "e + 53 \<le> f + 52" using f v(3) by auto
    have "real N < real (2 ^ 53)" using v(2) by (simp only: of_nat_less_iff)
    then have "real N * 2 powi e < 2 powi (e + 53)" by (simp add: power_int_add)
    also have "\<dots> \<le> 2 powi (f + 52)" using x(2) by (rule powi_mono2)
    finally show False using x(1) v(1) by simp
  qed
  define K where "K = N * 2 ^ nat (e - f)"
  have e: "real N * 2 powi e = real K * 2 powi f" using \<open>f \<le> e\<close> by (simp add: powi_times_pow K_def)
  have "x / 2 powi f \<le> real K" using v(1) unfolding e by (simp add: field_simps)
  then have "M \<le> K" using rounds_even_near [OF M] by linarith
  then show ?thesis unfolding e z by (intro mult_right_mono) simp_all
qed

lemma rounds64_bounds:
  assumes "rounds64 t z"
  shows "t \<le> \<bar>fval b\<bar> \<Longrightarrow> z \<le> \<bar>fval b\<bar>" "\<bar>fval a\<bar> \<le> t \<Longrightarrow> \<bar>fval a\<bar> \<le> z"
  unfolding fval_abs
  using rounds64_le [OF assms, of "f_man b" "f_ex b"] rounds64_ge [OF assms, of "f_man a" "f_ex a"]
    f_man_less f_ex_range(1) by blast+

text \<open>A rounded result stays between the doubles that the exact one is between.\<close>

lemma f_result_between:
  assumes r: "f_result v r" and a: "f_fin a" "fval a \<le> v" and b: "f_fin b" "v \<le> fval b"
  shows "f_fin r \<and> fval a \<le> fval r \<and> fval r \<le> fval b"
proof (cases "v = 0")
  case True
  then show ?thesis using r a b by (simp add: f_result_def)
next
  case False
  then obtain z where z: "rounds64 \<bar>v\<bar> z"
      "if z < 2 powi 1024 then f_fin r \<and> f_sign r = (v < 0) \<and> \<bar>fval r\<bar> = z else r = f_inf (v < 0)"
    using r by (auto simp: f_result_def)
  define c where "c = (if v < 0 then a else b)"
  have "\<bar>v\<bar> \<le> \<bar>fval c\<bar>" "f_fin c" using a b False by (auto simp: c_def)
  then have zc: "z \<le> \<bar>fval c\<bar>" and "\<bar>fval c\<bar> < 2 powi 1024"
    using rounds64_bounds(1) [OF z(1)] fval_less_top by blast+
  then have "z < 2 powi 1024" by linarith
  then have f: "f_fin r" "f_sign r = (v < 0)" "\<bar>fval r\<bar> = z" using z(2) by (simp_all only: if_True simp_thms)
  define t where "t = real (f_man r) * 2 powi f_ex r"
  have "0 \<le> t" by (simp add: t_def)
  then have rz: "fval r = (if v < 0 then - z else z)" "0 \<le> z"
    using f(2,3) fval_sign [of r] unfolding t_def [symmetric] by auto
  show ?thesis
  proof (cases "v < 0")
    case True
    have "- z \<le> fval b"
      using rounds64_bounds(2) [OF z(1), of b] b rz True by (cases "fval b < 0") auto
    then show ?thesis using True rz f zc a by (auto simp: c_def)
  next
    case vp: False
    have "fval a \<le> z"
      using rounds64_bounds(2) [OF z(1), of a] a rz vp by (cases "0 < fval a") auto
    then show ?thesis using vp rz f zc b False by (auto simp: c_def)
  qed
qed

lemma double_exact:
  assumes d: "f_fin d" and lt: "\<bar>2 * fval d\<bar> < 2 powi 1024"
  shows "f_fin (f_add d d) \<and> fval (f_add d d) = 2 * fval d"
proof -
  have v: "2 * fval d = of_int (f_int d) * 2 powi (f_ex d + 1)" by (simp add: fval_def power_int_add)
  have "\<bar>f_int d\<bar> < 2 ^ 53" using f_man_less [of d] by (simp add: f_int_def)
  then have "representable (2 * fval d)"
    using lt f_ex_range(1) [of d] unfolding v by (intro representable_scaled) simp_all
  then show ?thesis using f_result_exact [OF f_add_result [OF d d]] by simp
qed

section \<open>Remainder\<close>

lemma scale_test:
  assumes x: "f_fin x" and d: "f_fin d" "0 < fval d" "fval d \<le> fval x"
  shows "f_le d (f_sub x d) \<longleftrightarrow> 2 * fval d \<le> fval x"
proof (cases "2 * fval d \<le> fval x")
  case True
  have "f_fin (f_sub x d) \<and> fval d \<le> fval (f_sub x d) \<and> fval (f_sub x d) \<le> fval x"
    using True d by (intro f_result_between [OF f_sub_result [OF x d(1)]] x d(1)) simp_all
  then show ?thesis using True d by (simp add: f_le_iff)
next
  case False
  then have "f_fin (f_sub x d) \<and> fval (f_sub x d) = fval x - fval d"
    using sterbenz [OF x d(1)] d by simp
  then show ?thesis using False d by (simp add: f_le_iff)
qed

lemma fmod_scale_ok:
  assumes x: "f_fin x"
  shows "f_fin d \<Longrightarrow> 0 < fval d \<Longrightarrow> fval d \<le> fval x \<Longrightarrow>
    \<exists>d' j. fmod_scale x d = Some d' \<and> f_fin d' \<and> fval d' = 2 ^ j * fval d \<and> fval d' \<le> fval x \<and> fval x < 2 * fval d'"
proof (induction "nat \<lfloor>fval x / fval d\<rfloor>" arbitrary: d rule: less_induct)
  case less
  note d = less.prems
  note test = scale_test [OF x d]
  show ?case
  proof (cases "2 * fval d \<le> fval x")
    case True
    have dd: "f_fin (f_add d d)" "fval (f_add d d) = 2 * fval d"
      using double_exact [OF d(1)] True d fval_less_top [OF x] by auto
    define t where "t = fval x / fval d"
    have t: "2 \<le> t" "fval x / fval (f_add d d) = t / 2" using True d by (simp_all add: field_simps t_def dd)
    then have "\<lfloor>fval x / fval (f_add d d)\<rfloor> \<le> \<lfloor>t - 1\<rfloor>" by (intro floor_mono) simp
    moreover have "2 \<le> \<lfloor>t\<rfloor>" using t by (simp add: le_floor_iff)
    ultimately have "nat \<lfloor>fval x / fval (f_add d d)\<rfloor> < nat \<lfloor>fval x / fval d\<rfloor>"
      unfolding t_def by simp
    from less.hyps [OF this] obtain d' j where "fmod_scale x (f_add d d) = Some d'" "f_fin d'"
        "fval d' = 2 ^ j * (2 * fval d)" "fval d' \<le> fval x" "fval x < 2 * fval d'"
      using dd True d by auto
    then show ?thesis using test True
      by (intro exI [of _ d'] exI [of _ "Suc j"]) (subst fmod_scale.simps, simp)
  next
    case False
    then show ?thesis using test d by (intro exI [of _ d] exI [of _ 0]) (subst fmod_scale.simps, simp)
  qed
qed

lemma fmod_loop_ok:
  assumes y: "f_fin y" "0 < fval y"
  shows "f_fin x \<Longrightarrow> 0 \<le> fval x \<Longrightarrow>
    \<exists>r. fmod_loop x y = Some r \<and> f_fin r \<and> fval r = fval x - of_int \<lfloor>fval x / fval y\<rfloor> * fval y"
proof (induction "nat \<lfloor>fval x / fval y\<rfloor>" arbitrary: x rule: less_induct)
  case less
  note x = less.prems
  show ?case
  proof (cases "fval y \<le> fval x")
    case True
    from fmod_scale_ok [OF x(1) y True] obtain d j where
      d: "fmod_scale x y = Some d" "f_fin d" "fval d = 2 ^ j * fval y" "fval d \<le> fval x" "fval x < 2 * fval d"
      by blast
    have "0 \<le> fval d" using d(3) y by simp
    then have s: "f_fin (f_sub x d)" "fval (f_sub x d) = fval x - fval d"
      using sterbenz [OF x(1) d(2)] d(4,5) by linarith+
    have q: "fval (f_sub x d) / fval y = fval x / fval y - of_int (2 ^ j)"
      using y unfolding s d by (simp add: field_simps)
    then have fl: "\<lfloor>fval (f_sub x d) / fval y\<rfloor> = \<lfloor>fval x / fval y\<rfloor> - 2 ^ j" by linarith
    moreover have "0 \<le> \<lfloor>fval (f_sub x d) / fval y\<rfloor>" using d(4) y s by simp
    moreover have "(1::int) \<le> 2 ^ j" by simp
    ultimately have "nat \<lfloor>fval (f_sub x d) / fval y\<rfloor> < nat \<lfloor>fval x / fval y\<rfloor>" by linarith
    from less.hyps [OF this s(1)] obtain r where r: "fmod_loop (f_sub x d) y = Some r" "f_fin r"
        "fval r = fval (f_sub x d) - of_int \<lfloor>fval (f_sub x d) / fval y\<rfloor> * fval y"
      using s d(4) by auto
    have "fval r = fval x - of_int \<lfloor>fval x / fval y\<rfloor> * fval y"
      using r(3) unfolding fl unfolding s d by (simp add: algebra_simps)
    then show ?thesis using True x(1) y(1) d(1) r(1,2)
      by (intro exI [of _ r]) (subst fmod_loop.simps, simp add: f_le_iff)
  next
    case False
    then have "\<lfloor>fval x / fval y\<rfloor> = 0" using x y by (simp add: floor_eq_iff)
    then show ?thesis using False x y
      by (intro exI [of _ x]) (subst fmod_loop.simps, simp add: f_le_iff)
  qed
qed

lemma fmod_ok:
  assumes x: "f_fin x" and y: "f_fin y" "fval y \<noteq> 0"
  shows "\<exists>r. fmod x y = Some r \<and> f_fin r \<and>
    fval r = sgn (fval x) * (\<bar>fval x\<bar> - of_int \<lfloor>\<bar>fval x\<bar> / \<bar>fval y\<bar>\<rfloor> * \<bar>fval y\<bar>)"
proof (cases "\<bar>fval x\<bar> < \<bar>fval y\<bar>")
  case True
  then have "\<lfloor>\<bar>fval x\<bar> / \<bar>fval y\<bar>\<rfloor> = 0" using y by (simp add: floor_eq_iff)
  then show ?thesis using True x y by (simp add: fmod_def Let_def f_eq_iff f_lt_iff sgn_mult_abs)
next
  case False
  obtain r where r: "fmod_loop (fabs x) (fabs y) = Some r" "f_fin r"
      "fval r = \<bar>fval x\<bar> - of_int \<lfloor>\<bar>fval x\<bar> / \<bar>fval y\<bar>\<rfloor> * \<bar>fval y\<bar>"
    using fmod_loop_ok [of "fabs y" "fabs x"] x y by auto
  have "fmod x y = Some (if fval x < 0 then f_minus r else r)"
    using False x y r(1) by (simp add: fmod_def Let_def f_eq_iff f_lt_iff)
  moreover have "fval x \<noteq> 0" using False y by auto
  ultimately show ?thesis using r(2,3) by (simp add: sgn_if)
qed

section \<open>The fraction and integer parts\<close>

lemma sgn_fval: "sgn (fval x) = of_int (sgn (f_int x))"
  unfolding fval_def by (cases "f_int x" "0 :: int" rule: linorder_cases) (simp_all add: mult_neg_pos)

lemma modf_ok:
  assumes x: "f_fin x"
  shows "case modf x of (i, r) \<Rightarrow> f_fin i \<and> f_fin r \<and> fval i = sgn (fval x) * of_int \<lfloor>\<bar>fval x\<bar>\<rfloor> \<and>
    fval i + fval r = fval x"
proof -
  define i where "i = trunc x"
  have i: "f_fin i" "fval i = sgn (fval x) * of_int \<lfloor>\<bar>fval x\<bar>\<rfloor>"
    using trunc_ok [OF x] by (auto simp: i_def sgn_if ceiling_def)
  have "representable (fval x - fval i)"
  proof (cases "f_ex x < 0")
    case True
    define k where "k = nat (- f_ex x)"
    have k: "f_ex x = - int k" using True by (simp add: k_def)
    define I where "I = sgn (f_int x) * \<lfloor>\<bar>fval x\<bar>\<rfloor>"
    have "sgn (fval x) = of_int (sgn (f_int x))" 
      unfolding fval_def by (cases "f_int x" "0 :: int" rule: linorder_cases) (simp_all add: mult_neg_pos)
    then have iI: "fval i = of_int I" by (simp add: i I_def)
    define Z where "Z = f_int x - I * 2 ^ k"
    have Z: "fval x - fval i = of_int Z * 2 powi f_ex x"
      unfolding iI Z_def unfolding fval_def k by (simp add: power_int_minus field_simps)
    have le: "\<bar>fval x - fval i\<bar> \<le> \<bar>fval x\<bar>"
    proof -
      define w where "w = real_of_int \<lfloor>\<bar>fval x\<bar>\<rfloor>"
      have "0 \<le> w" "w \<le> \<bar>fval x\<bar>" by (simp_all add: w_def)
      then show ?thesis unfolding i(2) w_def [symmetric] by (simp add: sgn_if abs_if split: if_splits)
    qed
    then have "of_int \<bar>Z\<bar> * (2::real) powi f_ex x \<le> real (f_man x) * 2 powi f_ex x"
      unfolding Z fval_abs by (simp add: abs_mult)
    then have "\<bar>Z\<bar> \<le> int (f_man x)"
      by (subst (asm) mult_le_cancel_right_pos) (simp, linarith)
    then have "\<bar>Z\<bar> < 2 ^ 53" using f_man_less [of x] by simp
    then show ?thesis
      unfolding Z using le fval_less_top [OF x] f_ex_range(1) by (intro representable_scaled) (simp_all add: Z [symmetric])
  next
    case False
    then have "f_ex x = int (nat (f_ex x))" by simp
    then have "fval x = of_int (f_int x * 2 ^ nat (f_ex x))"
      unfolding fval_def by (metis power_int_of_nat of_int_mult of_int_power of_int_numeral)
    then obtain v where "fval x = of_int v" by blast
    then have "fval i = fval x" unfolding i(2) by (simp add: sgn_if)
    then show ?thesis using representable_int [of 0] by simp
  qed
  then have "f_fin (f_sub x i) \<and> fval (f_sub x i) = fval x - fval i"
    using f_result_exact [OF f_sub_result [OF x i(1)]] by blast
  then show ?thesis using x i by (simp add: modf_def Let_def i_def)
qed

section \<open>Comparison with infinities\<close>

lemma f_lt_val: "f_lt x y \<longleftrightarrow> \<not> f_isnan x \<and> \<not> f_isnan y \<and> fval x < fval y"
  using key_le_iff [of y x] by (auto simp: f_lt_def)

lemma f_eq_val: "f_eq x y \<longleftrightarrow> \<not> f_isnan x \<and> \<not> f_isnan y \<and> fval x = fval y"
  using key_le_iff [of y x] key_le_iff [of x y] by (auto simp: f_eq_def)

lemma f_eq_zero: "f_eq x zero \<longleftrightarrow> f_fin x \<and> fval x = 0"
proof -
  have "fval x = 0 \<Longrightarrow> f_fin x" by (auto simp: fval_zero_iff f_man_def f_fin_def split: if_splits)
  then show ?thesis using fin_not_nan [of x] by (auto simp: f_eq_val)
qed

section \<open>Exponents\<close>

lemma and_top_bit: "x AND push_bit 63 1 = (if f_sign x then push_bit 63 1 else 0)"
proof (rule bit_word_eqI)
  define k :: nat where "k = 63"
  fix i
  have "bit x k \<longleftrightarrow> odd (unat x div 2 ^ k)" by (simp add: bit_unsigned_iff flip: bit_iff_odd)
  also have "unat x < 2 * 2 ^ k" using unsigned_less [of x] by (simp add: k_def)
  then have "odd (unat x div 2 ^ k) \<longleftrightarrow> 2 ^ k \<le> unat x"
    by (cases "unat x < 2 ^ k") (auto simp: div_if)
  finally have "bit x k \<longleftrightarrow> f_sign x" by (simp add: f_sign_def k_def)
  then show "bit (x AND push_bit 63 1) i \<longleftrightarrow> bit (if f_sign x then push_bit 63 1 else 0 :: u64) i"
    unfolding k_def [symmetric] by (auto simp: bit_and_iff bit_exp_iff)
qed

lemma frexp_normal:
  assumes x: "f_fin x" "dbl_exp x \<noteq> 0"
  shows "\<exists>m. frexp x = Some (m, int (dbl_exp x) - 1022) \<and> f_fin m \<and> 1 / 2 \<le> \<bar>fval m\<bar> \<and> \<bar>fval m\<bar> < 1 \<and>
    fval x = fval m * 2 powi (int (dbl_exp x) - 1022)"
proof -
  obtain s n where xp: "x = f_pack s n" "n < 2 ^ 63" by (rule f_pack_cases)
  define E F where "E = n div 2 ^ 52" and "F = n mod 2 ^ 52"
  have n: "n = E * 2 ^ 52 + F" and F: "F < 2 ^ 52" by (simp_all add: E_def F_def)
  have d: "dbl_exp x = E" "f_frac x = F" "f_sign x = s"
    using f_pack_fields [OF xp(2), of s] by (simp_all add: xp(1) E_def F_def)
  define m where "m = f_pack s (1022 * 2 ^ 52 + F)"
  have b: "(x AND 0x800FFFFFFFFFFFFF) OR 0x3FE0000000000000 = m"
  proof -
    define w where "w = push_bit 52 1022 OR (x AND 0xFFFFFFFFFFFFF)"
    have "unat (x AND 0xFFFFFFFFFFFFF) = F" unfolding rt_unpack_frac using d by (simp add: f_frac_def)
    then have w: "unat w = 1022 * 2 ^ 52 + F" unfolding w_def using F by (subst unat_push_or) simp_all
    have "(x AND 0x800FFFFFFFFFFFFF) OR 0x3FE0000000000000 = w OR (x AND push_bit 63 1)"
    proof -
      have c: "0x800FFFFFFFFFFFFF = (push_bit 63 1 OR 0xFFFFFFFFFFFFF :: u64)"
        "0x3FE0000000000000 = (push_bit 52 1022 :: u64)" by simp_all
      show ?thesis unfolding w_def c bit.conj_disj_distrib by (simp only: ac_simps)
    qed
    also have "\<dots> = (if s then w OR push_bit 63 1 else w)" unfolding and_top_bit d by simp
    finally have "unat ((x AND 0x800FFFFFFFFFFFFF) OR 0x3FE0000000000000) = unat m"
      using put_sign [of w s] w F by (simp add: m_def unat_f_pack)
    then show ?thesis unfolding word_unat_eq_iff .
  qed
  have "fval x \<noteq> 0" using x(2) by (simp add: fval_zero_iff f_man_def)
  then have r: "frexp x = Some (m, int E - 1022)"
    using x d by (subst frexp.simps) (simp only: b rt_unpack_exp, simp add: f_eq_zero f_fin_def)
  have v: "fval m = (if s then - 1 else 1) * ((2 ^ 52 + real F) * 2 powi - 53)" "f_fin m"
    using f_pack_value [OF refl F, of 1022 s] by (simp_all add: m_def)
  have "real F < real (2 ^ 52)" using F by (simp only: of_nat_less_iff)
  then have "1 / 2 \<le> \<bar>fval m\<bar>" "\<bar>fval m\<bar> < 1" unfolding v by (simp_all add: abs_mult power_int_minus)
  moreover have "fval x = fval m * 2 powi (int E - 1022)"
  proof -
    have "(2::real) powi (int E - 1075) = 2 powi - 53 * 2 powi (int E - 1022)"
      using power_int_add [of "2::real" "- 53" "int E - 1022"] by simp
    then show ?thesis using x(2) d by (simp add: v fval_sign [of x] f_man_def f_ex_def)
  qed
  ultimately show ?thesis using r v(2) unfolding d by blast
qed

lemma frexp_ok:
  assumes x: "f_fin x" "fval x \<noteq> 0"
  shows "\<exists>m e. frexp x = Some (m, e) \<and> f_fin m \<and> 1 / 2 \<le> \<bar>fval m\<bar> \<and> \<bar>fval m\<bar> < 1 \<and>
    fval x = fval m * 2 powi e"
proof (cases "dbl_exp x = 0")
  case False
  then show ?thesis using frexp_normal [OF x(1)] by blast
next
  case True
  define y where "y = f_mul x (f_of_int 18446744073709551616)"
  have c: "f_fin (f_of_int 18446744073709551616) \<and> fval (f_of_int 18446744073709551616) = 2 powi 64"
    using f_result_exact [OF _ representable_pow2, of 64 "f_of_int 18446744073709551616"]
      f_of_int_result [of 18446744073709551616] by simp
  have v: "fval x * 2 powi 64 = of_int (f_int x) * 2 powi - 1010"
    using True power_int_add [of "2::real" "- 1074" 64] by (simp add: fval_def f_ex_def)
  have "representable (fval x * 2 powi 64)"
  proof -
    have lt: "\<bar>f_int x\<bar> < 2 ^ 53" using f_man_less [of x] by (simp add: f_int_def)
    then have "real_of_int \<bar>f_int x\<bar> < real_of_int (2 ^ 53)" by (simp only: of_int_less_iff)
    then have "\<bar>of_int (f_int x) * 2 powi - 1010 :: real\<bar> < 2 ^ 53 * 2 powi - 1010"
      unfolding abs_mult by (simp add: mult_strict_right_mono)
    also have "\<dots> \<le> 2 powi 1024" using power_int_add [of "2::real" 53 "- 1010"] powi_mono2 [of "- 957" 1024] by simp
    finally show ?thesis unfolding v using lt by (intro representable_scaled) simp_all
  qed
  then have y: "f_fin y" "fval y = fval x * 2 powi 64"
    using f_result_exact [OF f_mul_result [OF x(1), of "f_of_int 18446744073709551616"]] c by (simp_all add: y_def)
  have "dbl_exp y \<noteq> 0"
  proof
    assume "dbl_exp y = 0"
    then have "f_man y < 2 ^ 52" "f_ex y = - 1074" using f_frac_less [of y] by (simp_all add: f_man_def f_ex_def)
    then have "real (f_man y) < real (2 ^ 52)" by (simp only: of_nat_less_iff)
    then have lt: "\<bar>fval y\<bar> < 2 ^ 52 * 2 powi - 1074"
      unfolding fval_abs \<open>f_ex y = - 1074\<close> by (intro mult_strict_right_mono) simp_all
    have "1 \<le> \<bar>f_int x\<bar>" using x(2) by (simp add: fval_def)
    then have "1 \<le> real_of_int \<bar>f_int x\<bar>" by linarith
    then have "1 * 2 powi - 1010 \<le> \<bar>fval y\<bar>" unfolding y v abs_mult by (intro mult_mono) simp_all
    with lt have "(2::real) powi - 1010 < 2 ^ 52 * 2 powi - 1074" by simp
    also have "\<dots> = 2 powi - 1022" using power_int_add [of "2::real" 52 "- 1074"] by simp
    finally show False using powi_mono2 [of "- 1022" "- 1010"] by simp
  qed
  from frexp_normal [OF y(1) this] obtain m where
    m: "frexp y = Some (m, int (dbl_exp y) - 1022)" "f_fin m" "1 / 2 \<le> \<bar>fval m\<bar>" "\<bar>fval m\<bar> < 1"
      "fval y = fval m * 2 powi (int (dbl_exp y) - 1022)" by blast
  have "frexp x = Some (m, int (dbl_exp y) - 1086)"
    using x True m(1) by (subst frexp.simps) (simp add: rt_unpack_exp f_eq_zero y_def)
  moreover have "fval x = fval m * 2 powi (int (dbl_exp y) - 1086)"
  proof -
    have "fval x * 2 powi 64 = fval m * 2 powi (int (dbl_exp y) - 1086) * 2 powi 64"
      using m(5) y(2) power_int_add [of "2::real" "int (dbl_exp y) - 1086" 64] by (simp add: mult.assoc)
    then show ?thesis by simp
  qed
  ultimately show ?thesis using m(2-4) by blast
qed

text \<open>The double \<open>2\<^sup>n\<close> and the product with it.\<close>

lemma pow2_double:
  assumes "- 1022 \<le> n" "n \<le> 1023"
  shows "f_fin (push_bit 52 (word_of_int (1023 + n))) \<and> fval (push_bit 52 (word_of_int (1023 + n))) = 2 powi n"
proof -
  define E where "E = nat (1023 + n)"
  have E: "0 < E" "E < 2047" "n = int E - 1023" using assms by (simp_all add: E_def)
  have "word_of_int (1023 + n) = (of_nat E :: u64)" using E by simp
  then have "unat (word_of_int (1023 + n) :: u64) = E" using E by (simp add: unat_of_nat_small)
  then have "unat (push_bit 52 (word_of_int (1023 + n)) :: u64) = E * 2 ^ 52"
    using E by (subst unat_push_bit_small) simp_all
  then have "push_bit 52 (word_of_int (1023 + n)) = f_pack False (E * 2 ^ 52)"
    using E by (simp add: word_unat_eq_iff unat_f_pack)
  then show ?thesis
    using f_pack_value [of "E * 2 ^ 52" E 0 False] E power_int_add [of "2::real" 52 "int E - 1075"] by simp
qed

lemma representable_between:
  assumes a: "representable v" and b: "representable (v * 2 powi n)" and k: "0 \<le> k \<and> k \<le> n \<or> n \<le> k \<and> k \<le> 0"
  shows "representable (v * 2 powi k)"
proof -
  obtain N f where N: "\<bar>v\<bar> = real N * 2 powi f" "N < 2 ^ 53" "- 1074 \<le> f" "\<bar>v\<bar> < 2 powi 1024"
    using a unfolding representable_def by blast
  obtain M g where M: "\<bar>v * 2 powi n\<bar> = real M * 2 powi g" "M < 2 ^ 53" "- 1074 \<le> g" "\<bar>v * 2 powi n\<bar> < 2 powi 1024"
    using b unfolding representable_def by blast
  have abs: "\<bar>v * 2 powi j\<bar> = \<bar>v\<bar> * 2 powi j" for j by (simp add: abs_mult)
  have mono: "\<bar>v * 2 powi i\<bar> \<le> \<bar>v * 2 powi j\<bar>" if "i \<le> j" for i j
    unfolding abs using powi_mono2 [OF that] by (intro mult_left_mono) simp_all
  show ?thesis
  proof (cases "0 \<le> k \<and> k \<le> n")
    case True
    then have "k \<le> n" by simp
    from mono [OF this] have "\<bar>v * 2 powi k\<bar> < 2 powi 1024" using M(4) by linarith
    moreover have "\<bar>v * 2 powi k\<bar> = real N * 2 powi (f + k)" unfolding abs N(1) by (simp add: power_int_add)
    ultimately show ?thesis using N(2,3) True unfolding representable_def by force
  next
    case False
    then have "n \<le> k" "k \<le> 0" using k by auto
    from mono [OF this(2)] have "\<bar>v * 2 powi k\<bar> < 2 powi 1024" using N(4) by simp
    moreover have "\<bar>v * 2 powi k\<bar> = real M * 2 powi (g + (k - n))"
    proof -
      have "\<bar>v * 2 powi k\<bar> = \<bar>v * 2 powi n\<bar> * 2 powi (k - n)" unfolding abs by (simp add: power_int_diff)
      then show ?thesis unfolding M(1) by (simp add: power_int_add)
    qed
    ultimately show ?thesis using M(2,3) \<open>n \<le> k\<close> unfolding representable_def by force
  qed
qed

lemma mul_pow2:
  assumes x: "f_fin x" and c: "f_fin c" "fval c = 2 powi k" and r: "representable (fval x * 2 powi k)"
  shows "f_fin (f_mul x c) \<and> fval (f_mul x c) = fval x * 2 powi k"
  using f_result_exact [OF f_mul_result [OF x c(1)]] c(2) r by simp

lemma ldexp_up_ok:
  "f_fin x \<Longrightarrow> representable (fval x * 2 powi n) \<Longrightarrow> ldexp_up x n = (y, k) \<Longrightarrow>
     f_fin y \<and> fval y * 2 powi k = fval x * 2 powi n \<and> k \<le> 1023 \<and> (k = n \<or> 0 \<le> k)"
proof (induction x n rule: ldexp_up.induct)
  case (1 x n)
  show ?case
  proof (cases "n > 1023")
    case True
    define z where "z = f_mul x (push_bit 52 2046)"
    have "representable (fval x * 2 powi 1023)"
      using True by (intro representable_between [OF representable_fval [OF "1.prems"(1)] "1.prems"(2)]) simp
    then have z: "f_fin z" "fval z = fval x * 2 powi 1023"
      using mul_pow2 [OF "1.prems"(1)] pow2_double [of 1023] unfolding z_def by (auto simp del: power_int_numeral)
    have e: "fval z * 2 powi (n - 1023) = fval x * 2 powi n"
      unfolding z(2) mult.assoc using power_int_add [of "2::real" 1023 "n - 1023"] by simp
    have r: "representable (fval z * 2 powi (n - 1023))" using "1.prems"(2) by (simp only: e)
    have "ldexp_up z (n - 1023) = (y, k)" using "1.prems"(3) True by (subst (asm) ldexp_up.simps) (simp add: z_def)
    from "1.IH" [OF True, folded z_def, OF z(1) r this] show ?thesis using True unfolding e by auto
  next
    case False
    then have "y = x" "k = n" using "1.prems"(3) by (simp_all add: ldexp_up.simps)
    then show ?thesis using False "1.prems" by simp
  qed
qed

lemma ldexp_down_ok:
  "f_fin x \<Longrightarrow> representable (fval x * 2 powi n) \<Longrightarrow> ldexp_down x n = (y, k) \<Longrightarrow>
     f_fin y \<and> fval y * 2 powi k = fval x * 2 powi n \<and> - 1074 \<le> k \<and> (k = n \<or> k \<le> 0)"
proof (induction x n rule: ldexp_down.induct)
  case (1 x n)
  show ?case
  proof (cases "n < - 1074")
    case True
    define z where "z = f_mul x 1"
    have c: "f_fin 1" "fval 1 = 2 powi - 1074" by (simp_all add: f_fin_def dbl_exp_def fval_def f_int_def f_sign_def f_man_def f_frac_def f_ex_def)
    have "representable (fval x * 2 powi - 1074)"
      using True by (intro representable_between [OF representable_fval [OF "1.prems"(1)] "1.prems"(2)]) simp
    then have z: "f_fin z" "fval z = fval x * 2 powi - 1074"
      using mul_pow2 [OF "1.prems"(1) c] unfolding z_def by blast+
    have e: "fval z * 2 powi (n + 1074) = fval x * 2 powi n"
      unfolding z(2) mult.assoc using power_int_add [of "2::real" "- 1074" "n + 1074"] by simp
    have r: "representable (fval z * 2 powi (n + 1074))" using "1.prems"(2) by (simp only: e)
    have "ldexp_down z (n + 1074) = (y, k)" using "1.prems"(3) True by (subst (asm) ldexp_down.simps) (simp add: z_def)
    from "1.IH" [OF True, folded z_def, OF z(1) r this] show ?thesis using True unfolding e by auto
  next
    case False
    then have "y = x" "k = n" using "1.prems"(3) by (simp_all add: ldexp_down.simps)
    then show ?thesis using False "1.prems" by simp
  qed
qed

lemma ldexp_ok:
  assumes x: "f_fin x" and r: "representable (fval x * 2 powi n)"
  shows "f_fin (ldexp x n) \<and> fval (ldexp x n) = fval x * 2 powi n"
proof -
  obtain y k where u: "ldexp_up x n = (y, k)" by fastforce
  note y = ldexp_up_ok [OF x r u]
  obtain z j where d: "ldexp_down y k = (z, j)" by fastforce
  have ry: "representable (fval y * 2 powi k)" using y r by (simp only:)
  note z = ldexp_down_ok [OF conjunct1 [OF y] ry d]
  have e: "fval z * 2 powi j = fval x * 2 powi n" "f_fin z" "- 1074 \<le> j" "j \<le> 1023" using y z by auto
  have rz: "representable (fval z * 2 powi j)" using e(1) r by (simp only:)
  show ?thesis
  proof (cases "- 1022 \<le> j")
    case True
    have "ldexp x n = f_mul z (push_bit 52 (word_of_int (1023 + j)))"
      using True by (simp add: ldexp_def u d)
    then show ?thesis using mul_pow2 [OF e(2) _ _ rz] pow2_double [OF True e(4)] e(1) by simp
  next
    case False
    define w where "w = f_mul z (push_bit 52 (word_of_int (1023 + - 1022)))"
    have p: "f_fin (push_bit 52 (word_of_int (1023 + - 1022))) \<and>
        fval (push_bit 52 (word_of_int (1023 + - 1022))) = 2 powi - 1022" by (rule pow2_double) simp_all
    have rp: "representable (fval z * 2 powi - 1022)"
      using False by (intro representable_between [OF representable_fval [OF e(2)] rz]) simp
    then have w: "f_fin w" "fval w = fval z * 2 powi - 1022"
      using mul_pow2 [OF e(2) conjunct1 [OF p] conjunct2 [OF p] rp] unfolding w_def by blast+
    have wj: "fval w * 2 powi (j + 1022) = fval x * 2 powi n"
      unfolding w(2) mult.assoc e(1) [symmetric] using power_int_add [of "2::real" "- 1022" "j + 1022"] by simp
    then have rw: "representable (fval w * 2 powi (j + 1022))" using r by (simp only:)
    have "ldexp x n = f_mul w (push_bit 52 (word_of_int (1023 + (j + 1022))))"
      using False by (simp add: ldexp_def u d w_def)
    then show ?thesis using mul_pow2 [OF w(1) _ _ rw] pow2_double [of "j + 1022"] e(3) False wj by simp
  qed
qed

end
