(* ===== verification/RtSqrt.thy ===== *)
theory RtSqrt
  imports RtMathProps
begin

text \<open>
  The square root of \<open>rt_math.c\<close>: the square of a 54-bit number in two words, the integer
  square root found bit by bit, its rounding, and the scaling of denormal arguments.
\<close>

section \<open>Squares in two words\<close>


lemma split_scale: "(x :: nat) * B = x div A * (A * B) + x mod A * B"
  by (metis div_mult_mod_eq distrib_right mult.assoc)

lemma rt_sq128_ok:
  assumes v: "unat v < 2 ^ 54" and r: "rt_sq128 v = (hi, lo)"
  shows "unat hi * 2 ^ 64 + unat lo = unat v * unat v"
proof -
  define a c where "a = drop_bit 32 v" and "c = v AND 0xFFFFFFFF"
  have ua: "unat a = unat v div 2 ^ 32"
    unfolding a_def unat_drop_bit_eq drop_bit_eq_div [of 32 "unat v"] ..
  have uc: "unat c = unat v mod 2 ^ 32"
    unfolding c_def by (rule unat_and_mask) (simp add: mask_eq_exp_minus_1)
  have al: "unat a < 2 ^ 22" using v by (simp add: ua div_less_iff_less_mult)
  have cl: "unat c < 2 ^ 32" by (simp add: uc)
  have "unat a * unat c < 2 ^ 22 * 2 ^ 32" using al cl by (intro mult_strict_mono) simp_all
  then have x54: "unat a * unat c < 2 ^ 54" by simp
  then have cross: "unat (a * c) = unat a * unat c" by (subst unat_mult_small) simp_all
  have cc: "unat c * unat c < 2 ^ 32 * 2 ^ 32" using cl by (intro mult_strict_mono) simp_all
  then have l: "unat (c * c) = unat c * unat c" by (subst unat_mult_small) simp_all
  have aa: "unat a * unat a < 2 ^ 22 * 2 ^ 22" using al by (intro mult_strict_mono) simp_all
  then have h: "unat (a * a) = unat a * unat a" by (subst unat_mult_small) simp_all
  define x where "x = unat a * unat c"
  have p: "unat (push_bit 33 (a * c)) = x mod 2 ^ 31 * 2 ^ 33"
  proof -
    have "unat (push_bit 33 (a * c)) = unat (a * c) * 2 ^ 33 mod 2 ^ 64"
      by (simp add: push_bit_eq_mult unat_word_ariths)
    also have "\<dots> = x * 2 ^ 33 mod (2 ^ 31 * 2 ^ 33)" by (simp add: cross x_def)
    finally show ?thesis by (simp only: mult_mod_left)
  qed
  have d: "unat (drop_bit 31 (a * c)) = x div 2 ^ 31"
    unfolding unat_drop_bit_eq cross x_def by (rule drop_bit_eq_div)
  define q where "q = x mod 2 ^ 31 * 2 ^ 33"
  have "x mod 2 ^ 31 < 2 ^ 31" by simp
  then have q: "q < 2 ^ 64" unfolding q_def by simp
  define l2 where "l2 = c * c + push_bit 33 (a * c)"
  define s where "s = unat c * unat c + q"
  have s: "s < 2 * 2 ^ 64" using cc q by (simp add: s_def)
  have l2: "unat l2 = s mod 2 ^ 64" 
    by (simp only: l2_def unat_word_ariths(1) l p s_def q_def) simp
  have carry: "l2 < c * c \<longleftrightarrow> 2 ^ 64 \<le> s"
  proof (cases "2 ^ 64 \<le> s")
    case True
    then have "s mod 2 ^ 64 = s - 2 ^ 64" using s by (simp add: mod_if)
    then show ?thesis using True q unfolding word_less_nat_alt l2 l by (simp add: s_def)
  next
    case False
    then show ?thesis unfolding word_less_nat_alt l2 l by (simp add: s_def)
  qed
  have hi: "hi = (if l2 < c * c then a * a + 1 else a * a) + drop_bit 31 (a * c)" and lo: "lo = l2"
    using r unfolding rt_sq128_def Let_def a_def [symmetric] c_def [symmetric] l2_def [symmetric] by auto
  have "x div 2 ^ 31 < 2 ^ 23" using x54 by (simp add: x_def div_less_iff_less_mult)
  moreover have "s div 2 ^ 64 = (if 2 ^ 64 \<le> s then 1 else 0)"
    using s by (auto intro!: div_nat_eqI)
  ultimately have uhi: "unat hi = unat a * unat a + s div 2 ^ 64 + x div 2 ^ 31"
    using aa unfolding hi carry by (simp add: unat_add_small h d)
  define A where "A = unat a"
  have "unat v = A * 2 ^ 32 + unat c" by (simp add: ua uc A_def)
  then have "unat v * unat v = A * A * 2 ^ 64 + A * unat c * 2 ^ 33 + unat c * unat c"
    by (simp add: algebra_simps)
  also have "A * unat c * 2 ^ 33 = x div 2 ^ 31 * 2 ^ 64 + q"
    using split_scale [of x "2 ^ 33" "2 ^ 31"] by (simp add: x_def A_def q_def)
  finally have "unat v * unat v = (A * A + x div 2 ^ 31) * 2 ^ 64 + s" by (simp add: s_def algebra_simps)
  moreover have "s = s div 2 ^ 64 * 2 ^ 64 + s mod 2 ^ 64" by (rule div_mult_mod_eq [symmetric])
  ultimately show ?thesis unfolding uhi lo l2 A_def by (simp add: algebra_simps)
qed

section \<open>The integer square root\<close>

lemma or_bit_free:
  assumes "unat r mod 2 ^ Suc i = 0" "unat r + 2 ^ i < 2 ^ 64"
  shows "unat (r OR push_bit i 1 :: u64) = unat r + 2 ^ i"
proof -
  have "2 ^ Suc i dvd unat r" using assms(1) by (simp add: dvd_eq_mod_eq_0)
  then have "unat r div 2 ^ i = 2 * (unat r div 2 ^ Suc i)" by (auto elim!: dvdE)
  then have "\<not> bit (unat r) i" unfolding bit_iff_odd by simp
  then have "\<not> bit r i" using bit_imp_le_length [of r i] by (auto simp: bit_unsigned_iff)
  then have "r AND push_bit i 1 = 0"
    by (intro bit_word_eqI) (auto simp: bit_and_iff bit_exp_iff)
  then have o: "r OR push_bit i 1 = r + push_bit i 1" by (simp only: disjunctive_add_eq_or)
  have "unat (push_bit i 1 :: u64) = 2 ^ i" using assms(2) by (subst unat_push_bit_small) auto
  then show ?thesis using assms(2) unfolding o by (subst unat_add_small) simp_all
qed

lemma hi_lo_le:
  assumes "l < B" "l' < (B::nat)"
  shows "h < h' \<or> h = h' \<and> l \<le> l' \<longleftrightarrow> h * B + l \<le> h' * B + l'"
proof (cases h h' rule: linorder_cases)
  case less
  then have "(h + 1) * B \<le> h' * B" by (intro mult_le_mono1) simp
  then show ?thesis using less assms by simp
next
  case greater
  then have "(h' + 1) * B \<le> h * B" by (intro mult_le_mono1) simp
  then show ?thesis using greater assms by simp
qed simp

text \<open>Above the bits still to try, the root is the one of the target.\<close>

lemma sqrt_loop_ok:
  assumes T: "T = unat hi * 2 ^ 64 + unat lo"
  shows "i \<le> 54 \<Longrightarrow> unat r = q * 2 ^ i \<Longrightarrow> q * 2 ^ i + 2 ^ i \<le> 2 ^ 54 \<Longrightarrow> unat r * unat r \<le> T \<Longrightarrow>
    T < (unat r + 2 ^ i) * (unat r + 2 ^ i) \<Longrightarrow>
    let r' = unat (sqrt_loop i hi lo r) in r' * r' \<le> T \<and> T < (r' + 1) * (r' + 1)"
proof (induction i arbitrary: r q)
  case 0
  then show ?case by simp
next
  case (Suc i)
  define c where "c = r OR push_bit i 1"
  have "(2::nat) ^ 54 < 2 ^ 64" by simp
  then have c: "unat c = unat r + 2 ^ i"
    unfolding c_def using Suc.prems(2,3) by (intro or_bit_free) simp_all
  have "0 < (2::nat) ^ i" by simp
  then have c54: "unat c < 2 ^ 54" using Suc.prems(2,3) unfolding c power_Suc by linarith
  obtain ch cl where sq: "rt_sq128 c = (ch, cl)" by fastforce
  have le: "ch < hi \<or> ch = hi \<and> cl \<le> lo \<longleftrightarrow> unat c * unat c \<le> T"
    unfolding T rt_sq128_ok [OF c54 sq, symmetric] word_less_nat_alt word_le_nat_alt word_unat_eq_iff
    by (rule hi_lo_le) (use unsigned_less [of cl] unsigned_less [of lo] in simp_all)
  show ?case
  proof (cases "unat c * unat c \<le> T")
    case True
    have "sqrt_loop (Suc i) hi lo r = sqrt_loop i hi lo c"
      using True le unfolding sqrt_loop.simps Let_def c_def [symmetric] sq prod.case by simp
    then show ?thesis
      using Suc.IH [of c "2 * q + 1"] True Suc.prems c by (simp add: algebra_simps)
  next
    case False
    have "sqrt_loop (Suc i) hi lo r = sqrt_loop i hi lo r"
      using False le unfolding sqrt_loop.simps Let_def c_def [symmetric] sq prod.case by (simp only: if_False)
    then show ?thesis
      using Suc.IH [of r "2 * q"] False Suc.prems c by (simp add: algebra_simps)
  qed
qed

section \<open>Rounding the root\<close>

lemma sq_less_iff: "0 \<le> a \<Longrightarrow> 0 \<le> (b :: real) \<Longrightarrow> a * a < b * b \<longleftrightarrow> a < b"
  by (metis mult_strict_mono' mult_mono not_le)

text \<open>\<open>t\<close> lies a half or less above its integer root when the remainder is at most the root.\<close>

lemma sqrt_round:
  fixes T R :: nat
  assumes "R * R \<le> T" "T < (R + 1) * (R + 1)"
  shows "rounds_even (sqrt (real T)) (if R < T - R * R then R + 1 else R)"
proof -
  define t where "t = sqrt (real T)"
  have t: "t * t = real T" "0 \<le> t" by (simp_all add: t_def)
  have "real (R * R) \<le> real T" "real T < real ((R + 1) * (R + 1))" using assms by (simp_all only: of_nat_le_iff of_nat_less_iff)
  then have "real R * real R \<le> t * t" "t * t < (real R + 1) * (real R + 1)"
    unfolding t(1) of_nat_mult of_nat_add by simp_all
  then have R: "real R \<le> t" "t < real R + 1"
    using t(2) sq_less_iff [of t "real R"] sq_less_iff [of t "real R + 1"] by simp_all
  show ?thesis
  proof (cases "R < T - R * R")
    case True
    then have "real (R * R + R + 1) \<le> real T" by (simp only: of_nat_le_iff)
    then have "(real R + 1 / 2) * (real R + 1 / 2) < t * t" by (simp add: t algebra_simps)
    then have "real R + 1 / 2 < t" using t(2) by (subst (asm) sq_less_iff) simp_all
    then show ?thesis using True R by (simp add: rounds_even_def t_def [symmetric] abs_if)
  next
    case False
    then have "real T \<le> real (R * R + R)" using assms by (simp only: of_nat_le_iff)
    then have "t * t < (real R + 1 / 2) * (real R + 1 / 2)" by (simp add: t algebra_simps)
    then have "t < real R + 1 / 2" using t(2) by (subst (asm) sq_less_iff) simp_all
    then show ?thesis using False R by (simp add: rounds_even_def t_def [symmetric] abs_if)
  qed
qed

lemma make_from_mant_ok:
  assumes m: "2 ^ 52 \<le> unat m" "unat m < 2 ^ 53" and e: "- 1075 < e" "e < 972"
  shows "f_fin (rt_make_from_mant m e) \<and> fval (rt_make_from_mant m e) = real (unat m) * 2 powi e"
proof -
  define E where "E = nat (e + 1075)"
  have E: "e + 1075 = int E" "0 < E" "E < 2047" using e by (simp_all add: E_def)
  define F where "F = unat m - 2 ^ 52"
  have F: "unat m = 2 ^ 52 + F" "F < 2 ^ 52" using m by (simp_all add: F_def)
  have "unat (m AND 0xFFFFFFFFFFFFF) = F" unfolding rt_unpack_frac F(1) using F(2) by simp
  moreover have "unat (word_of_int (e + 1075) :: u64) = E" using E by (simp add: unat_of_nat_small)
  ultimately have "unat (rt_make_from_mant m e) = E * 2 ^ 52 + F"
    using E F by (simp add: rt_make_from_mant_def Let_def unat_push_or)
  then have "rt_make_from_mant m e = f_pack False (E * 2 ^ 52 + F)"
    using E F(2) by (simp add: word_unat_eq_iff unat_f_pack)
  moreover have "int E - 1075 = e" using E(1) by simp
  ultimately show ?thesis using f_pack_value [OF refl F(2) E(2,3), of False] F(1) by simp
qed

text \<open>The root of \<open>m * 2\<^sup>e\<close> with \<open>m\<close> a normal mantissa, rounded.\<close>

definition sqrt_rounded :: "real \<Rightarrow> f64 \<Rightarrow> bool" where
  "sqrt_rounded v r \<longleftrightarrow> (\<exists>f N. - 600 \<le> f \<and> f \<le> 500 \<and> 2 powi (f + 52) \<le> sqrt v \<and> sqrt v < 2 powi (f + 53) \<and>
     rounds_even (sqrt v / 2 powi f) N \<and> f_fin r \<and> fval r = real N * 2 powi f)"

lemma sqrt_even_ok:
  assumes m: "2 ^ 52 \<le> unat m" "unat m < 2 ^ 54" and T: "T = unat m * 2 ^ 52"
    and R: "R = unat (sqrt_loop 54 (drop_bit 12 m) (push_bit 52 m) 0)"
  shows "T = unat (drop_bit 12 m) * 2 ^ 64 + unat (push_bit 52 m)" "R * R \<le> T" "T < (R + 1) * (R + 1)"
    "2 ^ 52 \<le> R" "R < 2 ^ 53"
proof -
  have lo: "unat (push_bit 52 m) = unat m mod 2 ^ 12 * 2 ^ 52"
  proof -
    have "unat (push_bit 52 m) = unat m * 2 ^ 52 mod (2 ^ 12 * 2 ^ 52)"
      by (simp add: push_bit_eq_mult unat_word_ariths)
    then show ?thesis by (simp only: mult_mod_left)
  qed
  have hi: "unat (drop_bit 12 m) = unat m div 2 ^ 12"
    unfolding unat_drop_bit_eq by (rule drop_bit_eq_div)
  show Te: "T = unat (drop_bit 12 m) * 2 ^ 64 + unat (push_bit 52 m)"
    unfolding lo hi T using split_scale [of "unat m" "2 ^ 52" "2 ^ 12"] by simp
  have "T < 2 ^ 54 * 2 ^ 52" using m(2) by (simp add: T)
  then show RR: "R * R \<le> T" "T < (R + 1) * (R + 1)"
    using sqrt_loop_ok [OF Te, of 54 0 0] by (simp_all add: R Let_def)
  show "2 ^ 52 \<le> R"
  proof (rule ccontr)
    assume "\<not> 2 ^ 52 \<le> R"
    then have "(R + 1) * (R + 1) \<le> 2 ^ 52 * 2 ^ 52" by (intro mult_le_mono) simp_all
    then show False using RR(2) m(1) by (simp add: T)
  qed
  show "R < 2 ^ 53"
  proof (rule ccontr)
    assume "\<not> R < 2 ^ 53"
    then have "2 ^ 53 * 2 ^ 53 \<le> R * R" by (intro mult_le_mono) simp_all
    then show False using RR(1) m(2) by (simp add: T)
  qed
qed

text \<open>The subtraction in two words decides whether the remainder is above the root.\<close>

lemma sub_words:
  fixes h l rh rl :: u64 and Q T :: nat
  assumes T: "T = unat h * 2 ^ 64 + unat l" and Q: "Q = unat rh * 2 ^ 64 + unat rl" and le: "Q \<le> T"
  shows "unat (if l < rl then h - rh - 1 else h - rh) * 2 ^ 64 + unat (l - rl) = T - Q"
proof (cases "l < rl")
  case True
  then have lt: "unat l < unat rl" by (simp add: word_less_nat_alt)
  have "unat rl < 2 ^ 64" "unat l < 2 ^ 64" using unsigned_less [of rl] unsigned_less [of l] by simp_all
  then have h: "unat rh + 1 \<le> unat h" using le lt unfolding T Q by simp
  then have "unat (h - rh) = unat h - unat rh" by (intro unat_sub) (simp add: word_le_nat_alt)
  moreover from this have "unat (h - rh - 1) = unat (h - rh) - 1"
    using h by (metis le_add_diff_inverse2 unat_1 unat_sub word_le_nat_alt One_nat_def le_diff_conv2 add.commute add_leD1)
  ultimately have "unat (h - rh - 1) = unat h - unat rh - 1" by simp
  moreover have "unat (l - rl) = 2 ^ 64 + unat l - unat rl"
    using lt by (simp add: unat_sub_if')
  ultimately show ?thesis using True h lt \<open>unat rl < 2 ^ 64\<close> unfolding T Q by (simp add: algebra_simps diff_mult_distrib)
next
  case False
  then have lt: "unat rl \<le> unat l" by (simp add: word_less_nat_alt)
  have "unat rl < 2 ^ 64" "unat l < 2 ^ 64" using unsigned_less [of rl] unsigned_less [of l] by simp_all
  then have h: "unat rh \<le> unat h" using le lt unfolding T Q by simp
  then have "unat (h - rh) = unat h - unat rh" by (intro unat_sub) (simp add: word_le_nat_alt)
  moreover have "unat (l - rl) = unat l - unat rl" using lt by (intro unat_sub) (simp add: word_le_nat_alt)
  ultimately show ?thesis using False h lt unfolding T Q by (simp add: diff_mult_distrib)
qed

lemma above_word: "h > 0 \<or> l > w \<longleftrightarrow> unat w < unat (h :: u64) * 2 ^ 64 + unat (l :: u64)"
proof (cases "h = 0")
  case False
  then have "1 \<le> unat h" by (simp add: Suc_le_eq unat_gt_0)
  then have "1 * 2 ^ 64 \<le> unat h * 2 ^ 64" by (rule mult_le_mono1)
  moreover have "unat w < 2 ^ 64" using unsigned_less [of w] by simp
  ultimately show ?thesis using False by (simp add: word_neq_0_conv)
qed (simp add: word_less_nat_alt)

lemma sqrt_normal_ok:
  assumes m: "2 ^ 52 \<le> unat m" "unat m < 2 ^ 53" and e: "- 1074 \<le> e" "e \<le> 971"
  shows "sqrt_rounded (real (unat m) * 2 powi e) (sqrt_normal m e)"
proof -
  define m' where "m' = (if e mod 2 \<noteq> 0 then push_bit 1 m else m)"
  define e' where "e' = (if e mod 2 \<noteq> 0 then e - 1 else e)"
  have um: "unat m' = (if e mod 2 \<noteq> 0 then 2 * unat m else unat m)"
  proof -
    have "unat (push_bit 1 m) = unat m * 2" using m by (subst unat_push_bit_small) simp_all
    then show ?thesis by (simp only: m'_def mult.commute if_distrib [of unat])
  qed
  have m': "2 ^ 52 \<le> unat m'" "unat m' < 2 ^ 54" using m by (simp_all add: um)
  have ev: "even e'" by (simp add: e'_def even_iff_mod_2_eq_zero) presburger
  have e': "- 1074 \<le> e'" "e' \<le> 971" using e ev by (simp_all add: e'_def split: if_splits) presburger
  have v: "real (unat m) * 2 powi e = real (unat m') * 2 powi e'"
    using power_int_add [of "2::real" 1 "e - 1"] by (simp add: um e'_def)
  define T where "T = unat m' * 2 ^ 52"
  define root where "root = sqrt_loop 54 (drop_bit 12 m') (push_bit 52 m') 0"
  note S = sqrt_even_ok [OF m' T_def refl, folded root_def]
  obtain rh rl where sq: "rt_sq128 root = (rh, rl)" by fastforce
  define h l where "h = drop_bit 12 m'" and "l = push_bit 52 m'"
  have Q: "unat root * unat root = unat rh * 2 ^ 64 + unat rl" using rt_sq128_ok [OF _ sq] S(5) by simp
  define up where "up \<longleftrightarrow> (if l < rl then h - rh - 1 else h - rh) > 0 \<or> l - rl > root"
  have up: "up \<longleftrightarrow> unat root < T - unat root * unat root"
    unfolding up_def above_word
    using sub_words [OF S(1) Q S(2)] by (simp only: h_def l_def)
  define R where "R = (if up then root + 1 else root)"
  define N where "N = (if up then unat root + 1 else unat root)"
  have N: "unat R = N" "2 ^ 52 \<le> N" "N \<le> 2 ^ 53"
    using S(4,5) unat_add_small [of root 1] by (simp_all add: R_def N_def)
  have re: "rounds_even (sqrt (real T)) N"
    using sqrt_round [OF S(2,3)] up by (simp add: N_def)
  define f where "f = (e' - 52) div 2"
  have f: "e' = 2 * f + 52" using ev by (simp add: f_def)
  have "(2::real) powi e' = 2 powi f * 2 powi f * 2 ^ 52"
    using power_int_add [of "2::real" "f + f" 52] power_int_add [of "2::real" f f] by (simp add: f)
  then have vT: "real (unat m') * 2 powi e' = real T * (2 powi f * 2 powi f)" by (simp add: T_def)
  then have sv: "sqrt (real (unat m') * 2 powi e') = sqrt (real T) * 2 powi f"
    by (simp add: real_sqrt_mult)
  have res: "sqrt_normal m e =
      (if R \<ge> push_bit 53 1 then rt_make_from_mant (drop_bit 1 R) (f + 1) else rt_make_from_mant R f)"
  proof -
    have me: "(if e mod 2 \<noteq> 0 then (push_bit 1 m, e - 1) else (m, e)) = (m', e')"
      by (simp only: m'_def e'_def split: if_split) simp
    have rl: "sqrt_loop 54 h l 0 = root" by (simp only: root_def h_def l_def)
    show ?thesis
      unfolding sqrt_normal_def me Let_def prod.case h_def [symmetric] l_def [symmetric] rl sq
        up_def [symmetric] R_def [symmetric] f_def [symmetric]
      by (simp only: prod.case split: if_split) simp
  qed
  have fb: "- 600 \<le> f" "f \<le> 490" using e' f by linarith+
  have r: "f_fin (sqrt_normal m e) \<and> fval (sqrt_normal m e) = real N * 2 powi f"
  proof (cases "N = 2 ^ 53")
    case True
    have "R \<ge> push_bit 53 1" using N True by (simp add: word_le_nat_alt)
    moreover have "unat (drop_bit 1 R) = 2 ^ 52"
      unfolding unat_drop_bit_eq N True by (simp add: drop_bit_eq_div)
    moreover have "2 ^ 52 * 2 powi (f + 1) = 2 ^ 53 * (2 :: real) powi f" by (simp add: power_int_add)
    ultimately show ?thesis
      using make_from_mant_ok [of "drop_bit 1 R" "f + 1"] fb True by (simp add: res)
  next
    case False
    have "\<not> R \<ge> push_bit 53 1" using N False by (simp add: word_le_nat_alt)
    then show ?thesis using make_from_mant_ok [of R f] fb N False by (simp only: res if_False)
  qed
  have "2 ^ 52 * 2 ^ 52 \<le> T" "T < 2 ^ 54 * 2 ^ 52" using m' by (simp_all add: T_def)
  then have "real (2 ^ 52 * 2 ^ 52) \<le> real T" "real T < real (2 ^ 54 * 2 ^ 52)"
    by (simp_all only: of_nat_le_iff of_nat_less_iff)
  then have "2 ^ 52 \<le> sqrt (real T)" "sqrt (real T) < 2 ^ 53"
    by (intro real_le_rsqrt real_less_lsqrt; simp)+
  then have "2 powi (f + 52) \<le> sqrt (real T) * 2 powi f" "sqrt (real T) * 2 powi f < 2 powi (f + 53)"
    by (simp_all add: power_int_add)
  then show ?thesis
    unfolding v sqrt_rounded_def sv using fb re r by (intro exI [of _ f] exI [of _ N]) simp
qed

section \<open>The root of a double\<close>

lemma sqrt_d_normal:
  assumes x: "f_fin x" "0 < fval x" "dbl_exp x \<noteq> 0"
  shows "\<exists>r. sqrt_d x = Some r \<and> sqrt_rounded (fval x) r"
proof -
  define m where "m = (x AND 0xFFFFFFFFFFFFF) OR push_bit 52 1"
  have "unat (x AND 0xFFFFFFFFFFFFF) = f_frac x" unfolding rt_unpack_frac f_frac_def ..
  then have m: "unat m = f_man x"
    using or_hidden_bit [of "x AND 0xFFFFFFFFFFFFF" 52] f_frac_less [of x] x(3) by (simp add: m_def f_man_def)
  have e: "int (dbl_exp x) - 1075 = f_ex x" using x(3) by (simp add: f_ex_def)
  have "sqrt_d x = Some (sqrt_normal m (f_ex x))"
    using x by (subst sqrt_d.simps) (simp add: rt_unpack_exp f_eq_zero f_lt_iff e m_def)
  moreover have "fval x = real (unat m) * 2 powi f_ex x" using x fval_abs [of x] by (simp add: m)
  moreover have "2 ^ 52 \<le> unat m" using x(3) by (simp add: m f_man_def)
  ultimately show ?thesis
    using sqrt_normal_ok [of m "f_ex x"] f_man_less [of x] f_ex_range [of x] x(1) by (simp add: m)
qed

lemma denormal_below: "dbl_exp y = 0 \<Longrightarrow> \<bar>fval y\<bar> < 2 powi - 1022"
proof -
  assume "dbl_exp y = 0"
  then have "f_man y < 2 ^ 52" "f_ex y = - 1074" using f_frac_less [of y] by (simp_all add: f_man_def f_ex_def)
  then have "real (f_man y) < real (2 ^ 52)" by (simp only: of_nat_less_iff)
  then have "\<bar>fval y\<bar> < 2 ^ 52 * 2 powi - 1074"
    unfolding fval_abs \<open>f_ex y = - 1074\<close> by (intro mult_strict_right_mono) simp_all
  also have "\<dots> = 2 powi - 1022" using power_int_add [of "2::real" 52 "- 1074"] by simp
  finally show ?thesis .
qed

lemma sqrt_rounded_scaled:
  assumes "sqrt_rounded v s" and k: "\<bar>k\<bar> \<le> 54"
  shows "representable (fval s * 2 powi k)"
proof -
  obtain f N where f: "- 600 \<le> f" "f \<le> 500" and b: "sqrt v < 2 powi (f + 53)"
    and N: "rounds_even (sqrt v / 2 powi f) N" and s: "fval s = real N * 2 powi f"
    using assms(1) unfolding sqrt_rounded_def by blast
  have e: "fval s * 2 powi k = real N * 2 powi (f + k)" unfolding s by (simp add: power_int_add)
  have "sqrt v / 2 powi f < 2 ^ 53" using b by (simp add: power_int_add field_simps)
  then have "real N < real (2 ^ 53) + 1" using rounds_even_near [OF N] by simp
  then have N53: "N \<le> 2 ^ 53" by linarith
  show ?thesis
  proof (cases "N = 2 ^ 53")
    case True
    have "fval s * 2 powi k = 2 powi (f + k + 53)" unfolding e True by (simp add: power_int_add)
    then show ?thesis using f k representable_pow2 [of "f + k + 53"] by simp
  next
    case False
    have "real N \<le> real (2 ^ 53)" using N53 by (simp only: of_nat_le_iff)
    then have "real N * 2 powi (f + k) \<le> 2 ^ 53 * 2 powi 554"
      using f k by (intro mult_mono powi_mono2) simp_all
    also have "\<dots> = (2::real) powi 607" using power_int_add [of "2::real" 53 554] by simp
    also have "\<dots> < 2 powi 1024" by (rule power_int_strict_increasing) simp_all
    finally have "\<bar>of_int (int N) * 2 powi (f + k) :: real\<bar> < 2 powi 1024" by (simp add: abs_mult)
    then show ?thesis
      unfolding e using False N53 f k representable_scaled [of "int N" "f + k"] by simp
  qed
qed

lemma sqrt_rounded_result:
  assumes "sqrt_rounded (v * 2 powi (2 * k)) s" "f_fin r" "fval r = fval s * 2 powi - k" "\<bar>k\<bar> \<le> 54" "0 < v"
  shows "f_result (sqrt v) r"
proof -
  obtain f N where f: "- 600 \<le> f" "f \<le> 500" and b: "2 powi (f + 52) \<le> sqrt (v * 2 powi (2 * k))"
      "sqrt (v * 2 powi (2 * k)) < 2 powi (f + 53)"
    and N: "rounds_even (sqrt (v * 2 powi (2 * k)) / 2 powi f) N" and s: "fval s = real N * 2 powi f"
    using assms(1) unfolding sqrt_rounded_def by blast
  have "(2::real) powi (2 * k) = 2 powi k * 2 powi k" using power_int_add [of "2::real" k k] by (simp only: mult_2) simp
  then have q: "sqrt (v * 2 powi (2 * k)) = sqrt v * 2 powi k" by (simp add: real_sqrt_mult)
  have sh: "(2::real) powi (f + j) = 2 powi (f - k + j) * 2 powi k" for j
    using power_int_add [of "2::real" "f - k + j" k] by simp
  have pos: "(0::real) < 2 powi k" by simp
  have lo: "2 powi (f - k + 52) \<le> sqrt v" and hi: "sqrt v < 2 powi (f - k + 53)"
    using b unfolding q sh by (simp_all only: mult_le_cancel_right_pos [OF pos] mult_less_cancel_right_pos [OF pos])
  have "sqrt v * 2 powi k / 2 powi f = sqrt v / 2 powi (f - k)" by (simp add: power_int_diff)
  then have "rounds_even (sqrt v / 2 powi (f - k)) N" using N unfolding q by (simp only:)
  then have r64: "rounds64 (sqrt v) (real N * 2 powi (f - k))"
    unfolding rounds64_def using lo hi f assms(4) by (intro exI [of _ "f - k"] exI [of _ N]) auto
  have v: "fval r = real N * 2 powi (f - k)" unfolding assms(3) s by (simp add: power_int_diff power_int_minus field_simps)
  have "0 \<le> fval r" unfolding v by simp
  moreover have "fval r \<noteq> 0"
  proof -
    have "2 powi (f - k + 52) \<le> fval r"
      using rounds64_ge [OF r64, of 1 "f - k + 52"] lo f assms(4) unfolding v by simp
    moreover have "(0::real) < 2 powi (f - k + 52)" by simp
    ultimately show ?thesis by linarith
  qed
  ultimately have "\<not> f_sign r" using f_sign_neg by fastforce
  moreover have "fval r < 2 powi 1024" using fval_less_top [OF assms(2)] by linarith
  ultimately show ?thesis
    unfolding f_result_def using assms(2,5) r64 v \<open>0 \<le> fval r\<close>
    by (auto intro!: exI [of _ "fval r"] simp del: power_int_numeral)
qed

lemma sqrt_d_ok:
  assumes x: "f_fin x" "0 \<le> fval x"
  shows "\<exists>r. sqrt_d x = Some r \<and> f_result (sqrt (fval x)) r"
proof -
  consider "fval x = 0" | "0 < fval x" "dbl_exp x \<noteq> 0" | "0 < fval x" "dbl_exp x = 0" using x(2) by linarith
  then show ?thesis
  proof cases
    case 1
    then show ?thesis using x by (subst sqrt_d.simps) (simp add: f_eq_zero f_lt_iff f_result_def)
  next
    case 2
    then obtain r where r: "sqrt_d x = Some r" "sqrt_rounded (fval x) r" using sqrt_d_normal [OF x(1)] by blast
    moreover have "f_fin r" using r(2) by (auto simp: sqrt_rounded_def)
    ultimately show ?thesis using sqrt_rounded_result [of "fval x" 0 r r] 2 by simp
  next
    case 3
    define y where "y = f_mul x (push_bit 52 (1023 + 108))"
    have c: "f_fin (push_bit 52 (1023 + 108)) \<and> fval (push_bit 52 (1023 + 108)) = 2 powi 108"
      using pow2_double [of 108] by simp
    have v: "fval x * 2 powi 108 = of_int (f_int x) * 2 powi - 966"
      using 3(2) power_int_add [of "2::real" "- 1074" 108] by (simp add: fval_def f_ex_def)
    have man: "f_man x < 2 ^ 52" using 3(2) f_frac_less [of x] by (simp add: f_man_def)
    then have lt: "\<bar>f_int x\<bar> < 2 ^ 52" by (simp add: f_int_def)
    then have "real_of_int \<bar>f_int x\<bar> < real_of_int (2 ^ 52)" by (simp only: of_int_less_iff)
    then have "\<bar>of_int (f_int x) * 2 powi - 966 :: real\<bar> < 2 ^ 52 * 2 powi - 966"
      unfolding abs_mult by (simp add: mult_strict_right_mono)
    also have "\<dots> \<le> 2 powi 1024" using power_int_add [of "2::real" 52 "- 966"] powi_mono2 [of "- 914" 1024] by simp
    finally have "representable (fval x * 2 powi 108)"
      unfolding v using lt by (intro representable_scaled) simp_all
    then have y: "f_fin y" "fval y = fval x * 2 powi 108"
      using mul_pow2 [OF x(1) conjunct1 [OF c] conjunct2 [OF c]] by (simp_all only: y_def)
    have "f_int x \<noteq> 0" using 3(1) by (auto simp: fval_def)
    then have "1 \<le> \<bar>f_int x\<bar>" by linarith
    then have "1 \<le> real_of_int \<bar>f_int x\<bar>" by linarith
    then have "1 * 2 powi - 966 \<le> \<bar>fval y\<bar>" unfolding y v abs_mult by (intro mult_mono) simp_all
    then have dy: "dbl_exp y \<noteq> 0" using denormal_below [of y] powi_mono2 [of "- 1022" "- 966"] by auto
    have yp: "0 < fval y" using 3(1) by (simp only: y zero_less_mult_iff) simp
    obtain s where s: "sqrt_d y = Some s" "sqrt_rounded (fval y) s" using sqrt_d_normal [OF y(1) yp dy] by blast
    define r where "r = f_mul s (push_bit 52 (1023 - 54))"
    have d: "f_fin (push_bit 52 (1023 - 54)) \<and> fval (push_bit 52 (1023 - 54)) = 2 powi - 54"
      using pow2_double [of "- 54"] by simp
    have sf: "f_fin s" using s(2) by (auto simp: sqrt_rounded_def)
    have "representable (fval s * 2 powi - 54)" using s(2) by (rule sqrt_rounded_scaled) simp
    then have r: "f_fin r" "fval r = fval s * 2 powi - 54"
      using mul_pow2 [OF sf conjunct1 [OF d] conjunct2 [OF d]] by (simp_all only: r_def)
    have "sqrt_d x = Some r"
      using x 3 s(1) by (subst sqrt_d.simps) (simp add: rt_unpack_exp f_eq_zero f_lt_iff y_def r_def)
    moreover have "f_result (sqrt (fval x)) r"
      using sqrt_rounded_result [of "fval x" 54 s r] s(2) r 3(1) by (simp only: y(2)) simp
    ultimately show ?thesis by blast
  qed
qed

end
