(* ===== verification/RtMathExp.thy ===== *)
theory RtMathExp
  imports RtMath "HOL-Library.Signed_Division"
begin

text \<open>
  \<open>rt_math.c\<close>, continued: exponential and logarithm, power, trigonometric and hyperbolic
  functions, and the rest of \<open><math.h>\<close>. The loops of the series are folds over the values
  of their counter. \<open>None\<close> is a conversion of a double outside the range of the integer type.
\<close>

section \<open>Exponential and logarithm\<close>

definition exp_sum :: "f64 \<Rightarrow> f64" where
  "exp_sum r =
     snd (fold (\<lambda>i (t, s). let t = f_div (f_mul t r) (f_of_int (int i)) in (t, f_add s t))
       [1..<18] (one, one))"

definition exp_d :: "f64 \<Rightarrow> f64 option" where
  "exp_d x =
     (if isnan x then Some x
      else if f_lt (f_dec 709782712893384 12) x then Some rt_inf
      else if f_lt x (f_minus (f_dec 745133219101941 12)) then Some zero
      else do {
        let k_d = floor_d (f_add (f_mul x RT_INV_LN2) (f_dec 5 1));
        k \<leftarrow> f_to_int 32 k_d;
        let r = f_sub (f_sub x (f_mul k_d RT_LN2_HI)) (f_mul k_d RT_LN2_LO);
        Some (ldexp (exp_sum r) k) })"

definition expf :: "f32 \<Rightarrow> f32 option" where "expf = float_fn_opt exp_d"

definition log_sum :: "f64 \<Rightarrow> f64" where
  "log_sum s =
     (let s2 = f_mul s s
      in fst (fold (\<lambda>i (sum, t). (f_add sum (f_div t (f_of_int (2 * int i + 1))), f_mul t s2))
           [0..<27] (zero, s)))"

definition log_d :: "f64 \<Rightarrow> f64 option" where
  "log_d x =
     (if isnan x then Some x
      else if f_lt x zero then Some rt_nan
      else if f_eq x zero then Some (f_minus rt_inf)
      else if \<not> finite_d x then Some x
      else do {
        (m, k) \<leftarrow> frexp x;
        let (m, k) = (if f_lt m (f_dec 70710678118654752440 20)
                      then (f_mul m (f_of_int 2), k - 1) else (m, k));
        let s = f_div (f_sub m one) (f_add m one);
        let sum = f_mul (log_sum s) (f_of_int 2);
        Some (f_add (f_mul (f_of_int k) RT_LN2_HI) (f_add (f_mul (f_of_int k) RT_LN2_LO) sum)) })"

definition log10_d :: "f64 \<Rightarrow> f64 option" where
  "log10_d x = do { l \<leftarrow> log_d x; Some (f_mul l (f_dec 43429448190325182765 20)) }"

definition log2_d :: "f64 \<Rightarrow> f64 option" where
  "log2_d x = do { l \<leftarrow> log_d x; Some (f_mul l RT_INV_LN2) }"

fun pow_loop :: "nat \<Rightarrow> f64 \<Rightarrow> f64 \<Rightarrow> f64" where
  "pow_loop n base acc =
     (if n = 0 then acc
      else pow_loop (n div 2) (f_mul base base) (if odd n then f_mul acc base else acc))"

declare pow_loop.simps [simp del]

definition pow_d :: "f64 \<Rightarrow> f64 \<Rightarrow> f64 option" where
  "pow_d x y =
     (if f_eq y zero then Some one
      else if isnan x \<or> isnan y then Some rt_nan
      else if f_eq x one then Some one
      else if f_eq y (floor_d y) \<and> f_le (fabs y) (f_of_int 1024)
      then do {
        n \<leftarrow> f_to_int 64 y;
        let acc = pow_loop (nat \<bar>n\<bar>) x one;
        Some (if n < 0 then f_div one acc else acc) }
      else if f_eq x zero then Some (if f_lt zero y then zero else rt_inf)
      else if f_lt x zero then Some rt_nan
      else do { l \<leftarrow> log_d x; exp_d (f_mul y l) })"

section \<open>Sine, cosine and tangent\<close>

definition PIO2_HI :: f64 where "PIO2_HI = f_dec 157079632679489655800 20"
definition PIO2_MID :: f64 where "PIO2_MID = f_dec 612323399573676603587 37"
definition PIO2_LO :: f64 where "PIO2_LO = f_minus (f_dec 149726980000000000000 53)"

definition rt_sin_kernel :: "f64 \<Rightarrow> f64" where
  "rt_sin_kernel r =
     (let r2 = f_mul r r
      in snd (fold (\<lambda>i (t, s).
           let t = f_div (f_mul (f_minus t) r2) (f_of_int (2 * int i * (2 * int i + 1))) in (t, f_add s t))
           [1..<9] (r, r)))"

definition rt_cos_kernel :: "f64 \<Rightarrow> f64" where
  "rt_cos_kernel r =
     (let r2 = f_mul r r
      in snd (fold (\<lambda>i (t, s).
           let t = f_div (f_mul (f_minus t) r2) (f_of_int ((2 * int i - 1) * (2 * int i))) in (t, f_add s t))
           [1..<9] (one, one)))"

text \<open>The remainder of C takes the sign of the dividend; \<open>*rout\<close> is the second result.\<close>

definition rt_trig_reduce :: "f64 \<Rightarrow> (int \<times> f64) option" where
  "rt_trig_reduce x =
     (let k_d = floor_d (f_add (f_mul x (f_dec 63661977236758134308 20)) (f_dec 5 1));
          r = f_sub (f_sub (f_sub x (f_mul k_d PIO2_HI)) (f_mul k_d PIO2_MID)) (f_mul k_d PIO2_LO)
      in do { k \<leftarrow> f_to_int 64 k_d; Some ((k smod 4 + 4) smod 4, r) })"

definition sin_d :: "f64 \<Rightarrow> f64 option" where
  "sin_d x =
     (if \<not> finite_d x then Some rt_nan
      else do {
        (q, r) \<leftarrow> rt_trig_reduce x;
        Some (if q = 0 then rt_sin_kernel r
              else if q = 1 then rt_cos_kernel r
              else if q = 2 then f_minus (rt_sin_kernel r)
              else f_minus (rt_cos_kernel r)) })"

definition cos_d :: "f64 \<Rightarrow> f64 option" where
  "cos_d x =
     (if \<not> finite_d x then Some rt_nan
      else do {
        (q, r) \<leftarrow> rt_trig_reduce x;
        Some (if q = 0 then rt_cos_kernel r
              else if q = 1 then f_minus (rt_sin_kernel r)
              else if q = 2 then f_minus (rt_cos_kernel r)
              else rt_sin_kernel r) })"

definition tan_d :: "f64 \<Rightarrow> f64 option" where
  "tan_d x = do { s \<leftarrow> sin_d x; c \<leftarrow> cos_d x; Some (f_div s c) }"

section \<open>Inverse trigonometric functions\<close>

abbreviation two :: f64 where "two \<equiv> f_of_int 2"

definition atan_sum :: "f64 \<Rightarrow> f64" where
  "atan_sum x =
     (let x2 = f_mul x x
      in fst (fold (\<lambda>i (sum, t).
           (f_add sum (f_div (if odd i then f_minus t else t) (f_of_int (2 * int i + 1))), f_mul t x2))
           [0..<22] (zero, x)))"

definition atan :: "f64 \<Rightarrow> f64" where
  "atan x =
     (let neg = f_lt x zero
      in if isnan x then x
         else let x = (if neg then f_minus x else x)
         in if \<not> finite_d x then (if neg then f_div (f_minus RT_PI) two else f_div RT_PI two)
         else let (x, big) = (if f_lt one x then (f_div one x, True) else (x, False));
                  c = f_dec 173205080756887729353 20;
                  (x, shifted) = (if f_lt (f_dec 26794919243112270647 20) x
                                  then (f_div (f_sub (f_mul x c) one) (f_add c x), True) else (x, False));
                  sum = atan_sum x;
                  sum = (if shifted then f_add sum (f_dec 52359877559829887308 20) else sum);
                  sum = (if big then f_sub (f_div RT_PI two) sum else sum)
              in if neg then f_minus sum else sum)"

definition atan2 :: "f64 \<Rightarrow> f64 \<Rightarrow> f64" where
  "atan2 y x =
     (if f_lt zero x then atan (f_div y x)
      else if f_lt x zero
           then (if f_le zero y then f_add (atan (f_div y x)) RT_PI else f_sub (atan (f_div y x)) RT_PI)
      else if f_lt zero y then f_div RT_PI two
      else if f_lt y zero then f_div (f_minus RT_PI) two
      else zero)"

definition asin :: "f64 \<Rightarrow> f64 option" where
  "asin x =
     (if f_lt x (f_minus one) \<or> f_lt one x then Some rt_nan
      else if f_eq (fabs x) one
           then Some (if f_lt zero x then f_div RT_PI two else f_div (f_minus RT_PI) two)
      else do { q \<leftarrow> sqrt_d (f_sub one (f_mul x x)); Some (atan (f_div x q)) })"

definition acos :: "f64 \<Rightarrow> f64 option" where
  "acos x =
     (if f_lt x (f_minus one) \<or> f_lt one x then Some rt_nan
      else do { a \<leftarrow> asin x; Some (f_sub (f_div RT_PI two) a) })"

section \<open>Hyperbolic functions\<close>

definition sinh_d :: "f64 \<Rightarrow> f64 option" where
  "sinh_d x =
     (if f_lt (fabs x) (f_dec 1 5)
      then Some (f_add x (f_div (f_mul (f_mul x x) x) (f_of_int 6)))
      else do {
        e \<leftarrow> exp_d (fabs x);
        let r = f_div (f_sub e (f_div one e)) two;
        Some (if f_lt x zero then f_minus r else r) })"

definition cosh_d :: "f64 \<Rightarrow> f64 option" where
  "cosh_d x = do { e \<leftarrow> exp_d (fabs x); Some (f_div (f_add e (f_div one e)) two) }"

definition tanh_d :: "f64 \<Rightarrow> f64 option" where
  "tanh_d x =
     (if f_lt (f_of_int 20) (fabs x) then Some (if f_lt zero x then one else f_minus one)
      else if f_lt (fabs x) (f_dec 1 5)
      then Some (f_sub x (f_div (f_mul (f_mul x x) x) (f_of_int 3)))
      else do {
        e2 \<leftarrow> exp_d (f_mul two (fabs x));
        let r = f_div (f_sub e2 one) (f_add e2 one);
        Some (if f_lt x zero then f_minus r else r) })"

section \<open>The rest of the header\<close>

definition fmin :: "f64 \<Rightarrow> f64 \<Rightarrow> f64" where "fmin a b = (if f_lt a b then a else b)"
definition fmax :: "f64 \<Rightarrow> f64 \<Rightarrow> f64" where "fmax a b = (if f_lt b a then a else b)"
definition fma :: "f64 \<Rightarrow> f64 \<Rightarrow> f64 \<Rightarrow> f64" where "fma a b c = f_add (f_mul a b) c"
definition exp2 :: "f64 \<Rightarrow> f64 option" where "exp2 x = pow_d (f_of_int 2) x"

definition cbrt :: "f64 \<Rightarrow> f64 option" where
  "cbrt x =
     (if f_eq x zero then Some x
      else if f_lt x zero
           then do { r \<leftarrow> pow_d (f_minus x) (f_div one (f_of_int 3)); Some (f_minus r) }
      else pow_d x (f_div one (f_of_int 3)))"

definition expm1 :: "f64 \<Rightarrow> f64 option" where
  "expm1 x =
     (if f_lt (fabs x) (f_dec 1 5)
      then Some (f_add (f_add x (f_div (f_mul x x) two)) (f_div (f_mul (f_mul x x) x) (f_of_int 6)))
      else do { e \<leftarrow> exp_d x; Some (f_sub e one) })"

definition log1p :: "f64 \<Rightarrow> f64 option" where
  "log1p x =
     (if f_lt (fabs x) (f_dec 1 5)
      then Some (f_add (f_sub x (f_div (f_mul x x) two)) (f_div (f_mul (f_mul x x) x) (f_of_int 3)))
      else log_d (f_add one x))"

section \<open>The float versions\<close>

definition acosf :: "f32 \<Rightarrow> f32 option" where "acosf = float_fn_opt acos"
definition asinf :: "f32 \<Rightarrow> f32 option" where "asinf = float_fn_opt asin"
definition atanf :: "f32 \<Rightarrow> f32" where "atanf = float_fn atan"
definition atan2f :: "f32 \<Rightarrow> f32 \<Rightarrow> f32" where
  "atan2f y x = double_to_float (atan2 (float_to_double y) (float_to_double x))"
definition cosf :: "f32 \<Rightarrow> f32 option" where "cosf = float_fn_opt cos_d"
definition sinf :: "f32 \<Rightarrow> f32 option" where "sinf = float_fn_opt sin_d"
definition tanf :: "f32 \<Rightarrow> f32 option" where "tanf = float_fn_opt tan_d"
definition logf :: "f32 \<Rightarrow> f32 option" where "logf = float_fn_opt log_d"
definition log10f :: "f32 \<Rightarrow> f32 option" where "log10f = float_fn_opt log10_d"
definition log2f :: "f32 \<Rightarrow> f32 option" where "log2f = float_fn_opt log2_d"
definition powf :: "f32 \<Rightarrow> f32 \<Rightarrow> f32 option" where
  "powf x y = map_option double_to_float (pow_d (float_to_double x) (float_to_double y))"
definition ceilf :: "f32 \<Rightarrow> f32" where "ceilf = float_fn ceil"
definition floorf :: "f32 \<Rightarrow> f32" where "floorf = float_fn floor_d"
definition fmodf :: "f32 \<Rightarrow> f32 \<Rightarrow> f32 option" where
  "fmodf x y = map_option double_to_float (fmod (float_to_double x) (float_to_double y))"
definition roundf :: "f32 \<Rightarrow> f32" where "roundf = float_fn round_d"
definition truncf :: "f32 \<Rightarrow> f32" where "truncf = float_fn trunc"

text \<open>Converting a float to double and comparing it there is comparing the floats.\<close>

definition fminf :: "f32 \<Rightarrow> f32 \<Rightarrow> f32" where
  "fminf a b = (if f_lt (float_to_double a) (float_to_double b) then a else b)"
definition fmaxf :: "f32 \<Rightarrow> f32 \<Rightarrow> f32" where
  "fmaxf a b = (if f_lt (float_to_double b) (float_to_double a) then a else b)"

definition modff :: "f32 \<Rightarrow> f32 \<times> f32" where
  "modff x = (let (d, r) = modf (float_to_double x) in (double_to_float d, double_to_float r))"

end
