(* ===== verification/RtExpProps.thy ===== *)
theory RtExpProps
  imports RtMathExp RtMathProps
begin

text \<open>
  What the composed functions of \<open>rt_math.c\<close> compute: \<open>round\<close>, integer powers, and that the
  conversions to an integer inside \<open>exp\<close>, \<open>pow\<close> and the trigonometric functions are in range.
\<close>

section \<open>Conversion to an integer\<close>

lemma f_trunc_floor: "f_trunc x = sgn (f_int x) * \<lfloor>\<bar>fval x\<bar>\<rfloor>"
proof -
  have "\<bar>fval x\<bar> = real (f_man x * 2 ^ nat (f_ex x)) / real (2 ^ nat (- f_ex x))"
    unfolding fval_abs powi_split [of "f_ex x"] by simp
  then show ?thesis unfolding f_trunc_def by (simp only: floor_divide_of_nat_eq)
qed

lemma f_trunc_int: "fval x = of_int k \<Longrightarrow> f_trunc x = k"
proof -
  assume v: "fval x = of_int k"
  have "real_of_int (sgn (f_int x)) = of_int (sgn k)" unfolding sgn_fval [symmetric] v by (simp add: sgn_if)
  then have "sgn (f_int x) = sgn k" by (simp only: of_int_eq_iff)
  moreover have "\<lfloor>\<bar>real_of_int k\<bar>\<rfloor> = \<bar>k\<bar>" by (metis floor_of_int of_int_abs)
  ultimately show ?thesis unfolding f_trunc_floor v by (simp only: sgn_mult_abs)
qed

lemma f_to_int_ok:
  "f_fin x \<Longrightarrow> fval x = of_int k \<Longrightarrow> - (2 ^ (w - 1)) \<le> k \<Longrightarrow> k < 2 ^ (w - 1) \<Longrightarrow> f_to_int w x = Some k"
  by (simp add: f_to_int_def f_trunc_int)

lemma f_dec_result: "f_result (real n / 10 ^ k) (f_dec n k)"
  unfolding f_dec_def by (rule f_round_result) simp_all

lemma f_dec_between:
  assumes "f_fin a" "fval a \<le> real n / 10 ^ k" "f_fin b" "real n / 10 ^ k \<le> fval b"
  shows "f_fin (f_dec n k) \<and> fval a \<le> fval (f_dec n k) \<and> fval (f_dec n k) \<le> fval b"
  using f_result_between [OF f_dec_result] assms by blast

lemma half [simp]: "f_fin (f_dec 5 (Suc 0))" "fval (f_dec 5 (Suc 0)) = 1 / 2"
proof -
  have "representable (2 powi - 1)" by (rule representable_pow2) simp_all
  then show "f_fin (f_dec 5 (Suc 0))" "fval (f_dec 5 (Suc 0)) = 1 / 2"
    using f_result_exact [OF f_dec_result, of 5 1] by (simp_all add: power_int_minus)
qed

section \<open>Rounding half up\<close>

lemma frac_scaled:
  assumes ex: "f_ex x < 0"
  shows "\<exists>Z. fval x - of_int \<lfloor>fval x\<rfloor> = of_int Z * 2 powi f_ex x \<and> 0 \<le> Z"
proof -
  define k where "k = nat (- f_ex x)"
  have k: "f_ex x = - int k" using ex by (simp add: k_def)
  define Z where "Z = f_int x - \<lfloor>fval x\<rfloor> * 2 ^ k"
  have Z: "fval x - of_int \<lfloor>fval x\<rfloor> = of_int Z * 2 powi f_ex x"
    unfolding Z_def unfolding fval_def k by (simp add: power_int_minus field_simps)
  have "0 \<le> fval x - of_int \<lfloor>fval x\<rfloor>" by simp
  moreover have "(0::real) < 2 powi f_ex x" by simp
  ultimately have "0 \<le> Z" unfolding Z zero_le_mult_iff by linarith
  then show ?thesis using Z by blast
qed

lemma frac_representable:
  assumes x: "f_fin x" and c: "0 \<le> fval x \<or> fval x - of_int \<lfloor>fval x\<rfloor> < 1 / 2"
  shows "representable (fval x - of_int \<lfloor>fval x\<rfloor>)"
proof (cases "f_ex x < 0")
  case True
  define d where "d = fval x - of_int \<lfloor>fval x\<rfloor>"
  obtain Z where Z: "d = of_int Z * 2 powi f_ex x" "0 \<le> Z"
    using frac_scaled [OF True] unfolding d_def by blast
  have pos: "(0::real) < 2 powi f_ex x" by simp
  have d: "0 \<le> d" "d < 1" unfolding d_def by linarith+
  have "Z < 2 ^ 53"
  proof (cases "0 \<le> fval x")
    case xp: True
    then have "d \<le> fval x" by (simp add: d_def)
    then have "of_int Z * 2 powi f_ex x \<le> real (f_man x) * 2 powi f_ex x"
      using xp fval_abs [of x] by (simp add: Z)
    then have "of_int Z \<le> real (f_man x)" using pos by (simp only: mult_le_cancel_right_pos)
    then have "Z \<le> int (f_man x)" by linarith
    then show ?thesis using f_man_less [of x] by simp
  next
    case xn: False
    then have "d < 1 / 2" using c by (simp add: d_def)
    moreover have "\<lfloor>fval x\<rfloor> < 0" using xn by simp
    ultimately have "fval x < - (1 / 2)" unfolding d_def by linarith
    then have "2 powi - 1 < \<bar>fval x\<bar>" by (simp add: power_int_minus)
    also have "\<dots> < 2 ^ 53 * 2 powi f_ex x"
    proof -
      have "real (f_man x) < real (2 ^ 53)" using f_man_less [of x] by (simp only: of_nat_less_iff)
      then show ?thesis unfolding fval_abs by (intro mult_strict_right_mono) simp_all
    qed
    also have "\<dots> = 2 powi (53 + f_ex x)" by (simp add: power_int_add)
    finally have "- 1 < 53 + f_ex x" using powi_mono2 [of "53 + f_ex x" "- 1"] by (meson not_le)
    then have "of_int Z * 2 powi - 53 \<le> d" unfolding Z(1) using Z(2) by (intro mult_left_mono powi_mono2) simp_all
    then have "of_int Z < (2 ^ 53 :: real)" using d(2) by (simp add: power_int_minus)
    then show ?thesis by (metis of_int_less_iff of_int_numeral of_int_power)
  qed
  moreover have "(1::real) \<le> 2 powi 1024" using powi_mono2 [of 0 1024] by simp
  ultimately show ?thesis
    unfolding d_def [symmetric] Z(1) using d Z f_ex_range(1) by (intro representable_scaled) simp_all
next
  case False
  then have "f_ex x = int (nat (f_ex x))" by simp
  then have "fval x = of_int (f_int x * 2 ^ nat (f_ex x))"
    unfolding fval_def by (metis power_int_of_nat of_int_mult of_int_power of_int_numeral)
  then have "fval x - of_int \<lfloor>fval x\<rfloor> = 0" by (metis floor_of_int diff_self)
  then show ?thesis using representable_int [of 0] by simp
qed

text \<open>Above one half, the rounded fraction still is.\<close>

lemma round_test:
  assumes x: "f_fin x" and f: "f_fin f" "fval f = of_int \<lfloor>fval x\<rfloor>"
  shows "f_le (f_dec 5 1) (f_sub x f) \<longleftrightarrow> 1 / 2 \<le> fval x - of_int \<lfloor>fval x\<rfloor>"
proof -
  define d where "d = fval x - of_int \<lfloor>fval x\<rfloor>"
  have d: "0 \<le> d" "d < 1" unfolding d_def by linarith+
  have res: "f_result d (f_sub x f)" using f_sub_result [OF x f(1)] by (simp add: d_def f(2))
  show ?thesis
  proof (cases "1 / 2 \<le> d")
    case True
    then have "f_fin (f_sub x f) \<and> fval (f_dec 5 1) \<le> fval (f_sub x f) \<and> fval (f_sub x f) \<le> fval one"
      using d by (intro f_result_between [OF res]) simp_all
    then show ?thesis using True by (simp add: f_le_iff d_def)
  next
    case False
    then have "f_fin (f_sub x f) \<and> fval (f_sub x f) = d"
      using f_result_exact [OF res] frac_representable [OF x] by (simp add: d_def)
    then show ?thesis using False by (simp add: f_le_iff d_def)
  qed
qed

lemma round_d_ok:
  assumes x: "f_fin x"
  shows "f_fin (round_d x) \<and> fval (round_d x) = of_int \<lfloor>fval x + 1 / 2\<rfloor>"
proof -
  define f where "f = floor_d x"
  have f: "f_fin f" "fval f = of_int \<lfloor>fval x\<rfloor>" using floor_d_ok [OF x] by (simp_all add: f_def)
  show ?thesis
  proof (cases "1 / 2 \<le> fval x - of_int \<lfloor>fval x\<rfloor>")
    case True
    have small: "f_ex x < 0"
    proof (rule ccontr)
      assume "\<not> f_ex x < 0"
      then have "f_ex x = int (nat (f_ex x))" by simp
      then have "fval x = of_int (f_int x * 2 ^ nat (f_ex x))"
        unfolding fval_def by (metis power_int_of_nat of_int_mult of_int_power of_int_numeral)
      then have "fval x - of_int \<lfloor>fval x\<rfloor> = 0" by (metis floor_of_int diff_self)
      then show False using True by simp
    qed
    have "\<bar>fval x\<bar> < 2 ^ 53 * 2 powi f_ex x"
    proof -
      have "real (f_man x) < real (2 ^ 53)" using f_man_less [of x] by (simp only: of_nat_less_iff)
      then show ?thesis unfolding fval_abs by (intro mult_strict_right_mono) simp_all
    qed
    also have "\<dots> \<le> 2 ^ 53 * 2 powi - 1" using small by (intro mult_left_mono powi_mono2) simp_all
    finally have "\<bar>fval x\<bar> < 2 ^ 52" by (simp add: power_int_minus)
    then have "- (2 ^ 52) \<le> \<lfloor>fval x\<rfloor>" "\<lfloor>fval x\<rfloor> < 2 ^ 52" by (simp_all add: le_floor_iff floor_less_iff)
    then have "\<bar>\<lfloor>fval x\<rfloor> + 1\<bar> < 2 ^ 53" by (cases "\<lfloor>fval x\<rfloor>" rule: int_cases2) simp_all
    then have "representable (of_int (\<lfloor>fval x\<rfloor> + 1))" by (rule representable_int)
    then have "f_fin (f_add f one) \<and> fval (f_add f one) = of_int (\<lfloor>fval x\<rfloor> + 1)"
      using f_result_exact [OF f_add_result [of f one]] f by simp
    moreover have "round_d x = f_add f one"
      using True round_test [OF x f] by (simp add: round_d_def Let_def f_def [symmetric])
    moreover have "\<lfloor>fval x + 1 / 2\<rfloor> = \<lfloor>fval x\<rfloor> + 1" using True by (simp add: floor_eq_iff) linarith
    ultimately show ?thesis by simp
  next
    case False
    have "round_d x = f" using False round_test [OF x f] by (simp add: round_d_def Let_def f_def [symmetric])
    moreover have "\<lfloor>fval x + 1 / 2\<rfloor> = \<lfloor>fval x\<rfloor>" using False by (simp add: floor_eq_iff) linarith
    ultimately show ?thesis using f by simp
  qed
qed

section \<open>Integer powers\<close>

lemma pow_loop_ok:
  "f_fin acc \<Longrightarrow> (n \<noteq> 0 \<Longrightarrow> f_fin base \<and> fval base = b) \<Longrightarrow> \<forall>i\<le>n. representable (b ^ i) \<Longrightarrow>
   \<forall>i\<le>n. representable (fval acc * b ^ i) \<Longrightarrow>
   f_fin (pow_loop n base acc) \<and> fval (pow_loop n base acc) = fval acc * b ^ n"
proof (induction n base acc arbitrary: b rule: pow_loop.induct)
  case (1 n base acc)
  show ?case
  proof (cases "n = 0")
    case True
    then show ?thesis using "1.prems"(1) by (simp add: pow_loop.simps)
  next
    case False
    note b = "1.prems"(2) [OF False]
    define acc' where "acc' = (if odd n then f_mul acc base else acc)"
    have odd1: "odd n \<Longrightarrow> 1 \<le> n" by (metis One_nat_def Suc_leI odd_pos)
    have acc': "f_fin acc'" "fval acc' = fval acc * b ^ (n mod 2)"
    proof -
      have "odd n \<Longrightarrow> representable (fval acc * fval base)" using "1.prems"(4) odd1 b by fastforce
      then have "odd n \<Longrightarrow> f_fin (f_mul acc base) \<and> fval (f_mul acc base) = fval acc * fval base"
        using f_result_exact [OF f_mul_result [of acc base]] "1.prems"(1) b by blast
      then show "f_fin acc'" "fval acc' = fval acc * b ^ (n mod 2)"
        using "1.prems"(1) b by (auto simp: acc'_def odd_iff_mod_2_eq_one)
    qed
    have base': "f_fin (f_mul base base) \<and> fval (f_mul base base) = b ^ 2" if "n div 2 \<noteq> 0"
    proof -
      have "2 \<le> n" using that by (cases n) auto
      then have "representable (fval base * fval base)" using "1.prems"(3) b by (auto simp: power2_eq_square [symmetric])
      then show ?thesis using f_result_exact [OF f_mul_result [of base base]] b by (simp add: power2_eq_square)
    qed
    have r1: "\<forall>i\<le>n div 2. representable ((b ^ 2) ^ i)"
    proof (intro allI impI)
      fix i assume "i \<le> n div 2"
      then have "2 * i \<le> n" by linarith
      then show "representable ((b ^ 2) ^ i)" using "1.prems"(3) by (simp add: power_mult [symmetric])
    qed
    have r2: "\<forall>i\<le>n div 2. representable (fval acc' * (b ^ 2) ^ i)"
    proof (intro allI impI)
      fix i assume "i \<le> n div 2"
      then have "n mod 2 + 2 * i \<le> n" by presburger
      then have "representable (fval acc * b ^ (n mod 2 + 2 * i))" using "1.prems"(4) by blast
      then show "representable (fval acc' * (b ^ 2) ^ i)"
        by (simp only: acc'(2) power_add power_mult mult.assoc)
    qed
    have "f_fin (pow_loop (n div 2) (f_mul base base) acc') \<and>
        fval (pow_loop (n div 2) (f_mul base base) acc') = fval acc' * (b ^ 2) ^ (n div 2)"
      using "1.IH" [OF False, folded acc'_def, OF acc'(1) base' r1 r2] .
    moreover have "pow_loop n base acc = pow_loop (n div 2) (f_mul base base) acc'"
      using False by (subst pow_loop.simps) (simp add: acc'_def)
    moreover have "fval acc' * (b ^ 2) ^ (n div 2) = fval acc * b ^ n"
      unfolding acc'(2) mult.assoc power_mult [symmetric] power_add [symmetric] by simp
    ultimately show ?thesis by simp
  qed
qed

lemma pow_d_int:
  assumes x: "f_fin x" and y: "f_fin y" "fval y = of_int n" "\<bar>n\<bar> \<le> 1024"
    and r: "\<forall>i\<le>nat \<bar>n\<bar>. representable (fval x ^ i)"
  shows "\<exists>r. pow_d x y = Some r \<and>
    (if 0 \<le> n then f_fin r \<and> fval r = fval x ^ nat n
     else fval x \<noteq> 0 \<longrightarrow> f_result (1 / fval x ^ nat (- n)) r)"
proof -
  consider "n = 0" | "n \<noteq> 0" "fval x = 1" | "n \<noteq> 0" "fval x \<noteq> 1" by blast
  then show ?thesis
  proof cases
    case 1
    then show ?thesis using y by (simp add: pow_d_def f_eq_iff)
  next
    case 2
    have "f_result 1 one" using f_of_int_result [of 1] by simp
    then show ?thesis using 2 x y by (simp add: pow_d_def f_eq_iff)
  next
    case 3
    have fl: "f_fin (floor_d y)" "fval (floor_d y) = of_int n" using floor_d_ok [OF y(1)] y(2) by simp_all
    have t: "f_to_int 64 y = Some n" using y by (intro f_to_int_ok) simp_all
    have k: "f_fin (f_of_int 1024)" "fval (f_of_int 1024) = 1024" using f_of_int_small [of 1024] by simp_all
    have le: "f_le (fabs y) (f_of_int 1024)"
      using y k by (simp add: f_le_iff flip: of_int_abs)
    define a where "a = pow_loop (nat \<bar>n\<bar>) x one"
    have p: "pow_d x y = Some (if n < 0 then f_div one a else a)"
      using 3 x y fl t le by (simp add: pow_d_def f_eq_iff a_def)
    have a: "f_fin a" "fval a = fval x ^ nat \<bar>n\<bar>"
      using pow_loop_ok [of one "nat \<bar>n\<bar>" x "fval x"] x r by (simp_all add: a_def)
    show ?thesis
    proof (cases "0 \<le> n")
      case True
      then show ?thesis using p a by simp
    next
      case False
      then have "fval x \<noteq> 0 \<longrightarrow> f_result (1 / fval x ^ nat (- n)) (f_div one a)"
        using f_div_result [of one a] a by simp
      then show ?thesis using p False by simp
    qed
  qed
qed

section \<open>The reduced argument\<close>

text \<open>The multiple of a constant, to the nearest integer, stays in a range of integers.\<close>

lemma nearest_multiple:
  assumes x: "f_fin x" "\<bar>fval x\<bar> \<le> B" and c: "f_fin c" "0 \<le> fval c" "fval c \<le> C"
    and b: "f_fin b" "fval b = of_int k" "B * C \<le> of_int k"
    and b': "f_fin b'" "fval b' = of_int k'" "k < k'"
  shows "\<exists>j. f_fin (floor_d (f_add (f_mul x c) (f_dec 5 1))) \<and>
    fval (floor_d (f_add (f_mul x c) (f_dec 5 1))) = of_int j \<and> \<bar>j\<bar> \<le> k'"
proof -
  have B: "0 \<le> B" "0 \<le> C" using x c by linarith+
  have "\<bar>fval x * fval c\<bar> \<le> B * C" unfolding abs_mult using x c B by (intro mult_mono) simp_all
  then have p: "\<bar>fval x * fval c\<bar> \<le> fval b" "0 \<le> fval b" using b by linarith+
  define m where "m = f_mul x c"
  have m: "f_fin m" "\<bar>fval m\<bar> \<le> of_int k"
    using f_result_between [OF f_mul_result [OF x(1) c(1)], of "f_minus b" b] b p
    by (simp_all add: m_def abs_le_iff)
  have "real_of_int (k + 1) \<le> of_int k'" using b'(3) by (simp only: of_int_le_iff)
  then have k: "real_of_int k + 1 \<le> of_int k'" by simp
  define s where "s = f_add m (f_dec 5 1)"
  have "f_result (fval m + 1 / 2) s" using f_add_result [of m "f_dec 5 1"] m by (simp add: s_def)
  moreover have "fval (f_minus b') \<le> fval m + 1 / 2" "fval m + 1 / 2 \<le> fval b'"
    using m(2) k b'(2) by (simp_all add: abs_le_iff)
  ultimately have "f_fin s \<and> fval (f_minus b') \<le> fval s \<and> fval s \<le> fval b'"
    using b'(1) by (intro f_result_between [of "fval m + 1 / 2"]) simp_all
  then have s: "f_fin s" "- of_int k' \<le> fval s" "fval s \<le> of_int k'" using b'(2) by simp_all
  have "real_of_int \<lfloor>fval s\<rfloor> \<le> of_int k'" using s(3) by linarith
  moreover have "- k' \<le> \<lfloor>fval s\<rfloor>" using s(2) by (simp add: le_floor_iff)
  ultimately have "\<bar>\<lfloor>fval s\<rfloor>\<bar> \<le> k'" by simp
  then show ?thesis using floor_d_ok [OF s(1)] unfolding m_def [symmetric] s_def [symmetric] by blast
qed

lemma f_of_pow2: "0 \<le> e \<Longrightarrow> e < 1024 \<Longrightarrow> f_fin (f_of_int (2 ^ nat e)) \<and> fval (f_of_int (2 ^ nat e)) = 2 ^ nat e"
proof -
  assume e: "0 \<le> e" "e < 1024"
  have p: "(2::real) ^ nat e = 2 powi e" using e by (simp add: power_int_def)
  then show ?thesis
    using f_result_exact [OF f_of_int_result [of "2 ^ nat e"]] representable_pow2 [of e] e by simp
qed

lemma fin_below: "\<bar>fval x\<bar> \<le> 1024 \<Longrightarrow> f_fin x"
proof (rule ccontr)
  assume x: "\<bar>fval x\<bar> \<le> 1024" and n: "\<not> f_fin x"
  from n have e: "f_ex x = 972" and "2 ^ 52 \<le> f_man x" by (simp_all add: f_fin_def f_ex_def f_man_def)
  then have "real (2 ^ 52) \<le> real (f_man x)" by (simp only: of_nat_le_iff)
  then have "real (2 ^ 52) * 2 powi 972 \<le> \<bar>fval x\<bar>" unfolding fval_abs e by (intro mult_right_mono) simp_all
  then have "2 powi 1024 \<le> \<bar>fval x\<bar>" using power_int_add [of "2::real" 52 972] by simp
  moreover have "2 powi 11 \<le> (2::real) powi 1024" by (rule powi_mono2) simp
  moreover have "(2::real) powi 11 = 2048" by simp
  ultimately show False using x by linarith
qed

lemma exp_d_total: "\<exists>r. exp_d x = Some r"
proof (cases "isnan x \<or> f_lt (f_dec 709782712893384 12) x \<or> f_lt x (f_minus (f_dec 745133219101941 12))")
  case True
  then show ?thesis by (auto simp: exp_d_def)
next
  case False
  have i: "f_fin (f_of_int k)" "fval (f_of_int k) = of_int k" if "\<bar>k\<bar> < 2 ^ 53" for k
    using f_of_int_small [OF that] by blast+
  have hi: "f_fin (f_dec 709782712893384 12) \<and> fval (f_of_int 0) \<le> fval (f_dec 709782712893384 12) \<and>
      fval (f_dec 709782712893384 12) \<le> fval (f_of_int 710)"
    by (intro f_dec_between) (simp_all add: i)
  have lo: "f_fin (f_dec 745133219101941 12) \<and> fval (f_of_int 0) \<le> fval (f_dec 745133219101941 12) \<and>
      fval (f_dec 745133219101941 12) \<le> fval (f_of_int 746)"
    by (intro f_dec_between) (simp_all add: i)
  have x: "fval x \<le> 710" "- 746 \<le> fval x"
    using False hi lo i(2) [of 710] i(2) [of 746] by (auto simp: f_lt_val)
  have fx: "f_fin x" using False x by (intro fin_below) (auto simp: abs_le_iff)
  have c: "f_fin RT_INV_LN2 \<and> fval (f_of_int 0) \<le> fval RT_INV_LN2 \<and> fval RT_INV_LN2 \<le> fval (f_of_int 2)"
    unfolding RT_INV_LN2_def by (intro f_dec_between) (simp_all add: i)
  define k_d where "k_d = floor_d (f_add (f_mul x RT_INV_LN2) (f_dec 5 1))"
  obtain j where j: "f_fin k_d" "fval k_d = of_int j" "\<bar>j\<bar> \<le> 1493"
    using nearest_multiple [OF fx, of 746 RT_INV_LN2 2 "f_of_int 1492" 1492 "f_of_int 1493" 1493] x c i
    unfolding k_d_def by (auto simp: abs_le_iff)
  have "f_to_int 32 k_d = Some j" using j by (intro f_to_int_ok) simp_all
  then show ?thesis using False unfolding exp_d_def k_d_def [symmetric] by (simp add: Let_def)
qed

lemma mod4_cases: "i mod 4 = 0 \<or> i mod 4 = 1 \<or> i mod 4 = 2 \<or> i mod 4 = (3 :: int)"
  by presburger

lemma rt_trig_reduce_ok:
  assumes x: "f_fin x" "\<bar>fval x\<bar> \<le> 2 ^ 61"
  shows "\<exists>q r. rt_trig_reduce x = Some (q, r) \<and> q \<in> {0, 1, 2, 3}"
proof -
  have c: "f_fin (f_dec 63661977236758134308 20) \<and> fval (f_of_int 0) \<le> fval (f_dec 63661977236758134308 20) \<and>
      fval (f_dec 63661977236758134308 20) \<le> fval (f_of_int 1)"
    by (intro f_dec_between) simp_all
  define k_d where "k_d = floor_d (f_add (f_mul x (f_dec 63661977236758134308 20)) (f_dec 5 1))"
  obtain j where j: "f_fin k_d" "fval k_d = of_int j" "\<bar>j\<bar> \<le> 2 ^ 62"
    using nearest_multiple [OF x, of "f_dec 63661977236758134308 20" 1 "f_of_int (2 ^ 61)" "2 ^ 61" "f_of_int (2 ^ 62)" "2 ^ 62"]
      c f_of_pow2 [of 61] f_of_pow2 [of 62] unfolding k_d_def by auto
  have "f_to_int 64 k_d = Some j" using j by (intro f_to_int_ok) simp_all
  moreover have "(j smod 4 + 4) smod 4 \<in> {0, 1, 2, 3}"
  proof -
    have "- 3 \<le> j smod 4" "j smod 4 \<le> 3" using smod_int_range [of 4 j] by simp_all
    then have "0 < j smod 4 + 4" by simp
    then have "(j smod 4 + 4) smod 4 = (j smod 4 + 4) mod 4" unfolding smod_int_alt_def [of "j smod 4 + 4"] by simp
    then show ?thesis using mod4_cases [of "j smod 4 + 4"] by simp
  qed
  ultimately show ?thesis unfolding rt_trig_reduce_def Let_def k_d_def [symmetric] by simp
qed

end
