(* ===== verification/RtMathSpec.thy ===== *)
theory RtMathSpec
  imports RtSqrt RtExpProps
begin

text \<open>
  What \<open>rt_math.c\<close> promises: the rounding functions, \<open>fmod\<close>, \<open>modf\<close>, \<open>frexp\<close>, \<open>ldexp\<close> and
  \<open>sqrt\<close> compute the real result, exact or rounded once; integer powers are exact where
  they fit; \<open>exp\<close>, \<open>log\<close> and the trigonometric functions return. At the end, inputs on which
  the code differs from C99.
\<close>

lemmas f_eval = f_fin_def f_isnan_def dbl_exp_def f_frac_def f_sign_def f_man_def f_ex_def f_int_def
  f_dec_def f_of_int_def f_round_def ratio_log_def Let_def bit_len.simps rhe_div_def f_pack_def
  f_inf_def f_zero_def f_nan_def f_minus_def f_add_def f_sub_def f_mul_def f_div_def f_lt_def
  f_le_def f_eq_def f_key_def f_to_int_def f_trunc_def floor_d_def rt_nan_def rt_inf_def fabs_def

lemma some_doubles:
  "f_fin 0xC004000000000000" "fval 0xC004000000000000 = - (5 / 2)"
  "f_fin 0x4014000000000000" "fval 0x4014000000000000 = 5"
  "f_fin 0x4000000000000000" "fval 0x4000000000000000 = 2"
  "f_fin 0x4010000000000000" "fval 0x4010000000000000 = 4"
  by (simp_all add: f_eval fval_def power_int_minus cong: let_weak_cong)

section \<open>Rounding to an integer\<close>

text \<open>C21. \<open>floor\<close>, \<open>ceil\<close> and \<open>trunc\<close> of every finite double are exact: the largest integer
  not above it, the smallest not below it, and the one of the two that is nearer to 0.\<close>

theorem floor_ceil_trunc_exact:
  assumes "f_fin x"
  shows "f_fin (floor_d x) \<and> fval (floor_d x) = of_int \<lfloor>fval x\<rfloor> \<and>
    f_fin (ceil x) \<and> fval (ceil x) = of_int \<lceil>fval x\<rceil> \<and>
    f_fin (trunc x) \<and> fval (trunc x) = sgn (fval x) * of_int \<lfloor>\<bar>fval x\<bar>\<rfloor>"
  using floor_d_ok [OF assms] ceil_ok [OF assms] trunc_ok [OF assms]
  by (simp add: sgn_if ceiling_def)

lemma floor_ceil_trunc_witness:
  "fval (floor_d 0xC004000000000000) = - 3 \<and> fval (ceil 0xC004000000000000) = - 2 \<and>
   fval (trunc 0xC004000000000000) = - 2"
  using floor_ceil_trunc_exact [of "0xC004000000000000"] by (simp add: some_doubles ceiling_def)

text \<open>\<open>round\<close> gives the integer nearest to the argument, without an error from its own
  subtraction, and the upper one of two that are equally near.\<close>

theorem round_half_up:
  assumes "f_fin x"
  shows "f_fin (round_d x) \<and> fval (round_d x) = of_int \<lfloor>fval x + 1 / 2\<rfloor>"
  using assms by (rule round_d_ok)

lemma round_half_up_witness: "fval (round_d 0xC004000000000000) = - 2"
  using round_half_up [of "0xC004000000000000"] by (simp add: some_doubles)

text \<open>\<open>modf\<close> splits a finite double into its integer part, towards 0, and a fraction,
  and nothing is lost: their sum is the double.\<close>

theorem modf_splits:
  assumes "f_fin x"
  shows "case modf x of (i, r) \<Rightarrow> f_fin i \<and> f_fin r \<and> fval i = sgn (fval x) * of_int \<lfloor>\<bar>fval x\<bar>\<rfloor> \<and>
    fval i + fval r = fval x"
  using assms by (rule modf_ok)

lemma modf_splits_witness:
  "case modf 0xC004000000000000 of (i, r) \<Rightarrow> fval i = - 2 \<and> fval r = - (1 / 2)"
  using modf_splits [of "0xC004000000000000"] by (simp add: some_doubles split: prod.splits)

section \<open>Remainder and exponents\<close>

text \<open>C10. \<open>fmod\<close> of finite doubles, the second not 0, returns, and the remainder is exact:
  the subtractions of its loops never round.\<close>

theorem fmod_exact:
  assumes "f_fin x" "f_fin y" "fval y \<noteq> 0"
  shows "\<exists>r. fmod x y = Some r \<and> f_fin r \<and>
    fval r = sgn (fval x) * (\<bar>fval x\<bar> - of_int \<lfloor>\<bar>fval x\<bar> / \<bar>fval y\<bar>\<rfloor> * \<bar>fval y\<bar>)"
  using assms by (rule fmod_ok)

lemma fmod_exact_witness: "\<exists>r. fmod 0x4014000000000000 0x4000000000000000 = Some r \<and> fval r = 1"
  using fmod_exact [of "0x4014000000000000" "0x4000000000000000"] by (auto simp: some_doubles)

text \<open>\<open>ldexp\<close> multiplies by the power of two without an error whenever the product is a
  double, for every exponent an \<open>int\<close> can hold.\<close>

theorem ldexp_exact:
  assumes "f_fin x" "representable (fval x * 2 powi n)"
  shows "f_fin (ldexp x n) \<and> fval (ldexp x n) = fval x * 2 powi n"
  using assms by (rule ldexp_ok)

lemma ldexp_exact_witness: "fval (ldexp 0x4014000000000000 3) = 40"
  using ldexp_exact [of "0x4014000000000000" 3] representable_int [of 40] by (simp add: some_doubles)

text \<open>C20. \<open>frexp\<close> of a finite double other than 0, denormal or not, returns a mantissa in
  [1/2, 1) and the exponent, and \<open>ldexp\<close> of the two is the double.\<close>

theorem frexp_ldexp:
  assumes "f_fin x" "fval x \<noteq> 0"
  shows "\<exists>m e. frexp x = Some (m, e) \<and> 1 / 2 \<le> \<bar>fval m\<bar> \<and> \<bar>fval m\<bar> < 1 \<and>
    fval x = fval m * 2 powi e \<and> fval (ldexp m e) = fval x"
proof -
  obtain m e where m: "frexp x = Some (m, e)" "f_fin m" "1 / 2 \<le> \<bar>fval m\<bar>" "\<bar>fval m\<bar> < 1"
      "fval x = fval m * 2 powi e"
    using frexp_ok [OF assms] by blast
  then have "fval (ldexp m e) = fval x"
    using ldexp_ok [OF m(2), of e] representable_fval [OF assms(1)] by simp
  then show ?thesis using m by blast
qed

lemma frexp_ldexp_witness: "\<exists>m e. frexp 0x4014000000000000 = Some (m, e) \<and> fval (ldexp m e) = 5"
  using frexp_ldexp [of "0x4014000000000000"] by (auto simp: some_doubles)

section \<open>Square root\<close>

text \<open>C9. \<open>sqrt\<close> is correctly rounded: for every finite double that is not negative, normal
  or denormal, it returns the double nearest to the real square root, ties to even.\<close>

theorem sqrt_correctly_rounded:
  assumes "f_fin x" "0 \<le> fval x"
  shows "\<exists>r. sqrt_d x = Some r \<and> f_result (sqrt (fval x)) r"
  using assms by (rule sqrt_d_ok)

lemma sqrt_correctly_rounded_witness: "\<exists>r. sqrt_d 0x4010000000000000 = Some r \<and> fval r = 2"
proof -
  obtain r where "sqrt_d 0x4010000000000000 = Some r" "f_result (sqrt 4) r"
    using sqrt_correctly_rounded [of "0x4010000000000000"] by (auto simp: some_doubles)
  then show ?thesis using f_result_exact representable_int [of 2] by fastforce
qed

section \<open>Power, exponential and trigonometric functions\<close>

text \<open>C22. \<open>pow\<close> with an integer exponent up to 1024 is exact when the powers on the way are
  doubles; with a negative exponent it is the reciprocal of that power, rounded once.\<close>

theorem pow_integer_exact:
  assumes "f_fin x" "f_fin y" "fval y = of_int n" "\<bar>n\<bar> \<le> 1024" "\<forall>i\<le>nat \<bar>n\<bar>. representable (fval x ^ i)"
  shows "\<exists>r. pow_d x y = Some r \<and>
    (if 0 \<le> n then f_fin r \<and> fval r = fval x ^ nat n
     else fval x \<noteq> 0 \<longrightarrow> f_result (1 / fval x ^ nat (- n)) r)"
  using assms by (rule pow_d_int)

lemma pow_integer_exact_witness: "\<exists>r. pow_d 0x4014000000000000 0x4000000000000000 = Some r \<and> fval r = 25"
proof -
  have "\<forall>i\<le>2::nat. representable (5 ^ i)"
    using representable_int [of 1] representable_int [of 5] representable_int [of 25]
    by (auto simp: le_Suc_eq numeral_2_eq_2)
  then show ?thesis
    using pow_integer_exact [of "0x4014000000000000" "0x4000000000000000" 2] by (auto simp: some_doubles)
qed

lemma log_d_total: "\<exists>r. log_d x = Some r"
proof (cases "isnan x \<or> f_lt x zero \<or> f_eq x zero \<or> \<not> finite_d x")
  case True
  then show ?thesis by (auto simp: log_d_def)
next
  case False
  then have "f_fin x" "fval x \<noteq> 0" by (auto simp: f_eq_zero)
  then obtain m e where "frexp x = Some (m, e)" using frexp_ok by blast
  then show ?thesis using False by (auto simp: log_d_def Let_def)
qed

lemma sqrt_d_total: "\<exists>r. sqrt_d x = Some r"
proof (cases "f_lt x zero \<or> f_eq x zero \<or> \<not> finite_d x")
  case True
  then show ?thesis by (subst sqrt_d.simps) auto
next
  case False
  then have "f_fin x" "0 \<le> fval x" by (auto simp: f_lt_iff)
  then show ?thesis using sqrt_d_ok by blast
qed

lemma fmod_total: "\<exists>r. fmod x y = Some r"
proof (cases "f_eq y zero \<or> \<not> finite_d x \<or> \<not> finite_d y")
  case True
  then show ?thesis by (auto simp: fmod_def Let_def)
next
  case False
  then have "f_fin x" "f_fin y" "fval y \<noteq> 0" by (auto simp: f_eq_zero)
  then show ?thesis using fmod_ok by blast
qed

lemma pow_d_total: "\<exists>r. pow_d x y = Some r"
proof (cases "f_eq y (floor_d y) \<and> f_le (fabs y) (f_of_int 1024)")
  case True
  have k: "f_fin (f_of_int 1024)" "fval (f_of_int 1024) = 1024" using f_of_int_small [of 1024] by simp_all
  have "\<not> f_isnan (fabs y)" "fval (fabs y) \<le> 1024"
    using True k key_le_iff [of "fabs y" "f_of_int 1024"] by (auto simp: f_le_def)
  then have y: "\<not> f_isnan y" "\<bar>fval y\<bar> \<le> 1024" by simp_all
  then have fy: "f_fin y" by (intro fin_below) simp_all
  then have fl: "fval y = of_int \<lfloor>fval y\<rfloor>"
    using True floor_d_ok [OF fy] by (simp add: f_eq_iff)
  moreover have "\<bar>\<lfloor>fval y\<rfloor>\<bar> \<le> 1024" using y(2) fl unfolding abs_le_iff by linarith
  ultimately obtain n where "fval y = of_int n" "\<bar>n\<bar> \<le> 1024" by metis
  then have "f_to_int 64 y = Some n" by (intro f_to_int_ok [OF fy]) simp_all
  then show ?thesis using True by (auto simp: pow_d_def Let_def)
next
  case False
  obtain l where "log_d x = Some l" using log_d_total by blast
  then show ?thesis using False exp_d_total [of "f_mul y l"] by (auto simp: pow_d_def)
qed

lemma trig_total:
  assumes "f_fin x \<Longrightarrow> \<bar>fval x\<bar> \<le> 2 ^ 61"
  shows "(\<exists>s. sin_d x = Some s) \<and> (\<exists>c. cos_d x = Some c)"
proof (cases "f_fin x")
  case True
  then obtain q r where "rt_trig_reduce x = Some (q, r)" using rt_trig_reduce_ok assms by blast
  then show ?thesis by (simp add: sin_d_def cos_d_def)
qed (simp add: sin_d_def cos_d_def)



text \<open>Outside its domain a function gives a NaN, or the infinity of a pole: \<open>sqrt\<close> and \<open>log\<close>
  below 0, \<open>log\<close> at 0, \<open>fmod\<close> by 0, \<open>pow\<close> of a negative number with a fraction in the exponent,
  \<open>asin\<close> and \<open>acos\<close> outside [-1, 1].\<close>

theorem math_domain_errors:
  assumes x: "f_fin x" and y: "f_fin y"
  shows "(fval x < 0 \<longrightarrow> sqrt_d x = Some rt_nan \<and> log_d x = Some rt_nan) \<and>
    (fval x = 0 \<longrightarrow> log_d x = Some (f_inf True) \<and> fmod y x = Some rt_nan) \<and>
    (fval x < 0 \<and> fval y \<notin> \<int> \<longrightarrow> pow_d x y = Some rt_nan) \<and>
    (1 < \<bar>fval x\<bar> \<longrightarrow> asin x = Some rt_nan \<and> acos x = Some rt_nan)"
proof -
  have "fval x < 0 \<Longrightarrow> sqrt_d x = Some rt_nan" using x by (subst sqrt_d.simps) (simp add: f_lt_iff)
  moreover have "fval x < 0 \<Longrightarrow> log_d x = Some rt_nan" using x by (simp add: log_d_def f_lt_iff)
  moreover have "f_minus rt_inf = f_inf True"
    by (simp add: rt_inf_def f_minus_def f_inf_def f_pack_def)
  then have "fval x = 0 \<Longrightarrow> log_d x = Some (f_inf True)" using x by (simp add: log_d_def f_lt_iff f_eq_zero)
  moreover have "fval x = 0 \<Longrightarrow> fmod y x = Some rt_nan" using x by (simp add: fmod_def f_eq_zero)
  moreover have "pow_d x y = Some rt_nan" if n: "fval x < 0" "fval y \<notin> \<int>"
  proof -
    have "fval y \<noteq> 0" using n(2) by auto
    moreover have "fval y \<noteq> fval (floor_d y)" using n(2) floor_d_ok [OF y] by (metis Ints_of_int)
    ultimately show ?thesis using n(1) x y floor_d_ok [OF y] by (simp add: pow_d_def f_eq_iff f_lt_iff)
  qed
  moreover have "1 < \<bar>fval x\<bar> \<Longrightarrow> asin x = Some rt_nan \<and> acos x = Some rt_nan"
    using x by (auto simp: asin_def acos_def f_lt_iff)
  ultimately show ?thesis by blast
qed

lemma math_domain_errors_witness:
  "sqrt_d 0xC004000000000000 = Some rt_nan \<and> log_d 0xC004000000000000 = Some rt_nan \<and>
   pow_d 0xC004000000000000 0xC004000000000000 = Some rt_nan"
proof -
  have "- (5 / 2) \<notin> (\<int> :: real set)"
  proof
    assume "- (5 / 2) \<in> (\<int> :: real set)"
    then obtain k :: int where "- (5 / 2) = (of_int k :: real)" by (auto elim: Ints_cases)
    then have "- 5 = (of_int (2 * k) :: real)" by simp
    then have "- 5 = 2 * k" by linarith
    then show False by presburger
  qed
  then show ?thesis
    using math_domain_errors [of "0xC004000000000000" "0xC004000000000000"] by (simp add: some_doubles)
qed

section \<open>Differences from C99\<close>

text \<open>\<open>round(-2.5)\<close> is -2, where C99 rounds half away from zero; \<open>nearbyint(2.5)\<close> is 3, where
  it rounds half to even.\<close>

lemma round_negative_tie: "fval (round_d 0xC004000000000000) = - 2"
  using round_d_ok [of "0xC004000000000000"] by (simp add: some_doubles)

lemma nearbyint_tie: "fval (nearbyint 0x4004000000000000) = 3"
proof -
  have v: "f_fin 0x4004000000000000" "fval 0x4004000000000000 = 5 / 2"
    by (simp_all add: f_eval fval_def power_int_minus cong: let_weak_cong)
  have "fval (nearbyint 0x4004000000000000) = of_int \<lfloor>5 / 2 + 1 / 2 :: real\<rfloor>"
    using round_d_ok [OF v(1)] unfolding nearbyint_def v(2) by blast
  then show ?thesis by simp
qed

text \<open>An integer exponent above 1024 is not seen as one: \<open>pow(-1, 1025)\<close> is a NaN.\<close>

lemma pow_odd_exponent: "pow_d 0xBFF0000000000000 0x4090040000000000 = Some rt_nan"
  by (simp add: pow_d_def f_eval cong: let_weak_cong split del: if_split)

text \<open>\<open>pow(2, -1024)\<close> is 0, the reciprocal of an overflow, where 2^-1024 is a denormal.\<close>

lemma pow_small_power: "pow_d 0x4000000000000000 0xC090000000000000 = Some 0"
  by (simp add: pow_d_def f_eval pow_loop.simps cong: let_weak_cong split del: if_split)

text \<open>A denormal result of \<open>ldexp\<close> is rounded twice: (1/2 + 2^-53) * 2^-1074 becomes 0 and not
  the smallest denormal, which is nearer.\<close>

lemma ldexp_double_rounding: "ldexp 0x3FE0000000000001 (- 1074) = 0"
  by (simp add: ldexp_def ldexp_up.simps ldexp_down.simps f_eval cong: let_weak_cong split del: if_split)

text \<open>The quadrant of 2^1000 is no \<open>long long\<close>: the conversion in \<open>sin\<close> is undefined.\<close>

lemma sin_large_undefined: "sin_d 0x7E70000000000000 = None"
proof -
  have "f_to_int 64 (floor_d (f_add (f_mul 0x7E70000000000000 (f_dec 63661977236758134308 20)) (f_dec 5 1))) = None"
    by (simp add: f_eval cong: let_weak_cong split del: if_split)
  moreover have "finite_d 0x7E70000000000000" by (simp add: f_eval)
  ultimately show ?thesis unfolding sin_d_def rt_trig_reduce_def Let_def by simp
qed

text \<open>\<open>fmax\<close> and \<open>fmin\<close> give the second argument when the first is a number and it is a NaN.\<close>

lemma fmax_nan: "fmax one f_nan = f_nan" "fmin one f_nan = f_nan"
  by (simp_all add: fmax_def fmin_def f_lt_def)

text \<open>\<open>fma\<close> rounds the product first: 1 - (1 + 2^-52) * (1 - 2^-52), negated, is 0 and not -2^-104.\<close>

lemma fma_not_fused: "fma 0x3FF0000000000001 0x3FEFFFFFFFFFFFFE 0xBFF0000000000000 = 0"
  by (simp add: fma_def f_eval cong: let_weak_cong split del: if_split)


end
