(* ===== verification/StringHeader.thy ===== *)
theory StringHeader
  imports RtString
begin

text \<open>
  The implementations that \<open>include/string.h\<close> carries under \<open>C99MTLC_STRING_IMPL\<close>: plain
  byte loops, here with the suffix \<open>_h\<close>. They are the reference for the word-at-a-time
  routines of \<open>rt_string.c\<close>: the theorem says when the two give the same.
\<close>

section \<open>The byte loops\<close>

partial_function (option) strlen_h_loop :: "mem \<Rightarrow> nat \<Rightarrow> nat \<Rightarrow> nat option" where
  [code]: "strlen_h_loop m s n = do { c \<leftarrow> m (s + n); if c \<noteq> 0 then strlen_h_loop m s (n + 1) else Some n }"

definition strlen_h :: "mem \<Rightarrow> nat \<Rightarrow> nat option" where
  "strlen_h m s = strlen_h_loop m s 0"

partial_function (option) strcmp_h :: "mem \<Rightarrow> nat \<Rightarrow> nat \<Rightarrow> int option" where
  [code]: "strcmp_h m a b =
     do { x \<leftarrow> m a;
          y \<leftarrow> m b;
          if x \<noteq> 0 \<and> x = y then strcmp_h m (a + 1) (b + 1) else Some (uint x - uint y) }"

fun strncmp_h :: "mem \<Rightarrow> nat \<Rightarrow> nat \<Rightarrow> nat \<Rightarrow> int option" where
  "strncmp_h m a b 0 = Some 0"
| "strncmp_h m a b (Suc n) =
     do { ca \<leftarrow> m a; cb \<leftarrow> m b;
          if ca \<noteq> cb then Some (uint ca - uint cb)
          else if ca = 0 then Some 0
          else strncmp_h m (a + 1) (b + 1) n }"

partial_function (option) strcpy_h_loop :: "mem \<Rightarrow> nat \<Rightarrow> nat \<Rightarrow> mem option" where
  [code]: "strcpy_h_loop m d s =
     do { c \<leftarrow> m s; m' \<leftarrow> st8 m d c; if c \<noteq> 0 then strcpy_h_loop m' (d + 1) (s + 1) else Some m' }"

definition strcpy_h :: "mem \<Rightarrow> nat \<Rightarrow> nat \<Rightarrow> (nat \<times> mem) option" where
  "strcpy_h m d s = do { m' \<leftarrow> strcpy_h_loop m d s; Some (d, m') }"

text \<open>The loops below run an index \<open>i\<close> up to \<open>n\<close>; \<open>k\<close> is what is left of it.\<close>

fun fill_h :: "mem \<Rightarrow> nat \<Rightarrow> u8 \<Rightarrow> nat \<Rightarrow> nat \<Rightarrow> mem option" where
  "fill_h m d b i 0 = Some m"
| "fill_h m d b i (Suc k) = do { m' \<leftarrow> st8 m (d + i) b; fill_h m' d b (i + 1) k }"

fun strncpy_h_loop :: "mem \<Rightarrow> nat \<Rightarrow> nat \<Rightarrow> nat \<Rightarrow> nat \<Rightarrow> mem option" where
  "strncpy_h_loop m d s i 0 = Some m"
| "strncpy_h_loop m d s i (Suc k) =
     do { c \<leftarrow> m (s + i);
          if c \<noteq> 0 then do { m' \<leftarrow> st8 m (d + i) c; strncpy_h_loop m' d s (i + 1) k }
          else fill_h m d 0 i (Suc k) }"

definition strncpy_h :: "mem \<Rightarrow> nat \<Rightarrow> nat \<Rightarrow> nat \<Rightarrow> (nat \<times> mem) option" where
  "strncpy_h m d s n = do { m' \<leftarrow> strncpy_h_loop m d s 0 n; Some (d, m') }"

definition memset_h :: "mem \<Rightarrow> nat \<Rightarrow> int \<Rightarrow> nat \<Rightarrow> (nat \<times> mem) option" where
  "memset_h m p c n = do { m' \<leftarrow> fill_h m p (word_of_int c) 0 n; Some (p, m') }"

fun copy_up_h :: "mem \<Rightarrow> nat \<Rightarrow> nat \<Rightarrow> nat \<Rightarrow> nat \<Rightarrow> mem option" where
  "copy_up_h m d s i 0 = Some m"
| "copy_up_h m d s i (Suc k) = do { b \<leftarrow> m (s + i); m' \<leftarrow> st8 m (d + i) b; copy_up_h m' d s (i + 1) k }"

fun copy_down_h :: "mem \<Rightarrow> nat \<Rightarrow> nat \<Rightarrow> nat \<Rightarrow> mem option" where
  "copy_down_h m d s 0 = Some m"
| "copy_down_h m d s (Suc i) = do { b \<leftarrow> m (s + i); m' \<leftarrow> st8 m (d + i) b; copy_down_h m' d s i }"

definition memcpy_h :: "mem \<Rightarrow> nat \<Rightarrow> nat \<Rightarrow> nat \<Rightarrow> (nat \<times> mem) option" where
  "memcpy_h m d s n = do { m' \<leftarrow> copy_up_h m d s 0 n; Some (d, m') }"

definition memmove_h :: "mem \<Rightarrow> nat \<Rightarrow> nat \<Rightarrow> nat \<Rightarrow> (nat \<times> mem) option" where
  "memmove_h m d s n =
     (if d < s then do { m' \<leftarrow> copy_up_h m d s 0 n; Some (d, m') }
      else do { m' \<leftarrow> copy_down_h m d s n; Some (d, m') })"

fun memcmp_h_loop :: "mem \<Rightarrow> nat \<Rightarrow> nat \<Rightarrow> nat \<Rightarrow> nat \<Rightarrow> int option" where
  "memcmp_h_loop m a b i 0 = Some 0"
| "memcmp_h_loop m a b i (Suc k) =
     do { x \<leftarrow> m (a + i); y \<leftarrow> m (b + i);
          if x \<noteq> y then Some (uint x - uint y) else memcmp_h_loop m a b (i + 1) k }"

definition memcmp_h :: "mem \<Rightarrow> nat \<Rightarrow> nat \<Rightarrow> nat \<Rightarrow> int option" where
  "memcmp_h m a b n = memcmp_h_loop m a b 0 n"

partial_function (option) strchr_h_loop :: "mem \<Rightarrow> nat \<Rightarrow> u8 \<Rightarrow> (nat \<times> bool) option" where
  [code]: "strchr_h_loop m s b =
     do { x \<leftarrow> m s;
          if x = 0 then Some (s, False) else if x = b then Some (s, True) else strchr_h_loop m (s + 1) b }"

definition strchr_h :: "mem \<Rightarrow> nat \<Rightarrow> int \<Rightarrow> nat option option" where
  "strchr_h m s c =
     do { (p, hit) \<leftarrow> strchr_h_loop m s (word_of_int c);
          Some (if hit then Some p else if c = 0 then Some p else None) }"

section \<open>Each loop against the runtime's\<close>

lemma fill_h_ok: "mapped m (d + i) k \<Longrightarrow> fill_h m d b i k = Some (put_bytes m (d + i) (replicate k b))"
proof (induction k arbitrary: m i)
  case (Suc k)
  then have "m (d + i) \<noteq> None" "mapped (put8 m (d + i) b) (d + (i + 1)) k" by auto
  with Suc.IH [of "put8 m (d + i) b" "i + 1"] show ?case by (simp add: st8_mapped put_bytes_Cons)
qed simp

lemma copy_up_h_tail: "copy_up_h m d s i k = memcpy_tail m (d + i) (s + i) k"
  by (induction k arbitrary: m i) (simp_all add: add.assoc)

lemma copy_down_h_back: "copy_down_h m d s k = memmove_back m (d + k) (s + k) k"
  by (induction k arbitrary: m) simp_all

lemma memcmp_h_ok: "memcmp_h m a b n = memcmp m a b n"
proof -
  have "memcmp_h_loop m a b i k = memcmp m (a + i) (b + i) k" for i k
    by (induction k arbitrary: i) (simp_all add: ac_simps cong: if_cong)
  from this [of 0] show ?thesis by (simp add: memcmp_h_def)
qed

lemma strncmp_h_ok: "strncmp_h m a b n = strncmp m a b n"
proof (induction n arbitrary: a b)
  case (Suc n)
  then show ?case by (cases "m a"; cases "m b") auto
qed simp

lemma strlen_h_ok: "cstr m p s \<Longrightarrow> strlen_h m p = strlen m p"
proof -
  have "cstr m (p + n) t \<Longrightarrow> strlen_h_loop m p n = Some (n + length t)" for n t
  proof (induction t arbitrary: n)
    case Nil
    then show ?case by (subst strlen_h_loop.simps) simp
  next
    case (Cons c t)
    then show ?case by (subst strlen_h_loop.simps) simp
  qed
  from this [of 0] show "cstr m p s \<Longrightarrow> strlen_h m p = strlen m p" by (simp add: strlen_h_def strlen_ok)
qed

lemma strcmp_h_ok: "cstr m a s \<Longrightarrow> cstr m b t \<Longrightarrow> strcmp_h m a b = Some (lex_cmp s t)"
proof (induction s t arbitrary: a b rule: lex_cmp.induct)
  case 1
  then show ?case by (subst strcmp_h.simps) simp
next
  case (2 y ys)
  then show ?case by (subst strcmp_h.simps) simp
next
  case (3 x xs)
  then show ?case by (subst strcmp_h.simps) simp
next
  case (4 x xs y ys)
  then show ?case by (subst strcmp_h.simps) simp
qed

lemma strcpy_h_ok:
  "cstr m s bs \<Longrightarrow> mapped m d (length bs + 1) \<Longrightarrow> d \<le> s \<or> s + length bs < d \<Longrightarrow>
   strcpy_h m d s = strcpy m d s"
proof -
  assume a: "cstr m s bs" "mapped m d (length bs + 1)" "d \<le> s \<or> s + length bs < d"
  then have "strcpy_h_loop m d s = Some (put_bytes m d (bs @ [0]))"
  proof (induction bs arbitrary: m d s)
    case Nil
    then show ?case by (subst strcpy_h_loop.simps) (auto simp: st8_mapped put_bytes_Cons)
  next
    case (Cons b bs)
    let ?m = "put8 m d b"
    have "cstr ?m (Suc s) bs"
      using Cons.prems unfolding cstr_def by (auto intro: bytes_at_upd_other)
    moreover have "mapped ?m (Suc d) (length bs + 1)" using Cons.prems by simp
    ultimately have "strcpy_h_loop ?m (Suc d) (Suc s) = Some (put_bytes ?m (Suc d) (bs @ [0]))"
      using Cons.prems(3) by (intro Cons.IH) auto
    with Cons.prems show ?case
      by (subst strcpy_h_loop.simps) (simp add: st8_mapped put_bytes_Cons)
  qed
  then show ?thesis using strcpy_ok [OF a] by (simp add: strcpy_h_def)
qed

lemma strncpy_h_ok: "strncpy_h m d s n = strncpy m d s n"
proof -
  have f: "fill_h m d 0 i k = zero_fill m (d + i) k" for m i k
    by (induction k arbitrary: m i) (simp_all add: ac_simps)
  have "strncpy_h_loop m d s i k = strncpy_loop m (d + i) (s + i) k" for m i k
    by (induction k arbitrary: m i) (simp_all add: ac_simps f cong: if_cong del: fill_h.simps(2) zero_fill.simps(2))
  from this [of m 0] show ?thesis by (simp add: strncpy_h_def strncpy_def)
qed

lemma strchr_h_ok:
  assumes s: "cstr m p s" and c: "c = 0 \<or> (word_of_int c :: u8) \<noteq> 0"
  shows "strchr_h m p c = strchr m p c"
proof -
  have "cstr m p s \<Longrightarrow> strchr_h_loop m p b =
      (let k = length (takeWhile (\<lambda>x. x \<noteq> b) s) in Some (p + k, k < length s))" for p b
  proof (induction s arbitrary: p)
    case Nil
    then show ?case by (subst strchr_h_loop.simps) simp
  next
    case (Cons c s)
    then have "m p = Some c" "c \<noteq> 0" "cstr m (Suc p) s" by auto
    with Cons.IH [of "Suc p"] show ?case by (subst strchr_h_loop.simps) (auto simp: Let_def)
  qed
  then show ?thesis using s c by (auto simp: strchr_h_def strchr_def strchr_loop_ok Let_def)
qed

section \<open>Equivalence\<close>

text \<open>C18. The routines of \<open>rt_string.c\<close>, which copy, fill and measure in words or by pointers,
  give the same result and memory as the byte loops of \<open>include/string.h\<close>: on strings and
  mapped arrays, \<open>memcpy\<close> where a forward copy is right, \<open>strchr\<close> for a character other than
  a nonzero multiple of 256.\<close>

theorem string_header_equivalent:
  assumes "cstr m a s" "cstr m b t" "bytes_at m p bs" "length bs = n" "mapped m d n"
  shows "strlen m a = strlen_h m a \<and> strcmp m a b = strcmp_h m a b \<and> strncmp m a b k = strncmp_h m a b k \<and>
    strncpy m d a k = strncpy_h m d a k \<and> memcmp m p b k = memcmp_h m p b k \<and>
    memset m d c n = memset_h m d c n \<and> memmove m d p n = memmove_h m d p n \<and>
    (d \<le> p \<or> p + n \<le> d \<longrightarrow> memcpy m d p n = memcpy_h m d p n) \<and>
    (length s < n \<and> (d \<le> a \<or> a + length s < d) \<longrightarrow> strcpy m d a = strcpy_h m d a) \<and>
    (c = 0 \<or> (word_of_int c :: u8) \<noteq> 0 \<longrightarrow> strchr m a c = strchr_h m a c)"
proof -
  note mp = assms(3-5)
  have up: "d \<le> p \<or> p + n \<le> d \<Longrightarrow> copy_up_h m d p 0 n = Some (put_bytes m d bs)"
    using memcpy_tail_ok [OF mp] by (simp add: copy_up_h_tail)
  have "memmove m d p n = memmove_h m d p n"
  proof (cases "d < p")
    case True
    then show ?thesis using up memmove_ok [OF mp] by (simp add: memmove_h_def)
  next
    case False
    then show ?thesis
      using memmove_back_ok [OF mp(1), of d] mp(2,3) memmove_ok [OF mp] by (simp add: memmove_h_def copy_down_h_back)
  qed
  moreover have "memset m d c n = memset_h m d c n"
    using fill_h_ok [of m d 0 n] memset_ok [OF mp(3)] mp(3) by (simp add: memset_h_def)
  moreover have "d \<le> p \<or> p + n \<le> d \<Longrightarrow> memcpy m d p n = memcpy_h m d p n"
    using up memcpy_ok [OF mp] by (simp add: memcpy_h_def)
  moreover have "strcpy m d a = strcpy_h m d a" if "length s < n" "d \<le> a \<or> a + length s < d"
    using strcpy_h_ok [OF assms(1) mapped_le [OF mp(3)] that(2)] that(1) by simp
  ultimately show ?thesis
    using strlen_h_ok [OF assms(1)] strcmp_ok [OF assms(1,2)] strcmp_h_ok [OF assms(1,2)] strncmp_h_ok [of m a b k]
      strncpy_h_ok [of m d a k] memcmp_h_ok [of m p b k] strchr_h_ok [OF assms(1), of c]
    by auto
qed

lemma string_header_equivalent_witness:
  "(let m = mem_of 100 [97, 98, 0, 97, 0, 0] :: mem in
    strlen m 100 = strlen_h m 100 \<and> strcmp m 100 103 = strcmp_h m 100 103 \<and>
    memcpy m 103 100 3 = memcpy_h m 103 100 3 \<and> memmove m 101 100 3 = memmove_h m 101 100 3 \<and>
    strcpy m 103 100 = strcpy_h m 103 100 \<and> strchr m 100 98 = strchr_h m 100 98)"
proof -
  define m :: mem where "m = mem_of 100 [97, 98, 0, 97, 0, 0]"
  have m: "cstr m 100 [97, 98]" "cstr m 103 [97]" "bytes_at m 100 [97, 98, 0]" "mapped m 103 3" "mapped m 101 3"
    by (simp_all add: m_def mem_of_def put_bytes_Cons numeral_3_eq_3)
  show ?thesis
    using string_header_equivalent [OF m(1-3) _ m(4), where c = 98] string_header_equivalent [OF m(1-3) _ m(5)]
    unfolding Let_def m_def [symmetric] by simp
qed

text \<open>\<open>strchr(s, 256)\<close> finds the terminator in the runtime, as C99 7.21.5.2 says; the header's
  loop does not convert the character before its last test and gives a null pointer.\<close>

lemma strchr_h_differs: "cstr m p s \<Longrightarrow> strchr m p 256 = Some (Some (p + length s)) \<and> strchr_h m p 256 = Some None"
proof -
  have h: "cstr m p s \<Longrightarrow> strchr_h_loop m p 0 = Some (p + length s, False)" for p
  proof (induction s arbitrary: p)
    case Nil
    then show ?case by (subst strchr_h_loop.simps) simp
  next
    case (Cons c s)
    then have "m p = Some c" "c \<noteq> 0" "cstr m (Suc p) s" by auto
    with Cons.IH [of "Suc p"] show ?case by (subst strchr_h_loop.simps) simp
  qed
  have nz: "0 \<notin> set s" if "cstr m p s" for p
    using that by (induction s arbitrary: p) auto
  assume c: "cstr m p s"
  have t: "takeWhile (\<lambda>x. x \<noteq> 0) s = s" using nz [OF c] by (auto simp: takeWhile_eq_all_conv)
  have w: "(word_of_int 256 :: u8) = 0" by simp
  have "strchr_loop m p 0 = Some (Some (p + length s))" using strchr_loop_ok [OF c, of 0] unfolding t by simp
  then show ?thesis unfolding strchr_def strchr_h_def w h [OF c] by simp
qed

end
