(* ===== verification/U128.thy ===== *)
theory U128
  imports C99_Prelude
begin

text \<open>
  The \<open>__int128\<close> support runtime that \<open>src/C99/Runtime.hs\<close> holds as C text and the driver
  compiles into a program that uses \<open>unsigned __int128\<close>: two 64-bit words, the helpers the
  operators become. The theorem: they are the arithmetic of 128-bit words.
\<close>

section \<open>The helpers\<close>

record u128 =
  lo :: u64
  hi :: u64

definition u128_from_u64 :: "u64 \<Rightarrow> u128" where
  "u128_from_u64 x = \<lparr>lo = x, hi = 0\<rparr>"

definition u128_to_u64 :: "u128 \<Rightarrow> u64" where
  "u128_to_u64 a = lo a"

definition u128_add :: "u128 \<Rightarrow> u128 \<Rightarrow> u128" where
  "u128_add a b =
     (let l = lo a + lo b in \<lparr>lo = l, hi = hi a + hi b + (if l < lo a then 1 else 0)\<rparr>)"

definition u128_sub :: "u128 \<Rightarrow> u128 \<Rightarrow> u128" where
  "u128_sub a b = \<lparr>lo = lo a - lo b, hi = hi a - hi b - (if lo a < lo b then 1 else 0)\<rparr>"

definition u128_neg :: "u128 \<Rightarrow> u128" where
  "u128_neg a = u128_sub \<lparr>lo = 0, hi = 0\<rparr> a"

definition u128_not :: "u128 \<Rightarrow> u128" where
  "u128_not a = \<lparr>lo = NOT (lo a), hi = NOT (hi a)\<rparr>"

definition u128_and :: "u128 \<Rightarrow> u128 \<Rightarrow> u128" where
  "u128_and a b = \<lparr>lo = lo a AND lo b, hi = hi a AND hi b\<rparr>"

definition u128_or :: "u128 \<Rightarrow> u128 \<Rightarrow> u128" where
  "u128_or a b = \<lparr>lo = lo a OR lo b, hi = hi a OR hi b\<rparr>"

definition u128_xor :: "u128 \<Rightarrow> u128 \<Rightarrow> u128" where
  "u128_xor a b = \<lparr>lo = lo a XOR lo b, hi = hi a XOR hi b\<rparr>"

definition u128_shl :: "u128 \<Rightarrow> int \<Rightarrow> u128" where
  "u128_shl a k =
     (let k = nat (k AND 127)
      in if k = 0 then a
         else if k \<ge> 64 then \<lparr>lo = 0, hi = push_bit (k - 64) (lo a)\<rparr>
         else \<lparr>lo = push_bit k (lo a), hi = push_bit k (hi a) OR drop_bit (64 - k) (lo a)\<rparr>)"

definition u128_shr :: "u128 \<Rightarrow> int \<Rightarrow> u128" where
  "u128_shr a k =
     (let k = nat (k AND 127)
      in if k = 0 then a
         else if k \<ge> 64 then \<lparr>lo = drop_bit (k - 64) (hi a), hi = 0\<rparr>
         else \<lparr>lo = drop_bit k (lo a) OR push_bit (64 - k) (hi a), hi = drop_bit k (hi a)\<rparr>)"

definition umulhi64 :: "u64 \<Rightarrow> u64 \<Rightarrow> u64" where
  "umulhi64 a b =
     (let a0 = a AND 0xffffffff; a1 = drop_bit 32 a;
          b0 = b AND 0xffffffff; b1 = drop_bit 32 b;
          t = a0 * b0;
          k = drop_bit 32 t;
          t = a1 * b0 + k; w1 = t AND 0xffffffff; w2 = drop_bit 32 t;
          t = a0 * b1 + w1; k = drop_bit 32 t
      in a1 * b1 + w2 + k)"

definition u128_mul :: "u128 \<Rightarrow> u128 \<Rightarrow> u128" where
  "u128_mul a b =
     \<lparr>lo = lo a * lo b, hi = umulhi64 (lo a) (lo b) + lo a * hi b + hi a * lo b\<rparr>"

definition u128_lt :: "u128 \<Rightarrow> u128 \<Rightarrow> bool" where
  "u128_lt a b = (if hi a \<noteq> hi b then hi a < hi b else lo a < lo b)"

definition u128_eq :: "u128 \<Rightarrow> u128 \<Rightarrow> bool" where
  "u128_eq a b \<longleftrightarrow> lo a = lo b \<and> hi a = hi b"

definition u128_ne :: "u128 \<Rightarrow> u128 \<Rightarrow> bool" where "u128_ne a b \<longleftrightarrow> \<not> u128_eq a b"
definition u128_gt :: "u128 \<Rightarrow> u128 \<Rightarrow> bool" where "u128_gt a b \<longleftrightarrow> u128_lt b a"
definition u128_le :: "u128 \<Rightarrow> u128 \<Rightarrow> bool" where "u128_le a b \<longleftrightarrow> \<not> u128_lt b a"
definition u128_ge :: "u128 \<Rightarrow> u128 \<Rightarrow> bool" where "u128_ge a b \<longleftrightarrow> \<not> u128_lt a b"

text \<open>The loop of \<open>divmod\<close>, with the bits from \<open>i - 1\<close> down still to do.\<close>

fun divmod_loop :: "nat \<Rightarrow> u128 \<Rightarrow> u128 \<Rightarrow> u128 \<Rightarrow> u128 \<Rightarrow> u128 \<times> u128" where
  "divmod_loop 0 n d q r = (q, r)"
| "divmod_loop (Suc i) n d q r =
     (let b = (if i \<ge> 64 then drop_bit (i - 64) (hi n) AND 1 else drop_bit i (lo n) AND 1);
          r = \<lparr>lo = push_bit 1 (lo r) OR b, hi = push_bit 1 (hi r) OR drop_bit 63 (lo r)\<rparr>
      in if hi r > hi d \<or> hi r = hi d \<and> lo r \<ge> lo d
         then let borrow = (if lo r < lo d then 1 else 0);
                  r = \<lparr>lo = lo r - lo d, hi = hi r - hi d - borrow\<rparr>;
                  q = (if i \<ge> 64 then q\<lparr>hi := hi q OR push_bit (i - 64) 1\<rparr>
                       else q\<lparr>lo := lo q OR push_bit i 1\<rparr>)
              in divmod_loop i n d q r
         else divmod_loop i n d q r)"

definition u128_divmod :: "u128 \<Rightarrow> u128 \<Rightarrow> u128 \<times> u128" where
  "u128_divmod n d =
     (let z = \<lparr>lo = 0, hi = 0\<rparr>
      in if lo d = 0 \<and> hi d = 0 then (z, z) else divmod_loop 128 n d z z)"

definition u128_div :: "u128 \<Rightarrow> u128 \<Rightarrow> u128" where "u128_div a b = fst (u128_divmod a b)"
definition u128_mod :: "u128 \<Rightarrow> u128 \<Rightarrow> u128" where "u128_mod a b = snd (u128_divmod a b)"

section \<open>The value\<close>

definition val :: "u128 \<Rightarrow> int" where
  "val a = concat_bit 64 (uint (lo a)) (uint (hi a))"

lemma uint_64: "0 \<le> uint (w :: u64)" "uint (w :: u64) < 2 ^ 64"
  using unsigned_less [of w] by simp_all

lemma val_eq: "val a = uint (hi a) * 2 ^ 64 + uint (lo a)"
  using uint_64 [of "lo a"] by (simp add: val_def concat_bit_eq push_bit_eq_mult take_bit_int_eq_self)

lemma val_range: "0 \<le> val a" "val a < 2 ^ 128"
proof -
  have "uint (hi a) * 2 ^ 64 \<le> (2 ^ 64 - 1) * 2 ^ 64" using uint_64 [of "hi a"] by (intro mult_right_mono) simp_all
  then show "val a < 2 ^ 128" using uint_64 [of "lo a"] by (simp add: val_eq)
  show "0 \<le> val a" by (simp add: val_eq)
qed

lemma bit_val: "bit (val a) i \<longleftrightarrow> (if i < 64 then bit (lo a) i else bit (hi a) (i - 64))"
  by (auto simp: val_def bit_concat_bit_iff bit_uint_iff dest: bit_imp_le_length)

text \<open>Two words that agree with an integer modulo \<open>2\<^sup>1\<^sup>2\<^sup>8\<close>.\<close>

lemma div_glue: "0 \<le> r \<Longrightarrow> r < B \<Longrightarrow> (q * B + r) div B = (q :: int)"
  by simp

lemma glue: "0 \<le> r \<Longrightarrow> r < B \<Longrightarrow> (q * B + r) mod (B * B) = (q mod B) * B + (r :: int)"
proof -
  assume r: "0 \<le> r" "r < B"
  then have "(q * B + r) div B = q" "(q * B + r) mod B = r" by simp_all
  moreover have "0 \<le> B" using r by simp
  ultimately show ?thesis using zmod_zmult2_eq [of B "q * B + r" B] by (simp add: mult.commute)
qed

lemma val_glue:
  assumes v: "v = q * 2 ^ 64 + uint (lo r)" and h: "uint (hi r) = q mod 2 ^ 64"
  shows "val r = v mod 2 ^ 128"
  using glue [of "uint (lo r)" "2 ^ 64" q] uint_64 [of "lo r"] h unfolding v val_eq by simp

lemma uint_arith: "uint (a + b) = (uint a + uint b) mod 2 ^ 64" "uint (a - b) = (uint a - uint b) mod 2 ^ 64"
  "uint (a * b) = (uint a * uint b) mod 2 ^ 64" for a b :: u64
  by (simp_all add: uint_word_ariths)

section \<open>Addition and subtraction\<close>

lemma wrap_once:
  "B \<le> s \<Longrightarrow> s < 2 * B \<Longrightarrow> s mod B = s - (B :: int)" "- B \<le> s \<Longrightarrow> s < 0 \<Longrightarrow> s mod B = s + (B :: int)"
proof -
  show "B \<le> s \<Longrightarrow> s < 2 * B \<Longrightarrow> s mod B = s - B" using mod_pos_pos_trivial [of "s - B" B] by simp
  show "- B \<le> s \<Longrightarrow> s < 0 \<Longrightarrow> s mod B = s + B" using mod_pos_pos_trivial [of "s + B" B] by simp
qed

lemma carry_add:
  fixes a b :: u64
  shows "uint a + uint b = (if a + b < a then 1 else 0) * 2 ^ 64 + uint (a + b)"
proof (cases "uint a + uint b < 2 ^ 64")
  case True
  then have "uint (a + b) = uint a + uint b" by (simp add: uint_arith)
  then show ?thesis by (simp add: word_less_def)
next
  case False
  then have "uint (a + b) = uint a + uint b - 2 ^ 64"
    unfolding uint_arith using uint_64 [of a] uint_64 [of b] by (intro wrap_once) linarith+
  then show ?thesis using uint_64 [of b] by (simp add: word_less_def)
qed

lemma u128_add_ok: "val (u128_add a b) = (val a + val b) mod 2 ^ 128"
  using carry_add [of "lo a" "lo b"]
  by (intro val_glue [where q = "uint (hi a) + uint (hi b) + (if lo a + lo b < lo a then 1 else 0)"])
    (auto simp: u128_add_def Let_def val_eq uint_arith mod_simps algebra_simps)

lemma borrow_sub:
  fixes a b :: u64
  shows "uint a - uint b = - (if a < b then 1 else 0) * 2 ^ 64 + uint (a - b)"
proof (cases "a < b")
  case True
  then have "uint (a - b) = uint a - uint b + 2 ^ 64"
    unfolding uint_arith word_less_def using uint_64 [of a] uint_64 [of b] by (intro wrap_once) linarith+
  then show ?thesis using True by simp
next
  case False
  then have "uint (a - b) = uint a - uint b"
    unfolding uint_arith word_less_def using uint_64 [of a] uint_64 [of b] by (intro mod_pos_pos_trivial) linarith+
  then show ?thesis using False by simp
qed

lemma u128_sub_ok: "val (u128_sub a b) = (val a - val b) mod 2 ^ 128"
  using borrow_sub [of "lo a" "lo b"]
  by (intro val_glue [where q = "uint (hi a) - uint (hi b) - (if lo a < lo b then 1 else 0)"])
    (auto simp: u128_sub_def Let_def val_eq uint_arith mod_simps algebra_simps)

lemma u128_neg_ok: "val (u128_neg a) = (- val a) mod 2 ^ 128"
  using u128_sub_ok [of "\<lparr>lo = 0, hi = 0\<rparr>" a] by (simp add: u128_neg_def val_eq)

section \<open>Bitwise operations, shifts and comparisons\<close>

lemma u128_bits_ok:
  "val (u128_and a b) = val a AND val b" "val (u128_or a b) = val a OR val b" "val (u128_xor a b) = val a XOR val b"
  by (rule bit_eqI; simp add: bit_val u128_and_def u128_or_def u128_xor_def bit_and_iff bit_or_iff bit_xor_iff)+

lemma u128_not_ok: "val (u128_not a) = 2 ^ 128 - 1 - val a"
proof -
  have n: "uint (NOT w) = 2 ^ 64 - 1 - uint w" for w :: u64
  proof -
    have "NOT w = - 1 - w" by (simp add: not_eq_complement)
    moreover have "uint (- 1 :: u64) = 2 ^ 64 - 1" by (simp add: unsigned_minus_1_eq_mask mask_eq_exp_minus_1)
    ultimately have "uint (NOT w) = (2 ^ 64 - 1 - uint w) mod 2 ^ 64" by (simp only: uint_arith(2))
    also have "\<dots> = 2 ^ 64 - 1 - uint w" using uint_64 [of w] by (intro mod_pos_pos_trivial) linarith+
    finally show ?thesis .
  qed
  show ?thesis by (simp add: u128_not_def val_eq n algebra_simps)
qed

lemma val_less: "uint (hi a) < uint (hi b) \<Longrightarrow> val a < val b"
proof -
  assume "uint (hi a) < uint (hi b)"
  then have "uint (hi a) * 2 ^ 64 + 2 ^ 64 \<le> uint (hi b) * 2 ^ 64" by simp
  then show ?thesis unfolding val_eq using uint_64 [of "lo a"] uint_64 [of "lo b"] by linarith
qed

lemma u128_lt_ok: "u128_lt a b \<longleftrightarrow> val a < val b"
proof (cases "uint (hi a)" "uint (hi b)" rule: linorder_cases)
  case less
  then show ?thesis using val_less [OF less] by (auto simp: u128_lt_def word_less_def)
next
  case greater
  then show ?thesis using val_less [OF greater] by (auto simp: u128_lt_def word_less_def)
next
  case equal
  then have "hi a = hi b" by (simp add: word_uint_eq_iff)
  then show ?thesis by (simp add: u128_lt_def val_eq word_less_def)
qed

lemma u128_eq_ok: "u128_eq a b \<longleftrightarrow> val a = val b"
  using u128_lt_ok [of a b] u128_lt_ok [of b a] by (auto simp: u128_eq_def u128_lt_def split: if_splits)

lemma shift_count: "nat (k AND 127) = nat (k mod 128)"
proof -
  have "k AND mask 7 = take_bit 7 k" by (simp only: take_bit_eq_mask)
  then show ?thesis by (simp add: mask_eq_exp_minus_1 take_bit_eq_mod)
qed

lemma u128_shl_ok: "val (u128_shl a k) = (val a * 2 ^ nat (k mod 128)) mod 2 ^ 128"
proof -
  define j where "j = nat (k mod 128)"
  have j: "j < 128" by (simp add: j_def nat_less_iff)
  have "val (u128_shl a k) = take_bit 128 (push_bit j (val a))"
  proof (rule bit_eqI)
    fix i
    show "bit (val (u128_shl a k)) i \<longleftrightarrow> bit (take_bit 128 (push_bit j (val a))) i"
      using j unfolding u128_shl_def shift_count j_def [symmetric] Let_def
      by (auto simp: bit_val bit_take_bit_iff bit_push_bit_iff bit_or_iff bit_drop_bit_eq not_less ac_simps
          dest: bit_imp_le_length)
  qed
  then show ?thesis by (simp add: j_def take_bit_eq_mod push_bit_eq_mult)
qed

lemma u128_shr_ok: "val (u128_shr a k) = val a div 2 ^ nat (k mod 128)"
proof -
  define j where "j = nat (k mod 128)"
  have j: "j < 128" by (simp add: j_def nat_less_iff)
  have "val (u128_shr a k) = drop_bit j (val a)"
  proof (rule bit_eqI)
    fix i
    show "bit (val (u128_shr a k)) i \<longleftrightarrow> bit (drop_bit j (val a)) i"
      using j unfolding u128_shr_def shift_count j_def [symmetric] Let_def
      by (auto simp: bit_val bit_push_bit_iff bit_or_iff bit_drop_bit_eq not_less ac_simps
          dest: bit_imp_le_length)
  qed
  then show ?thesis by (simp add: j_def drop_bit_eq_div)
qed

section \<open>Multiplication\<close>

lemma low32: "uint (w AND 0xffffffff :: u64) = uint w mod 2 ^ 32"
proof -
  have "w AND 0xffffffff = take_bit 32 w" by (simp add: take_bit_eq_mask mask_eq_exp_minus_1)
  moreover have "uint (take_bit 32 w) = take_bit 32 (uint w)" by (rule unsigned_take_bit_eq)
  ultimately show ?thesis by (simp only: take_bit_eq_mod [of 32 "uint w"])
qed

lemma high32: "uint (drop_bit 32 w :: u64) = uint w div 2 ^ 32"
  by (simp only: uint_nat unat_drop_bit_eq drop_bit_eq_div [of 32 "unat w"] zdiv_int of_nat_power of_nat_numeral)

lemma mul_high:
  fixes a0 a1 b0 b1 C :: int
  assumes "0 \<le> a0" "a0 < C" "0 \<le> b0" "b0 < C" "0 \<le> a1" "0 \<le> b1"
  defines "t \<equiv> a1 * b0 + a0 * b0 div C"
  shows "(a1 * C + a0) * (b1 * C + b0) div (C * C) = a1 * b1 + t div C + (a0 * b1 + t mod C) div C"
proof -
  have C: "0 < C" using assms by linarith
  define p1 p0 where "p1 = a0 * b0 div C" and "p0 = a0 * b0 mod C"
  define t1 t0 where "t1 = t div C" and "t0 = t mod C"
  define s1 s0 where "s1 = (a0 * b1 + t0) div C" and "s0 = (a0 * b1 + t0) mod C"
  have p: "a0 * b0 = p1 * C + p0" "0 \<le> p0" "p0 < C" using C by (simp_all add: p1_def p0_def)
  have t: "a1 * b0 + p1 = t1 * C + t0" using C by (simp add: t1_def t0_def t_def p1_def)
  have s: "a0 * b1 + t0 = s1 * C + s0" "0 \<le> s0" "s0 < C" using C by (simp_all add: s1_def s0_def)
  have "(a1 * C + a0) * (b1 * C + b0) = a1 * b1 * (C * C) + (a1 * b0 + a0 * b1) * C + a0 * b0"
    by (simp add: algebra_simps)
  also have "\<dots> = a1 * b1 * (C * C) + ((a1 * b0 + p1) + a0 * b1) * C + p0" unfolding p(1) by (simp add: algebra_simps)
  also have "\<dots> = (a1 * b1 + t1) * (C * C) + (a0 * b1 + t0) * C + p0" unfolding t by (simp add: algebra_simps)
  also have "\<dots> = (a1 * b1 + t1 + s1) * (C * C) + (s0 * C + p0)" unfolding s(1) by (simp add: algebra_simps)
  finally have e: "(a1 * C + a0) * (b1 * C + b0) = (a1 * b1 + t1 + s1) * (C * C) + (s0 * C + p0)" .
  have "s0 * C + p0 < (s0 + 1) * C" using p(3) by (simp add: algebra_simps)
  also have "\<dots> \<le> C * C" using s(3) C by (intro mult_right_mono) simp_all
  finally have "s0 * C + p0 < C * C" .
  moreover have "0 \<le> s0 * C + p0" using s(2) p(2) C by simp
  ultimately show ?thesis unfolding e t1_def s1_def t0_def by (intro div_glue)
qed

lemma umulhi64_ok: "uint (umulhi64 a b) = uint a * uint b div 2 ^ 64"
proof -
  define C :: int where "C = 2 ^ 32"
  have CC: "C * C = 2 ^ 64" by (simp add: C_def)
  define a0 a1 b0 b1 where "a0 = a AND 0xffffffff" and "a1 = drop_bit 32 a"
    and "b0 = b AND 0xffffffff" and "b1 = drop_bit 32 b"
  have u: "uint a = uint a1 * C + uint a0" "uint b = uint b1 * C + uint b0"
    by (simp_all add: a0_def a1_def b0_def b1_def low32 high32 C_def)
  have half: "0 \<le> uint (w AND 0xffffffff)" "uint (w AND 0xffffffff) \<le> C - 1"
    "0 \<le> uint (drop_bit 32 w)" "uint (drop_bit 32 w) \<le> C - 1" for w :: u64
  proof -
    show "uint (w AND 0xffffffff) \<le> C - 1" by (simp add: low32 C_def)
    have "uint w < C * C" using uint_64 [of w] by (simp add: CC)
    then have "uint w div C < C" by (simp add: C_def)
    then show "uint (drop_bit 32 w) \<le> C - 1" unfolding high32 C_def [symmetric] by simp
  qed simp_all
  note hb = half [of a, folded a0_def a1_def] half [of b, folded b0_def b1_def]
  have prod: "uint (x * y + z) = uint x * uint y + uint z"
    if "uint x \<le> C - 1" "uint y \<le> C - 1" "uint z \<le> C - 1" for x y z :: u64
  proof -
    have "uint x * uint y \<le> (C - 1) * (C - 1)" using that by (intro mult_mono) (simp_all add: C_def)
    moreover have "(C - 1) * (C - 1) + (C - 1) < C * C" by (simp add: C_def)
    ultimately have "uint x * uint y + uint z < 2 ^ 64" unfolding CC [symmetric] using that(3) by linarith
    moreover have "uint (x * y + z) = (uint x * uint y + uint z) mod 2 ^ 64" by (simp add: uint_arith mod_simps)
    ultimately show ?thesis by simp
  qed
  define k where "k = drop_bit 32 (a0 * b0)"
  define t where "t = a1 * b0 + k"
  define t' where "t' = a0 * b1 + (t AND 0xffffffff)"
  have r: "umulhi64 a b = a1 * b1 + drop_bit 32 t + drop_bit 32 t'"
    by (simp add: umulhi64_def Let_def a0_def a1_def b0_def b1_def k_def t_def t'_def)
  have "uint (a0 * b0) = uint a0 * uint b0" using prod [of a0 b0 0] hb by simp
  then have k: "uint k = uint a0 * uint b0 div C" by (simp add: k_def high32 C_def)
  have t: "uint t = uint a1 * uint b0 + uint a0 * uint b0 div C"
    unfolding t_def k [symmetric] using hb half(4) [of "a0 * b0"] by (intro prod) (simp_all add: k_def)
  have t': "uint t' = uint a0 * uint b1 + uint t mod C"
    unfolding t'_def using hb half [of t] by (subst prod) (simp_all add: low32 C_def)
  have "uint (umulhi64 a b) = (uint a1 * uint b1 + uint t div C + uint t' div C) mod 2 ^ 64"
    unfolding r C_def by (simp add: uint_arith high32 mod_simps)
  also have "\<dots> = uint a * uint b div (C * C) mod 2 ^ 64"
    unfolding u t t' using hb by (subst mul_high) simp_all
  also have "\<dots> = uint a * uint b div (C * C)"
  proof (rule mod_pos_pos_trivial)
    have "uint a * uint b < 2 ^ 64 * 2 ^ 64"
      using uint_64 [of a] uint_64 [of b] by (intro mult_strict_mono) simp_all
    then show "uint a * uint b div (C * C) < 2 ^ 64" unfolding CC by simp
  qed (simp_all add: CC pos_imp_zdiv_nonneg_iff)
  finally show ?thesis by (simp add: CC)
qed

lemma u128_mul_ok: "val (u128_mul a b) = (val a * val b) mod 2 ^ 128"
proof -
  define q where "q = uint (lo a) * uint (lo b) div 2 ^ 64 + uint (lo a) * uint (hi b) + uint (hi a) * uint (lo b)"
  have "uint (lo (u128_mul a b)) = uint (lo a) * uint (lo b) mod 2 ^ 64" by (simp add: u128_mul_def uint_arith)
  then have "uint (lo a) * uint (lo b) = uint (lo a) * uint (lo b) div 2 ^ 64 * 2 ^ 64 + uint (lo (u128_mul a b))"
    by simp
  then have "val a * val b = uint (hi a) * uint (hi b) * 2 ^ 128 + (q * 2 ^ 64 + uint (lo (u128_mul a b)))"
    unfolding val_eq q_def by (simp add: algebra_simps)
  then have "(val a * val b) mod 2 ^ 128 = (q * 2 ^ 64 + uint (lo (u128_mul a b))) mod 2 ^ 128" by simp
  moreover have "uint (hi (u128_mul a b)) = q mod 2 ^ 64"
    by (simp add: u128_mul_def uint_arith umulhi64_ok q_def mod_simps)
  ultimately show ?thesis using val_glue [OF refl, of "u128_mul a b" q] by simp
qed

section \<open>Division\<close>

text \<open>The remainder shifted by one with the next bit, and the bit set in the quotient.\<close>

lemma shift_bits:
  assumes k: "k < 64" and h: "\<And>j. bit (hi r) j \<Longrightarrow> j + k < 64"
  shows "val \<lparr>lo = push_bit k (lo r) OR b, hi = push_bit k (hi r) OR drop_bit (64 - k) (lo r)\<rparr> =
    push_bit k (val r) OR uint b"
proof (rule bit_eqI)
  fix i
  have b: "bit (uint b) i \<longleftrightarrow> bit b i" "bit b i \<Longrightarrow> i < 64"
    using bit_imp_le_length [of b i] by (auto simp: bit_uint_iff)
  have l: "bit (lo r) j \<Longrightarrow> j < 64" for j using bit_imp_le_length [of "lo r" j] by simp
  show "bit (val \<lparr>lo = push_bit k (lo r) OR b, hi = push_bit k (hi r) OR drop_bit (64 - k) (lo r)\<rparr>) i \<longleftrightarrow>
      bit (push_bit k (val r) OR uint b) i"
  proof (cases "i < 64")
    case True
    then show ?thesis using k b by (auto simp: bit_val bit_or_iff bit_push_bit_iff)
  next
    case False
    then have "64 - k + (i - 64) = i - k" "i - 64 - k = i - k - 64" using k by simp_all
    then show ?thesis using False k b l [of "i - k"] h [of "i - k - 64"]
      by (auto simp: bit_val bit_or_iff bit_push_bit_iff bit_drop_bit_eq)
  qed
qed

lemma shift_in:
  assumes r: "val r < 2 ^ 127" and b: "b = 0 \<or> b = (1 :: u64)"
  shows "val \<lparr>lo = push_bit 1 (lo r) OR b, hi = push_bit 1 (hi r) OR drop_bit 63 (lo r)\<rparr> = 2 * val r + uint b"
proof -
  have "take_bit 127 (val r) = val r" using r val_range(1) by (simp add: take_bit_int_eq_self)
  then have "\<not> bit (val r) 127" by (metis bit_take_bit_iff less_irrefl)
  then have "\<not> bit (hi r) 63" by (simp add: bit_val)
  then have h: "bit (hi r) j \<Longrightarrow> j + 1 < 64" for j
    using bit_imp_le_length [of "hi r" j] by (cases "j = 63") auto
  have "push_bit 1 (val r) AND uint b = 0"
    using b by (intro bit_eqI) (auto simp: bit_and_iff bit_push_bit_iff bit_1_iff bit_double_iff bit_0)
  then have "push_bit 1 (val r) OR uint b = push_bit 1 (val r) + uint b" by (simp only: disjunctive_add_eq_or)
  then show ?thesis using shift_bits [of 1 r b] h by (simp add: push_bit_eq_mult)
qed

lemma set_bit_q:
  assumes q: "val q mod 2 ^ Suc i = 0" and i: "i < 128"
  shows "val (if i \<ge> 64 then q\<lparr>hi := hi q OR push_bit (i - 64) 1\<rparr> else q\<lparr>lo := lo q OR push_bit i 1\<rparr>) =
    val q + 2 ^ i"
proof -
  have "val (if i \<ge> 64 then q\<lparr>hi := hi q OR push_bit (i - 64) 1\<rparr> else q\<lparr>lo := lo q OR push_bit i 1\<rparr>) =
      val q OR push_bit i 1"
  proof (rule bit_eqI)
    fix j
    show "bit (val (if i \<ge> 64 then q\<lparr>hi := hi q OR push_bit (i - 64) 1\<rparr> else q\<lparr>lo := lo q OR push_bit i 1\<rparr>)) j \<longleftrightarrow>
        bit (val q OR push_bit i 1) j"
      using i by (auto simp: bit_val bit_or_iff bit_push_bit_iff bit_exp_iff bit_1_iff not_less)
  qed
  also have "\<dots> = val q + push_bit i 1"
  proof -
    have "take_bit (Suc i) (val q) = 0" using q by (simp add: take_bit_eq_mod)
    then have "\<not> bit (val q) i" by (metis bit_take_bit_iff bit_0_eq bot_apply bot_bool_def lessI)
    then have "val q AND push_bit i 1 = 0"
      by (intro bit_eqI) (auto simp: bit_and_iff bit_push_bit_iff bit_1_iff bit_exp_iff)
    then show ?thesis by (simp only: disjunctive_add_eq_or)
  qed
  finally show ?thesis by (simp add: push_bit_eq_mult)
qed

lemma divmod_loop_ok:
  assumes d: "0 < val d"
  shows "i \<le> 128 \<Longrightarrow> val r = (val n div 2 ^ i) mod val d \<Longrightarrow> val q = (val n div 2 ^ i) div val d * 2 ^ i \<Longrightarrow>
    divmod_loop i n d q r = (q', r') \<Longrightarrow> val q' = val n div val d \<and> val r' = val n mod val d"
proof (induction i arbitrary: q r)
  case 0
  then show ?case by simp
next
  case (Suc i)
  define N where "N = val n div 2 ^ Suc i"
  define b where "b = (if i \<ge> 64 then drop_bit (i - 64) (hi n) AND 1 else drop_bit i (lo n) AND 1)"
  define s where "s = \<lparr>lo = push_bit 1 (lo r) OR b, hi = push_bit 1 (hi r) OR drop_bit 63 (lo r)\<rparr>"
  have "b = of_bool (bit (val n) i)"
    by (simp add: b_def and_one_eq mod_2_eq_odd bit_val flip: bit_iff_odd_drop_bit)
  then have b: "b = 0 \<or> b = 1" "uint b = val n div 2 ^ i mod 2"
    by (simp_all add: bit_iff_odd mod_2_eq_odd)
  have N: "val n div 2 ^ i = 2 * N + uint b"
  proof -
    have "val n div 2 ^ i div 2 = N" unfolding N_def power_Suc2 by (rule zdiv_zmult2_eq [symmetric]) simp
    then show ?thesis using div_mult_mod_eq [of "val n div 2 ^ i" 2] b(2) by simp
  qed
  have "N < 2 ^ 127"
  proof -
    have "N = val n div 2 div 2 ^ i" unfolding N_def power_Suc by (rule zdiv_zmult2_eq) simp
    also have "\<dots> \<le> val n div 2 div 1" using val_range [of n] by (intro zdiv_mono2) simp_all
    finally show ?thesis using val_range [of n] by simp
  qed
  moreover have "0 \<le> N" by (simp add: N_def val_range pos_imp_zdiv_nonneg_iff)
  then have "N mod val d \<le> N" using d by (simp add: zmod_le_nonneg_dividend)
  ultimately have r: "val r < 2 ^ 127" "val r = N mod val d" using Suc.prems(2) by (simp_all add: N_def)
  have s: "val s = 2 * val r + uint b" unfolding s_def using r(1) b(1) by (rule shift_in)
  define q1 where "q1 = N div val d"
  have q: "val q = q1 * 2 ^ Suc i" using Suc.prems(3) by (simp only: N_def q1_def)
  have Nq: "N = q1 * val d + val r" by (simp add: q1_def r(2))
  have "hi s > hi d \<or> hi s = hi d \<and> lo s \<ge> lo d \<longleftrightarrow> \<not> u128_lt s d"
    by (auto simp: u128_lt_def word_less_def word_le_def word_uint_eq_iff)
  then have ge: "hi s > hi d \<or> hi s = hi d \<and> lo s \<ge> lo d \<longleftrightarrow> val d \<le> val s"
    using u128_lt_ok [of s d] by auto
  show ?case
  proof (cases "val d \<le> val s")
    case True
    define t where "t = u128_sub s d"
    define p where "p = (if i \<ge> 64 then q\<lparr>hi := hi q OR push_bit (i - 64) 1\<rparr> else q\<lparr>lo := lo q OR push_bit i 1\<rparr>)"
    have "val t = (val s - val d) mod 2 ^ 128" unfolding t_def by (rule u128_sub_ok)
    also have "\<dots> = val s - val d" using True val_range [of s] d by (intro mod_pos_pos_trivial) linarith+
    finally have t: "val t = val s - val d" .
    have p: "val p = val q + 2 ^ i" unfolding p_def using Suc.prems(1) q by (intro set_bit_q) simp_all
    have "val r < val d" using d r(2) by simp
    then have small: "0 \<le> val t" "val t < val d" using True t s b by auto
    have e: "val n div 2 ^ i = (2 * q1 + 1) * val d + val t" unfolding N Nq t s by (simp add: algebra_simps)
    have "divmod_loop i n d p t = (q', r')"
      using Suc.prems(4) True ge
      unfolding divmod_loop.simps Let_def b_def [symmetric] s_def [symmetric] p_def t_def u128_sub_def
      by (simp split del: if_split)
    moreover have "val t = val n div 2 ^ i mod val d" unfolding e using small by simp
    moreover have "val p = val n div 2 ^ i div val d * 2 ^ i"
      unfolding e div_glue [OF small] p q by (simp add: algebra_simps)
    ultimately show ?thesis using Suc.IH [of t p] Suc.prems(1) by simp
  next
    case False
    have small: "0 \<le> val s" "val s < val d" using False val_range by simp_all
    have e: "val n div 2 ^ i = 2 * q1 * val d + val s" unfolding N Nq s by (simp add: algebra_simps)
    have "divmod_loop i n d q s = (q', r')"
      using Suc.prems(4) False ge
      unfolding divmod_loop.simps Let_def b_def [symmetric] s_def [symmetric] by (simp split del: if_split)
    moreover have "val s = val n div 2 ^ i mod val d" unfolding e using small by simp
    moreover have "val q = val n div 2 ^ i div val d * 2 ^ i"
      unfolding e div_glue [OF small] q by (simp add: algebra_simps)
    ultimately show ?thesis using Suc.IH [of s q] Suc.prems(1) by simp
  qed
qed

lemma u128_divmod_ok:
  "val (u128_div a b) = (if val b = 0 then 0 else val a div val b) \<and>
   val (u128_mod a b) = (if val b = 0 then 0 else val a mod val b)"
proof (cases "val b = 0")
  case True
  then have "uint (hi b) = 0" "uint (lo b) = 0"
    by (simp_all add: val_eq add_nonneg_eq_0_iff)
  then have "lo b = 0 \<and> hi b = 0" by (simp add: word_uint_eq_iff)
  then show ?thesis using True by (simp add: u128_div_def u128_mod_def u128_divmod_def Let_def val_eq)
next
  case False
  then have p: "0 < val b" using val_range(1) [of b] by linarith
  have nz: "\<not> (lo b = 0 \<and> hi b = 0)" using False by (auto simp: val_eq)
  define z where "z = \<lparr>lo = 0 :: u64, hi = 0 :: u64\<rparr>"
  have z: "val z = 0" by (simp add: z_def val_eq)
  have "val a div 2 ^ 128 = 0" using val_range [of a] by (intro div_pos_pos_trivial)
  moreover obtain q r where "divmod_loop 128 a b z z = (q, r)" by fastforce
  ultimately show ?thesis
    using divmod_loop_ok [OF p, of 128 z a z q r] nz False z
    unfolding u128_div_def u128_mod_def u128_divmod_def Let_def z_def [symmetric] by auto
qed

section \<open>The arithmetic of 128 bits\<close>

text \<open>C16. The helpers that replace the operators of \<open>unsigned __int128\<close> compute on the two
  words what the operators mean on the value: sums, differences, products, negation and left
  shifts modulo 2^128, with the shift count taken modulo 128, quotient and remainder exact (0 for
  a zero divisor), the bitwise operations and the comparisons.\<close>

theorem u128_arithmetic:
  "val (u128_from_u64 x) = uint x \<and> uint (u128_to_u64 a) = val a mod 2 ^ 64 \<and>
   val (u128_add a b) = (val a + val b) mod 2 ^ 128 \<and>
   val (u128_sub a b) = (val a - val b) mod 2 ^ 128 \<and>
   val (u128_neg a) = (- val a) mod 2 ^ 128 \<and>
   val (u128_mul a b) = (val a * val b) mod 2 ^ 128 \<and>
   val (u128_div a b) = (if val b = 0 then 0 else val a div val b) \<and>
   val (u128_mod a b) = (if val b = 0 then 0 else val a mod val b) \<and>
   val (u128_not a) = 2 ^ 128 - 1 - val a \<and> val (u128_and a b) = val a AND val b \<and>
   val (u128_or a b) = val a OR val b \<and> val (u128_xor a b) = val a XOR val b \<and>
   val (u128_shl a k) = (val a * 2 ^ nat (k mod 128)) mod 2 ^ 128 \<and>
   val (u128_shr a k) = val a div 2 ^ nat (k mod 128) \<and>
   (u128_lt a b \<longleftrightarrow> val a < val b) \<and> (u128_le a b \<longleftrightarrow> val a \<le> val b) \<and>
   (u128_gt a b \<longleftrightarrow> val a > val b) \<and> (u128_ge a b \<longleftrightarrow> val a \<ge> val b) \<and>
   (u128_eq a b \<longleftrightarrow> val a = val b) \<and> (u128_ne a b \<longleftrightarrow> val a \<noteq> val b)"
proof -
  have "val (u128_from_u64 x) = uint x" "uint (u128_to_u64 a) = val a mod 2 ^ 64"
    using uint_64 [of "lo a"] by (simp_all add: u128_from_u64_def u128_to_u64_def val_eq)
  then show ?thesis
    using u128_add_ok u128_sub_ok u128_neg_ok u128_mul_ok u128_divmod_ok u128_not_ok u128_bits_ok u128_shl_ok
      u128_shr_ok u128_lt_ok u128_eq_ok
    by (simp add: u128_le_def u128_gt_def u128_ge_def u128_ne_def not_less)
qed

end
