(* ===== verification/Kernel32.thy ===== *)
theory Kernel32
  imports C99_Prelude
begin

text \<open>
  The kernel32 functions the runtime calls (\<open>rt/c99rt.h\<close>). They are not code of the
  repository: the runtime's operations take them as records of functions on the kernel's
  state \<open>'w\<close>, whatever that is. A handle and a heap address are 64-bit words, 0 is the
  null pointer. Below are the malloc family of \<open>rt/rt_alloc.c\<close> over the heap calls and
  what the file calls are documented to do for a disk file, as a locale.
\<close>

type_synonym handle = u64

text \<open>An allocation gives the address, 0 when the heap is exhausted.\<close>

record 'w heap_api =
  HeapAlloc :: "'w \<Rightarrow> u32 \<Rightarrow> u64 \<Rightarrow> 'w \<times> u64"
  HeapReAlloc :: "'w \<Rightarrow> u32 \<Rightarrow> u64 \<Rightarrow> u64 \<Rightarrow> 'w \<times> u64"
  HeapFree :: "'w \<Rightarrow> u32 \<Rightarrow> u64 \<Rightarrow> 'w"

text \<open>
  \<open>WriteFile w h p\<close> is given the bytes to write and returns success and the count written;
  \<open>ReadFile w h n\<close> returns success and the bytes it put into the caller's buffer;
  \<open>SetFilePointerEx w h dist method\<close> returns success and the new position.
\<close>

record 'w file_api =
  WriteFile :: "'w \<Rightarrow> handle \<Rightarrow> u8 list \<Rightarrow> 'w \<times> bool \<times> nat"
  ReadFile :: "'w \<Rightarrow> handle \<Rightarrow> nat \<Rightarrow> 'w \<times> bool \<times> u8 list"
  SetFilePointerEx :: "'w \<Rightarrow> handle \<Rightarrow> int \<Rightarrow> u32 \<Rightarrow> 'w \<times> bool \<times> int"
  CreateFileA :: "'w \<Rightarrow> u8 list \<Rightarrow> u32 \<Rightarrow> u32 \<Rightarrow> u32 \<Rightarrow> u32 \<Rightarrow> 'w \<times> handle"
  CloseHandle :: "'w \<Rightarrow> handle \<Rightarrow> 'w"
  GetLastError :: "'w \<Rightarrow> u32"
  GetStdHandle :: "'w \<Rightarrow> u32 \<Rightarrow> handle"
  GetFileType :: "'w \<Rightarrow> handle \<Rightarrow> u32"
  DeleteFileA :: "'w \<Rightarrow> u8 list \<Rightarrow> 'w \<times> bool"
  MoveFileExA :: "'w \<Rightarrow> u8 list \<Rightarrow> u8 list \<Rightarrow> u32 \<Rightarrow> 'w \<times> bool"
  GetFileAttributesA :: "'w \<Rightarrow> u8 list \<Rightarrow> u32"

text \<open>The part of \<open>RtStartupInfoA\<close> and \<open>RtProcessInformation\<close> the runtime fills in or reads.\<close>

record startup_info =
  si_flags :: u32
  si_input :: handle
  si_output :: handle
  si_error :: handle

record process_info =
  pi_process :: handle
  pi_thread :: handle

record 'w proc_api =
  CreatePipe :: "'w \<Rightarrow> bool \<Rightarrow> 'w \<times> (handle \<times> handle) option"
  SetHandleInformation :: "'w \<Rightarrow> handle \<Rightarrow> u32 \<Rightarrow> u32 \<Rightarrow> 'w"
  CreateProcessA :: "'w \<Rightarrow> u8 list \<Rightarrow> startup_info \<Rightarrow> 'w \<times> process_info option"
  WaitForSingleObject :: "'w \<Rightarrow> handle \<Rightarrow> u32 \<Rightarrow> 'w"
  GetExitCodeProcess :: "'w \<Rightarrow> handle \<Rightarrow> u32 option"
  TerminateProcess :: "'w \<Rightarrow> u32 \<Rightarrow> 'w"

record 'w env_api =
  GetCommandLineA :: "'w \<Rightarrow> u8 list"
  GetEnvironmentStringsA :: "'w \<Rightarrow> u8 list option"
  SetEnvironmentVariableA :: "'w \<Rightarrow> u8 list \<Rightarrow> u8 list option \<Rightarrow> 'w \<times> bool"

section \<open>rt_alloc.c\<close>

definition malloc :: "'w heap_api \<Rightarrow> 'w \<Rightarrow> u64 \<Rightarrow> 'w \<times> u64" where
  "malloc H w n = HeapAlloc H w 0 (if n = 0 then 1 else n)"

definition free :: "'w heap_api \<Rightarrow> 'w \<Rightarrow> u64 \<Rightarrow> 'w" where
  "free H w p = (if p \<noteq> 0 then HeapFree H w 0 p else w)"

definition realloc :: "'w heap_api \<Rightarrow> 'w \<Rightarrow> u64 \<Rightarrow> u64 \<Rightarrow> 'w \<times> u64" where
  "realloc H w p n =
     (if p = 0 then malloc H w n
      else if n = 0 then (free H w p, 0)
      else HeapReAlloc H w 0 p n)"

definition calloc :: "'w heap_api \<Rightarrow> 'w \<Rightarrow> u64 \<Rightarrow> u64 \<Rightarrow> 'w \<times> u64" where
  "calloc H w num sz =
     (if num \<noteq> 0 \<and> sz > - 1 div num then (w, 0)
      else let total = num * sz in HeapAlloc H w 8 (if total = 0 then 1 else total))"

text \<open>The overflow test of \<open>calloc\<close> is exact: it lets through just the products that fit.\<close>

lemma calloc_guard:
  "(num \<noteq> 0 \<and> sz > - 1 div (num :: u64)) \<longleftrightarrow> 2 ^ 64 \<le> unat num * unat sz"
proof (cases "num = 0")
  case False
  then have pos: "0 < unat num" by (simp add: unat_gt_0)
  have m1: "unat (- 1 div num) = (2 ^ 64 - 1) div unat num"
    by (simp add: unat_div_distrib unsigned_minus_1_eq_mask mask_eq_exp_minus_1)
  have "(- 1 div num < sz) \<longleftrightarrow> (2 ^ 64 - 1) div unat num < unat sz"
    by (simp add: word_less_nat_alt m1)
  also have "\<dots> \<longleftrightarrow> 2 ^ 64 - 1 < unat sz * unat num"
    by (rule div_less_iff_less_mult [OF pos])
  also have "\<dots> \<longleftrightarrow> 2 ^ 64 \<le> unat num * unat sz"
    by (simp add: mult.commute) linarith
  finally show ?thesis using False by simp
qed simp

section \<open>What the file calls do for a disk file\<close>

text \<open>\<open>splice d p bs\<close>: the bytes \<open>bs\<close> written over \<open>d\<close> at position \<open>p\<close>, zeros before it.\<close>

definition splice :: "u8 list \<Rightarrow> nat \<Rightarrow> u8 list \<Rightarrow> u8 list" where
  "splice d p bs =
     (if bs = [] then d
      else take p d @ replicate (p - length d) 0 @ bs @ drop (p + length bs) d)"

definition seek_base :: "nat \<Rightarrow> nat \<Rightarrow> u32 \<Rightarrow> int" where
  "seek_base len p method = (if method = 0 then 0 else if method = 1 then int p else int len)"

text \<open>
  A handle \<open>h\<close> with \<open>open_file w h\<close> names a disk file with contents \<open>data w h\<close> and
  position \<open>fpos w h\<close>. A write may be short or fail, a read may be short or fail but is
  empty on success only at the end of the file (the error of a disk file is never that of a
  broken pipe, 109), and a seek to a negative position fails
  and leaves the position.
\<close>

locale disk_file =
  fixes F :: "'w file_api"
    and open_file :: "'w \<Rightarrow> handle \<Rightarrow> bool"
    and data :: "'w \<Rightarrow> handle \<Rightarrow> u8 list"
    and fpos :: "'w \<Rightarrow> handle \<Rightarrow> nat"
  assumes write_law: "WriteFile F w h p = (w', r, n) \<Longrightarrow> open_file w h \<Longrightarrow>
      open_file w' h \<and> n \<le> length p \<and> data w' h = splice (data w h) (fpos w h) (take n p) \<and>
      fpos w' h = fpos w h + n"
    and read_law: "ReadFile F w h k = (w', r, bs) \<Longrightarrow> open_file w h \<Longrightarrow>
      open_file w' h \<and> data w' h = data w h \<and> length bs \<le> k \<and>
      bs = take (length bs) (drop (fpos w h) (data w h)) \<and>
      fpos w' h = fpos w h + length bs \<and> (\<not> r \<longrightarrow> bs = [] \<and> GetLastError F w' \<noteq> 109) \<and>
      (r \<and> bs = [] \<and> k > 0 \<longrightarrow> length (data w h) \<le> fpos w h)"
    and seek_law: "SetFilePointerEx F w h d method = (w', r, q) \<Longrightarrow> open_file w h \<Longrightarrow>
      method \<le> 2 \<Longrightarrow> open_file w' h \<and> data w' h = data w h \<and>
      (let t = seek_base (length (data w h)) (fpos w h) method + d
       in if t < 0 then \<not> r \<and> fpos w' h = fpos w h
          else r \<and> q = t \<and> fpos w' h = nat t)"

end
