(* ===== verification/HeapMem.thy ===== *)
theory HeapMem
  imports RtString Kernel32
begin

text \<open>
  The heap seen from the byte memory: a block that \<open>malloc\<close> returns is an array of bytes the
  program may use from then on. The locale \<open>heap_blocks\<close> is what \<open>HeapAlloc\<close> promises of
  it, and \<open>strdup\<close> of \<open>rt_string.c\<close> is its first client.
\<close>

section \<open>malloc and the memory\<close>

text \<open>\<open>blk w p\<close>: the bytes a new block at \<open>p\<close> happens to hold.\<close>

definition malloc_m ::
    "'w heap_api \<Rightarrow> ('w \<Rightarrow> u64 \<Rightarrow> u8 list) \<Rightarrow> 'w \<Rightarrow> mem \<Rightarrow> u64 \<Rightarrow> 'w \<times> mem \<times> u64" where
  "malloc_m H blk w m n =
     (let (w, p) = malloc H w n in (w, if p = 0 then m else put_bytes m (unat p) (blk w p), p))"

definition strdup ::
    "'w heap_api \<Rightarrow> ('w \<Rightarrow> u64 \<Rightarrow> u8 list) \<Rightarrow> 'w \<Rightarrow> mem \<Rightarrow> nat \<Rightarrow> ('w \<times> mem \<times> nat option) option" where
  "strdup H blk w m s =
     do { l \<leftarrow> strlen m s;
          let n = l + 1;
          let (w, m, p) = malloc_m H blk w m (word_of_nat n);
          if p \<noteq> 0 then do { (d, m) \<leftarrow> memcpy m (unat p) s n; Some (w, m, Some (unat p)) }
          else Some (w, m, None) }"

definition posix_strdup ::
    "'w heap_api \<Rightarrow> ('w \<Rightarrow> u64 \<Rightarrow> u8 list) \<Rightarrow> 'w \<Rightarrow> mem \<Rightarrow> nat \<Rightarrow> ('w \<times> mem \<times> nat option) option" where
  "posix_strdup H blk w m s = strdup H blk w m s"

section \<open>What HeapAlloc promises\<close>

text \<open>
  \<open>live w m\<close>: the memory \<open>m\<close> is what the program may use while the heap is in state \<open>w\<close>. A
  new block is as long as asked for and overlaps nothing that is in use; storing into memory in
  use is no concern of the heap.
\<close>

locale heap_blocks =
  fixes H :: "'w heap_api"
    and blk :: "'w \<Rightarrow> u64 \<Rightarrow> u8 list"
    and live :: "'w \<Rightarrow> mem \<Rightarrow> bool"
  assumes alloc_law: "HeapAlloc H w 0 n = (w', p) \<Longrightarrow> live w m \<Longrightarrow> n \<noteq> 0 \<Longrightarrow>
      if p = 0 then live w' m
      else unat n \<le> length (blk w' p) \<and> (\<forall>i<length (blk w' p). m (unat p + i) = None) \<and>
        live w' (put_bytes m (unat p) (blk w' p))"
    and store_law: "live w m \<Longrightarrow> dom m' = dom m \<Longrightarrow> live w m'"
begin

lemma malloc_block:
  assumes "malloc_m H blk w m n = (w', m', p)" "live w m" "n \<noteq> 0"
  shows "live w' m'" "m \<subseteq>\<^sub>m m'" "p = 0 \<Longrightarrow> m' = m"
    and "p \<noteq> 0 \<Longrightarrow> mapped m' (unat p) (unat n)"
    and "p \<noteq> 0 \<Longrightarrow> i < unat n \<Longrightarrow> m (unat p + i) = None"
proof -
  obtain v where v: "HeapAlloc H w 0 n = (v, p)" "w' = v" "m' = (if p = 0 then m else put_bytes m (unat p) (blk w' p))"
    using assms(1,3) by (auto simp: malloc_m_def malloc_def split: prod.splits)
  note law = alloc_law [OF v(1) assms(2,3)]
  show "live w' m'" using law v by (auto split: if_splits)
  show "p = 0 \<Longrightarrow> m' = m" using v by simp
  show "p \<noteq> 0 \<Longrightarrow> i < unat n \<Longrightarrow> m (unat p + i) = None" using law v by auto
  show "p \<noteq> 0 \<Longrightarrow> mapped m' (unat p) (unat n)"
    using law v by (auto simp: mapped_def)
  show "m \<subseteq>\<^sub>m m'"
    unfolding map_le_def
  proof
    fix a assume a: "a \<in> dom m"
    show "m a = m' a"
    proof (cases "p = 0 \<or> a < unat p \<or> unat p + length (blk w' p) \<le> a")
      case False
      then have "a - unat p < length (blk w' p)" "unat p + (a - unat p) = a" by arith+
      then have "m a = None" using law False v(2) by metis
      then show ?thesis using a by auto
    qed (auto simp: v)
  qed
qed

text \<open>Copying into a new block what was in memory before leaves all of it in place.\<close>

lemma block_copy:
  assumes "malloc_m H blk w m n = (w', m', p)" "live w m" "n \<noteq> 0" "p \<noteq> 0" "length bs = unat n"
  shows "live w' (put_bytes m' (unat p) bs) \<and> m \<subseteq>\<^sub>m put_bytes m' (unat p) bs"
proof -
  note b = malloc_block [OF assms(1-3)]
  have "dom (put_bytes m' (unat p) bs) = dom m'"
    using b(4) [OF assms(4)] by (simp add: put_bytes_dom assms(5))
  moreover have "m \<subseteq>\<^sub>m put_bytes m' (unat p) bs"
    unfolding map_le_def
  proof
    fix a assume a: "a \<in> dom m"
    show "m a = put_bytes m' (unat p) bs a"
    proof (cases "a < unat p \<or> unat p + length bs \<le> a")
      case True
      then show ?thesis using a b(2) by (auto simp: map_le_def)
    next
      case False
      then have "a - unat p < unat n" "unat p + (a - unat p) = a" using assms(5) by arith+
      then have "m a = None" using b(5) [OF assms(4)] by metis
      then show ?thesis using a by auto
    qed
  qed
  ultimately show ?thesis using b(1) store_law by blast
qed

lemma strdup_block:
  assumes "live w m" "cstr m s bs" "length bs + 1 < 2 ^ 64"
  shows "\<exists>w' m' r. strdup H blk w m s = Some (w', m', r) \<and> live w' m' \<and> m \<subseteq>\<^sub>m m' \<and>
    (case r of None \<Rightarrow> m' = m | Some p \<Rightarrow> cstr m' p bs \<and> (\<forall>i\<le>length bs. m (p + i) = None))"
proof -
  define n :: u64 where "n = word_of_nat (length bs + 1)"
  have n: "unat n = length bs + 1" unfolding n_def using assms(3) by (intro unat_of_nat_small) simp
  then have nz: "n \<noteq> 0" by (metis add_is_0 unat_0 one_neq_zero)
  obtain w' m' p where p: "malloc_m H blk w m n = (w', m', p)" by (metis prod_cases3)
  note b = malloc_block [OF p assms(1) nz]
  have r: "strdup H blk w m s =
      (if p \<noteq> 0 then do { (d, m) \<leftarrow> memcpy m' (unat p) s (length bs + 1); Some (w', m, Some (unat p)) }
       else Some (w', m', None))"
    unfolding strdup_def strlen_ok [OF assms(2)] by (simp only: bind.bind_lunit Let_def n_def [symmetric] p prod.case)
  show ?thesis
  proof (cases "p = 0")
    case True
    then show ?thesis using b r by simp
  next
    case False
    define t where "t = bs @ [0]"
    have t: "bytes_at m s t" "0 \<notin> set bs" "length t = unat n" using assms(2) n by (simp_all add: t_def cstr_def)
    have "bytes_at m' s t"
      using t(1) b(2) unfolding bytes_at_def map_le_def by (metis domI)
    moreover have "unat p \<le> s \<or> s + unat n \<le> unat p"
    proof (rule ccontr)
      assume o: "\<not> ?thesis"
      then have "m (s + (unat p - s)) = Some (t ! (unat p - s))" using t(3) by (intro bytes_at_nth [OF t(1)]) linarith
      moreover have "m (unat p + 0) = None" using n by (intro b(5) False) simp
      ultimately show False using o by simp
    qed
    ultimately have "memcpy m' (unat p) s (unat n) = Some (unat p, put_bytes m' (unat p) t)"
      using b(4) [OF False] t(3) by (intro memcpy_ok) auto
    then have "strdup H blk w m s = Some (w', put_bytes m' (unat p) t, Some (unat p))"
      unfolding r using n False by simp
    moreover have "cstr (put_bytes m' (unat p) t) (unat p) bs"
      unfolding cstr_def t_def [symmetric] using t(2) by (simp add: bytes_at_put_bytes_same)
    ultimately show ?thesis
      using block_copy [OF p assms(1) nz False t(3)] b(5) [OF False] n by (simp add: less_Suc_eq_le)
  qed
qed

end

section \<open>A heap\<close>

text \<open>The heap that hands out one block after the other; its state is the next free address.\<close>

definition bump_heap :: "u64 heap_api" where
  "bump_heap = \<lparr>HeapAlloc = (\<lambda>w f n. if unat w + unat n < 2 ^ 64 then (w + n, w) else (w, 0)),
     HeapReAlloc = (\<lambda>w f p n. (w, 0)), HeapFree = (\<lambda>w f p. w)\<rparr>"

definition bump_blk :: "u64 \<Rightarrow> u64 \<Rightarrow> u8 list" where
  "bump_blk w p = replicate (unat (w - p)) 0xCD"

definition bump_live :: "u64 \<Rightarrow> mem \<Rightarrow> bool" where
  "bump_live w m \<longleftrightarrow> (\<forall>a. m a \<noteq> None \<longrightarrow> a < unat w)"

interpretation bump: heap_blocks bump_heap bump_blk bump_live
proof
  fix w n w' p m
  assume a: "HeapAlloc bump_heap w 0 n = (w', p)" "bump_live w m" "n \<noteq> 0"
  show "if p = 0 then bump_live w' m
    else unat n \<le> length (bump_blk w' p) \<and> (\<forall>i<length (bump_blk w' p). m (unat p + i) = None) \<and>
      bump_live w' (put_bytes m (unat p) (bump_blk w' p))"
  proof (cases "unat w + unat n < 2 ^ 64")
    case True
    then have e: "w' = w + n" "p = w" "unat (w + n) = unat w + unat n"
      using a(1) by (auto simp: bump_heap_def unat_add_small)
    have "m (unat w + i) = None" for i using a(2) unfolding bump_live_def by (meson not_add_less1)
    then show ?thesis using a(2) e by (auto simp: bump_blk_def bump_live_def put_bytes_def dest: less_le_trans)
  next
    case False
    then show ?thesis using a by (simp add: bump_heap_def)
  qed
next
  show "bump_live w m \<Longrightarrow> dom m' = dom m \<Longrightarrow> bump_live w m'" for w m m'
    unfolding bump_live_def by (metis domD domI not_Some_eq)
qed

section \<open>strdup\<close>

text \<open>C34. On a heap whose blocks are new, \<open>strdup\<close> of a string returns a null pointer and changes
  nothing, or the address of a block that was not in use and now holds the string; all that was
  in memory stays.\<close>

theorem strdup_copies:
  assumes "heap_blocks H blk live" "live w m" "cstr m s bs" "length bs + 1 < 2 ^ 64"
  shows "\<exists>w' m' r. strdup H blk w m s = Some (w', m', r) \<and> live w' m' \<and> m \<subseteq>\<^sub>m m' \<and>
    (case r of None \<Rightarrow> m' = m | Some p \<Rightarrow> cstr m' p bs \<and> (\<forall>i\<le>length bs. m (p + i) = None))"
  using assms by (rule heap_blocks.strdup_block)

lemma strdup_copies_witness:
  "\<exists>w' m' r. strdup bump_heap bump_blk 200 (mem_of 100 [104, 105, 0]) 100 = Some (w', m', r) \<and> bump_live w' m' \<and>
    mem_of 100 [104, 105, 0] \<subseteq>\<^sub>m m' \<and>
    (case r of None \<Rightarrow> m' = mem_of 100 [104, 105, 0] | Some p \<Rightarrow> cstr m' p [104, 105] \<and>
      (\<forall>i\<le>length [104, 105 :: u8]. mem_of 100 [104, 105, 0 :: u8] (p + i) = None))"
proof (rule strdup_copies)
  show "heap_blocks bump_heap bump_blk bump_live" by (rule bump.heap_blocks_axioms)
  show "bump_live 200 (mem_of 100 [104, 105, 0])" by (auto simp: bump_live_def mem_of_def put_bytes_def split: if_splits)
  show "cstr (mem_of 100 [104, 105, 0]) 100 [104, 105 :: u8]" by (simp add: mem_of_def put_bytes_Cons)
qed simp

end
