(* ===== verification/RtOs.thy ===== *)
theory RtOs
  imports HeapMem Ieee
begin

text \<open>
  \<open>rt/rt_os.c\<close>: clock and time, directories and paths, \<open>stat\<close>; and \<open>rt/rt_jmp.c\<close>. Both
  convert between the conventions of kernel32 and those of C. The kernel calls are the record
  \<open>os_api\<close>, a parameter; paths the code only hands on are lists of bytes.
\<close>

section \<open>The kernel calls\<close>

text \<open>\<open>WIN32_FILE_ATTRIBUTE_DATA\<close>, spelled in double words.\<close>

record attr_data =
  attrs :: u32
  ctime_lo :: u32
  ctime_hi :: u32
  atime_lo :: u32
  atime_hi :: u32
  mtime_lo :: u32
  mtime_hi :: u32
  size_hi :: u32
  size_lo :: u32

text \<open>
  A call that fills a buffer of \<open>n\<close> bytes gives its return value and the bytes it put there.
\<close>

record 'w os_api =
  QueryPerformanceCounter :: "'w \<Rightarrow> int"
  QueryPerformanceFrequency :: "'w \<Rightarrow> int"
  GetSystemTimeAsFileTime :: "'w \<Rightarrow> u64"
  CreateDirectoryA :: "'w \<Rightarrow> u8 list \<Rightarrow> 'w \<times> bool"
  GetCurrentDirectoryA :: "'w \<Rightarrow> u32 \<Rightarrow> u32 \<times> u8 list"
  GetFullPathNameA :: "'w \<Rightarrow> u8 list \<Rightarrow> u32 \<Rightarrow> u32 \<times> u8 list"
  GetModuleFileNameA :: "'w \<Rightarrow> u32 \<Rightarrow> u32 \<times> u8 list"
  GetFileAttributesExA :: "'w \<Rightarrow> u8 list \<Rightarrow> attr_data option"
  RtlRestoreContext :: "'w \<Rightarrow> u64 \<Rightarrow> 'w"

section \<open>Clock and time\<close>

text \<open>Division of signed integers goes towards zero.\<close>

definition c_div :: "int \<Rightarrow> int \<Rightarrow> int" where
  "c_div a b = sgn a * sgn b * (\<bar>a\<bar> div \<bar>b\<bar>)"

definition clock :: "'w os_api \<Rightarrow> 'w \<Rightarrow> int" where
  "clock K w =
     (let c = QueryPerformanceCounter K w; f = QueryPerformanceFrequency K w
      in if f = 0 then 0 else wrap_s32 (c_div (wrap_s64 (c * 1000)) f))"

text \<open>The value and what is stored through a pointer that is not null.\<close>

definition time64 :: "'w os_api \<Rightarrow> 'w \<Rightarrow> bool \<Rightarrow> int \<times> int option" where
  "time64 K w out =
     (let ft = GetSystemTimeAsFileTime K w;
          t = wrap_s64 (wrap_s64 (uint (ft div 10000000)) - 11644473600)
      in (t, if out then Some t else None))"

definition difftime :: "int \<Rightarrow> int \<Rightarrow> f64" where
  "difftime fin start = f_of_int (wrap_s64 (fin - start))"

section \<open>Directories and paths\<close>

definition mkdir :: "'w os_api \<Rightarrow> 'w \<Rightarrow> u8 list \<Rightarrow> 'w \<times> int" where
  "mkdir K w path = (let (w, ok) = CreateDirectoryA K w path in (w, if ok then 0 else - 1))"

text \<open>
  \<open>memcpy\<close> out of the local array \<open>tmp\<close>, of which the kernel filled only the given bytes.
\<close>

definition copy_tmp :: "mem \<Rightarrow> nat \<Rightarrow> u8 list \<Rightarrow> nat \<Rightarrow> mem option" where
  "copy_tmp m d tmp n = (if n \<le> length tmp then stn m d (take n tmp) else None)"

definition getcwd ::
    "'w heap_api \<Rightarrow> ('w \<Rightarrow> u64 \<Rightarrow> u8 list) \<Rightarrow> 'w os_api \<Rightarrow> 'w \<Rightarrow> mem \<Rightarrow> nat option \<Rightarrow> int \<Rightarrow>
     ('w \<times> mem \<times> nat option) option" where
  "getcwd H blk K w m buf n =
     (let (len, tmp) = GetCurrentDirectoryA K w 1024
      in if len = 0 \<or> len \<ge> 1024 then Some (w, m, None)
         else case buf of
           Some b \<Rightarrow>
             if (word_of_int n :: u32) \<le> len then Some (w, m, None)
             else do { m \<leftarrow> copy_tmp m b tmp (unat (len + 1)); Some (w, m, Some b) }
         | None \<Rightarrow>
             let (w, m, p) = malloc_m H blk w m (ucast (len + 1))
             in if p \<noteq> 0 then do { m \<leftarrow> copy_tmp m (unat p) tmp (unat (len + 1)); Some (w, m, Some (unat p)) }
                else Some (w, m, None))"

definition fullpath ::
    "'w heap_api \<Rightarrow> ('w \<Rightarrow> u64 \<Rightarrow> u8 list) \<Rightarrow> 'w os_api \<Rightarrow> 'w \<Rightarrow> mem \<Rightarrow> nat option \<Rightarrow> u8 list option \<Rightarrow> nat \<Rightarrow>
     ('w \<times> mem \<times> nat option) option" where
  "fullpath H blk K w m out path n =
     (let (len, tmp) = GetFullPathNameA K w (case path of Some p \<Rightarrow> p | None \<Rightarrow> lit ''.'') 1024
      in if len = 0 \<or> len \<ge> 1024 then Some (w, m, None)
         else case out of
           Some b \<Rightarrow>
             if n \<le> unat len then Some (w, m, None)
             else do { m \<leftarrow> copy_tmp m b tmp (unat (len + 1)); Some (w, m, Some b) }
         | None \<Rightarrow>
             let (w, m, p) = malloc_m H blk w m (ucast (len + 1))
             in if p \<noteq> 0 then do { m \<leftarrow> copy_tmp m (unat p) tmp (unat (len + 1)); Some (w, m, Some (unat p)) }
                else Some (w, m, None))"

text \<open>The static variables of \<open>_get_pgmptr\<close>; the pointer it stores is that of \<open>path\<close>.\<close>

record pgm_state =
  pgm_path :: "u8 list"
  pgm_ready :: bool

definition get_pgmptr :: "'w os_api \<Rightarrow> 'w \<Rightarrow> pgm_state \<Rightarrow> pgm_state \<times> int \<times> u8 list option" where
  "get_pgmptr K w s =
     (if \<not> pgm_ready s
      then let (r, bs) = GetModuleFileNameA K w 1024;
               s = s\<lparr>pgm_path := bs @ drop (length bs) (pgm_path s)\<rparr>
           in if r = 0 then (s, - 1, None) else (s\<lparr>pgm_ready := True\<rparr>, 0, Some (pgm_path s))
      else (s, 0, Some (pgm_path s)))"

section \<open>stat\<close>

record stat_buf =
  st_dev :: u32
  st_ino :: u16
  st_mode :: u16
  st_nlink :: int
  st_uid :: int
  st_gid :: int
  st_rdev :: u32
  st_size :: int
  st_atime :: int
  st_mtime :: int
  st_ctime :: int

definition stat_zero :: stat_buf where
  "stat_zero = \<lparr>st_dev = 0, st_ino = 0, st_mode = 0, st_nlink = 0, st_uid = 0, st_gid = 0, st_rdev = 0,
     st_size = 0, st_atime = 0, st_mtime = 0, st_ctime = 0\<rparr>"

definition rt_ft64 :: "u32 \<Rightarrow> u32 \<Rightarrow> u64" where
  "rt_ft64 l h = push_bit 32 (ucast h) OR ucast l"

definition rt_ft_to_unix :: "u64 \<Rightarrow> int" where
  "rt_ft_to_unix ft = wrap_s64 (wrap_s64 (uint (ft div 10000000)) - 11644473600)"

text \<open>The structure stays as it is when the file is not there.\<close>

definition stat64 :: "'w os_api \<Rightarrow> 'w \<Rightarrow> u8 list \<Rightarrow> stat_buf \<Rightarrow> stat_buf \<times> int" where
  "stat64 K w path st =
     (case GetFileAttributesExA K w path of
        None \<Rightarrow> (st, - 1)
      | Some ad \<Rightarrow>
          let st = stat_zero\<lparr>st_nlink := 1\<rparr>;
              st = (if attrs ad AND 0x10 \<noteq> 0 then st\<lparr>st_mode := 0x4000 OR 0x0100 OR 0x0080\<rparr>
                    else let st = st\<lparr>st_mode := 0x8000 OR 0x0100\<rparr>
                         in if attrs ad AND 1 = 0 then st\<lparr>st_mode := st_mode st OR 0x0080\<rparr> else st);
              st = st\<lparr>st_size := wrap_s64 (push_bit 32 (uint (size_hi ad))) OR uint (size_lo ad)\<rparr>;
              st = st\<lparr>st_atime := rt_ft_to_unix (rt_ft64 (atime_lo ad) (atime_hi ad))\<rparr>;
              st = st\<lparr>st_mtime := rt_ft_to_unix (rt_ft64 (mtime_lo ad) (mtime_hi ad))\<rparr>;
              st = st\<lparr>st_ctime := rt_ft_to_unix (rt_ft64 (ctime_lo ad) (ctime_hi ad))\<rparr>
          in (st, 0))"

definition fstat64 :: "int \<Rightarrow> stat_buf \<Rightarrow> stat_buf \<times> int" where
  "fstat64 fd st = (stat_zero\<lparr>st_mode := 0x2000\<rparr>, 0)"

section \<open>longjmp\<close>

text \<open>The address of \<open>__ctx\<close> in the buffer; its bytes belong to the kernel calls.\<close>

record jmp_buf =
  jb_val :: int
  jb_ctx :: u64

definition JMP_CONTEXT_SIZE :: nat where "JMP_CONTEXT_SIZE = 1232"

definition jmp_ctx :: "jmp_buf \<Rightarrow> u64" where
  "jmp_ctx b = (jb_ctx b + 15) AND NOT 15"

definition longjmp :: "'w os_api \<Rightarrow> 'w \<Rightarrow> jmp_buf option \<Rightarrow> int \<Rightarrow> 'w \<times> jmp_buf option" where
  "longjmp K w b val =
     (case b of
        None \<Rightarrow> (w, None)
      | Some b \<Rightarrow>
          let b = b\<lparr>jb_val := (if val \<noteq> 0 then val else 1)\<rparr> in (RtlRestoreContext K w (jmp_ctx b), Some b))"

section \<open>Paths\<close>

text \<open>
  What a call that fills a buffer with a path promises: \<open>name w\<close> is the path, when there is one.
  It is put with its terminator into a buffer that is large enough and its length returned; the
  value for a smaller buffer is not below the size, and that for a failure is 0.
\<close>

locale path_call =
  fixes call :: "'w \<Rightarrow> u32 \<Rightarrow> u32 \<times> u8 list"
    and name :: "'w \<Rightarrow> u8 list option"
  assumes name_law: "name w = Some s \<Longrightarrow> s \<noteq> [] \<and> 0 \<notin> set s"
    and none_law: "name w = None \<Longrightarrow> fst (call w n) = 0"
    and fits_law: "name w = Some s \<Longrightarrow> length s < unat n \<Longrightarrow> call w n = (word_of_nat (length s), s @ [0])"
    and long_law: "name w = Some s \<Longrightarrow> unat n \<le> length s \<Longrightarrow> n \<le> fst (call w n)"

text \<open>
  What the caller of \<open>_getcwd\<close> and \<open>_fullpath\<close> sees: the buffer \<open>buf\<close> of \<open>n\<close> bytes, or a new
  block, holds the path; nothing else changes; a path that does not fit gives a null pointer.
\<close>

definition path_spec ::
    "nat option \<Rightarrow> nat \<Rightarrow> u8 list option \<Rightarrow> mem \<Rightarrow> mem \<Rightarrow> nat option \<Rightarrow> bool" where
  "path_spec buf n name m m' r \<longleftrightarrow>
     (\<forall>a. m a \<noteq> None \<and> (\<forall>b. buf = Some b \<longrightarrow> a < b \<or> b + n \<le> a) \<longrightarrow> m' a = m a) \<and>
     (case name of
        None \<Rightarrow> r = None \<and> m' = m
      | Some s \<Rightarrow>
          if length s < 1024 \<and> (buf = None \<or> length s < n)
          then (case r of None \<Rightarrow> buf = None \<and> m' = m | Some p \<Rightarrow> cstr m' p s \<and> (buf = None \<or> buf = Some p))
          else r = None \<and> m' = m)"

text \<open>The two functions differ only in how they find a buffer too short.\<close>

definition give_path ::
    "'w heap_api \<Rightarrow> ('w \<Rightarrow> u64 \<Rightarrow> u8 list) \<Rightarrow> 'w \<Rightarrow> mem \<Rightarrow> u32 \<times> u8 list \<Rightarrow> nat option \<Rightarrow> bool \<Rightarrow>
     ('w \<times> mem \<times> nat option) option" where
  "give_path H blk w m r buf short =
     (let (len, tmp) = r
      in if len = 0 \<or> len \<ge> 1024 then Some (w, m, None)
         else case buf of
           Some b \<Rightarrow>
             if short then Some (w, m, None)
             else do { m \<leftarrow> copy_tmp m b tmp (unat (len + 1)); Some (w, m, Some b) }
         | None \<Rightarrow>
             let (w, m, p) = malloc_m H blk w m (ucast (len + 1))
             in if p \<noteq> 0 then do { m \<leftarrow> copy_tmp m (unat p) tmp (unat (len + 1)); Some (w, m, Some (unat p)) }
                else Some (w, m, None))"

lemma getcwd_give:
  "getcwd H blk K w m buf n =
   (let r = GetCurrentDirectoryA K w 1024 in give_path H blk w m r buf ((word_of_int n :: u32) \<le> fst r))"
  by (simp add: getcwd_def give_path_def split_def Let_def)

lemma fullpath_give:
  "fullpath H blk K w m buf path n =
   (let r = GetFullPathNameA K w (case path of Some p \<Rightarrow> p | None \<Rightarrow> lit ''.'') 1024
    in give_path H blk w m r buf (n \<le> unat (fst r)))"
  by (simp add: fullpath_def give_path_def split_def Let_def)

locale path_api = path_call call name + heap_blocks H blk live
  for call :: "'w \<Rightarrow> u32 \<Rightarrow> u32 \<times> u8 list" and name :: "'w \<Rightarrow> u8 list option"
    and H :: "'w heap_api" and blk :: "'w \<Rightarrow> u64 \<Rightarrow> u8 list" and live :: "'w \<Rightarrow> mem \<Rightarrow> bool"
begin

lemma give_path_fits:
  assumes s: "name w = Some s" "length s < 1024" and l: "live w m"
    and buf: "\<forall>b. buf = Some b \<longrightarrow> mapped m b n \<and> (short \<longleftrightarrow> n \<le> length s)"
  shows "\<exists>w' m' r. give_path H blk w m (call w 1024) buf short = Some (w', m', r) \<and> live w' m' \<and>
    path_spec buf n (Some s) m m' r"
proof -
  define len :: u32 where "len = word_of_nat (length s)"
  define t where "t = s @ [0]"
  have c: "call w 1024 = (len, t)" using fits_law [OF s(1), of 1024] s(2) by (simp add: len_def t_def)
  have len: "unat len = length s" unfolding len_def using s(2) by (intro unat_of_nat_small) simp
  then have u: "unat (len + 1) = length t" "len \<noteq> 0" "\<not> 1024 \<le> len"
    using s(2) name_law [OF s(1)] unat_add_small [of len 1] by (auto simp: t_def word_le_nat_alt)
  have cs: "cstr (put_bytes m' p t) p s" for m' p
    using name_law [OF s(1)] by (simp add: cstr_def t_def [symmetric] bytes_at_put_bytes_same)
  show ?thesis
  proof (cases buf)
    case (Some b)
    show ?thesis
    proof (cases "length s < n")
      case True
      then have "length t \<le> n" "mapped m b n" using buf Some by (auto simp: t_def)
      then have "mapped m b (length t)" by (rule mapped_le [rotated])
      then have "copy_tmp m b t (unat (len + 1)) = Some (put_bytes m b t)" "live w (put_bytes m b t)"
        using store_law [OF l put_bytes_dom] by (simp_all add: copy_tmp_def u stn_mapped)
      moreover have "path_spec buf n (Some s) m (put_bytes m b t) (Some b)"
        using True s(2) Some cs by (auto simp: path_spec_def t_def)
      ultimately show ?thesis using c u(2,3) Some True buf by (simp add: give_path_def)
    next
      case False
      then show ?thesis using c u(2,3) Some buf l by (simp add: give_path_def path_spec_def)
    qed
  next
    case None
    define k :: u64 where "k = ucast (len + 1)"
    have k: "unat k = length t" unfolding k_def u(1) [symmetric] by (rule unat_ucast_up) simp
    then have nz: "k \<noteq> 0" by (auto simp: t_def)
    obtain w' m' p where p: "malloc_m H blk w m k = (w', m', p)" by (metis prod_cases3)
    note b = malloc_block [OF p l nz]
    have g: "give_path H blk w m (call w 1024) buf short =
        (if p \<noteq> 0 then do { m \<leftarrow> copy_tmp m' (unat p) t (unat (len + 1)); Some (w', m, Some (unat p)) }
         else Some (w', m', None))"
      using u(2,3) None by (simp add: c give_path_def k_def [symmetric] p)
    show ?thesis
    proof (cases "p = 0")
      case True
      then show ?thesis using g b(1,3) None s(2) by (simp add: path_spec_def)
    next
      case False
      have "copy_tmp m' (unat p) t (unat (len + 1)) = Some (put_bytes m' (unat p) t)"
        using b(4) [OF False] k by (simp add: copy_tmp_def u stn_mapped)
      moreover note bc = block_copy [OF p l nz False k [symmetric]]
      moreover have "path_spec buf n (Some s) m (put_bytes m' (unat p) t) (Some (unat p))"
        using bc None s(2) cs by (auto simp: path_spec_def map_le_def dom_def)
      ultimately show ?thesis using g False by simp
    qed
  qed
qed

lemma give_path_ok:
  assumes l: "live w m"
    and buf: "\<forall>b. buf = Some b \<longrightarrow> mapped m b n \<and> (short \<longleftrightarrow> n \<le> unat (fst (call w 1024)))"
  shows "\<exists>w' m' r. give_path H blk w m (call w 1024) buf short = Some (w', m', r) \<and> live w' m' \<and>
    path_spec buf n (name w) m m' r"
proof (cases "name w")
  case None
  then show ?thesis using none_law [of w 1024] l by (simp add: give_path_def split_def path_spec_def)
next
  case (Some s)
  show ?thesis
  proof (cases "length s < 1024")
    case True
    have "fst (call w 1024) = word_of_nat (length s)" using fits_law [OF Some, of 1024] True by simp
    then have "unat (fst (call w 1024)) = length s" using True by (simp add: unat_of_nat_small)
    then show ?thesis using give_path_fits [OF Some True l, of buf n short] buf by (simp add: Some)
  next
    case False
    then show ?thesis using long_law [OF Some, of 1024] l Some by (simp add: give_path_def split_def path_spec_def)
  qed
qed

end


text \<open>A kernel whose only directory is \<open>C:/src\<close>, over the heap of \<open>bump_heap\<close>.\<close>

definition demo_call :: "u8 list \<Rightarrow> u32 \<Rightarrow> u32 \<times> u8 list" where
  "demo_call s n =
     (if length s < unat n then (word_of_nat (length s), s @ [0]) else (word_of_nat (length s + 1), []))"

definition demo_os :: "u64 os_api" where
  "demo_os = \<lparr>QueryPerformanceCounter = (\<lambda>w. 5000), QueryPerformanceFrequency = (\<lambda>w. 1000),
     GetSystemTimeAsFileTime = (\<lambda>w. 116444736000000000), CreateDirectoryA = (\<lambda>w p. (w, False)),
     GetCurrentDirectoryA = (\<lambda>w. demo_call (lit ''C:/src'')),
     GetFullPathNameA = (\<lambda>w p n. if p = lit ''.'' then demo_call (lit ''C:/src'') n else (0, [])),
     GetModuleFileNameA = (\<lambda>w. demo_call (lit ''C:/src/a.exe'')),
     GetFileAttributesExA = (\<lambda>w p. if p = lit ''.'' then Some \<lparr>attrs = 16, ctime_lo = 0, ctime_hi = 0, atime_lo = 0,
        atime_hi = 0, mtime_lo = 0xD53E8000, mtime_hi = 0x19DB1DE, size_hi = 0, size_lo = 0\<rparr> else None),
     RtlRestoreContext = (\<lambda>w p. w)\<rparr>"

lemma demo_call_long: "unat n \<le> length s \<Longrightarrow> length s < 2 ^ 31 \<Longrightarrow> n \<le> fst (demo_call s n)"
  by (simp add: demo_call_def word_le_nat_alt unat_of_nat_small del: of_nat_Suc of_nat_add)

lemma demo_path: "s \<noteq> [] \<Longrightarrow> 0 \<notin> set s \<Longrightarrow> length s < 2 ^ 31 \<Longrightarrow> path_call (\<lambda>w. demo_call s) (\<lambda>w. Some s)"
  using demo_call_long by unfold_locales (auto simp: demo_call_def)

interpretation demo_dir: path_call "GetCurrentDirectoryA demo_os" "\<lambda>w. Some (lit ''C:/src'')"
  using demo_path [of "lit ''C:/src''"] by (simp add: demo_os_def)

interpretation demo_cwd: path_api "GetCurrentDirectoryA demo_os" "\<lambda>w. Some (lit ''C:/src'')" bump_heap bump_blk bump_live
  by (intro path_api.intro bump.heap_blocks_axioms demo_dir.path_call_axioms)

interpretation demo_full: path_api "\<lambda>w. GetFullPathNameA demo_os w p"
  "\<lambda>w. if p = lit ''.'' then Some (lit ''C:/src'') else None" bump_heap bump_blk bump_live for p
proof -
  have "path_call (\<lambda>w. GetFullPathNameA demo_os w p) (\<lambda>w. if p = lit ''.'' then Some (lit ''C:/src'') else None)"
  proof (cases "p = lit ''.''")
    case True
    then show ?thesis using demo_path [of "lit ''C:/src''"] by (simp add: demo_os_def)
  next
    case False
    then show ?thesis by unfold_locales (auto simp: demo_os_def)
  qed
  then show "path_api (\<lambda>w. GetFullPathNameA demo_os w p)
      (\<lambda>w. if p = lit ''.'' then Some (lit ''C:/src'') else None) bump_heap bump_blk bump_live"
    by (intro path_api.intro bump.heap_blocks_axioms)
qed

text \<open>C33. \<open>_getcwd\<close> and \<open>_fullpath\<close> put the path with its terminator into the buffer of \<open>n\<close> bytes
  they are given, or into a new block when they are given none, and return where it is; a path
  that does not fit, or has 1024 characters or more, gives a null pointer. Nothing outside the
  buffer changes.\<close>

theorem paths_in_buffer:
  assumes "path_api (GetCurrentDirectoryA K) cwd H blk live"
    and "path_api (\<lambda>w. GetFullPathNameA K w (case path of Some p \<Rightarrow> p | None \<Rightarrow> lit ''.'')) full H blk live"
    and "live w m" "\<forall>b. buf = Some b \<longrightarrow> mapped m b n" "n < 2 ^ 31"
  shows "(\<exists>w' m' r. getcwd H blk K w m buf (int n) = Some (w', m', r) \<and> live w' m' \<and> path_spec buf n (cwd w) m m' r) \<and>
    (\<exists>w' m' r. fullpath H blk K w m buf path n = Some (w', m', r) \<and> live w' m' \<and> path_spec buf n (full w) m m' r)"
proof -
  have "unat (word_of_nat n :: u32) = n" using assms(5) by (intro unat_of_nat_small) simp
  then have "(word_of_int (int n) :: u32) \<le> l \<longleftrightarrow> n \<le> unat l" for l by (simp add: word_le_nat_alt)
  then show ?thesis
    unfolding getcwd_give fullpath_give Let_def
    using path_api.give_path_ok [OF assms(1,3)] path_api.give_path_ok [OF assms(2,3)] assms(4) by simp
qed

lemma paths_in_buffer_witness:
  "\<exists>w' m' r. getcwd bump_heap bump_blk demo_os 200 (mem_of 100 (replicate 7 1)) (Some 100) 7 = Some (w', m', r) \<and>
    bump_live w' m' \<and> path_spec (Some 100) 7 (Some (lit ''C:/src'')) (mem_of 100 (replicate 7 1)) m' r"
proof -
  have "bump_live 200 (mem_of 100 (replicate 7 1))" by (auto simp: bump_live_def mem_of_def put_bytes_def split: if_splits)
  moreover have "\<forall>b. Some 100 = Some b \<longrightarrow> mapped (mem_of 100 (replicate 7 (1 :: u8))) b 7"
    by (simp add: mem_of_def mapped_def put_bytes_def)
  ultimately show ?thesis
    using paths_in_buffer [OF demo_cwd.path_api_axioms demo_full.path_api_axioms, of 200 _ "Some 100" 7 None] by simp
qed

section \<open>Times and stat\<close>

text \<open>The ticks of 100 nanoseconds since 1601 that a \<open>FILETIME\<close> counts, and those up to 1970.\<close>

definition ticks :: "u32 \<Rightarrow> u32 \<Rightarrow> int" where "ticks l h = uint h * 2 ^ 32 + uint l"
definition EPOCH :: int where "EPOCH = 116444736000000000"

lemma uint_32: "take_bit 32 (uint (w :: u32)) = uint w"
  using uint_lt2p [of w] by (simp add: take_bit_int_eq_self)

lemma uint_ft64: "uint (rt_ft64 l h) = ticks l h"
proof -
  have "uint (rt_ft64 l h) = concat_bit 32 (uint l) (uint h)"
    by (rule bit_eqI) (auto simp: rt_ft64_def bit_uint_iff bit_or_iff bit_push_bit_iff bit_ucast_iff bit_concat_bit_iff
        dest: bit_imp_le_length)
  also have "\<dots> = ticks l h"
    by (simp add: ticks_def concat_bit_eq push_bit_eq_mult uint_32)
  finally show ?thesis .
qed

lemma seconds_ok:
  "wrap_s64 (wrap_s64 (uint ((ft :: u64) div 10000000)) - 11644473600) = (uint ft - EPOCH) div 10000000"
proof -
  have "uint (ft div 10000000) = uint ft div 10000000" by (simp add: uint_div)
  moreover have "uint ft div 10000000 \<le> 2 ^ 64 div 10000000"
    using uint_lt2p [of ft] by (intro zdiv_mono1) simp_all
  moreover have "0 \<le> uint ft div 10000000" by (simp add: pos_imp_zdiv_nonneg_iff)
  moreover have "(uint ft - EPOCH) div 10000000 = uint ft div 10000000 - 11644473600"
    using div_mult_self1 [of "10000000 :: int" "uint ft" "- 11644473600"] by (simp add: EPOCH_def)
  ultimately show ?thesis by (simp add: wrap_s64_id)
qed

lemma time64_ok: "time64 K w out = (let t = (uint (GetSystemTimeAsFileTime K w) - EPOCH) div 10000000 in
    (t, if out then Some t else None))"
  unfolding time64_def Let_def seconds_ok ..

lemma size_ok:
  assumes "uint h < 2 ^ 31"
  shows "wrap_s64 (push_bit 32 (uint (h :: u32))) OR uint (l :: u32) = ticks l h"
proof -
  have "wrap_s64 (push_bit 32 (uint h)) = push_bit 32 (uint h)" using assms by (subst wrap_s64_id) (simp_all add: push_bit_eq_mult order_trans [of _ 0])
  moreover have "push_bit 32 (uint h) OR uint l = concat_bit 32 (uint l) (uint h)"
    by (rule bit_eqI) (auto simp: bit_uint_iff bit_or_iff bit_push_bit_iff bit_concat_bit_iff dest: bit_imp_le_length)
  ultimately show ?thesis by (simp add: ticks_def concat_bit_eq push_bit_eq_mult uint_32)
qed

text \<open>\<open>_stat64\<close> of a file that is there succeeds with the mode of a directory, of a read-only
  or of an ordinary file as the attributes say, one link, the size of up to \<open>2\<^sup>6\<^sup>3 - 1\<close> bytes,
  and times that are the seconds since 1970, rounded down, also before 1970.\<close>

lemma stat64_reports:
  assumes "GetFileAttributesExA K w path = Some ad"
  shows "\<exists>s. stat64 K w path st = (s, 0) \<and>
    st_mode s = (if bit (attrs ad) 4 then 0x4180 else if bit (attrs ad) 0 then 0x8100 else 0x8180) \<and>
    st_nlink s = 1 \<and> (uint (size_hi ad) < 2 ^ 31 \<longrightarrow> st_size s = ticks (size_lo ad) (size_hi ad)) \<and>
    st_atime s = (ticks (atime_lo ad) (atime_hi ad) - EPOCH) div 10000000 \<and>
    st_mtime s = (ticks (mtime_lo ad) (mtime_hi ad) - EPOCH) div 10000000 \<and>
    st_ctime s = (ticks (ctime_lo ad) (ctime_hi ad) - EPOCH) div 10000000"
proof -
  have "attrs ad AND 0x10 \<noteq> 0 \<longleftrightarrow> bit (attrs ad) 4"
    using and_exp_eq_0_iff_not_bit [of "attrs ad" 4] by simp
  moreover have "attrs ad AND 1 = 0 \<longleftrightarrow> \<not> bit (attrs ad) 0"
    using and_exp_eq_0_iff_not_bit [of "attrs ad" 0] by simp
  ultimately show ?thesis
    using assms size_ok [of "size_hi ad" "size_lo ad"]
    by (simp add: stat64_def Let_def rt_ft_to_unix_def seconds_ok uint_ft64)
qed

section \<open>The rest\<close>

text \<open>\<open>clock\<close> is the counter in milliseconds while that fits an \<open>int\<close>; the counter of the kernel
  runs since the start of the machine, and after 25 days the result is negative.\<close>

lemma wrap_s32_high: "2 ^ 31 \<le> k \<Longrightarrow> k < 2 ^ 32 \<Longrightarrow> wrap_s32 k = k - 2 ^ 32"
proof -
  assume k: "2 ^ 31 \<le> k" "k < 2 ^ 32"
  then have "k div 2 ^ 31 = 1" by (simp add: div_pos_geq)
  then have "bit k 31" by (simp add: bit_iff_odd)
  moreover have "take_bit (Suc 31) k = k" using k by (simp add: take_bit_int_eq_self)
  ultimately show ?thesis by (simp only: signed_take_bit_eq_take_bit_minus) simp
qed

lemma clock_ok:
  assumes "QueryPerformanceCounter K w = c" "QueryPerformanceFrequency K w = f"
    and "0 \<le> c" "c * 1000 < 2 ^ 63" "0 < f"
  shows "clock K w = wrap_s32 (c * 1000 div f)"
    and "c * 1000 div f < 2 ^ 31 \<Longrightarrow> clock K w = c * 1000 div f"
    and "2 ^ 31 \<le> c * 1000 div f \<Longrightarrow> c * 1000 div f < 2 ^ 32 \<Longrightarrow> clock K w < 0"
proof -
  have "c_div (c * 1000) f = c * 1000 div f"
    using assms(3,5) by (cases "c = 0") (simp_all add: c_div_def sgn_mult)
  moreover have "wrap_s64 (c * 1000) = c * 1000" using assms(3,4) by (intro wrap_s64_id) simp_all
  ultimately show c: "clock K w = wrap_s32 (c * 1000 div f)" using assms(1,2,5) by (simp add: clock_def)
  have p: "0 \<le> c * 1000 div f" using assms(3,5) by (simp add: pos_imp_zdiv_nonneg_iff)
  then show "c * 1000 div f < 2 ^ 31 \<Longrightarrow> clock K w = c * 1000 div f"
    unfolding c by (intro wrap_s32_id) simp_all
  assume r: "2 ^ 31 \<le> c * 1000 div f" "c * 1000 div f < 2 ^ 32"
  then show "clock K w < 0" unfolding c by (simp add: wrap_s32_high)
qed

lemma difftime_ok:
  assumes "- (2 ^ 63) \<le> fin - start" "fin - start < 2 ^ 63"
  shows "f_result (of_int (fin - start)) (difftime fin start)"
  unfolding difftime_def wrap_s64_id [OF assms] by (rule f_of_int_result)

text \<open>Once it has succeeded, \<open>_get_pgmptr\<close> answers without the kernel.\<close>

lemma get_pgmptr_again: "get_pgmptr K w s = (s', 0, r) \<Longrightarrow> r = Some (pgm_path s') \<and> get_pgmptr K' w' s' = (s', 0, r)"
  by (auto simp: get_pgmptr_def Let_def split_def split: if_splits)

text \<open>The context \<open>longjmp\<close> restores is aligned to 16 bytes and lies inside the buffer, which has
  16 bytes to spare for that; the value the resumed \<open>setjmp\<close> returns is never 0.\<close>

lemma jmp_ctx_fits:
  assumes "unat (jb_ctx b) + (JMP_CONTEXT_SIZE + 16) \<le> 2 ^ 64"
  shows "16 dvd unat (jmp_ctx b)" "unat (jb_ctx b) \<le> unat (jmp_ctx b)"
    "unat (jmp_ctx b) + JMP_CONTEXT_SIZE \<le> unat (jb_ctx b) + (JMP_CONTEXT_SIZE + 16)"
proof -
  define x where "x = jb_ctx b + 15"
  have x: "unat x = unat (jb_ctx b) + 15"
    unfolding x_def using assms by (subst unat_add_small) (simp_all add: JMP_CONTEXT_SIZE_def)
  have "(NOT 15 :: u64) = NOT (mask 4)" by (simp add: mask_eq_exp_minus_1)
  then have "jmp_ctx b = x AND NOT (mask 4)" by (simp only: jmp_ctx_def x_def)
  then have "unat (jmp_ctx b) = unat x div 16 * 16" using unat_and_not_mask [of x 4] by simp
  then show "16 dvd unat (jmp_ctx b)" "unat (jb_ctx b) \<le> unat (jmp_ctx b)"
    "unat (jmp_ctx b) + JMP_CONTEXT_SIZE \<le> unat (jb_ctx b) + (JMP_CONTEXT_SIZE + 16)"
    using x by presburger+
qed

lemma longjmp_value: "longjmp K w (Some b) val = (w', b') \<Longrightarrow>
    \<exists>c. b' = Some c \<and> jb_val c \<noteq> 0 \<and> (val \<noteq> 0 \<longrightarrow> jb_val c = val) \<and> w' = RtlRestoreContext K w (jmp_ctx b)"
  by (auto simp: longjmp_def jmp_ctx_def Let_def)

end
