(* ===== verification/Blob.thy ===== *)
theory Blob
  imports C99_Prelude
begin

text \<open>
  \<open>cbits/blob.c\<close>: the type descriptors the compiler owns on the side of the back end, interned
  in two lists. The allocator and the scalar types of the back end are a record of parameters;
  a descriptor is named by its address, its contents are the fields of \<open>MtlcType\<close> that the code
  sets (the others stay zero).
\<close>

section \<open>The data\<close>

datatype mtlc_kind =
    INT8 | INT16 | INT32 | INT64 | UINT8 | UINT16 | UINT32 | UINT64 | BOOL | FLOAT32 | FLOAT64 | STRING
  | FUNCTION_POINTER | POINTER | ARRAY | STRUCT | ENUM | TAGGED_ENUM | VOID

record mtlc_type =
  ty_kind :: mtlc_kind
  ty_name :: "u8 list"
  ty_size :: u64
  ty_alignment :: u64
  ty_base_type :: u64
  ty_array_size :: u64
  ty_fn_param_types :: "u64 list"
  ty_fn_param_count :: nat
  ty_fn_return_type :: u64

definition ty_zero :: mtlc_type where
  "ty_zero = \<lparr>ty_kind = INT8, ty_name = [], ty_size = 0, ty_alignment = 0, ty_base_type = 0, ty_array_size = 0,
     ty_fn_param_types = [], ty_fn_param_count = 0, ty_fn_return_type = 0\<rparr>"

record blob_node =
  bt_bytes :: u64
  bt_ty :: mtlc_type

record fnptr_node =
  fp_ty :: mtlc_type
  fp_ret :: u64
  fp_params :: "u64 list"
  fp_count :: nat

text \<open>The static variables: the two lists with the addresses of their nodes, and the serial.\<close>

record type_tables =
  blob_types :: "(u64 \<times> blob_node) list"
  fnptr_types :: "(u64 \<times> fnptr_node) list"
  fnptr_serial :: u32

text \<open>
  The platform: \<open>calloc\<close>, the sizes of the two structures, the place of \<open>ty\<close> in \<open>BlobType\<close>
  (in \<open>FnPtrType\<close> it comes first), \<open>mtlc_type_scalar\<close>.
\<close>

record 'w host_api =
  host_calloc :: "'w \<Rightarrow> nat \<Rightarrow> nat \<Rightarrow> 'w \<times> u64"
  sizeof_blob :: nat
  sizeof_fnptr :: nat
  blob_ty :: nat
  type_scalar :: "mtlc_kind \<Rightarrow> u64"

section \<open>The code\<close>

text \<open>The digits \<open>%u\<close> prints.\<close>

fun dec_text :: "nat \<Rightarrow> u8 list" where
  "dec_text n = (if n < 10 then [] else dec_text (n div 10)) @ [48 + word_of_nat (n mod 10)]"

declare dec_text.simps [simp del]

fun same_params :: "u64 list \<Rightarrow> u64 list \<Rightarrow> nat" where
  "same_params (p # ps) (q # qs) = (if p = q then Suc (same_params ps qs) else 0)"
| "same_params _ _ = 0"

fun fnptr_find :: "(u64 \<times> fnptr_node) list \<Rightarrow> u64 \<Rightarrow> u64 list \<Rightarrow> u64 option" where
  "fnptr_find [] ret params = None"
| "fnptr_find ((p, f) # fs) ret params =
     (if fp_ret f \<noteq> ret \<or> fp_count f \<noteq> length params then fnptr_find fs ret params
      else if same_params (fp_params f) params = length params then Some p
      else fnptr_find fs ret params)"

text \<open>\<open>None\<close> is the end of the process, with status 1, when memory is out.\<close>

definition fnptr_type ::
    "'w host_api \<Rightarrow> 'w \<Rightarrow> type_tables \<Rightarrow> u64 \<Rightarrow> u64 list \<Rightarrow> ('w \<times> type_tables \<times> u64) option" where
  "fnptr_type K w s ret params =
     (let count = length params
      in case fnptr_find (fnptr_types s) ret params of
           Some p \<Rightarrow> Some (w, s, p)
         | None \<Rightarrow>
             let (w, p) = host_calloc K w 1 (sizeof_fnptr K)
             in if p = 0 then None
                else
                  let (w, ps) = (if count > 0 then host_calloc K w count 8 else (w, 0))
                  in if count > 0 \<and> ps = 0 then None
                     else
                       let name = take 23 (lit ''fnp'' @ dec_text (unat (fnptr_serial s)));
                           ty = ty_zero\<lparr>ty_kind := FUNCTION_POINTER, ty_name := name, ty_size := 8, ty_alignment := 8,
                                  ty_fn_param_types := params, ty_fn_param_count := count,
                                  ty_fn_return_type := ret\<rparr>;
                           f = \<lparr>fp_ty = ty, fp_ret = ret, fp_params = params, fp_count = count\<rparr>
                       in Some (w, s\<lparr>fnptr_serial := fnptr_serial s + 1, fnptr_types := (p, f) # fnptr_types s\<rparr>, p))"

definition blob_align :: "u64 \<Rightarrow> u64" where
  "blob_align bytes = ((if bytes = 0 then 1 else bytes) + 7) AND NOT 7"

fun blob_find :: "(u64 \<times> blob_node) list \<Rightarrow> u64 \<Rightarrow> u64 option" where
  "blob_find [] aligned = None"
| "blob_find ((p, b) # bs) aligned = (if bt_bytes b = aligned then Some p else blob_find bs aligned)"

definition blob_type ::
    "'w host_api \<Rightarrow> 'w \<Rightarrow> type_tables \<Rightarrow> u64 \<Rightarrow> ('w \<times> type_tables \<times> u64) option" where
  "blob_type K w s bytes =
     (let aligned = blob_align bytes
      in case blob_find (blob_types s) aligned of
           Some p \<Rightarrow> Some (w, s, p + word_of_nat (blob_ty K))
         | None \<Rightarrow>
             let (w, p) = host_calloc K w 1 (sizeof_blob K)
             in if p = 0 then None
                else
                  let name = take 31 (lit ''blob'' @ dec_text (unat aligned));
                      ty = ty_zero\<lparr>ty_kind := ARRAY, ty_name := name, ty_size := aligned, ty_alignment := 8,
                             ty_base_type := type_scalar K UINT8, ty_array_size := aligned\<rparr>;
                      b = \<lparr>bt_bytes = aligned, bt_ty = ty\<rparr>
                  in Some (w, s\<lparr>blob_types := (p, b) # blob_types s\<rparr>, p + word_of_nat (blob_ty K)))"

section \<open>Runs\<close>

text \<open>What the compiler asks for, and what it means: byte arrays of the same rounded size are one type.\<close>

datatype type_req = FnPtr u64 "u64 list" | Bytes u64

fun type_key :: "type_req \<Rightarrow> type_req" where
  "type_key (FnPtr ret ps) = FnPtr ret ps"
| "type_key (Bytes n) = Bytes (blob_align n)"

fun type_call :: "'w host_api \<Rightarrow> 'w \<Rightarrow> type_tables \<Rightarrow> type_req \<Rightarrow> ('w \<times> type_tables \<times> u64) option" where
  "type_call K w s (FnPtr ret ps) = fnptr_type K w s ret ps"
| "type_call K w s (Bytes n) = blob_type K w s n"

definition no_types :: type_tables where
  "no_types = \<lparr>blob_types = [], fnptr_types = [], fnptr_serial = 0\<rparr>"

text \<open>A run of the compiler: the requests so far with the descriptors returned for them.\<close>

inductive type_run :: "'w host_api \<Rightarrow> 'w \<Rightarrow> (type_req \<times> u64) list \<Rightarrow> 'w \<Rightarrow> type_tables \<Rightarrow> bool"
  for K :: "'w host_api" and w0 :: 'w where
  start: "type_run K w0 [] w0 no_types"
| call: "type_run K w0 tr w s \<Longrightarrow> type_call K w s c = Some (w', s', p) \<Longrightarrow> type_run K w0 (tr @ [(c, p)]) w' s'"

text \<open>The descriptors that exist: what each stands for, its address, its fields.\<close>

definition type_set :: "'w host_api \<Rightarrow> type_tables \<Rightarrow> (type_req \<times> u64 \<times> mtlc_type) set" where
  "type_set K s =
     (\<lambda>(p, f). (FnPtr (fp_ret f) (fp_params f), p, fp_ty f)) ` set (fnptr_types s) \<union>
     (\<lambda>(p, b). (Bytes (bt_bytes b), p + word_of_nat (blob_ty K), bt_ty b)) ` set (blob_types s)"

definition ty_describes :: "'w host_api \<Rightarrow> type_req \<Rightarrow> mtlc_type \<Rightarrow> bool" where
  "ty_describes K k ty \<longleftrightarrow>
     (case k of
        FnPtr ret ps \<Rightarrow>
          ty_kind ty = FUNCTION_POINTER \<and> ty_size ty = 8 \<and> ty_alignment ty = 8 \<and> ty_fn_param_types ty = ps \<and>
          ty_fn_param_count ty = length ps \<and> ty_fn_return_type ty = ret
      | Bytes n \<Rightarrow>
          ty_kind ty = ARRAY \<and> ty_size ty = n \<and> ty_alignment ty = 8 \<and> ty_base_type ty = type_scalar K UINT8 \<and>
          ty_array_size ty = n \<and> ty_name ty = lit ''blob'' @ dec_text (unat n))"

lemma dec_text_inj: "dec_text m = dec_text n \<Longrightarrow> m = n"
proof (induction m arbitrary: n rule: dec_text.induct)
  case (1 m)
  have l: "dec_text k = (if k < 10 then [] else dec_text (k div 10)) @ [48 + word_of_nat (k mod 10)]" for k
    by (rule dec_text.simps)
  have ne: "dec_text k \<noteq> []" for k by (subst l) simp
  have "(48 :: u8) + word_of_nat (m mod 10) = 48 + word_of_nat (n mod 10)"
    and pre: "(if m < 10 then [] else dec_text (m div 10)) = (if n < 10 then [] else dec_text (n div 10))"
    using 1(2) unfolding l [of m] l [of n] by simp_all
  then have "(word_of_nat (m mod 10) :: u8) = word_of_nat (n mod 10)" by simp
  then have "unat (word_of_nat (m mod 10) :: u8) = unat (word_of_nat (n mod 10) :: u8)" by (rule arg_cong)
  then have d: "m mod 10 = n mod 10" by (simp add: unat_of_nat_small)
  show ?case
  proof (cases "m < 10")
    case True
    then have "n < 10" using pre ne [of "n div 10"] by (auto split: if_splits)
    then show ?thesis using True d by simp
  next
    case False
    then have "\<not> n < 10" using pre ne [of "m div 10"] by (auto split: if_splits)
    then have "m div 10 = n div 10" using False pre by (intro 1(1)) simp_all
    then show ?thesis using d by (metis div_mult_mod_eq)
  qed
qed

lemma length_dec_text: "n < 10 ^ Suc k \<Longrightarrow> length (dec_text n) \<le> Suc k"
proof (induction k arbitrary: n)
  case 0
  then show ?case by (subst dec_text.simps) simp
next
  case (Suc k)
  then have "n div 10 < 10 ^ Suc k" by (simp add: less_mult_imp_div_less)
  with Suc.IH show ?case by (subst dec_text.simps) simp
qed

lemma names_fit: "length (dec_text (unat (n :: u32))) \<le> 20" "length (dec_text (unat (k :: u64))) \<le> 20"
proof -
  have "unat n < 2 ^ 32" "unat k < 2 ^ 64" using unsigned_less [of n, where ?'a = nat] unsigned_less [of k, where ?'a = nat]
    by simp_all
  then show "length (dec_text (unat n)) \<le> 20" "length (dec_text (unat k)) \<le> 20"
    using length_dec_text [of _ 19] by simp_all
qed

lemma same_params_eq: "length ps = length qs \<Longrightarrow> same_params ps qs = length qs \<longleftrightarrow> ps = qs"
  by (induction ps qs rule: list_induct2) auto

lemma type_set_fn: "type_set K (s\<lparr>fnptr_serial := n, fnptr_types := (p, f) # fnptr_types s\<rparr>) =
    insert (FnPtr (fp_ret f) (fp_params f), p, fp_ty f) (type_set K s)"
  by (simp add: type_set_def)

lemma type_set_blob: "type_set K (s\<lparr>blob_types := (p, b) # blob_types s\<rparr>) =
    insert (Bytes (bt_bytes b), p + word_of_nat (blob_ty K), bt_ty b) (type_set K s)"
  by (simp add: type_set_def)

section \<open>Interning\<close>

text \<open>\<open>used w\<close>: the addresses of all blocks handed out; a new block has none of them.\<close>

locale type_host =
  fixes K :: "'w host_api" and used :: "'w \<Rightarrow> u64 set"
  assumes new_law: "host_calloc K w n sz = (w', p) \<Longrightarrow> p \<noteq> 0 \<Longrightarrow> i < n * sz \<Longrightarrow>
      p + word_of_nat i \<notin> used w \<and> p + word_of_nat i \<in> used w'"
    and keep_law: "host_calloc K w n sz = (w', p) \<Longrightarrow> used w \<subseteq> used w'"
    and size_law: "blob_ty K < sizeof_blob K" "0 < sizeof_fnptr K"
begin

definition type_inv :: "'w \<Rightarrow> type_tables \<Rightarrow> bool" where
  "type_inv w s \<longleftrightarrow>
     (\<forall>(p, f) \<in> set (fnptr_types s). fp_count f = length (fp_params f)) \<and>
     (\<forall>(k, p, ty) \<in> type_set K s. p \<in> used w \<and> ty_describes K k ty) \<and>
     (\<forall>(k, p, ty) \<in> type_set K s. \<forall>(k', p', ty') \<in> type_set K s. k = k' \<longleftrightarrow> p = p') \<and>
     fnptr_serial s = word_of_nat (length (fnptr_types s)) \<and>
     map (\<lambda>(p, f). ty_name (fp_ty f)) (fnptr_types s) =
       map (\<lambda>i. lit ''fnp'' @ dec_text (i mod 2 ^ 32)) (rev [0..<length (fnptr_types s)])"

lemma type_inv_count: "type_inv w s \<Longrightarrow> \<forall>(p, f) \<in> set (fnptr_types s). fp_count f = length (fp_params f)"
  by (simp add: type_inv_def)

lemma fnptr_find_Some:
  "\<forall>(p, f) \<in> set fs. fp_count f = length (fp_params f) \<Longrightarrow> fnptr_find fs ret ps = Some p \<Longrightarrow>
   \<exists>f. (p, f) \<in> set fs \<and> fp_ret f = ret \<and> fp_params f = ps"
  by (induction fs) (auto simp: same_params_eq split: if_splits)

lemma fnptr_find_None:
  "\<forall>(p, f) \<in> set fs. fp_count f = length (fp_params f) \<Longrightarrow> fnptr_find fs ret ps = None \<Longrightarrow>
   (p, f) \<in> set fs \<Longrightarrow> \<not> (fp_ret f = ret \<and> fp_params f = ps)"
  by (induction fs) (auto simp: same_params_eq split: if_splits)

lemma blob_find_Some: "blob_find bs n = Some p \<Longrightarrow> \<exists>b. (p, b) \<in> set bs \<and> bt_bytes b = n"
  by (induction bs) (auto split: if_splits)

lemma blob_find_None: "blob_find bs n = None \<Longrightarrow> (p, b) \<in> set bs \<Longrightarrow> bt_bytes b \<noteq> n"
  by (induction bs) (auto split: if_splits)

text \<open>A call finds the descriptor that exists, or adds one at an address not in use.\<close>

definition type_step :: "'w \<Rightarrow> type_tables \<Rightarrow> type_req \<Rightarrow> 'w \<Rightarrow> type_tables \<Rightarrow> u64 \<Rightarrow> bool" where
  "type_step w s k w' s' p \<longleftrightarrow>
     (w' = w \<and> s' = s \<and> (\<exists>ty. (k, p, ty) \<in> type_set K s)) \<or>
     (\<exists>ty. type_set K s' = insert (k, p, ty) (type_set K s) \<and> ty_describes K k ty \<and>
       (\<forall>p ty. (k, p, ty) \<notin> type_set K s) \<and> p \<notin> used w \<and> p \<in> used w' \<and> used w \<subseteq> used w')"

lemma fnptr_step:
  assumes "type_inv w s" "fnptr_type K w s ret ps = Some (w', s', p)"
  shows "type_step w s (FnPtr ret ps) w' s' p"
proof (cases "fnptr_find (fnptr_types s) ret ps")
  case (Some q)
  then have "w' = w" "s' = s" "p = q" using assms(2) by (simp_all add: fnptr_type_def)
  moreover obtain f where "(q, f) \<in> set (fnptr_types s)" "fp_ret f = ret" "fp_params f = ps"
    using fnptr_find_Some [OF type_inv_count [OF assms(1)] Some] by blast
  then have "(FnPtr ret ps, q, fp_ty f) \<in> type_set K s" by (force simp: type_set_def)
  ultimately show ?thesis by (auto simp: type_step_def)
next
  case None
  define t where "t = ty_zero\<lparr>ty_kind := FUNCTION_POINTER,
       ty_name := take 23 (lit ''fnp'' @ dec_text (unat (fnptr_serial s))), ty_size := 8, ty_alignment := 8,
       ty_fn_param_types := ps, ty_fn_param_count := length ps, ty_fn_return_type := ret\<rparr>"
  obtain w1 p1 where c1: "host_calloc K w 1 (sizeof_fnptr K) = (w1, p1)" by fastforce
  obtain w2 q where d1: "(if length ps > 0 then host_calloc K w1 (length ps) 8 else (w1, 0)) = (w2, q)" by fastforce
  define t' where "t' = s\<lparr>fnptr_serial := fnptr_serial s + 1, fnptr_types :=
        (p1, \<lparr>fp_ty = t, fp_ret = ret, fp_params = ps, fp_count = length ps\<rparr>) # fnptr_types s\<rparr>"
  have "fnptr_type K w s ret ps =
      (if p1 = 0 then None else if length ps > 0 \<and> q = 0 then None else Some (w2, t', p1))"
    unfolding fnptr_type_def Let_def None t_def [symmetric] option.case c1 prod.case d1 t'_def [symmetric] ..
  then have e: "p1 \<noteq> 0" "w2 = w'" "t' = s'" "p1 = p" using assms(2) by (simp_all split: if_splits)
  note c = c1 [unfolded e] e(1) [unfolded e(4)] and d = d1 [unfolded e] and s' = t'_def [unfolded e]
  have T: "type_set K s' = insert (FnPtr ret ps, p, t) (type_set K s)" unfolding s' type_set_fn by simp
  have "p \<notin> used w" "p \<in> used w1" using new_law [OF c, of 0] size_law by simp_all
  moreover have "used w \<subseteq> used w1" using keep_law [OF c(1)] .
  moreover have "used w1 \<subseteq> used w'" using d keep_law by (cases "length ps > 0") (simp_all only: if_True if_False prod.inject order_refl)
  moreover have "(FnPtr ret ps, r, ty) \<notin> type_set K s" for r ty
    using fnptr_find_None [OF type_inv_count [OF assms(1)] None] by (auto simp: type_set_def)
  moreover have "ty_describes K (FnPtr ret ps) t" by (simp add: ty_describes_def t_def)
  ultimately show ?thesis unfolding type_step_def T by blast
qed

lemma blob_step:
  assumes "blob_type K w s n = Some (w', s', p)"
  shows "type_step w s (Bytes (blob_align n)) w' s' p"
proof (cases "blob_find (blob_types s) (blob_align n)")
  case (Some q)
  then have "w' = w" "s' = s" "p = q + word_of_nat (blob_ty K)" using assms by (simp_all add: blob_type_def)
  moreover obtain b where "(q, b) \<in> set (blob_types s)" "bt_bytes b = blob_align n"
    using blob_find_Some [OF Some] by blast
  then have "(Bytes (blob_align n), q + word_of_nat (blob_ty K), bt_ty b) \<in> type_set K s"
    by (force simp: type_set_def)
  ultimately show ?thesis by (auto simp: type_step_def)
next
  case None
  define t where "t = ty_zero\<lparr>ty_kind := ARRAY,
       ty_name := take 31 (lit ''blob'' @ dec_text (unat (blob_align n))), ty_size := blob_align n, ty_alignment := 8,
       ty_base_type := type_scalar K UINT8, ty_array_size := blob_align n\<rparr>"
  obtain q where c: "host_calloc K w 1 (sizeof_blob K) = (w', q)" "q \<noteq> 0" and p: "p = q + word_of_nat (blob_ty K)"
    and s': "s' = s\<lparr>blob_types := (q, \<lparr>bt_bytes = blob_align n, bt_ty = t\<rparr>) # blob_types s\<rparr>"
    using assms None unfolding blob_type_def Let_def t_def [symmetric] by (auto split: prod.splits if_splits)
  have T: "type_set K s' = insert (Bytes (blob_align n), p, t) (type_set K s)" unfolding s' type_set_blob p by simp
  have "p \<notin> used w" "p \<in> used w'" using new_law [OF c, of "blob_ty K"] size_law p by simp_all
  moreover have "used w \<subseteq> used w'" using keep_law [OF c(1)] .
  moreover have "(Bytes (blob_align n), r, ty) \<notin> type_set K s" for r ty
    using blob_find_None [OF None] by (auto simp: type_set_def) metis
  moreover have "ty_describes K (Bytes (blob_align n)) t"
    using names_fit(2) [of "blob_align n"] by (simp add: ty_describes_def t_def)
  ultimately show ?thesis unfolding type_step_def T by blast
qed

lemma fnptr_names:
  assumes "type_inv w s" "fnptr_type K w s ret ps = Some (w', s', p)"
  shows "(\<forall>(p, f) \<in> set (fnptr_types s'). fp_count f = length (fp_params f)) \<and>
    fnptr_serial s' = word_of_nat (length (fnptr_types s')) \<and>
    map (\<lambda>(p, f). ty_name (fp_ty f)) (fnptr_types s') =
      map (\<lambda>i. lit ''fnp'' @ dec_text (i mod 2 ^ 32)) (rev [0..<length (fnptr_types s')])"
proof (cases "fnptr_find (fnptr_types s) ret ps")
  case (Some q)
  then show ?thesis using assms by (simp add: fnptr_type_def type_inv_def)
next
  case None
  have "unat (fnptr_serial s) = length (fnptr_types s) mod 2 ^ 32"
    using assms(1) by (simp add: type_inv_def unat_of_nat take_bit_eq_mod)
  moreover have "take 23 (lit ''fnp'' @ dec_text (unat (fnptr_serial s))) = lit ''fnp'' @ dec_text (unat (fnptr_serial s))"
    using names_fit(1) [of "fnptr_serial s"] by simp
  ultimately show ?thesis
    using assms None by (auto simp: fnptr_type_def Let_def type_inv_def split: prod.splits if_splits)
qed

lemma type_call_ok:
  assumes i: "type_inv w s" and c: "type_call K w s c = Some (w', s', p)"
  shows "type_inv w' s' \<and> type_set K s \<subseteq> type_set K s' \<and> (\<exists>ty. (type_key c, p, ty) \<in> type_set K s')"
proof -
  have st: "type_step w s (type_key c) w' s' p"
    using c fnptr_step [OF i] blob_step by (cases c) simp_all
  have n: "(\<forall>(p, f) \<in> set (fnptr_types s'). fp_count f = length (fp_params f)) \<and>
    fnptr_serial s' = word_of_nat (length (fnptr_types s')) \<and>
    map (\<lambda>(p, f). ty_name (fp_ty f)) (fnptr_types s') =
      map (\<lambda>i. lit ''fnp'' @ dec_text (i mod 2 ^ 32)) (rev [0..<length (fnptr_types s')])"
  proof (cases c)
    case (FnPtr ret ps)
    then show ?thesis using c fnptr_names [OF i] by simp
  next
    case (Bytes n)
    then have "fnptr_types s' = fnptr_types s" "fnptr_serial s' = fnptr_serial s"
      using c by (auto simp: blob_type_def Let_def split: option.splits prod.splits if_splits)
    then show ?thesis using i by (simp add: type_inv_def)
  qed
  from st consider "w' = w" "s' = s" "\<exists>ty. (type_key c, p, ty) \<in> type_set K s"
    | ty where "type_set K s' = insert (type_key c, p, ty) (type_set K s)" "ty_describes K (type_key c) ty"
       "\<forall>p ty. (type_key c, p, ty) \<notin> type_set K s" "p \<notin> used w" "p \<in> used w'" "used w \<subseteq> used w'"
    unfolding type_step_def by blast
  then show ?thesis
  proof cases
    case 1
    then show ?thesis using i by simp
  next
    case (2 ty)
    have "type_inv w' s'"
      unfolding type_inv_def 2(1) using i n 2(2-6) unfolding type_inv_def by fast
    then show ?thesis using 2(1) by blast
  qed
qed

lemma type_run_ok:
  "type_run K w0 tr w s \<Longrightarrow> type_inv w s \<and> (\<forall>(c, p) \<in> set tr. \<exists>ty. (type_key c, p, ty) \<in> type_set K s)"
proof (induction rule: type_run.induct)
  case start
  then show ?case by (simp add: type_inv_def no_types_def type_set_def)
next
  case (call tr w s c w' s' p)
  then show ?case using type_call_ok [of w s c w' s' p] by fastforce
qed

end

text \<open>The rounded size: the least multiple of 8 that is not below the size, and not 0.\<close>

lemma blob_align_ok:
  assumes "unat n + 7 < 2 ^ 64"
  shows "8 dvd unat (blob_align n)" "max 1 (unat n) \<le> unat (blob_align n)" "unat (blob_align n) < max 1 (unat n) + 8"
proof -
  define k where "k = (if n = 0 then 1 else n)"
  have "(NOT 7 :: u64) = NOT (mask 3)" by (simp add: mask_eq_exp_minus_1)
  then have "blob_align n = (k + 7) AND NOT (mask 3)" by (simp only: blob_align_def k_def)
  then have e: "unat (blob_align n) = unat (k + 7) div 8 * 8" using unat_and_not_mask [of "k + 7" 3] by simp
  have k: "unat k = max 1 (unat n)" by (auto simp: k_def max_def Suc_le_eq unat_gt_0)
  then have "unat (k + 7) = max 1 (unat n) + 7" using assms by (subst unat_add_small) auto
  then show "8 dvd unat (blob_align n)" "max 1 (unat n) \<le> unat (blob_align n)" "unat (blob_align n) < max 1 (unat n) + 8"
    unfolding e by presburger+
qed

section \<open>A host\<close>

text \<open>The allocator that never reuses memory; its state is the next free address.\<close>

definition bump_host :: "u64 host_api" where
  "bump_host = \<lparr>host_calloc = (\<lambda>w n sz. if unat w + n * sz < 2 ^ 64 then (w + word_of_nat (n * sz), w) else (w, 0)),
     sizeof_blob = 208, sizeof_fnptr = 224, blob_ty = 8, type_scalar = (\<lambda>k. 16)\<rparr>"

interpretation bump_host: type_host bump_host "\<lambda>w. {a. a < w}"
proof
  fix w n sz w' p i
  assume a: "host_calloc bump_host w n sz = (w', p)"
  have k: "unat (w + word_of_nat j) = unat w + j" if "unat w + j < 2 ^ 64" for j
    using that by (subst unat_add_small) (simp_all add: unat_of_nat_small)
  show "{a. a < w} \<subseteq> {a. a < w'}"
  proof (cases "unat w + n * sz < 2 ^ 64")
    case True
    then have "w \<le> w'" using a k [OF True] by (auto simp: bump_host_def word_le_nat_alt)
    then show ?thesis by auto
  qed (use a in \<open>simp add: bump_host_def\<close>)
  assume "p \<noteq> 0" "i < n * sz"
  moreover from this have f: "unat w + n * sz < 2 ^ 64" using a by (simp add: bump_host_def split: if_splits)
  ultimately show "p + word_of_nat i \<notin> {a. a < w} \<and> p + word_of_nat i \<in> {a. a < w'}"
    using a k [of i] k [OF f] by (auto simp: bump_host_def word_less_nat_alt simp del: of_nat_mult)
qed (simp_all add: bump_host_def)



end
