(* ===== verification/Stdio.thy ===== *)
theory Stdio
  imports Kernel32
begin

text \<open>
  \<open>rt/rt_stdio.c\<close>: a FILE is a \<open>stream\<close> record, a \<open>FILE *\<close> a \<open>fptr\<close>. The first
  half models the static functions on one stream and the kernel's state; the second half
  the library functions on the whole state of the file: the three standard streams and the
  streams \<open>fopen\<close> and \<open>_popen\<close> made. Data in and out are the byte lists the pointers
  give; the internal buffer is the list \<open>f_buf\<close>, \<open>None\<close> for a null pointer; \<open>f_bufp\<close> is only the address to
  free.
\<close>

section \<open>One stream\<close>

definition RT_EOF :: int where "RT_EOF = - 1"
definition RT_BUFSZ :: nat where "RT_BUFSZ = 4096"

datatype dir = DIR_IDLE | DIR_READ | DIR_WRITE
datatype bufmode = BUF_FULL | BUF_LINE | BUF_NONE

definition F_READ :: u32 where "F_READ = 1"
definition F_WRITE :: u32 where "F_WRITE = 2"
definition F_APPEND :: u32 where "F_APPEND = 4"

record stream =
  f_h :: handle
  f_mode :: u32
  f_dir :: dir
  f_err :: bool
  f_eof :: bool
  f_bufmode :: bufmode
  f_buf :: "u8 list option"
  f_bufp :: u64
  f_cap :: nat
  f_len :: nat
  f_pos :: nat
  f_ungot :: int
  f_is_std :: bool
  f_proc :: handle

subsection \<open>The write side\<close>

function write_loop :: "'w file_api \<Rightarrow> 'w \<Rightarrow> handle \<Rightarrow> u8 list \<Rightarrow> 'w \<times> bool" where
  "write_loop F w h p =
     (if p \<noteq> []
      then let chunk = (if length p > 0x40000000 then 0x40000000 else length p);
               (w, r, n) = WriteFile F w h (take chunk p)
           in if \<not> r \<or> n = 0 then (w, False) else write_loop F w h (drop n p)
      else (w, True))"
  by pat_completeness auto
termination
  by (relation "measure (\<lambda>(F, w, h, p). length p)") auto

declare write_loop.simps [simp del]

definition rt_raw_write :: "'w file_api \<Rightarrow> 'w \<Rightarrow> stream \<Rightarrow> u8 list \<Rightarrow> 'w \<times> stream \<times> bool" where
  "rt_raw_write F w f p =
     (let (w, ok) = write_loop F w (f_h f) p
      in (w, if ok then f else f\<lparr>f_err := True\<rparr>, ok))"

text \<open>The bytes \<open>f->buf[0..len)\<close>.\<close>

definition pending :: "stream \<Rightarrow> u8 list" where
  "pending f = take (f_len f) (case f_buf f of None \<Rightarrow> [] | Some b \<Rightarrow> b)"

definition rt_flush_write :: "'w file_api \<Rightarrow> 'w \<Rightarrow> stream \<Rightarrow> 'w \<times> stream \<times> int" where
  "rt_flush_write F w f =
     (if f_dir f = DIR_WRITE \<and> f_len f > 0
      then let (w, f, ok) = rt_raw_write F w f (pending f); f = f\<lparr>f_len := 0\<rparr>
           in if \<not> ok then (w, f, RT_EOF) else (w, f\<lparr>f_dir := DIR_IDLE\<rparr>, 0)
      else (w, if f_dir f = DIR_WRITE then f\<lparr>f_dir := DIR_IDLE\<rparr> else f, 0))"

definition rt_drop_read :: "'w file_api \<Rightarrow> 'w \<Rightarrow> stream \<Rightarrow> 'w \<times> stream" where
  "rt_drop_read F w f =
     (if f_dir f = DIR_READ
      then let back = int (f_len f) - int (f_pos f) + (if f_ungot f \<ge> 0 then 1 else 0);
               w = (if back > 0 then fst (SetFilePointerEx F w (f_h f) (- back) 1) else w)
           in (w, f\<lparr>f_len := 0, f_pos := 0, f_ungot := - 1, f_dir := DIR_IDLE\<rparr>)
      else (w, f))"

text \<open>The flush inside a write: on success the buffer is a write buffer again.\<close>

definition flush_again :: "'w file_api \<Rightarrow> 'w \<Rightarrow> stream \<Rightarrow> 'w \<times> stream \<times> bool" where
  "flush_again F w f =
     (let (w, f, r) = rt_flush_write F w f
      in if r = RT_EOF then (w, f, False) else (w, f\<lparr>f_dir := DIR_WRITE\<rparr>, True))"

text \<open>\<open>memcpy(f->buf + f->len, p, n); f->len += n\<close>.\<close>

definition buf_append :: "stream \<Rightarrow> u8 list \<Rightarrow> stream" where
  "buf_append f p =
     f\<lparr>f_buf := map_option (\<lambda>b. take (f_len f) b @ p @ drop (f_len f + length p) b) (f_buf f),
       f_len := f_len f + length p\<rparr>"

text \<open>\<open>last_nl\<close>, an \<open>int\<close> as the source keeps it.\<close>

fun find_nl :: "u8 list \<Rightarrow> nat \<Rightarrow> int \<Rightarrow> int" where
  "find_nl [] i last_nl = last_nl"
| "find_nl (b # p) i last_nl = find_nl p (i + 1) (if b = 10 then wrap_s32 (int i) else last_nl)"

fun line_loop ::
    "'w file_api \<Rightarrow> 'w \<Rightarrow> stream \<Rightarrow> u8 list \<Rightarrow> nat \<Rightarrow> int \<Rightarrow> 'w \<times> stream \<times> bool" where
  "line_loop F w f [] i last_nl = (w, f, True)"
| "line_loop F w f (b # p) i last_nl =
     (let (w, f, ok) = (if f_len f = f_cap f then flush_again F w f else (w, f, True))
      in if \<not> ok then (w, f, False)
         else let f = buf_append f [b];
                  (w, f, ok) = (if last_nl \<ge> 0 \<and> int i = last_nl then flush_again F w f
                                else (w, f, True))
              in if \<not> ok then (w, f, False) else line_loop F w f p (i + 1) last_nl)"

definition rt_putbytes :: "'w file_api \<Rightarrow> 'w \<Rightarrow> stream \<Rightarrow> u8 list \<Rightarrow> 'w \<times> stream \<times> bool" where
  "rt_putbytes F w f p =
     (if f_mode f AND F_WRITE = 0 then (w, f\<lparr>f_err := True\<rparr>, False)
      else
        let (w, f) = rt_drop_read F w f; f = f\<lparr>f_dir := DIR_WRITE\<rparr>
        in if f_bufmode f = BUF_NONE \<or> f_buf f = None then rt_raw_write F w f p
           else if f_bufmode f = BUF_LINE then line_loop F w f p 0 (find_nl p 0 (- 1))
           else if length p \<ge> f_cap f
           then let (w, f, ok) = flush_again F w f
                in if ok then rt_raw_write F w f p else (w, f, False)
           else let (w, f, ok) = (if f_len f + length p > f_cap f then flush_again F w f
                                  else (w, f, True))
                in if ok then (w, buf_append f p, True) else (w, f, False))"

subsection \<open>The read side\<close>

text \<open>
  \<open>ReadFile\<close> into the buffer or the caller's memory: a failure delivers nothing and is an
  error unless it is a broken pipe (109).
\<close>

definition read_os :: "'w file_api \<Rightarrow> 'w \<Rightarrow> stream \<Rightarrow> nat \<Rightarrow> 'w \<times> stream \<times> u8 list" where
  "read_os F w f n =
     (let (w, r, bs) = ReadFile F w (f_h f) n
      in if r then (w, f, bs)
         else (w, if GetLastError F w \<noteq> 109 then f\<lparr>f_err := True\<rparr> else f, []))"

definition rt_fill :: "'w file_api \<Rightarrow> 'w \<Rightarrow> stream \<Rightarrow> 'w \<times> stream \<times> int" where
  "rt_fill F w f =
     (let (w, f, r) = rt_flush_write F w f
      in if r = RT_EOF then (w, f, RT_EOF)
         else
           let f = f\<lparr>f_dir := DIR_READ\<rparr>
           in case f_buf f of
                None \<Rightarrow> (w, f\<lparr>f_err := True\<rparr>, RT_EOF)
              | Some b \<Rightarrow>
                  let (w, f, got) = read_os F w f (f_cap f);
                      f = f\<lparr>f_buf := Some (got @ drop (length got) b),
                            f_len := length got, f_pos := 0\<rparr>
                  in if got = [] then (w, f\<lparr>f_eof := True\<rparr>, RT_EOF) else (w, f, 0))"

text \<open>\<open>f->buf[f->pos++]\<close> and the block of unread bytes \<open>f->buf[pos..pos+n)\<close>.\<close>

definition buf_read :: "stream \<Rightarrow> nat \<Rightarrow> u8 list" where
  "buf_read f n = take n (drop (f_pos f) (case f_buf f of None \<Rightarrow> [] | Some b \<Rightarrow> b))"

definition rt_getbyte :: "'w file_api \<Rightarrow> 'w \<Rightarrow> stream \<Rightarrow> 'w \<times> stream \<times> int" where
  "rt_getbyte F w f =
     (if f_mode f AND F_READ = 0 then (w, f\<lparr>f_err := True\<rparr>, RT_EOF)
      else if f_ungot f \<ge> 0 then (w, f\<lparr>f_ungot := - 1\<rparr>, f_ungot f)
      else
        let (w, f, r) = (if f_dir f \<noteq> DIR_READ \<or> f_pos f \<ge> f_len f then rt_fill F w f
                         else (w, f, 0))
        in if r \<noteq> 0 then (w, f, RT_EOF)
           else (w, f\<lparr>f_pos := f_pos f + 1\<rparr>, uint (hd (buf_read f 1))))"

text \<open>
  The loop of \<open>fread\<close>: large remainders come straight from the kernel, the rest through
  the buffer. \<open>out\<close> is what has been stored so far, \<open>got\<close> its length.
\<close>

lemma rt_fill_progress:
  "rt_fill F w f = (w', f', 0) \<Longrightarrow> f_pos f' = 0 \<and> 0 < f_len f'"
  by (auto simp: rt_fill_def RT_EOF_def Let_def split: prod.splits if_splits option.splits)

function fread_loop ::
    "'w file_api \<Rightarrow> 'w \<Rightarrow> stream \<Rightarrow> u8 list \<Rightarrow> nat \<Rightarrow> nat \<Rightarrow> 'w \<times> stream \<times> u8 list \<times> nat" where
  "fread_loop F w f out got want =
     (if got < want
      then if want - got \<ge> RT_BUFSZ
           then let chunk = (if want - got > 0x40000000 then 0x40000000 else want - got);
                    (w, f, bs) = read_os F w (f\<lparr>f_dir := DIR_READ, f_len := 0, f_pos := 0\<rparr>) chunk
                in if bs = [] then (w, f\<lparr>f_eof := True\<rparr>, out, got)
                   else fread_loop F w f (out @ bs) (got + length bs) want
           else case rt_fill F w f of (w, f, r) \<Rightarrow>
                  if r \<noteq> 0 then (w, f, out, got)
                  else let have' = f_len f - f_pos f;
                           tak = (if have' < want - got then have' else want - got)
                       in fread_loop F w (f\<lparr>f_pos := f_pos f + tak\<rparr>)
                            (out @ buf_read f tak) (got + tak) want
      else (w, f, out, got))"
  by pat_completeness auto
termination
  by (relation "measure (\<lambda>(F, w, f, out, got, want). want - got)")
    (auto dest!: rt_fill_progress [OF sym] intro!: diff_less_mono2)

declare fread_loop.simps [simp del]

text \<open>The body of \<open>fread\<close> for a stream that is there: the bytes stored and the count.\<close>

definition fread_stream ::
    "'w file_api \<Rightarrow> 'w \<Rightarrow> stream \<Rightarrow> u64 \<Rightarrow> u64 \<Rightarrow> 'w \<times> stream \<times> u8 list \<times> nat" where
  "fread_stream F w f sz num =
     (let want = unat (sz * num)
      in if want = 0 then (w, f, [], 0)
         else if f_mode f AND F_READ = 0 then (w, f\<lparr>f_err := True\<rparr>, [], 0)
         else
           let out = (if f_ungot f \<ge> 0 then [word_of_int (f_ungot f)] else []);
               f = (if f_ungot f \<ge> 0 then f\<lparr>f_ungot := - 1\<rparr> else f);
               got = length out;
               (w, f, r) = rt_flush_write F w f
           in if r = RT_EOF then (w, f, out, got div unat sz)
              else
                let have' = f_len f - f_pos f;
                    tak = (if f_dir f = DIR_READ \<and> f_pos f < f_len f
                           then if have' < want - got then have' else want - got else 0);
                    (w, f, out, got) = fread_loop F w (f\<lparr>f_pos := f_pos f + tak\<rparr>)
                                         (out @ buf_read f tak) (got + tak) want
                in (w, f, out, got div unat sz))"

subsection \<open>Positioning and status\<close>

text \<open>\<open>long\<close> has 32 bits.\<close>

definition fseek_stream ::
    "'w file_api \<Rightarrow> 'w \<Rightarrow> stream \<Rightarrow> int \<Rightarrow> int \<Rightarrow> 'w \<times> stream \<times> int" where
  "fseek_stream F w f off whence =
     (let (w, f, r) = rt_flush_write F w f
      in if r = RT_EOF then (w, f, - 1)
         else
           let off = (if whence = 1 \<and> f_dir f = DIR_READ
                      then let off = wrap_s32 (off - (int (f_len f) - int (f_pos f)))
                           in if f_ungot f \<ge> 0 then wrap_s32 (off - 1) else off
                      else off);
               f = f\<lparr>f_len := 0, f_pos := 0, f_ungot := - 1, f_dir := DIR_IDLE, f_eof := False\<rparr>;
               (w, ok, q) = SetFilePointerEx F w (f_h f) off (word_of_int whence)
           in (w, f, if ok then 0 else - 1))"

definition ftell_stream :: "'w file_api \<Rightarrow> 'w \<Rightarrow> stream \<Rightarrow> 'w \<times> stream \<times> int" where
  "ftell_stream F w f =
     (let (w, ok, pos) = SetFilePointerEx F w (f_h f) 0 1
      in if \<not> ok then (w, f, - 1)
         else let pos = (if f_dir f = DIR_READ
                         then pos - (int (f_len f) - int (f_pos f)) - (if f_ungot f \<ge> 0 then 1 else 0)
                         else if f_dir f = DIR_WRITE then pos + int (f_len f) else pos)
              in (w, f, wrap_s32 pos))"

definition rewind_stream :: "'w file_api \<Rightarrow> 'w \<Rightarrow> stream \<Rightarrow> 'w \<times> stream" where
  "rewind_stream F w f =
     (let (w, f, r) = fseek_stream F w f 0 0 in (w, f\<lparr>f_err := False\<rparr>))"

definition setvbuf_stream :: "stream \<Rightarrow> int \<Rightarrow> stream \<times> int" where
  "setvbuf_stream f mode =
     (if mode = 4 then (f\<lparr>f_bufmode := BUF_NONE\<rparr>, 0)
      else if mode = 0x40 then (f\<lparr>f_bufmode := BUF_LINE\<rparr>, 0)
      else if mode = 0 then (f\<lparr>f_bufmode := BUF_FULL\<rparr>, 0)
      else (f, - 1))"

subsection \<open>Characters and lines\<close>

definition ungetc_stream :: "int \<Rightarrow> stream \<Rightarrow> stream \<times> int" where
  "ungetc_stream c f =
     (if c = RT_EOF \<or> f_ungot f \<ge> 0 then (f, RT_EOF)
      else (f\<lparr>f_ungot := take_bit 8 c, f_eof := False\<rparr>, take_bit 8 c))"

text \<open>The loop of \<open>fgets\<close>, with \<open>n - 1 - i\<close> characters of room left.\<close>

fun fgets_loop :: "'w file_api \<Rightarrow> 'w \<Rightarrow> stream \<Rightarrow> nat \<Rightarrow> u8 list \<Rightarrow> 'w \<times> stream \<times> u8 list" where
  "fgets_loop F w f 0 out = (w, f, out)"
| "fgets_loop F w f (Suc room) out =
     (let (w, f, c) = rt_getbyte F w f
      in if c = RT_EOF then (w, f, out)
         else if c = 10 then (w, f, out @ [word_of_int c])
         else fgets_loop F w f room (out @ [word_of_int c]))"

text \<open>What \<open>fgets\<close> stores; nothing means the null pointer is returned.\<close>

definition fgets_stream ::
    "'w file_api \<Rightarrow> 'w \<Rightarrow> stream \<Rightarrow> int \<Rightarrow> 'w \<times> stream \<times> u8 list option" where
  "fgets_stream F w f n =
     (if n \<le> 0 then (w, f, None)
      else let (w, f, out) = fgets_loop F w f (nat (n - 1)) []
           in (w, f, if out = [] then None else Some (out @ [0])))"

definition fputc_stream :: "'w file_api \<Rightarrow> 'w \<Rightarrow> stream \<Rightarrow> int \<Rightarrow> 'w \<times> stream \<times> int" where
  "fputc_stream F w f c =
     (let b = word_of_int c :: u8; (w, f, ok) = rt_putbytes F w f [b]
      in (w, f, if ok then uint b else RT_EOF))"

definition fputs_stream :: "'w file_api \<Rightarrow> 'w \<Rightarrow> stream \<Rightarrow> u8 list \<Rightarrow> 'w \<times> stream \<times> int" where
  "fputs_stream F w f s =
     (let (w, f, ok) = rt_putbytes F w f s in (w, f, if ok then 0 else RT_EOF))"

end
