(* ===== verification/Startup.thy ===== *)
theory Startup
  imports Kernel32
begin

text \<open>
  \<open>rt/rt_start.c\<close>: splitting the command line into \<open>argv\<close>, the environment, and
  \<open>__getmainargs\<close>. The command line is the list of its characters without the
  terminator; \<open>pool\<close> is the list of the bytes stored through \<open>out\<close> and \<open>argv\<close> the list
  of the offsets into it. The environment block is the kernel's list of bytes.
\<close>

section \<open>The command line\<close>

abbreviation blank :: "u8 \<Rightarrow> bool" where
  "blank c \<equiv> c = 32 \<or> c = 9"

definition program_name :: "u8 list \<Rightarrow> u8 list \<times> u8 list" where
  "program_name p =
     (if p \<noteq> [] \<and> hd p = 34
      then let q = tl p; rest = dropWhile (\<lambda>c. c \<noteq> 34) q
           in (takeWhile (\<lambda>c. c \<noteq> 34) q, if rest \<noteq> [] then tl rest else rest)
      else (takeWhile (\<lambda>c. \<not> blank c) p, dropWhile (\<lambda>c. \<not> blank c) p))"

lemma length_tl_dropWhile: "length (tl (dropWhile P p)) \<le> length p"
  by (metis diff_le_self length_dropWhile_le length_tl le_trans)

text \<open>One argument: the text not yet read and the bytes stored when its loop ends.\<close>

function arg_loop :: "u8 list \<Rightarrow> bool \<Rightarrow> u8 list \<Rightarrow> u8 list \<times> u8 list" where
  "arg_loop [] quoted out = ([], out)"
| "arg_loop (c # p) quoted out =
     (if \<not> quoted \<and> blank c then (c # p, out)
      else if c = 92
      then let slashes = 1 + length (takeWhile (\<lambda>c. c = 92) p);
               q = dropWhile (\<lambda>c. c = 92) p
           in if q \<noteq> [] \<and> hd q = 34
              then let out = out @ replicate (slashes div 2) 92
                   in if slashes mod 2 \<noteq> 0 then arg_loop (tl q) quoted (out @ [34])
                      else arg_loop (tl q) (\<not> quoted) out
              else arg_loop q quoted (out @ replicate slashes 92)
      else if c = 34 then arg_loop p (\<not> quoted) out
      else arg_loop p quoted (out @ [c]))"
  by pat_completeness auto

termination
  by (relation "measure (\<lambda>(p, quoted, out). length p)")
    (auto simp: less_Suc_eq_le length_dropWhile_le length_tl_dropWhile simp del: length_tl)

text \<open>A run of backslashes is handled at once; the induction principle that goes with it.\<close>

lemma takeWhile_replicate: "q = [] \<or> hd q \<noteq> x \<Longrightarrow> takeWhile (\<lambda>c. c = x) (replicate n x @ q) = replicate n x"
  by (induction n) (auto simp: takeWhile_eq_Nil_iff)

lemma dropWhile_replicate: "q = [] \<or> hd q \<noteq> x \<Longrightarrow> dropWhile (\<lambda>c. c = x) (replicate n x @ q) = q"
  by (induction n) (auto simp: dropWhile_eq_self_iff)

lemma arg_loop_slashes:
  assumes "q = [] \<or> hd q \<noteq> 92"
  shows "arg_loop (replicate (Suc n) 92 @ q) quoted out =
    (if q \<noteq> [] \<and> hd q = 34
     then if odd (Suc n) then arg_loop (tl q) quoted (out @ replicate (Suc n div 2) 92 @ [34])
          else arg_loop (tl q) (\<not> quoted) (out @ replicate (Suc n div 2) 92)
     else arg_loop q quoted (out @ replicate (Suc n) 92))"
  using assms by (simp add: Let_def takeWhile_replicate dropWhile_replicate mod_2_eq_odd)

lemma arg_induct [case_names Nil Cons Slashes]:
  assumes "P []" and "\<And>c p. c \<noteq> 92 \<Longrightarrow> P p \<Longrightarrow> P (c # p)"
    and "\<And>n q. q = [] \<or> hd q \<noteq> 92 \<Longrightarrow> P q \<Longrightarrow> P (tl q) \<Longrightarrow> P (replicate (Suc n) 92 @ q)"
  shows "P (p :: u8 list)"
proof (induction p rule: length_induct)
  case (1 p)
  show ?case
  proof (cases p)
    case (Cons c r)
    let ?q = "dropWhile (\<lambda>c. c = 92) r"
    have "length ?q \<le> length r" "length (tl ?q) \<le> length r"
      by (rule length_dropWhile_le, rule length_tl_dropWhile)
    then have ih: "P r" "P ?q" "P (tl ?q)" using 1 Cons by auto
    have q: "?q = [] \<or> hd ?q \<noteq> 92" using hd_dropWhile [of "\<lambda>c. c = 92" r] by auto
    have "r = replicate (length (takeWhile (\<lambda>c. c = 92) r)) 92 @ ?q"
      by (metis (full_types) replicate_length_same set_takeWhileD takeWhile_dropWhile_id)
    then have "c = 92 \<Longrightarrow> p = replicate (Suc (length (takeWhile (\<lambda>c. c = 92) r))) 92 @ ?q"
      using Cons by simp
    with assms(2,3) ih q Cons show ?thesis by metis
  qed (use assms(1) in simp)
qed

lemma arg_loop_shrinks: "length (fst (arg_loop p quoted out)) \<le> length p"
proof (induction p arbitrary: quoted out rule: arg_induct)
  case (Slashes n q)
  have "length (fst (arg_loop q b out')) \<le> Suc n + length q"
    and "length (fst (arg_loop (tl q) b out')) \<le> Suc n + length q" for b out'
    using Slashes.IH(1) [of b out'] Slashes.IH(2) [of b out'] by simp_all
  then show ?case unfolding arg_loop_slashes [OF Slashes.hyps(1)] by simp
qed (auto simp: le_SucI)

lemma arg_loop_progress:
  assumes "\<not> blank c"
  shows "length (fst (arg_loop (c # p) False out)) \<le> length p"
proof (cases "c = 92")
  case True
  let ?q = "dropWhile (\<lambda>c. c = 92) p"
  have d: "length ?q \<le> length p" and t: "length (tl ?q) \<le> length p"
    by (rule length_dropWhile_le, rule length_tl_dropWhile)
  have "k \<le> length ?q \<Longrightarrow> k \<le> length p" "k \<le> length (tl ?q) \<Longrightarrow> k \<le> length p" for k
    using d t by linarith+
  with True assms show ?thesis by (simp add: Let_def arg_loop_shrinks del: length_tl)
qed (use assms in \<open>simp add: arg_loop_shrinks\<close>)

function args_loop :: "u8 list \<Rightarrow> u8 list \<Rightarrow> nat list \<Rightarrow> u8 list \<times> nat list" where
  "args_loop p out argv =
     (let p = dropWhile blank p
      in if p = [] then (out, argv)
         else case arg_loop p False out of
                (q, out') \<Rightarrow> args_loop q (out' @ [0]) (argv @ [length out]))"
  by pat_completeness auto
termination
proof (relation "measure (\<lambda>(p, out, argv). length p)", goal_cases)
  case (2 p out argv p' q out')
  from 2(2) obtain c r where cr: "p' = c # r" by (auto simp: neq_Nil_conv)
  then have "\<not> blank c" using hd_dropWhile [of blank p] 2(1) by simp
  then have "length q \<le> length r"
    using arg_loop_progress [of c r out] 2(3) cr by (metis fst_conv)
  moreover have "length p' \<le> length p" unfolding 2(1) by (rule length_dropWhile_le)
  ultimately show ?case using cr by simp
qed simp

declare args_loop.simps [simp del]

text \<open>The pool and the argument vector, before the closing null pointer is stored.\<close>

definition split_cmdline :: "u8 list \<Rightarrow> u8 list \<times> nat list" where
  "split_cmdline cmd =
     (let (name, p) = program_name cmd in args_loop p (name @ [0]) [0])"

text \<open>The static variables of the file; \<open>rt_argv\<close> is the null pointer when allocation failed.\<close>

record start_state =
  rt_argc :: nat
  rt_argv :: "(u8 list \<times> nat list) option"
  rt_envp :: "u8 list list option"

definition rt_parse_cmdline ::
    "'w heap_api \<Rightarrow> 'w env_api \<Rightarrow> 'w \<Rightarrow> start_state \<Rightarrow> 'w \<times> start_state" where
  "rt_parse_cmdline H E w s =
     (let cmd = GetCommandLineA E w;
          len = word_of_nat (length cmd) :: u64;
          (w, pool) = malloc H w (len + 2);
          (w, argv) = malloc H w ((len div 2 + 3) * 8)
      in if pool = 0 \<or> argv = 0 then (w, s\<lparr>rt_argc := 0, rt_argv := None\<rparr>)
         else let (out, offs) = split_cmdline cmd
              in (w, s\<lparr>rt_argc := length offs, rt_argv := Some (out, offs)\<rparr>))"

section \<open>The environment\<close>

text \<open>The strings of a block: each up to its terminator, until an empty one.\<close>

function env_scan :: "u8 list \<Rightarrow> u8 list list" where
  "env_scan p =
     (if p = [] \<or> hd p = 0 then []
      else takeWhile (\<lambda>c. c \<noteq> 0) p # env_scan (drop (length (takeWhile (\<lambda>c. c \<noteq> 0) p) + 1) p))"
  by pat_completeness auto
termination
  by (relation "measure length") auto

declare env_scan.simps [simp del]

definition rt_parse_env ::
    "'w heap_api \<Rightarrow> 'w env_api \<Rightarrow> 'w \<Rightarrow> start_state \<Rightarrow> 'w \<times> start_state" where
  "rt_parse_env H E w s =
     (case GetEnvironmentStringsA E w of
        None \<Rightarrow> (w, s\<lparr>rt_envp := None\<rparr>)
      | Some block \<Rightarrow>
          let entries = env_scan block;
              (w, v) = malloc H w (word_of_nat (length entries + 1) * 8)
          in if v = 0 then (w, s\<lparr>rt_envp := None\<rparr>) else (w, s\<lparr>rt_envp := Some entries\<rparr>))"

definition getmainargs ::
    "'w heap_api \<Rightarrow> 'w env_api \<Rightarrow> 'w \<Rightarrow> start_state \<Rightarrow>
     'w \<times> start_state \<times> nat \<times> (u8 list \<times> nat list) option \<times> u8 list list option" where
  "getmainargs H E w s =
     (let (w, s) = rt_parse_cmdline H E w s; (w, s) = rt_parse_env H E w s
      in (w, s, rt_argc s, rt_argv s, rt_envp s))"

text \<open>\<open>rt_envp[i]\<close> is an assignment to \<open>name\<close>: the test \<open>strncmp\<close> and \<open>'='\<close> make.\<close>

definition env_match :: "u8 list \<Rightarrow> u8 list \<Rightarrow> bool" where
  "env_match name e \<longleftrightarrow>
     take (length name) e = name \<and> length name < length e \<and> e ! length name = 61"

definition env_lookup :: "u8 list \<Rightarrow> u8 list list \<Rightarrow> u8 list option" where
  "env_lookup name envp =
     map_option (\<lambda>e. drop (length name + 1) e) (List.find (env_match name) envp)"

definition getenv ::
    "'w heap_api \<Rightarrow> 'w env_api \<Rightarrow> 'w \<Rightarrow> start_state \<Rightarrow> u8 list option \<Rightarrow>
     'w \<times> start_state \<times> u8 list option" where
  "getenv H E w s name =
     (case name of
        None \<Rightarrow> (w, s, None)
      | Some name \<Rightarrow>
          let (w, s) = (if rt_envp s = None then rt_parse_env H E w s else (w, s))
          in case rt_envp s of
               None \<Rightarrow> (w, s, None)
             | Some envp \<Rightarrow> (w, s, env_lookup name envp))"

text \<open>The name goes into a buffer of 256 bytes.\<close>

definition putenv ::
    "'w env_api \<Rightarrow> 'w \<Rightarrow> start_state \<Rightarrow> u8 list \<Rightarrow> 'w \<times> start_state \<times> int" where
  "putenv E w s assignment =
     (if 61 \<notin> set assignment then (w, s, - 1)
      else
        let name = take 255 (takeWhile (\<lambda>c. c \<noteq> 61) assignment);
            val = tl (dropWhile (\<lambda>c. c \<noteq> 61) assignment);
            (w, ok) = SetEnvironmentVariableA E w name (if val \<noteq> [] then Some val else None)
        in if \<not> ok then (w, s, - 1) else (w, s\<lparr>rt_envp := None\<rparr>, 0))"

section \<open>Bounds of the command line\<close>

lemma arg_loop_length:
  "length (snd (arg_loop p quoted out)) + length (fst (arg_loop p quoted out)) \<le> length out + length p"
proof (induction p arbitrary: quoted out rule: arg_induct)
  case (Slashes n q)
  have "length (tl q) \<le> length q" and "(n::nat) div 2 \<le> n" by simp_all
  moreover note Slashes.IH(1) [of quoted "out @ replicate (Suc n) 92"]
    Slashes.IH(2) [of quoted "out @ replicate (Suc n div 2) 92 @ [34]"]
    Slashes.IH(2) [of "\<not> quoted" "out @ replicate (Suc n div 2) 92"]
  ultimately show ?case
    unfolding arg_loop_slashes [OF Slashes.hyps(1)]
    by (cases q) (auto simp del: replicate.simps)
next
  case (Cons c p)
  from Cons.IH [of quoted "out @ [c]"] Cons.IH [of "\<not> quoted" out] Cons.hyps show ?case by auto
qed simp

lemma arg_loop_stops: "fst (arg_loop p quoted out) = [] \<or> blank (hd (fst (arg_loop p quoted out)))"
proof (induction p arbitrary: quoted out rule: arg_induct)
  case (Slashes n q)
  then show ?case unfolding arg_loop_slashes [OF Slashes.hyps(1)] by simp
next
  case (Cons c p)
  then show ?case by simp
qed simp

text \<open>Every argument but the first after the name is paid for by the blank before it.\<close>

lemma args_loop_length:
  "(p = [] \<or> blank (hd p) \<longrightarrow>
      length (fst (args_loop p out argv)) \<le> length out + length p \<and>
      length (snd (args_loop p out argv)) \<le> length argv + length p div 2) \<and>
   length (fst (args_loop p out argv)) \<le> length out + length p + 1 \<and>
   length (snd (args_loop p out argv)) \<le> length argv + (length p + 1) div 2"
proof (induction p out argv rule: args_loop.induct)
  case (1 p out argv)
  define p' where "p' = dropWhile blank p"
  have le: "length p' \<le> length p" by (simp add: p'_def length_dropWhile_le)
  have lt: "p \<noteq> [] \<Longrightarrow> blank (hd p) \<Longrightarrow> length p' < length p"
    by (cases p) (auto simp: p'_def less_Suc_eq_le length_dropWhile_le)
  show ?case
  proof (cases "p' = []")
    case True
    then have "args_loop p out argv = (out, argv)" by (simp add: args_loop.simps p'_def)
    then show ?thesis by simp
  next
    case False
    obtain q out' where a: "arg_loop p' False out = (q, out')" by (cases "arg_loop p' False out")
    obtain c r where cr: "p' = c # r" using False by (auto simp: neq_Nil_conv)
    have "\<not> blank c" using hd_dropWhile [of blank p] False cr by (simp add: p'_def)
    then have q: "length q \<le> length r" using arg_loop_progress [of c r out] a cr by simp
    have total: "length out' + length q \<le> length out + length p'"
      using arg_loop_length [of p' False out] a by simp
    have "q = [] \<or> blank (hd q)" using arg_loop_stops [of p' False out] a by simp
    then have IH: "length (fst (args_loop q (out' @ [0]) (argv @ [length out]))) \<le> length out' + 1 + length q"
      "length (snd (args_loop q (out' @ [0]) (argv @ [length out]))) \<le> length argv + 1 + length q div 2"
      using "1.IH" [OF p'_def False a [symmetric]] by simp_all
    have eq: "args_loop p out argv = args_loop q (out' @ [0]) (argv @ [length out])"
      by (subst args_loop.simps) (simp add: p'_def [symmetric] False a)
    show ?thesis
    proof (intro conjI impI)
      assume "p = [] \<or> blank (hd p)"
      moreover have "p \<noteq> []" using False by (auto simp: p'_def)
      ultimately have "length p' < length p" using lt by blast
      then show "length (fst (args_loop p out argv)) \<le> length out + length p"
        and "length (snd (args_loop p out argv)) \<le> length argv + length p div 2"
        unfolding eq using IH total q cr by auto
    qed (use IH total q cr le in \<open>auto simp: eq\<close>)
  qed
qed

lemma program_name_bounds:
  assumes "program_name cmd = (name, rest)"
  shows "if cmd \<noteq> [] \<and> hd cmd = 34 then length name + 1 + length rest \<le> length cmd \<and>
           (rest = [] \<or> length rest + 2 \<le> length cmd)
    else name @ rest = cmd \<and> (rest = [] \<or> blank (hd rest))"
proof (cases "cmd \<noteq> [] \<and> hd cmd = 34")
  case True
  then obtain q where q: "cmd = 34 # q" by (cases cmd) auto
  have "length (takeWhile (\<lambda>c. c \<noteq> 34) q) + length (dropWhile (\<lambda>c. c \<noteq> 34) q) = length q"
    by (metis length_append takeWhile_dropWhile_id)
  with assms q show ?thesis
    by (cases "34 \<in> set q"; cases "dropWhile (\<lambda>c. c \<noteq> 34) q")
      (auto simp: program_name_def Let_def)
next
  case False
  with assms hd_dropWhile [of "\<lambda>c. \<not> blank c" cmd] show ?thesis
    by (auto simp: program_name_def)
qed

lemma split_cmdline_bounds:
  "split_cmdline cmd = (out, offs) \<Longrightarrow> length out \<le> length cmd + 1 \<and> length offs \<le> (length cmd + 1) div 2 + 1"
proof -
  assume s: "split_cmdline cmd = (out, offs)"
  obtain name rest where n: "program_name cmd = (name, rest)" by (cases "program_name cmd")
  have a: "args_loop rest (name @ [0]) [0] = (out, offs)" using s n by (simp add: split_cmdline_def)
  note b = program_name_bounds [OF n] and l = args_loop_length [of rest "name @ [0]" "[0]", unfolded a]
  show ?thesis
  proof (cases "cmd \<noteq> [] \<and> hd cmd = 34")
    case True
    with b l show ?thesis by (cases "rest = []") auto
  next
    case False
    with b have "length name + length rest = length cmd" by (auto simp flip: length_append)
    with b l False show ?thesis by auto
  qed
qed

section \<open>Quoting\<close>

text \<open>
  How a caller quotes an argument so that the rules above give it back: quotes around it, the
  backslashes before a quote or the end doubled.
\<close>

fun esc :: "nat \<Rightarrow> u8 list \<Rightarrow> u8 list" where
  "esc n [] = replicate (2 * n) 92"
| "esc n (c # s) =
     (if c = 92 then esc (n + 1) s
      else if c = 34 then replicate (2 * n + 1) 92 @ 34 # esc 0 s
      else replicate n 92 @ c # esc 0 s)"

definition quote_arg :: "u8 list \<Rightarrow> u8 list" where
  "quote_arg s = 34 # esc 0 s @ [34]"

definition cmdline :: "u8 list \<Rightarrow> u8 list list \<Rightarrow> u8 list" where
  "cmdline name args = 34 # name @ 34 # concat (map (\<lambda>a. 32 # quote_arg a) args)"

lemma slashes_quote:
  "arg_loop (replicate n 92 @ 34 # r) quoted out =
     (if odd n then arg_loop r quoted (out @ replicate (n div 2) 92 @ [34])
      else arg_loop r (\<not> quoted) (out @ replicate (n div 2) 92))"
proof (cases n)
  case (Suc k)
  then show ?thesis using arg_loop_slashes [of "34 # r" k quoted out] by simp
qed simp

lemma slashes_char:
  assumes "c \<noteq> 34" and "c \<noteq> 92"
  shows "arg_loop (replicate n 92 @ c # r) True out = arg_loop r True (out @ replicate n 92 @ [c])"
proof (cases n)
  case (Suc k)
  then show ?thesis using assms arg_loop_slashes [of "c # r" k True out] by simp
qed (use assms in simp)

lemma arg_loop_esc:
  "arg_loop (esc n s @ 34 # r) True out = arg_loop r False (out @ replicate n 92 @ s)"
proof (induction s arbitrary: n out)
  case Nil
  show ?case by (simp add: slashes_quote)
next
  case (Cons c s)
  consider "c = 92" | "c = 34" | "c \<noteq> 92" "c \<noteq> 34" by blast
  then show ?case
  proof cases
    case 1
    then have "esc n (c # s) = esc (n + 1) s" by simp
    moreover have "replicate n 92 @ c # s = replicate (n + 1) 92 @ s"
      using 1 by (simp add: replicate_app_Cons_same)
    ultimately show ?thesis using Cons [of "n + 1" out] by (simp only:)
  next
    case 2
    then show ?thesis using Cons [of 0] slashes_quote [of "2 * n + 1" "esc 0 s @ 34 # r" True out] by simp
  next
    case 3
    then show ?thesis using Cons [of 0] slashes_char [of c n "esc 0 s @ 34 # r" out] by simp
  qed
qed

fun offsets :: "nat \<Rightarrow> u8 list list \<Rightarrow> nat list" where
  "offsets n [] = []"
| "offsets n (a # as) = n # offsets (n + length a + 1) as"

lemma args_loop_quoted:
  "args_loop (concat (map (\<lambda>a. 32 # quote_arg a) args)) out argv =
     (out @ concat (map (\<lambda>a. a @ [0]) args), argv @ offsets (length out) args)"
proof (induction args arbitrary: out argv)
  case Nil
  show ?case by (simp add: args_loop.simps)
next
  case (Cons a args)
  let ?r = "concat (map (\<lambda>a. 32 # quote_arg a) args)"
  have "arg_loop (quote_arg a @ ?r) False out = arg_loop ?r False (out @ a)"
    using arg_loop_esc [of 0 a ?r out] by (simp add: quote_arg_def)
  also have "\<dots> = (?r, out @ a)" by (cases args) (simp_all)
  finally have "arg_loop (quote_arg a @ ?r) False out = (?r, out @ a)" .
  then have "args_loop (32 # quote_arg a @ ?r) out argv =
      args_loop ?r ((out @ a) @ [0]) (argv @ [length out])"
    by (subst args_loop.simps) (simp add: quote_arg_def)
  then show ?case using Cons [of "(out @ a) @ [0]" "argv @ [length out]"] by (simp add: add.assoc)
qed

text \<open>The strings an argument vector points to.\<close>

definition argv_strings :: "u8 list \<times> nat list \<Rightarrow> u8 list list" where
  "argv_strings v = map (\<lambda>i. takeWhile (\<lambda>c. c \<noteq> 0) (drop i (fst v))) (snd v)"

lemma argv_strings_offsets:
  "\<forall>a\<in>set args. 0 \<notin> set a \<Longrightarrow>
   argv_strings (pre @ concat (map (\<lambda>a. a @ [0]) args), offsets (length pre) args) = args"
proof (induction args arbitrary: pre)
  case (Cons a args)
  have "takeWhile (\<lambda>c. c \<noteq> 0) (a @ 0 # r) = a" for r
    using Cons.prems by (subst takeWhile_append2) auto
  with Cons.IH [of "pre @ a @ [0]"] Cons.prems show ?case
    by (simp add: argv_strings_def add.assoc)
qed (simp add: argv_strings_def)

section \<open>The environment kept by the kernel\<close>

text \<open>
  The kernel's environment as an association list. Names may begin with \<open>=\<close> (the current
  directories of drives do) but hold no other; the block is the assignments, each ended by
  a zero, and one more zero.
\<close>

type_synonym env_vars = "(u8 list \<times> u8 list) list"

definition env_block :: "env_vars \<Rightarrow> u8 list" where
  "env_block vs = concat (map (\<lambda>(n, v). n @ 61 # v @ [0]) vs) @ [0]"

definition env_ok :: "env_vars \<Rightarrow> bool" where
  "env_ok vs \<longleftrightarrow> (\<forall>(n, v)\<in>set vs. n \<noteq> [] \<and> 61 \<notin> set (tl n) \<and> 0 \<notin> set n \<and> 0 \<notin> set v)"

definition env_set :: "env_vars \<Rightarrow> u8 list \<Rightarrow> u8 list option \<Rightarrow> env_vars" where
  "env_set vs n v =
     filter (\<lambda>(m, _). m \<noteq> n) vs @ (case v of None \<Rightarrow> [] | Some v \<Rightarrow> [(n, v)])"

locale env_store =
  fixes E :: "'w env_api" and vars :: "'w \<Rightarrow> env_vars"
  assumes vars_ok: "env_ok (vars w)"
    and block_law: "GetEnvironmentStringsA E w = Some (env_block (vars w))"
    and set_law: "SetEnvironmentVariableA E w n v = (w', r) \<Longrightarrow> n \<noteq> [] \<Longrightarrow> 61 \<notin> set n \<Longrightarrow> 0 \<notin> set n \<Longrightarrow>
      (case v of None \<Rightarrow> True | Some v \<Rightarrow> 0 \<notin> set v) \<Longrightarrow> r \<and> vars w' = env_set (vars w) n v"

lemma env_scan_block: "env_ok vs \<Longrightarrow> env_scan (env_block vs) = map (\<lambda>(n, v). n @ 61 # v) vs"
proof (induction vs)
  case (Cons x vs)
  obtain n v where x: "x = (n, v)" by (cases x)
  have ok: "n \<noteq> []" "0 \<notin> set n" "0 \<notin> set v" "env_ok vs" using Cons.prems by (auto simp: env_ok_def x)
  have b: "env_block (x # vs) = (n @ 61 # v) @ 0 # env_block vs" by (simp add: env_block_def x)
  have "hd (env_block (x # vs)) \<noteq> 0" "env_block (x # vs) \<noteq> []" using ok(1,2) by (cases n; simp add: b)+
  moreover have "takeWhile (\<lambda>c. c \<noteq> 0) (env_block (x # vs)) = n @ 61 # v"
    unfolding b using ok by (subst takeWhile_append2) auto
  moreover have "drop (length (n @ 61 # v) + 1) (env_block (x # vs)) = env_block vs"
    unfolding b by simp
  ultimately show ?case using Cons.IH [OF ok(4)]
    by (subst env_scan.simps) (simp only: if_False simp_thms list.map x prod.case)
qed (simp add: env_block_def env_scan.simps)

lemma env_match_name:
  assumes "n \<noteq> []" and "61 \<notin> set n" and "m \<noteq> []" and "61 \<notin> set (tl m)"
  shows "env_match n (m @ 61 # v) \<longleftrightarrow> m = n"
proof
  assume e: "env_match n (m @ 61 # v)"
  then have t: "take (length n) (m @ 61 # v) = n" and at: "(m @ 61 # v) ! length n = 61"
    by (auto simp: env_match_def)
  have n0: "length n > 0" using assms(1) by simp
  show "m = n"
  proof (cases "length n" "length m" rule: linorder_cases)
    case less
    then have "m ! length n = 61" using at by (simp add: nth_append)
    moreover have "tl m ! (length n - 1) \<in> set (tl m)" 
      by (rule nth_mem, unfold length_tl) (use less n0 in linarith)
    then have "m ! length n \<in> set (tl m)" using less n0 assms(3) by (cases m) (auto simp: nth_Cons')
    ultimately show ?thesis using assms(4) by simp
  next
    case greater
    then have "take (length n) (m @ 61 # v) ! length m = 61" by (simp add: nth_append)
    then have "n ! length m = 61" using t by simp
    with greater assms(2) show ?thesis by (metis nth_mem)
  qed (use t in simp)
qed (simp add: env_match_def)

lemma env_lookup_vars:
  assumes "env_ok vs" and "n \<noteq> []" and "61 \<notin> set n"
  shows "env_lookup n (map (\<lambda>(n, v). n @ 61 # v) vs) = map_of vs n"
  using assms(1)
proof (induction vs)
  case (Cons x vs)
  obtain m v where x: "x = (m, v)" by (cases x)
  have "m \<noteq> []" "61 \<notin> set (tl m)" "env_ok vs" using Cons.prems by (auto simp: env_ok_def x)
  with Cons.IH env_match_name [OF assms(2,3), of m v] show ?case
    by (auto simp: env_lookup_def x)
qed (simp add: env_lookup_def)

lemma map_of_env_set: "map_of (env_set vs n v) n = v"
proof -
  have "map_of (filter (\<lambda>(m, _). m \<noteq> n) vs) n = None"
    by (auto simp: map_of_eq_None_iff)
  then show ?thesis by (cases v) (simp_all add: env_set_def map_add_def)
qed

context env_store begin

lemma getenv_vars:
  assumes "n \<noteq> []" and "61 \<notin> set n" and "rt_envp s = None" and "snd (HeapAlloc H w 0 k) \<noteq> 0"
    and "k = (let m = word_of_nat (length (vars w) + 1) * 8 in if m = 0 then 1 else m)"
  shows "snd (snd (getenv H E w s (Some n))) = map_of (vars w) n"
proof -
  obtain w1 p where m: "malloc H w (word_of_nat (length (vars w) + 1) * 8) = (w1, p)"
    by (cases "malloc H w (word_of_nat (length (vars w) + 1) * 8)")
  have "p \<noteq> 0" using m assms(4,5) by (auto simp: malloc_def Let_def split: if_splits)
  have "getenv H E w s (Some n) =
      (w1, s\<lparr>rt_envp := Some (map (\<lambda>(n, v). n @ 61 # v) (vars w))\<rparr>, map_of (vars w) n)"
    using m \<open>p \<noteq> 0\<close> assms(3)
    by (simp add: getenv_def rt_parse_env_def block_law env_scan_block [OF vars_ok] Let_def
        env_lookup_vars [OF vars_ok assms(1,2)])
  then show ?thesis by simp
qed

lemma putenv_getenv:
  assumes "n \<noteq> []" and "61 \<notin> set n" and "0 \<notin> set n" and "0 \<notin> set v" and "length n \<le> 255"
    and "putenv E w s (n @ 61 # v) = (w', s', r)" and "\<And>w k. snd (HeapAlloc H w 0 k) \<noteq> 0"
  shows "r = 0 \<and> snd (snd (getenv H E w' s' (Some n))) = (if v = [] then None else Some v)"
proof -
  have tw: "takeWhile (\<lambda>c. c \<noteq> 61) (n @ 61 # v) = n" "dropWhile (\<lambda>c. c \<noteq> 61) (n @ 61 # v) = 61 # v"
    using assms(2) by (subst takeWhile_append2, auto, subst dropWhile_append2, auto)
  let ?v = "if v \<noteq> [] then Some v else None"
  obtain w1 ok where st: "SetEnvironmentVariableA E w n ?v = (w1, ok)" by (cases "SetEnvironmentVariableA E w n ?v")
  have law: "ok" "vars w1 = env_set (vars w) n ?v" using set_law [OF st assms(1-3)] assms(4) by auto
  have "w' = w1" "s' = s\<lparr>rt_envp := None\<rparr>" "r = 0"
    using assms(5,6) st law(1) tw by (auto simp: putenv_def)
  with getenv_vars [OF assms(1,2) _ assms(7) refl, of s' w'] law(2) map_of_env_set [of "vars w" n ?v]
  show ?thesis by auto
qed

end

text \<open>A kernel whose state is the environment keeps the contract.\<close>

definition list_env :: "env_vars env_api" where
  "list_env = \<lparr>GetCommandLineA = (\<lambda>w. []), GetEnvironmentStringsA = (\<lambda>w. Some (env_block (filter (\<lambda>x. env_ok [x]) w))),
     SetEnvironmentVariableA = (\<lambda>w n v. (env_set w n v, True))\<rparr>"

interpretation list_env: env_store list_env "filter (\<lambda>x. env_ok [x])"
proof
  show "env_ok (filter (\<lambda>x. env_ok [x]) w)" for w :: env_vars by (auto simp: env_ok_def)
  show "GetEnvironmentStringsA list_env w = Some (env_block (filter (\<lambda>x. env_ok [x]) w))" for w
    by (simp add: list_env_def)
next
  fix w w' :: env_vars and n v r
  assume st: "SetEnvironmentVariableA list_env w n v = (w', r)" and n: "n \<noteq> []" "61 \<notin> set n" "0 \<notin> set n"
    and v: "case v of None \<Rightarrow> True | Some v \<Rightarrow> 0 \<notin> set v"
  have "61 \<notin> set (tl n)" using n(2) by (meson list.set_sel(2) n(1))
  then have "case v of None \<Rightarrow> True | Some u \<Rightarrow> env_ok [(n, u)]"
    using n v by (auto simp: env_ok_def split: option.splits)
  moreover have "filter (\<lambda>x. env_ok [x]) (filter (\<lambda>(m, _). m \<noteq> n) w) =
      filter (\<lambda>(m, _). m \<noteq> n) (filter (\<lambda>x. env_ok [x]) w)"
    by (simp add: conj_commute)
  ultimately show "r \<and> filter (\<lambda>x. env_ok [x]) w' = env_set (filter (\<lambda>x. env_ok [x]) w) n v"
    using st by (auto simp: list_env_def env_set_def split: option.splits)
qed

section \<open>Properties\<close>

text \<open>
  C31. Splitting a command line stays inside the two blocks it has allocated: at most
  \<open>len + 2\<close> bytes go to the pool and, with the closing null pointer, at most \<open>len / 2 + 3\<close>
  pointers to the vector, whatever the command line.
\<close>

theorem cmdline_fits:
  "case split_cmdline cmd of (out, offs) \<Rightarrow>
     length out \<le> length cmd + 2 \<and> length offs + 1 \<le> length cmd div 2 + 3"
  using split_cmdline_bounds [of cmd] by (cases "split_cmdline cmd") auto

text \<open>
  C30. A command line made of a quoted program name and arguments quoted by the documented
  rules splits into exactly that name and those arguments, whatever quotes, blanks and
  backslashes they hold.
\<close>

theorem cmdline_roundtrip:
  assumes "34 \<notin> set name" and "\<forall>a\<in>set (name # args). 0 \<notin> set a"
  shows "argv_strings (split_cmdline (cmdline name args)) = name # args"
proof -
  let ?r = "concat (map (\<lambda>a. 32 # quote_arg a) args)"
  have "takeWhile (\<lambda>c. c \<noteq> 34) (name @ 34 # ?r) = name" "dropWhile (\<lambda>c. c \<noteq> 34) (name @ 34 # ?r) = 34 # ?r"
    using assms(1) by (subst takeWhile_append2, auto, subst dropWhile_append2, auto)
  then have "program_name (cmdline name args) = (name, ?r)"
    by (simp add: program_name_def cmdline_def)
  then have "split_cmdline (cmdline name args) =
      ([] @ concat (map (\<lambda>a. a @ [0]) (name # args)), offsets (length ([] :: u8 list)) (name # args))"
    by (simp add: split_cmdline_def args_loop_quoted)
  then show ?thesis using argv_strings_offsets [OF assms(2), of "[]"] by (simp only:)
qed

lemma eval_repl: "replicate 2 x = [x, x]" "replicate 3 x = [x, x, x]"
  by (simp_all add: numeral_eq_Suc)

lemma cmdline_roundtrip_witness:
  "argv_strings (split_cmdline (34 # 97 # 34 # 32 # 34 # 92 # 92 # 92 # 34 # 32 # 92 # 92 # [34])) =
     [[97], [92, 34, 32, 92]]"
  using cmdline_roundtrip [of "[97]" "[[92, 34, 32, 92]]"]
  by (simp add: cmdline_def quote_arg_def eval_repl)


definition ok_heap :: "'w heap_api" where
  "ok_heap = \<lparr>HeapAlloc = (\<lambda>w flags n. (w, 16)), HeapReAlloc = (\<lambda>w flags p n. (w, p)),
     HeapFree = (\<lambda>w flags p. w)\<rparr>"


end
