(* ===== verification/StdioApi.thy ===== *)
theory StdioApi
  imports Stdio Startup
begin

text \<open>
  The library functions of \<open>rt/rt_stdio.c\<close> on the whole state: the kernel, the three
  static streams, the streams on the heap by address and the chain \<open>rt_open_files\<close>,
  newest first. \<open>None\<close> is an access through a dangling or null \<open>FILE *\<close> that the code does
  not test for.
\<close>

section \<open>The state\<close>

datatype fptr = FNull | FStdin | FStdout | FStderr | FOpen u64

record 'w rt_io =
  io_os :: 'w
  io_stdin :: stream
  io_stdout :: stream
  io_stderr :: stream
  io_ready :: bool
  io_heap :: "u64 \<rightharpoonup> stream"
  io_open :: "u64 list"

definition deref :: "'w rt_io \<Rightarrow> fptr \<Rightarrow> stream option" where
  "deref s fp =
     (case fp of FNull \<Rightarrow> None | FStdin \<Rightarrow> Some (io_stdin s) | FStdout \<Rightarrow> Some (io_stdout s)
      | FStderr \<Rightarrow> Some (io_stderr s) | FOpen p \<Rightarrow> io_heap s p)"

definition store :: "'w rt_io \<Rightarrow> fptr \<Rightarrow> stream \<Rightarrow> 'w rt_io" where
  "store s fp f =
     (case fp of FNull \<Rightarrow> s | FStdin \<Rightarrow> s\<lparr>io_stdin := f\<rparr> | FStdout \<Rightarrow> s\<lparr>io_stdout := f\<rparr>
      | FStderr \<Rightarrow> s\<lparr>io_stderr := f\<rparr> | FOpen p \<Rightarrow> s\<lparr>io_heap := (io_heap s)(p \<mapsto> f)\<rparr>)"

text \<open>Running an operation of one stream on the stream \<open>fp\<close> points to.\<close>

definition on_file ::
    "('w \<Rightarrow> stream \<Rightarrow> 'w \<times> stream \<times> 'r) \<Rightarrow> 'w rt_io \<Rightarrow> fptr \<Rightarrow> ('w rt_io \<times> 'r) option" where
  "on_file act s fp =
     do { f \<leftarrow> deref s fp;
          let (w, f, r) = act (io_os s) f
          in Some (store (s\<lparr>io_os := w\<rparr>) fp f, r) }"

definition rt_std_init :: "'w file_api \<Rightarrow> 'w rt_io \<Rightarrow> 'w rt_io" where
  "rt_std_init F s =
     (if io_ready s then s
      else
        let h0 = GetStdHandle F (io_os s) (- 10); h1 = GetStdHandle F (io_os s) (- 11);
            h2 = GetStdHandle F (io_os s) (- 12)
        in s\<lparr>io_ready := True,
             io_stdin := (io_stdin s)\<lparr>f_h := h0, f_mode := F_READ, f_buf := Some (replicate RT_BUFSZ 0),
               f_cap := RT_BUFSZ, f_bufmode := BUF_FULL, f_ungot := - 1, f_is_std := True\<rparr>,
             io_stdout := (io_stdout s)\<lparr>f_h := h1, f_mode := F_WRITE,
               f_buf := Some (replicate RT_BUFSZ 0), f_cap := RT_BUFSZ,
               f_bufmode := (if GetFileType F (io_os s) h1 = 2 then BUF_LINE else BUF_FULL),
               f_ungot := - 1, f_is_std := True\<rparr>,
             io_stderr := (io_stderr s)\<lparr>f_h := h2, f_mode := F_WRITE, f_buf := None, f_cap := 0,
               f_bufmode := BUF_NONE, f_ungot := - 1, f_is_std := True\<rparr>\<rparr>)"

definition iob :: "'w file_api \<Rightarrow> 'w rt_io \<Rightarrow> int \<Rightarrow> 'w rt_io \<times> fptr" where
  "iob F s idx =
     (rt_std_init F s, if idx = 0 then FStdin else if idx = 1 then FStdout else FStderr)"

section \<open>Opening and closing\<close>

text \<open>
  A fresh FILE. The bytes of a new buffer are whatever the heap held; none is read before it
  is written.
\<close>

definition new_stream :: "handle \<Rightarrow> u32 \<Rightarrow> u64 \<Rightarrow> handle \<Rightarrow> stream" where
  "new_stream h fmode b child =
     \<lparr>f_h = h, f_mode = fmode, f_dir = DIR_IDLE, f_err = False, f_eof = False,
      f_bufmode = BUF_FULL, f_buf = (if b \<noteq> 0 then Some (replicate RT_BUFSZ 0) else None),
      f_bufp = b, f_cap = (if b \<noteq> 0 then RT_BUFSZ else 0), f_len = 0, f_pos = 0,
      f_ungot = - 1, f_is_std = False, f_proc = child\<rparr>"

definition FILE_SIZE :: u64 where
  "FILE_SIZE = 80"

text \<open>The mode string: \<open>fmode\<close>, the access mask and the disposition.\<close>

definition open_mode :: "u8 list \<Rightarrow> (u32 \<times> u32 \<times> u32) option" where
  "open_mode mode =
     (let plus = 43 \<in> set mode; m0 = (if mode = [] then 0 else hd mode);
          rw = (\<lambda>one. if plus then F_READ OR F_WRITE else one);
          acc = (\<lambda>one. if plus then 0x80000000 OR 0x40000000 else one)
      in if m0 = 114 then Some (rw F_READ, acc 0x80000000, 3)
         else if m0 = 119 then Some (rw F_WRITE, acc 0x40000000, 2)
         else if m0 = 97 then Some (rw F_WRITE OR F_APPEND, acc 0x40000000, 4)
         else None)"

definition fopen ::
    "'w heap_api \<Rightarrow> 'w file_api \<Rightarrow> 'w rt_io \<Rightarrow> u8 list \<Rightarrow> u8 list \<Rightarrow> 'w rt_io \<times> fptr" where
  "fopen H F s path mode =
     (case open_mode mode of
        None \<Rightarrow> (s, FNull)
      | Some (fmode, acc, disp) \<Rightarrow>
          let (w, h) = CreateFileA F (io_os s) path acc (1 OR 2) disp 0x80
          in if h = - 1 then (s\<lparr>io_os := w\<rparr>, FNull)
             else
               let (w, p) = malloc H w FILE_SIZE
               in if p = 0 then (s\<lparr>io_os := CloseHandle F w h\<rparr>, FNull)
                  else
                    let (w, b) = malloc H w (word_of_nat RT_BUFSZ);
                        w = (if fmode AND F_APPEND \<noteq> 0
                             then fst (SetFilePointerEx F w h 0 2) else w);
                        s = rt_std_init F (s\<lparr>io_os := w\<rparr>)
                    in (s\<lparr>io_heap := (io_heap s)(p \<mapsto> new_stream h fmode b 0),
                         io_open := p # io_open s\<rparr>, FOpen p))"

text \<open>Taking a stream out of the chain (\<open>remove1\<close>: the first entry) and freeing it.\<close>

definition drop_file :: "'w heap_api \<Rightarrow> 'w rt_io \<Rightarrow> u64 \<Rightarrow> u64 \<Rightarrow> 'w rt_io" where
  "drop_file H s p bufp =
     s\<lparr>io_open := remove1 p (io_open s), io_os := free H (free H (io_os s) bufp) p,
       io_heap := (io_heap s)(p := None)\<rparr>"

definition fclose ::
    "'w heap_api \<Rightarrow> 'w file_api \<Rightarrow> 'w proc_api \<Rightarrow> 'w rt_io \<Rightarrow> fptr \<Rightarrow> ('w rt_io \<times> int) option" where
  "fclose H F P s fp =
     (if fp = FNull then Some (s, RT_EOF)
      else do {
        (s, r) \<leftarrow> on_file (rt_flush_write F) s fp;
        f \<leftarrow> deref s fp;
        if f_is_std f then Some (s, r)
        else
          let w = CloseHandle F (io_os s) (f_h f);
              w = (if f_proc f \<noteq> 0
                   then CloseHandle F (WaitForSingleObject P w (f_proc f) 0xFFFFFFFF) (f_proc f)
                   else w)
          in case fp of
               FOpen p \<Rightarrow> Some (drop_file H (s\<lparr>io_os := w\<rparr>) p (f_bufp f), r)
             | _ \<Rightarrow> None })"

section \<open>Flushing\<close>

fun flush_chain :: "'w file_api \<Rightarrow> 'w rt_io \<Rightarrow> u64 list \<Rightarrow> 'w rt_io option" where
  "flush_chain F s [] = Some s"
| "flush_chain F s (p # ps) =
     do { (s, r) \<leftarrow> on_file (rt_flush_write F) s (FOpen p); flush_chain F s ps }"

definition stdio_flush_all :: "'w file_api \<Rightarrow> 'w rt_io \<Rightarrow> 'w rt_io option" where
  "stdio_flush_all F s =
     (if \<not> io_ready s then Some s
      else do { (s, r) \<leftarrow> on_file (rt_flush_write F) s FStdout;
                (s, r) \<leftarrow> on_file (rt_flush_write F) s FStderr;
                flush_chain F s (io_open s) })"

definition fflush :: "'w file_api \<Rightarrow> 'w rt_io \<Rightarrow> fptr \<Rightarrow> ('w rt_io \<times> int) option" where
  "fflush F s fp =
     (if fp = FNull then do { s \<leftarrow> stdio_flush_all F s; Some (s, 0) }
      else on_file (rt_flush_write F) s fp)"

text \<open>The end of the program: \<open>ExitProcess\<close>, \<open>exit\<close> and \<open>abort\<close> of \<open>rt/rt_start.c\<close>.\<close>

definition ExitProcess ::
    "'w file_api \<Rightarrow> 'w proc_api \<Rightarrow> 'w rt_io \<Rightarrow> u32 \<Rightarrow> 'w rt_io option" where
  "ExitProcess F P s code =
     do { s \<leftarrow> stdio_flush_all F s; Some (s\<lparr>io_os := TerminateProcess P (io_os s) code\<rparr>) }"

definition exit :: "'w file_api \<Rightarrow> 'w proc_api \<Rightarrow> 'w rt_io \<Rightarrow> int \<Rightarrow> 'w rt_io option" where
  "exit F P s code = ExitProcess F P s (word_of_int code)"

definition abort :: "'w file_api \<Rightarrow> 'w proc_api \<Rightarrow> 'w rt_io \<Rightarrow> 'w rt_io option" where
  "abort F P s = ExitProcess F P s 3"

section \<open>Reading and writing\<close>

text \<open>The bytes \<open>fread\<close> stores come back with its count.\<close>

definition fread ::
    "'w file_api \<Rightarrow> 'w rt_io \<Rightarrow> u64 \<Rightarrow> u64 \<Rightarrow> fptr \<Rightarrow> ('w rt_io \<times> u8 list \<times> nat) option" where
  "fread F s sz num fp =
     (if sz * num = 0 \<or> fp = FNull then Some (s, [], 0)
      else on_file (\<lambda>w f. fread_stream F w f sz num) s fp)"

definition fwrite ::
    "'w file_api \<Rightarrow> 'w rt_io \<Rightarrow> u8 list \<Rightarrow> u64 \<Rightarrow> u64 \<Rightarrow> fptr \<Rightarrow> ('w rt_io \<times> u64) option" where
  "fwrite F s src sz num fp =
     (let n = unat (sz * num)
      in if n = 0 \<or> fp = FNull then Some (s, 0)
         else if length src < n then None
         else do { (s, ok) \<leftarrow> on_file (\<lambda>w f. rt_putbytes F w f (take n src)) s fp;
                   Some (s, if ok then num else 0) })"

definition fseek :: "'w file_api \<Rightarrow> 'w rt_io \<Rightarrow> fptr \<Rightarrow> int \<Rightarrow> int \<Rightarrow> ('w rt_io \<times> int) option" where
  "fseek F s fp off whence =
     (if fp = FNull then Some (s, - 1)
      else on_file (\<lambda>w f. fseek_stream F w f off whence) s fp)"

definition ftell :: "'w file_api \<Rightarrow> 'w rt_io \<Rightarrow> fptr \<Rightarrow> ('w rt_io \<times> int) option" where
  "ftell F s fp = (if fp = FNull then Some (s, - 1) else on_file (ftell_stream F) s fp)"

definition rewind :: "'w file_api \<Rightarrow> 'w rt_io \<Rightarrow> fptr \<Rightarrow> 'w rt_io option" where
  "rewind F s fp =
     (if fp = FNull then Some s
      else map_option fst (on_file (\<lambda>w f. let (w, f) = rewind_stream F w f in (w, f, ())) s fp))"

definition feof :: "'w rt_io \<Rightarrow> fptr \<Rightarrow> int option" where
  "feof s fp = (if fp = FNull then Some 0 else map_option (\<lambda>f. of_bool (f_eof f)) (deref s fp))"

definition ferror :: "'w rt_io \<Rightarrow> fptr \<Rightarrow> int option" where
  "ferror s fp = (if fp = FNull then Some 0 else map_option (\<lambda>f. of_bool (f_err f)) (deref s fp))"

definition clearerr :: "'w rt_io \<Rightarrow> fptr \<Rightarrow> 'w rt_io option" where
  "clearerr s fp =
     (if fp = FNull then Some s
      else map_option (\<lambda>f. store s fp (f\<lparr>f_err := False, f_eof := False\<rparr>)) (deref s fp))"

definition setvbuf :: "'w rt_io \<Rightarrow> fptr \<Rightarrow> int \<Rightarrow> ('w rt_io \<times> int) option" where
  "setvbuf s fp mode =
     (if fp = FNull then Some (s, - 1)
      else on_file (\<lambda>w f. let (f, r) = setvbuf_stream f mode in (w, f, r)) s fp)"

definition fgetc :: "'w file_api \<Rightarrow> 'w rt_io \<Rightarrow> fptr \<Rightarrow> ('w rt_io \<times> int) option" where
  "fgetc F s fp = on_file (rt_getbyte F) s fp"

definition getc :: "'w file_api \<Rightarrow> 'w rt_io \<Rightarrow> fptr \<Rightarrow> ('w rt_io \<times> int) option" where
  "getc F s fp = on_file (rt_getbyte F) s fp"

definition getchar :: "'w file_api \<Rightarrow> 'w rt_io \<Rightarrow> ('w rt_io \<times> int) option" where
  "getchar F s = on_file (rt_getbyte F) (rt_std_init F s) FStdin"

definition ungetc :: "'w rt_io \<Rightarrow> int \<Rightarrow> fptr \<Rightarrow> ('w rt_io \<times> int) option" where
  "ungetc s c fp =
     (if fp = FNull \<or> c = RT_EOF then Some (s, RT_EOF)
      else on_file (\<lambda>w f. let (f, r) = ungetc_stream c f in (w, f, r)) s fp)"

text \<open>\<open>out\<close> is the destination's address; the result is it or the null pointer.\<close>

definition fgets ::
    "'w file_api \<Rightarrow> 'w rt_io \<Rightarrow> u64 \<Rightarrow> int \<Rightarrow> fptr \<Rightarrow> ('w rt_io \<times> u64 \<times> u8 list) option" where
  "fgets F s out n fp =
     (if out = 0 \<or> n \<le> 0 then Some (s, 0, [])
      else do { (s, r) \<leftarrow> on_file (\<lambda>w f. fgets_stream F w f n) s fp;
                case r of None \<Rightarrow> Some (s, 0, []) | Some bs \<Rightarrow> Some (s, out, bs) })"

definition fputc :: "'w file_api \<Rightarrow> 'w rt_io \<Rightarrow> int \<Rightarrow> fptr \<Rightarrow> ('w rt_io \<times> int) option" where
  "fputc F s c fp =
     (if fp = FNull then Some (s, RT_EOF) else on_file (\<lambda>w f. fputc_stream F w f c) s fp)"

definition putc :: "'w file_api \<Rightarrow> 'w rt_io \<Rightarrow> int \<Rightarrow> fptr \<Rightarrow> ('w rt_io \<times> int) option" where
  "putc F s c fp = fputc F s c fp"

definition putchar :: "'w file_api \<Rightarrow> 'w rt_io \<Rightarrow> int \<Rightarrow> ('w rt_io \<times> int) option" where
  "putchar F s c = fputc F (rt_std_init F s) c FStdout"

definition fputs :: "'w file_api \<Rightarrow> 'w rt_io \<Rightarrow> u8 list \<Rightarrow> fptr \<Rightarrow> ('w rt_io \<times> int) option" where
  "fputs F s str fp =
     (if fp = FNull then Some (s, RT_EOF) else on_file (\<lambda>w f. fputs_stream F w f str) s fp)"

definition puts :: "'w file_api \<Rightarrow> 'w rt_io \<Rightarrow> u8 list \<Rightarrow> ('w rt_io \<times> int) option" where
  "puts F s str =
     do { (s, r) \<leftarrow> fputs F (rt_std_init F s) str FStdout;
          if r < 0 then Some (s, RT_EOF)
          else do { (s, r) \<leftarrow> fputc F s 10 FStdout;
                    Some (s, if r < 0 then RT_EOF else 0) } }"

section \<open>Files by name and descriptors\<close>

definition remove_file :: "'w file_api \<Rightarrow> 'w rt_io \<Rightarrow> u8 list \<Rightarrow> 'w rt_io \<times> int" where
  "remove_file F s path =
     (let (w, ok) = DeleteFileA F (io_os s) path in (s\<lparr>io_os := w\<rparr>, if ok then 0 else - 1))"

definition unlink :: "'w file_api \<Rightarrow> 'w rt_io \<Rightarrow> u8 list \<Rightarrow> 'w rt_io \<times> int" where
  "unlink F s path = remove_file F s path"

definition rename :: "'w file_api \<Rightarrow> 'w rt_io \<Rightarrow> u8 list \<Rightarrow> u8 list \<Rightarrow> 'w rt_io \<times> int" where
  "rename F s old new =
     (let (w, ok) = MoveFileExA F (io_os s) old new (1 OR 2)
      in (s\<lparr>io_os := w\<rparr>, if ok then 0 else - 1))"

definition fileno :: "'w file_api \<Rightarrow> 'w rt_io \<Rightarrow> fptr \<Rightarrow> 'w rt_io \<times> int" where
  "fileno F s fp =
     (rt_std_init F s,
      case fp of FStdin \<Rightarrow> 0 | FStdout \<Rightarrow> 1 | FStderr \<Rightarrow> 2 | _ \<Rightarrow> 3)"

definition isatty :: "'w file_api \<Rightarrow> 'w rt_io \<Rightarrow> int \<Rightarrow> 'w rt_io \<times> bool" where
  "isatty F s fd =
     (let s = rt_std_init F s;
          console = (\<lambda>f. GetFileType F (io_os s) (f_h f) = 2)
      in (s, if fd = 0 then console (io_stdin s) else if fd = 1 then console (io_stdout s)
             else if fd = 2 then console (io_stderr s) else False))"

definition access :: "'w file_api \<Rightarrow> 'w rt_io \<Rightarrow> u8 list \<Rightarrow> int \<Rightarrow> int" where
  "access F s path mode =
     (let attrs = GetFileAttributesA F (io_os s) path
      in if attrs = 0xFFFFFFFF then - 1
         else if mode AND 2 \<noteq> 0 \<and> attrs AND 1 \<noteq> 0 then - 1 else 0)"

section \<open>Pipes to a child process\<close>

text \<open>
  The first loop stops with eight bytes of room, the second with one; \<open>shell\<close> is what
  \<open>getenv\<close> gave for \<open>COMSPEC\<close>. The result is what is stored before the terminator.
\<close>

definition rt_popen_cmdline :: "u8 list option \<Rightarrow> u8 list \<Rightarrow> nat \<Rightarrow> u8 list" where
  "rt_popen_cmdline shell command cap =
     (let shell = (case shell of None \<Rightarrow> lit ''cmd.exe'' | Some sh \<Rightarrow> sh);
          out = take (cap - 8) shell @ lit '' /c ''
      in out @ take (cap - 1 - length out) command)"

definition popen ::
    "'w heap_api \<Rightarrow> 'w file_api \<Rightarrow> 'w proc_api \<Rightarrow> 'w env_api \<Rightarrow> 'w rt_io \<times> start_state \<Rightarrow>
     u8 list option \<Rightarrow> u8 list option \<Rightarrow> (('w rt_io \<times> start_state) \<times> fptr) option" where
  "popen H F P E = (\<lambda>(s, st) command mode.
     (case (command, mode) of
        (Some command, Some mode) \<Rightarrow>
          let m0 = (if mode = [] then 0 else hd mode); reading = (m0 = 114)
          in if m0 \<noteq> 114 \<and> m0 \<noteq> 119 then Some ((s, st), FNull)
             else
               let s = rt_std_init F s; (w, pipe) = CreatePipe P (io_os s) True
               in (case pipe of
                     None \<Rightarrow> Some ((s\<lparr>io_os := w\<rparr>, st), FNull)
                   | Some (rd, wr) \<Rightarrow>
                       let ours = (if reading then rd else wr);
                           theirs = (if reading then wr else rd);
                           w = SetHandleInformation P w ours 1 0;
                           si = \<lparr>si_flags = 0x100,
                                 si_input = (if reading then f_h (io_stdin s) else theirs),
                                 si_output = (if reading then theirs else f_h (io_stdout s)),
                                 si_error = f_h (io_stderr s)\<rparr>;
                           (w, st, shell) = getenv H E w st (Some (lit ''COMSPEC''));
                           cmd = rt_popen_cmdline shell command 4096
                       in do {
                         s \<leftarrow> stdio_flush_all F (s\<lparr>io_os := w\<rparr>);
                         (let (w, child) = CreateProcessA P (io_os s) cmd si
                         in (case child of
                               None \<Rightarrow>
                                 Some ((s\<lparr>io_os := CloseHandle F (CloseHandle F w rd) wr\<rparr>, st), FNull)
                             | Some info \<Rightarrow>
                                 let w = CloseHandle F (CloseHandle F w theirs) (pi_thread info);
                                     (w, p) = malloc H w FILE_SIZE
                                 in if p = 0
                                    then let w = CloseHandle F w ours;
                                             w = WaitForSingleObject P w (pi_process info) 0xFFFFFFFF;
                                             w = CloseHandle F w (pi_process info)
                                         in Some ((s\<lparr>io_os := w\<rparr>, st), FNull)
                                    else
                                      let (w, b) = malloc H w (word_of_nat RT_BUFSZ);
                                          f = new_stream ours (if reading then F_READ else F_WRITE) b
                                                (pi_process info)
                                      in Some ((s\<lparr>io_os := w, io_heap := (io_heap s)(p \<mapsto> f),
                                                  io_open := p # io_open s\<rparr>, st), FOpen p))) })
      | _ \<Rightarrow> Some ((s, st), FNull)))"

definition pclose ::
    "'w heap_api \<Rightarrow> 'w file_api \<Rightarrow> 'w proc_api \<Rightarrow> 'w rt_io \<Rightarrow> fptr \<Rightarrow> ('w rt_io \<times> int) option" where
  "pclose H F P s fp =
     (if fp = FNull then Some (s, - 1)
      else do {
        (s, r) \<leftarrow> on_file (rt_flush_write F) s fp;
        f \<leftarrow> deref s fp;
        (let w = CloseHandle F (io_os s) (f_h f)
        in case fp of
             FOpen p \<Rightarrow>
               let s = drop_file H (s\<lparr>io_os := w\<rparr>) p (f_bufp f)
               in if f_proc f = 0 then Some (s, - 1)
                  else
                    let w = WaitForSingleObject P (io_os s) (f_proc f) 0xFFFFFFFF;
                        code = (case GetExitCodeProcess P w (f_proc f) of None \<Rightarrow> - 1 | Some c \<Rightarrow> c);
                        w = CloseHandle F w (f_proc f)
                    in Some (s\<lparr>io_os := w\<rparr>, sint code)
           | _ \<Rightarrow> None) })"

end
