(* ===== verification/StdioSpec.thy ===== *)
theory StdioSpec
  imports Stdio
begin

text \<open>
  What the streams of \<open>Stdio\<close> promise over a kernel that keeps the contract
  \<open>disk_file\<close>: the stream is a file with one position, whatever sits in its buffer. \<open>d\<close>
  and \<open>q\<close> are the contents and the position the kernel has.
\<close>

section \<open>Splicing\<close>

lemma splice_Nil [simp]: "splice d p [] = d"
  by (simp add: splice_def)

lemma length_splice: "bs \<noteq> [] \<Longrightarrow> length (splice d p bs) = max (length d) (p + length bs)"
  by (auto simp: splice_def)

lemma nth_splice: "i < length (splice d p bs) \<Longrightarrow> splice d p bs ! i =
    (if bs \<noteq> [] \<and> p \<le> i \<and> i < p + length bs then bs ! (i - p)
     else if i < length d then d ! i else 0)"
  by (auto simp: splice_def nth_append min_def)

lemma splice_append: "splice (splice d p a) (p + length a) b = splice d p (a @ b)"
proof (cases "a = [] \<or> b = []")
  case False
  then have la: "length (splice d p a) = max (length d) (p + length a)" by (simp add: length_splice)
  have lb: "length (splice (splice d p a) (p + length a) b) = max (length d) (p + length a + length b)"
    using False la by (simp add: length_splice)
  have lab: "length (splice d p (a @ b)) = max (length d) (p + length a + length b)"
    using False by (simp add: length_splice)
  show ?thesis
  proof (rule nth_equalityI)
    fix i assume i: "i < length (splice (splice d p a) (p + length a) b)"
    then have i': "i < length (splice d p (a @ b))" using lb lab by simp
    show "splice (splice d p a) (p + length a) b ! i = splice d p (a @ b) ! i"
      using i i' False la lb by (auto simp: nth_splice nth_append)
  qed (use lb lab in simp)
qed auto

text \<open>
  \<open>pushed_out d q X d' q' Y\<close>: of the bytes \<open>X\<close> due at the file's position, a front part
  has been written and \<open>Y\<close> is the rest.
\<close>

definition pushed_out :: "u8 list \<Rightarrow> nat \<Rightarrow> u8 list \<Rightarrow> u8 list \<Rightarrow> nat \<Rightarrow> u8 list \<Rightarrow> bool" where
  "pushed_out d q X d' q' Y \<longleftrightarrow>
     (\<exists>k\<le>length X. d' = splice d q (take k X) \<and> q' = q + k \<and> Y = drop k X)"

lemma pushed_none [simp]: "pushed_out d q X d q X"
  unfolding pushed_out_def by (rule exI [of _ 0]) simp

lemma pushed_all: "pushed_out d q X (splice d q X) (q + length X) []"
  unfolding pushed_out_def by (rule exI [of _ "length X"]) simp

lemma pushed_trans:
  assumes "pushed_out d q X d1 q1 Y" and "pushed_out d1 q1 (Y @ b) d2 q2 Z"
  shows "pushed_out d q (X @ b) d2 q2 Z"
proof -
  obtain k where k: "k \<le> length X" "d1 = splice d q (take k X)" "q1 = q + k" "Y = drop k X"
    using assms(1) unfolding pushed_out_def by blast
  obtain j where j: "j \<le> length (Y @ b)" "d2 = splice d1 q1 (take j (Y @ b))" "q2 = q1 + j"
      "Z = drop j (Y @ b)"
    using assms(2) unfolding pushed_out_def by blast
  have Yb: "Y @ b = drop k (X @ b)" and tk: "take k X = take k (X @ b)" using k by simp_all
  have "d2 = splice d q (take k X @ take j (Y @ b))"
    using splice_append [of d q "take k X" "take j (Y @ b)"] j k by simp
  also have "take k X @ take j (Y @ b) = take (k + j) (X @ b)"
    unfolding Yb tk by (simp only: take_add)
  finally have "d2 = splice d q (take (k + j) (X @ b))" .
  moreover have "k + j \<le> length (X @ b)" using j(1) k(1) k(4) by simp
  moreover have "Z = drop (k + j) (X @ b)" unfolding j(4) Yb by (simp only: drop_drop add.commute)
  ultimately show ?thesis unfolding pushed_out_def using j(3) k(3) by (intro exI [of _ "k + j"]) simp
qed

lemma pushed_view:
  "pushed_out d q X d' q' Y \<Longrightarrow> splice d' q' Y = splice d q X \<and> q' + length Y = q + length X"
  unfolding pushed_out_def using splice_append by (metis add.assoc append_take_drop_id length_append length_take min.absorb2)

section \<open>The invariant and the view\<close>

definition pushback :: "stream \<Rightarrow> nat" where
  "pushback f = (if f_ungot f \<ge> 0 then 1 else 0)"

definition unread :: "stream \<Rightarrow> nat" where
  "unread f = f_len f - f_pos f"

fun buf_ok :: "u8 list option \<Rightarrow> nat \<Rightarrow> bool" where
  "buf_ok None cap \<longleftrightarrow> cap = 0"
| "buf_ok (Some b) cap \<longleftrightarrow> length b = cap \<and> cap = RT_BUFSZ"

definition stream_inv :: "u8 list \<Rightarrow> nat \<Rightarrow> stream \<Rightarrow> bool" where
  "stream_inv d q f \<longleftrightarrow>
     buf_ok (f_buf f) (f_cap f) \<and>
     f_pos f \<le> f_len f \<and> f_len f \<le> f_cap f \<and> - 1 \<le> f_ungot f \<and> f_ungot f < 256 \<and>
     (case f_dir f of
        DIR_IDLE \<Rightarrow> f_len f = 0 \<and> f_ungot f = - 1
      | DIR_READ \<Rightarrow> unread f + pushback f \<le> q \<and>
          buf_read f (unread f) = take (unread f) (drop (q - unread f) d)
      | DIR_WRITE \<Rightarrow> f_pos f = 0 \<and> f_ungot f = - 1 \<and> (f_bufmode f = BUF_NONE \<longrightarrow> f_len f = 0))"

text \<open>The contents and position a program sees.\<close>

definition stream_view :: "u8 list \<Rightarrow> nat \<Rightarrow> stream \<Rightarrow> u8 list \<times> nat" where
  "stream_view d q f =
     (case f_dir f of
        DIR_IDLE \<Rightarrow> (d, q)
      | DIR_READ \<Rightarrow> (d, q - (unread f + pushback f))
      | DIR_WRITE \<Rightarrow> (splice d q (pending f), q + f_len f))"

lemma length_pending: "stream_inv d q f \<Longrightarrow> length (pending f) = f_len f"
  by (cases "f_buf f") (auto simp: stream_inv_def pending_def)

lemma buf_append_pending:
  "length b = f_cap f \<Longrightarrow> f_buf f = Some b \<Longrightarrow> f_len f + length p \<le> f_cap f \<Longrightarrow>
   pending (buf_append f p) = pending f @ p"
  by (simp add: pending_def buf_append_def)

text \<open>What stays the same in every operation.\<close>

definition same_file :: "stream \<Rightarrow> stream \<Rightarrow> bool" where
  "same_file f f' \<longleftrightarrow> f_h f' = f_h f \<and> f_mode f' = f_mode f \<and> f_bufmode f' = f_bufmode f \<and>
     f_cap f' = f_cap f \<and> (f_buf f' = None \<longleftrightarrow> f_buf f = None) \<and> (f_err f \<longrightarrow> f_err f')"

lemma same_file_refl [simp]: "same_file f f"
  by (simp add: same_file_def)

lemma same_file_trans: "same_file f f1 \<Longrightarrow> same_file f1 f2 \<Longrightarrow> same_file f f2"
  by (auto simp: same_file_def)

text \<open>
  \<open>writes d q f p d' q' f' ok\<close>: the bytes \<open>p\<close> have gone to the stream, behind those that
  were pending. On failure the error flag is up and the file has a front part of them.
\<close>

definition writes ::
    "u8 list \<Rightarrow> nat \<Rightarrow> stream \<Rightarrow> u8 list \<Rightarrow> u8 list \<Rightarrow> nat \<Rightarrow> stream \<Rightarrow> bool \<Rightarrow> bool" where
  "writes d q f p d' q' f' ok \<longleftrightarrow>
     stream_inv d' q' f' \<and> same_file f f' \<and> f_dir f' = DIR_WRITE \<and>
     (\<exists>Y. pushed_out d q (pending f @ p) d' q' Y \<and> (if ok then Y = pending f' else f_err f'))"

lemma writes_trans:
  assumes "writes d q f a d1 q1 f1 True" and "writes d1 q1 f1 b d2 q2 f2 ok"
  shows "writes d q f (a @ b) d2 q2 f2 ok"
proof -
  have p1: "pushed_out d q (pending f @ a) d1 q1 (pending f1)" using assms(1) by (simp add: writes_def)
  obtain Y where Y: "pushed_out d1 q1 (pending f1 @ b) d2 q2 Y" "if ok then Y = pending f2 else f_err f2"
    using assms(2) unfolding writes_def by blast
  have "pushed_out d q (pending f @ a @ b) d2 q2 Y" using pushed_trans [OF p1 Y(1)] by simp
  moreover have "same_file f f2" using assms same_file_trans unfolding writes_def by blast
  ultimately show ?thesis using assms(2) Y(2) unfolding writes_def by blast
qed

lemma writes_fail:
  assumes "writes d q f a d1 q1 f1 False"
  shows "writes d q f (a @ b) d1 q1 f1 False"
proof -
  obtain Y where "pushed_out d q (pending f @ a) d1 q1 Y" using assms by (auto simp: writes_def)
  from pushed_trans [OF this pushed_none, of b] show ?thesis using assms by (auto simp: writes_def)
qed

lemma writes_nothing: "stream_inv d q f \<Longrightarrow> f_dir f = DIR_WRITE \<Longrightarrow> writes d q f [] d q f True"
  by (simp add: writes_def)

lemma writes_append:
  assumes "stream_inv d q f" and "f_dir f = DIR_WRITE" and "f_bufmode f \<noteq> BUF_NONE"
    and "f_buf f \<noteq> None" and "f_len f + length p \<le> f_cap f"
  shows "writes d q f p d q (buf_append f p) True"
proof -
  obtain b where b: "f_buf f = Some b" using assms(4) by blast
  then have lb: "length b = f_cap f" using assms(1) by (simp add: stream_inv_def)
  then have "pending (buf_append f p) = pending f @ p" using buf_append_pending assms(5) b by simp
  moreover have "stream_inv d q (buf_append f p)"
    using assms b lb by (auto simp: stream_inv_def buf_append_def)
  moreover have "same_file f (buf_append f p)" "f_dir (buf_append f p) = DIR_WRITE"
    using assms by (simp_all add: same_file_def buf_append_def)
  ultimately show ?thesis by (simp add: writes_def)
qed

text \<open>A successful write is a write at the stream's position.\<close>

lemma writes_view:
  assumes "writes d q f p d' q' f' True" and "stream_inv d q f" and "f_dir f = DIR_WRITE"
    and "stream_view d q f = (D, Q)"
  shows "stream_view d' q' f' = (splice D Q p, Q + length p)"
proof -
  have po: "pushed_out d q (pending f @ p) d' q' (pending f')" and inv': "stream_inv d' q' f'"
    and dir': "f_dir f' = DIR_WRITE" using assms(1) by (auto simp: writes_def)
  have "splice d' q' (pending f') = splice d q (pending f @ p)"
    and "q' + length (pending f') = q + length (pending f @ p)" using pushed_view [OF po] by auto
  moreover have "D = splice d q (pending f)" "Q = q + length (pending f)"
    using assms(2-4) length_pending by (auto simp: stream_view_def)
  ultimately show ?thesis
    using dir' inv' length_pending by (simp add: stream_view_def splice_append)
qed

text \<open>What reading will deliver: a pushed-back byte, then the file from the position on.\<close>

definition ahead :: "u8 list \<Rightarrow> nat \<Rightarrow> stream \<Rightarrow> u8 list" where
  "ahead d q f =
     (case stream_view d q f of (D, Q) \<Rightarrow>
        (if f_ungot f \<ge> 0 then [word_of_int (f_ungot f)] else []) @ drop (Q + pushback f) D)"

lemma u8_range: "0 \<le> uint (b :: u8)" "uint b < 256" "uint b \<noteq> - 1"
  using unsigned_less [where 'a=int, of b] unsigned_greater_eq [where 'a=int, of b]
  by (simp, simp, linarith)

text \<open>Taking \<open>n\<close> unread bytes out of the buffer.\<close>

lemma advance:
  assumes "stream_inv d q f" and "f_dir f = DIR_READ" and "n \<le> unread f"
  defines "f' \<equiv> f\<lparr>f_pos := f_pos f + n\<rparr>"
  shows "stream_inv d q f'" and "unread f' = unread f - n" and "same_file f f'"
    and "f_ungot f = - 1 \<Longrightarrow> stream_view d q f = (D, Q) \<Longrightarrow>
      D = d \<and> buf_read f n = take n (drop Q D) \<and> length (buf_read f n) = n \<and>
      stream_view d q f' = (D, Q + n)"
proof -
  have inv: "f_pos f \<le> f_len f" "f_len f \<le> f_cap f" "unread f + pushback f \<le> q"
    "buf_read f (unread f) = take (unread f) (drop (q - unread f) d)"
    using assms(1,2) by (simp_all add: stream_inv_def)
  have len: "length (buf_read f (unread f)) = unread f"
    using assms(1) inv(1,2) by (cases "f_buf f") (auto simp: stream_inv_def buf_read_def unread_def)
  show u: "unread f' = unread f - n" using assms(3) by (simp add: f'_def unread_def)
  have q: "q - unread f' = q - unread f + n" using u assms(3) inv(3) by simp
  have "buf_read f' (unread f - n) = drop n (buf_read f (unread f))"
    by (cases "f_buf f") (auto simp: f'_def buf_read_def drop_take add.commute)
  also have "\<dots> = take (unread f') (drop (q - unread f') d)"
    unfolding inv(4) q by (simp add: drop_take u add.commute)
  finally have "buf_read f' (unread f') = take (unread f') (drop (q - unread f') d)"
    by (simp add: u)
  moreover have "pushback f' = pushback f" "f_pos f' \<le> f_len f'"
    using assms(3) inv(1) by (auto simp: f'_def pushback_def unread_def)
  ultimately show "stream_inv d q f'"
    using assms(1,2) u inv(3) by (simp add: stream_inv_def f'_def)
  show "same_file f f'" by (simp add: f'_def same_file_def)
  assume un: "f_ungot f = - 1" and view: "stream_view d q f = (D, Q)"
  have DQ: "D = d" "Q = q - unread f" using view assms(2) un by (auto simp: stream_view_def pushback_def)
  have t: "buf_read f n = take n (buf_read f (unread f))" using assms(3) by (simp add: buf_read_def)
  have "take n (take (unread f) (drop Q D)) = take n (drop Q D)" using assms(3) by (simp add: min_absorb1)
  with t inv(4) DQ have "buf_read f n = take n (drop Q D)" by simp
  moreover have "length (buf_read f n) = n" unfolding t using len assms(3) by simp
  moreover have "stream_view d q f' = (D, Q + n)"
    using DQ assms(2) un q by (simp add: stream_view_def f'_def pushback_def unread_def)
  ultimately show "D = d \<and> buf_read f n = take n (drop Q D) \<and> length (buf_read f n) = n \<and>
      stream_view d q f' = (D, Q + n)" using DQ by simp
qed

lemma ahead_plain: "f_ungot f = - 1 \<Longrightarrow> stream_view d q f = (D, Q) \<Longrightarrow> ahead d q f = drop Q D"
  by (simp add: ahead_def pushback_def)

lemma f_pos_same [simp]: "f\<lparr>f_pos := f_pos f\<rparr> = f"
  by simp

text \<open>Taking the pushed-back byte.\<close>

lemma pop_ungot:
  assumes "stream_inv d q f" and "stream_view d q f = (D, Q)" and "f_ungot f \<ge> 0"
  defines "f' \<equiv> f\<lparr>f_ungot := - 1\<rparr>"
  shows "f_dir f = DIR_READ" and "stream_inv d q f'" and "stream_view d q f' = (D, Q + 1)"
    and "unread f' = unread f" and "same_file f f'"
    and "ahead d q f = word_of_int (f_ungot f) # ahead d q f'"
proof -
  show dir: "f_dir f = DIR_READ" using assms(1,3) by (auto simp: stream_inv_def split: dir.splits)
  have u: "unread f' = unread f" "pushback f = 1" "pushback f' = 0" "buf_read f' = buf_read f"
    using assms(3) by (simp_all add: f'_def unread_def pushback_def buf_read_def fun_eq_iff)
  have "unread f + 1 \<le> q" using assms(1) dir u(2) by (simp add: stream_inv_def)
  then have Q: "q - unread f = Q + 1" "D = d"
    using assms(2) dir u(2) by (auto simp: stream_view_def)
  show view': "stream_view d q f' = (D, Q + 1)"
    using dir u(1,3) Q by (simp add: stream_view_def f'_def)
  show "stream_inv d q f'" using assms(1) dir u by (auto simp: stream_inv_def f'_def)
  show "unread f' = unread f" by (rule u)
  show "same_file f f'" by (simp add: f'_def same_file_def)
  show "ahead d q f = word_of_int (f_ungot f) # ahead d q f'"
    using ahead_plain [OF _ view'] assms(2,3) u(2) by (simp add: ahead_def f'_def)
qed

section \<open>Writing\<close>

context disk_file begin

lemma write_loop_ok:
  "write_loop F w h p = (w', ok) \<Longrightarrow> open_file w h \<Longrightarrow>
   open_file w' h \<and> (\<exists>Y. pushed_out (data w h) (fpos w h) p (data w' h) (fpos w' h) Y \<and> (ok \<longrightarrow> Y = []))"
proof (induction p arbitrary: w rule: length_induct)
  case (1 p)
  show ?case
  proof (cases "p = []")
    case True
    with 1 show ?thesis by (auto simp: write_loop.simps)
  next
    case False
    define chunk where "chunk = (if length p > 0x40000000 then 0x40000000 else length p)"
    obtain w1 r n where wr: "WriteFile F w h (take chunk p) = (w1, r, n)" by (metis prod_cases3)
    have len: "n \<le> length p" and o1: "open_file w1 h"
      and d1: "data w1 h = splice (data w h) (fpos w h) (take n p)" "fpos w1 h = fpos w h + n"
      using write_law [OF wr "1.prems"(2)] by (auto simp: min_def split: if_splits)
    then have p1: "pushed_out (data w h) (fpos w h) p (data w1 h) (fpos w1 h) (drop n p)"
      unfolding pushed_out_def by (intro exI [of _ n]) simp
    have eq: "write_loop F w h p = (if \<not> r \<or> n = 0 then (w1, False) else write_loop F w1 h (drop n p))"
      by (subst write_loop.simps) (simp add: False wr [unfolded chunk_def] del: One_nat_def)
    show ?thesis
    proof (cases "\<not> r \<or> n = 0")
      case True
      with eq "1.prems" o1 p1 show ?thesis by auto
    next
      case go: False
      then have "write_loop F w1 h (drop n p) = (w', ok)" using eq "1.prems" by simp
      moreover have "length (drop n p) < length p" using go False by simp
      ultimately obtain Y where "open_file w' h"
        "pushed_out (data w1 h) (fpos w1 h) (drop n p) (data w' h) (fpos w' h) Y" "ok \<longrightarrow> Y = []"
        using "1.IH" o1 by blast
      then show ?thesis using pushed_trans [OF p1, of "[]"] by auto
    qed
  qed
qed

lemma raw_write_ok:
  assumes "rt_raw_write F w f p = (w', f', ok)" and "open_file w (f_h f)"
  shows "open_file w' (f_h f) \<and> f' = (if ok then f else f\<lparr>f_err := True\<rparr>) \<and>
    (\<exists>Y. pushed_out (data w (f_h f)) (fpos w (f_h f)) p (data w' (f_h f)) (fpos w' (f_h f)) Y \<and>
      (ok \<longrightarrow> Y = []))"
  using assms write_loop_ok [of w "f_h f" p]
  by (auto simp: rt_raw_write_def split: prod.splits)

lemma flush_write_ok:
  assumes "rt_flush_write F w f = (w', f', r)" and "open_file w (f_h f)"
    and "stream_inv (data w (f_h f)) (fpos w (f_h f)) f"
  shows "if f_dir f = DIR_WRITE
    then open_file w' (f_h f) \<and>
      (if r = 0 then f' = f\<lparr>f_len := 0, f_dir := DIR_IDLE\<rparr>
       else r = RT_EOF \<and> f' = f\<lparr>f_len := 0, f_err := True\<rparr>) \<and>
      (\<exists>Y. pushed_out (data w (f_h f)) (fpos w (f_h f)) (pending f)
             (data w' (f_h f)) (fpos w' (f_h f)) Y \<and> (r = 0 \<longrightarrow> Y = []))
    else w' = w \<and> f' = f \<and> r = 0"
proof (cases "f_dir f = DIR_WRITE \<and> f_len f > 0")
  case True
  obtain w1 f1 ok where rw: "rt_raw_write F w f (pending f) = (w1, f1, ok)" by (metis prod_cases3)
  show ?thesis
    using raw_write_ok [OF rw assms(2)] assms(1) True
    by (cases ok) (auto simp: rt_flush_write_def rw RT_EOF_def)
next
  case False
  show ?thesis
  proof (cases "f_dir f = DIR_WRITE")
    case w: True
    then have "f_len f = 0" "pending f = []" using False by (auto simp: pending_def)
    with w assms show ?thesis by (auto simp: rt_flush_write_def intro!: exI [of _ "[]"])
  qed (use assms in \<open>simp add: rt_flush_write_def\<close>)
qed

lemma flush_again_ok:
  assumes "flush_again F w f = (w', f', ok)" and "open_file w (f_h f)"
    and "stream_inv (data w (f_h f)) (fpos w (f_h f)) f" and "f_dir f = DIR_WRITE"
  shows "open_file w' (f_h f) \<and> f_len f' = 0 \<and>
    writes (data w (f_h f)) (fpos w (f_h f)) f [] (data w' (f_h f)) (fpos w' (f_h f)) f' ok"
proof -
  obtain w1 f1 r where fl: "rt_flush_write F w f = (w1, f1, r)" by (metis prod_cases3)
  have f': "w' = w1" "f' = (if r = 0 then f\<lparr>f_len := 0\<rparr> else f\<lparr>f_len := 0, f_err := True\<rparr>)"
      "ok \<longleftrightarrow> r = 0"
    using assms(1,4) flush_write_ok [OF fl assms(2,3)]
    by (auto simp: flush_again_def fl RT_EOF_def split: if_splits)
  have "f_pos f = 0" using assms(3,4) by (simp add: stream_inv_def)
  then have "stream_inv d q f'" for d q
    using assms(3,4) f' by (auto simp: stream_inv_def split: option.splits)
  moreover have "same_file f f'" "f_dir f' = DIR_WRITE" "pending f' = []" "f_len f' = 0"
    using f' assms(4) by (auto simp: same_file_def pending_def)
  ultimately show ?thesis
    using flush_write_ok [OF fl assms(2,3)] assms(4) f' unfolding writes_def
    by (auto split: if_splits)
qed

lemma raw_write_writes:
  assumes "rt_raw_write F w f p = (w', f', ok)" and "open_file w (f_h f)"
    and "stream_inv (data w (f_h f)) (fpos w (f_h f)) f" and "f_dir f = DIR_WRITE" and "f_len f = 0"
  shows "open_file w' (f_h f) \<and>
    writes (data w (f_h f)) (fpos w (f_h f)) f p (data w' (f_h f)) (fpos w' (f_h f)) f' ok"
proof -
  have p: "pending f = []" using assms(5) by (simp add: pending_def)
  have "stream_inv d q (if ok then f else f\<lparr>f_err := True\<rparr>)" for d q
    using assms(3,4,5) by (auto simp: stream_inv_def split: option.splits)
  then show ?thesis using raw_write_ok [OF assms(1,2)] assms(4) p
    by (auto simp: writes_def same_file_def pending_def)
qed

lemma line_loop_ok:
  "line_loop F w f p i nl = (w', f', ok) \<Longrightarrow> open_file w (f_h f) \<Longrightarrow>
   stream_inv (data w (f_h f)) (fpos w (f_h f)) f \<Longrightarrow> f_dir f = DIR_WRITE \<Longrightarrow>
   f_bufmode f \<noteq> BUF_NONE \<Longrightarrow> f_buf f \<noteq> None \<Longrightarrow>
   open_file w' (f_h f) \<and>
   writes (data w (f_h f)) (fpos w (f_h f)) f p (data w' (f_h f)) (fpos w' (f_h f)) f' ok"
proof (induction p arbitrary: w f i)
  case Nil
  then show ?case by (auto simp: writes_nothing)
next
  case (Cons b p)
  let ?h = "f_h f"
  obtain w1 f1 ok1 where s1: "(if f_len f = f_cap f then flush_again F w f else (w, f, True)) = (w1, f1, ok1)"
    by (metis prod_cases3)
  have cap: "0 < f_cap f" using Cons.prems(3,6) by (auto simp: stream_inv_def RT_BUFSZ_def)
  have le: "f_len f \<le> f_cap f" using Cons.prems(3) by (simp add: stream_inv_def)
  have 1: "open_file w1 ?h" "writes (data w ?h) (fpos w ?h) f [] (data w1 ?h) (fpos w1 ?h) f1 ok1"
    "ok1 \<Longrightarrow> f_len f1 < f_cap f"
    using s1 flush_again_ok [of w f w1 f1 ok1] Cons.prems cap le
    by (auto simp: writes_nothing split: if_splits)
  show ?case
  proof (cases ok1)
    case False
    with s1 Cons.prems(1) have "w' = w1" "f' = f1" "\<not> ok" by (auto simp: Let_def)
    with 1 False show ?thesis using writes_fail [of _ _ f "[]"] by fastforce
  next
    case ok1: True
    have inv1: "stream_inv (data w1 ?h) (fpos w1 ?h) f1" and same1: "same_file f f1"
      and dir1: "f_dir f1 = DIR_WRITE" using 1(2) by (auto simp: writes_def)
    define f2 where "f2 = buf_append f1 [b]"
    have 2: "writes (data w1 ?h) (fpos w1 ?h) f1 [b] (data w1 ?h) (fpos w1 ?h) f2 True"
      unfolding f2_def using Cons.prems(5,6) same1 1(3) [OF ok1] inv1 dir1
      by (intro writes_append) (auto simp: same_file_def)
    have h1: "f_h f1 = ?h" using same1 by (simp add: same_file_def)
    have h2: "f_h f2 = ?h" "f_dir f2 = DIR_WRITE" and same2: "same_file f f2"
      and inv2: "stream_inv (data w1 ?h) (fpos w1 ?h) f2"
      using 2 same1 h1 same_file_trans unfolding writes_def by (auto simp: same_file_def)
    obtain w3 f3 ok3 where s3: "(if nl \<ge> 0 \<and> int i = nl then flush_again F w1 f2 else (w1, f2, True)) = (w3, f3, ok3)"
      by (metis prod_cases3)
    have 3: "open_file w3 ?h" "writes (data w1 ?h) (fpos w1 ?h) f2 [] (data w3 ?h) (fpos w3 ?h) f3 ok3"
      using s3 flush_again_ok [of w1 f2 w3 f3 ok3] 1(1) h2 inv2
      by (auto simp: writes_nothing split: if_splits)
    have w12: "writes (data w ?h) (fpos w ?h) f [b] (data w1 ?h) (fpos w1 ?h) f2 True"
      using writes_trans [OF 1(2) [unfolded ok1 [THEN eqTrueI]] 2] by simp
    have w3: "writes (data w ?h) (fpos w ?h) f [b] (data w3 ?h) (fpos w3 ?h) f3 ok3"
      using writes_trans [OF w12 3(2)] by simp
    have step: "line_loop F w f (b # p) i nl =
        (if ok3 then line_loop F w3 f3 p (i + 1) nl else (w3, f3, False))"
      by (simp only: line_loop.simps Let_def s1 prod.case ok1 f2_def [symmetric] s3
          not_True_eq_False if_False) simp
    show ?thesis
    proof (cases ok3)
      case False
      with step Cons.prems(1) have "w' = w3" "f' = f3" "\<not> ok" by auto
      with w3 3(1) False show ?thesis using writes_fail [of _ _ f "[b]"] by fastforce
    next
      case True
      have st3: "same_file f f3" "f_dir f3 = DIR_WRITE" "stream_inv (data w3 ?h) (fpos w3 ?h) f3"
        using w3 True by (auto simp: writes_def)
      then have h3: "f_h f3 = ?h" "f_bufmode f3 = f_bufmode f" "f_buf f3 = None \<longleftrightarrow> f_buf f = None"
        by (auto simp: same_file_def)
      have run: "line_loop F w3 f3 p (i + 1) nl = (w', f', ok)"
        using step Cons.prems(1) True by simp
      have "open_file w' ?h \<and> writes (data w3 ?h) (fpos w3 ?h) f3 p (data w' ?h) (fpos w' ?h) f' ok"
        using Cons.IH [OF run] 3(1) st3 h3 Cons.prems(5,6) by simp
      then show ?thesis using writes_trans [of _ _ f "[b]" _ _ f3 p] w3 True by auto
    qed
  qed
qed

lemma drop_read_ok:
  assumes "rt_drop_read F w f = (w', f')" and "open_file w (f_h f)"
    and "stream_inv (data w (f_h f)) (fpos w (f_h f)) f"
    and "stream_view (data w (f_h f)) (fpos w (f_h f)) f = (D, Q)"
  shows "if f_dir f = DIR_READ
    then open_file w' (f_h f) \<and> data w' (f_h f) = D \<and> fpos w' (f_h f) = Q \<and>
      f' = f\<lparr>f_len := 0, f_pos := 0, f_ungot := - 1, f_dir := DIR_IDLE\<rparr>
    else w' = w \<and> f' = f"
proof (cases "f_dir f = DIR_READ")
  case True
  let ?h = "f_h f"
  define n where "n = unread f + pushback f"
  have inv: "f_pos f \<le> f_len f" "n \<le> fpos w ?h"
    using assms(3) True by (simp_all add: stream_inv_def n_def)
  have bk: "int (f_len f) - int (f_pos f) + (if f_ungot f \<ge> 0 then 1 else 0) = int n"
    using inv(1) by (simp add: unread_def pushback_def of_nat_diff n_def)
  have DQ: "D = data w ?h" "Q = fpos w ?h - n"
    using assms(4) True by (simp_all add: stream_view_def n_def)
  obtain w1 r p where sk: "SetFilePointerEx F w ?h (- int n) 1 = (w1, r, p)"
    by (metis prod_cases3)
  have "open_file w1 ?h" "data w1 ?h = data w ?h" "fpos w1 ?h = Q"
    using seek_law [OF sk assms(2)] inv(2) DQ
    by (simp_all add: seek_base_def Let_def nat_diff_distrib split: if_splits)
  then show ?thesis
    using assms(1,2) True DQ sk by (auto simp: rt_drop_read_def bk Let_def split: if_splits)
qed (use assms in \<open>simp add: rt_drop_read_def\<close>)

lemma putbytes_writes:
  assumes "rt_putbytes F w f p = (w', f', ok)" and "open_file w (f_h f)"
    and "stream_inv (data w (f_h f)) (fpos w (f_h f)) f"
    and "stream_view (data w (f_h f)) (fpos w (f_h f)) f = (D, Q)"
    and "f_mode f AND F_WRITE \<noteq> 0"
  obtains w0 f0 where "f_dir f = DIR_WRITE \<Longrightarrow> w0 = w \<and> f0 = f" and "open_file w0 (f_h f)" and "same_file f f0" and "f_dir f0 = DIR_WRITE"
    and "stream_inv (data w0 (f_h f)) (fpos w0 (f_h f)) f0"
    and "stream_view (data w0 (f_h f)) (fpos w0 (f_h f)) f0 = (D, Q)"
    and "open_file w' (f_h f)"
    and "writes (data w0 (f_h f)) (fpos w0 (f_h f)) f0 p (data w' (f_h f)) (fpos w' (f_h f)) f' ok"
proof -
  let ?h = "f_h f"
  obtain w0 f1 where dr: "rt_drop_read F w f = (w0, f1)" by (cases "rt_drop_read F w f")
  define f0 where "f0 = f1\<lparr>f_dir := DIR_WRITE\<rparr>"
  note dropped = drop_read_ok [OF dr assms(2-4)]
  have 0: "open_file w0 ?h" "same_file f f0" "f_dir f0 = DIR_WRITE"
    using dropped assms(2) by (auto simp: f0_def same_file_def split: if_splits)
  have inv0: "stream_inv (data w0 ?h) (fpos w0 ?h) f0"
    using dropped assms(3) by (auto simp: f0_def stream_inv_def split: if_splits dir.splits)
  have view0: "stream_view (data w0 ?h) (fpos w0 ?h) f0 = (D, Q)"
    using dropped assms(3,4)
    by (auto simp: f0_def stream_view_def pending_def stream_inv_def split: if_splits dir.splits)
  have h0: "f_h f0 = ?h" using 0(2) by (simp add: same_file_def)
  have stay: "f_dir f = DIR_WRITE \<Longrightarrow> w0 = w \<and> f0 = f"
    using dropped by (cases f) (simp add: f0_def)
  let ?w = "writes (data w0 ?h) (fpos w0 ?h) f0 p (data w' ?h) (fpos w' ?h) f' ok"
  have eq: "rt_putbytes F w f p =
     (if f_bufmode f0 = BUF_NONE \<or> f_buf f0 = None then rt_raw_write F w0 f0 p
      else if f_bufmode f0 = BUF_LINE then line_loop F w0 f0 p 0 (find_nl p 0 (- 1))
      else if length p \<ge> f_cap f0
      then let (w, f, ok) = flush_again F w0 f0
           in if ok then rt_raw_write F w f p else (w, f, False)
      else let (w, f, ok) = (if f_len f0 + length p > f_cap f0 then flush_again F w0 f0
                             else (w0, f0, True))
           in if ok then (w, buf_append f p, True) else (w, f, False))"
    using assms(5) by (simp add: rt_putbytes_def dr Let_def f0_def)
  have "open_file w' ?h \<and> ?w"
  proof (cases "f_bufmode f0 = BUF_NONE \<or> f_buf f0 = None")
    case True
    then have "f_len f0 = 0" using inv0 0(3) by (auto simp: stream_inv_def)
    with True eq assms(1) show ?thesis
      using raw_write_writes [of w0 f0 p w' f' ok] 0 inv0 h0 by simp
  next
    case buffered: False
    consider (line) "f_bufmode f0 = BUF_LINE" | (full) "f_bufmode f0 \<noteq> BUF_LINE" by blast
    then show ?thesis
    proof cases
      case line
      with buffered eq assms(1) show ?thesis
        using line_loop_ok [of w0 f0 p 0 "find_nl p 0 (- 1)" w' f' ok] 0 inv0 h0 by auto
    next
      case full
      define fl where "fl = (if length p \<ge> f_cap f0 \<or> f_len f0 + length p > f_cap f0
        then flush_again F w0 f0 else (w0, f0, True))"
      obtain w1 f2 ok1 where s1: "fl = (w1, f2, ok1)" by (metis prod_cases3)
      have 1: "open_file w1 ?h"
          "writes (data w0 ?h) (fpos w0 ?h) f0 [] (data w1 ?h) (fpos w1 ?h) f2 ok1"
        using s1 flush_again_ok [of w0 f0 w1 f2 ok1] 0 inv0 h0
        by (auto simp: fl_def writes_nothing split: if_splits)
      have empty1: "length p \<ge> f_cap f0 \<or> f_len f0 + length p > f_cap f0 \<Longrightarrow> f_len f2 = 0"
        using s1 flush_again_ok [of w0 f0 w1 f2 ok1] 0 inv0 h0 by (auto simp: fl_def)
      have same1: "\<not> (length p \<ge> f_cap f0 \<or> f_len f0 + length p > f_cap f0) \<Longrightarrow> f2 = f0"
        using s1 by (auto simp: fl_def)
      have eq': "rt_putbytes F w f p = (if \<not> ok1 then (w1, f2, False)
          else if length p \<ge> f_cap f0 then rt_raw_write F w1 f2 p else (w1, buf_append f2 p, True))"
        using eq buffered full s1 by (auto simp: fl_def split: prod.splits if_splits)
      show ?thesis
      proof (cases ok1)
        case False
        with eq' assms(1) 1 show ?thesis using writes_fail [of _ _ f0 "[]"] by fastforce
      next
        case True
        have st: "same_file f0 f2" "f_dir f2 = DIR_WRITE" "stream_inv (data w1 ?h) (fpos w1 ?h) f2"
          using 1(2) True by (auto simp: writes_def)
        then have f2: "f_h f2 = ?h" "f_bufmode f2 = f_bufmode f0" "f_buf f2 = None \<longleftrightarrow> f_buf f0 = None"
            "f_cap f2 = f_cap f0" using h0 by (auto simp: same_file_def)
        have two: "open_file w' ?h \<and> writes (data w1 ?h) (fpos w1 ?h) f2 p (data w' ?h) (fpos w' ?h) f' ok"
        proof (cases "length p \<ge> f_cap f0")
          case big: True
          then show ?thesis
            using raw_write_writes [of w1 f2 p w' f' ok] eq' True assms(1) 1(1) st f2 empty1 by simp
        next
          case small: False
          then have "f_len f2 + length p \<le> f_cap f2" using empty1 same1 f2(4) by fastforce
          then show ?thesis
            using writes_append [of _ _ f2 p] eq' True small assms(1) 1(1) st f2 buffered by auto
        qed
        with writes_trans [of _ _ f0 "[]" _ _ f2 p] 1(2) True show ?thesis by auto
      qed
    qed
  qed
  with that [OF stay] 0 inv0 view0 show ?thesis by blast
qed

section \<open>Reading\<close>

lemma read_os_ok:
  assumes "read_os F w f n = (w', f', bs)" and "open_file w (f_h f)" and "n > 0"
  shows "open_file w' (f_h f) \<and> data w' (f_h f) = data w (f_h f) \<and>
    fpos w' (f_h f) = fpos w (f_h f) + length bs \<and> length bs \<le> n \<and>
    bs = take (length bs) (drop (fpos w (f_h f)) (data w (f_h f))) \<and>
    f' = (if f_err f' then f\<lparr>f_err := True\<rparr> else f) \<and>
    (bs = [] \<longrightarrow> f_err f' \<or> length (data w (f_h f)) \<le> fpos w (f_h f))"
proof -
  obtain w1 r cs where rd: "ReadFile F w (f_h f) n = (w1, r, cs)" by (metis prod_cases3)
  show ?thesis
    using assms(1,3) read_law [OF rd assms(2)] by (cases r) (auto simp: read_os_def rd)
qed

lemma fill_ok:
  assumes "rt_fill F w f = (w', f', r)" and "open_file w (f_h f)"
    and "stream_inv (data w (f_h f)) (fpos w (f_h f)) f"
    and "stream_view (data w (f_h f)) (fpos w (f_h f)) f = (D, Q)"
    and "unread f = 0 \<or> f_dir f \<noteq> DIR_READ" and "f_ungot f = - 1"
  shows "open_file w' (f_h f) \<and> stream_inv (data w' (f_h f)) (fpos w' (f_h f)) f' \<and>
    same_file f f' \<and> f_ungot f' = - 1 \<and>
    (if r = 0 then f_dir f' = DIR_READ \<and> f_pos f' = 0 \<and> 0 < unread f'
     else r = RT_EOF \<and> (f_err f' \<or> f_eof f' \<and> length D \<le> Q)) \<and>
    (stream_view (data w' (f_h f)) (fpos w' (f_h f)) f' = (D, Q) \<and> f_dir f' = DIR_READ \<or>
     f_dir f = DIR_WRITE \<and> f_err f' \<and> r = RT_EOF)"
proof -
  let ?h = "f_h f"
  obtain w1 f1 r1 where fl: "rt_flush_write F w f = (w1, f1, r1)" by (metis prod_cases3)
  note flushed = flush_write_ok [OF fl assms(2,3)]
  show ?thesis
  proof (cases "r1 = RT_EOF")
    case True
    then have "f_dir f = DIR_WRITE" "f1 = f\<lparr>f_len := 0, f_err := True\<rparr>" "open_file w1 ?h"
      using flushed by (auto simp: RT_EOF_def split: if_splits)
    moreover have "w' = w1" "f' = f1" "r = RT_EOF"
      using assms(1) True by (auto simp: rt_fill_def fl)
    ultimately show ?thesis
      using assms(3) by (auto simp: stream_inv_def same_file_def RT_EOF_def)
  next
    case False
    have 1: "open_file w1 ?h" "f_h f1 = ?h" "f_buf f1 = f_buf f" "f_cap f1 = f_cap f"
        "same_file f f1" "f_ungot f1 = - 1" "data w1 ?h = D" "fpos w1 ?h = Q"
        "f_bufmode f1 = f_bufmode f"
      using flushed False assms(2-6)
      by (auto simp: same_file_def stream_view_def pushed_out_def pushback_def length_pending
          split: if_splits dir.splits)
    define f2 where "f2 = f1\<lparr>f_dir := DIR_READ\<rparr>"
    show ?thesis
    proof (cases "f_buf f")
      case None
      then have "w' = w1" "f' = f2\<lparr>f_err := True\<rparr>" "r = RT_EOF"
        using assms(1) False 1(3) by (auto simp: rt_fill_def fl f2_def)
      moreover have "f_len f1 = 0" "f_pos f1 = 0"
        using flushed False assms(3) None by (auto simp: stream_inv_def split: if_splits)
      ultimately show ?thesis
        using 1 None assms(3)
        by (auto simp: f2_def stream_inv_def same_file_def RT_EOF_def stream_view_def unread_def
            pushback_def buf_read_def)
    next
      case (Some b)
      then have cap: "length b = f_cap f" "0 < f_cap f"
        using assms(3) by (auto simp: stream_inv_def RT_BUFSZ_def)
      obtain w3 f3 got where rd: "read_os F w1 f2 (f_cap f) = (w3, f3, got)" by (metis prod_cases3)
      define f4 where "f4 = f3\<lparr>f_buf := Some (got @ drop (length got) b), f_len := length got, f_pos := 0\<rparr>"
      have res: "w' = w3" "f' = (if got = [] then f4\<lparr>f_eof := True\<rparr> else f4)"
          "r = (if got = [] then RT_EOF else 0)"
        using assms(1) False Some 1(3,4) rd
        by (auto simp: rt_fill_def fl f2_def Let_def f4_def split: prod.splits if_splits)
      have h2: "f_h f2 = ?h" "open_file w1 (f_h f2)" using 1 by (simp_all add: f2_def)
      note os = read_os_ok [OF rd h2(2) cap(2), unfolded h2(1)]
      have st: "open_file w3 ?h" "data w3 ?h = D" "fpos w3 ?h = Q + length got"
          "length got \<le> f_cap f" "got = take (length got) (drop Q D)"
          "got = [] \<Longrightarrow> f_err f3 \<or> length D \<le> Q"
          "f3 = (if f_err f3 then f2\<lparr>f_err := True\<rparr> else f2)"
        using os 1(7,8) by blast+
      have f3: "same_file f f3" "f_ungot f3 = - 1" "f_dir f3 = DIR_READ" "f_cap f3 = f_cap f"
          "f_bufmode f3 = f_bufmode f" "f_h f3 = ?h" "f_err f1 \<Longrightarrow> f_err f3"
        using 1 st(7) by (auto simp: f2_def same_file_def split: if_splits)
      have u: "unread f' = length got" "pushback f' = 0" "f_dir f' = DIR_READ" "f_ungot f' = - 1"
          "f_pos f' = 0" "f_len f' = length got" "f_err f' = f_err f3"
        using res f3 by (auto simp: f4_def unread_def pushback_def)
      have br: "buf_read f' (length got) = got" using res u by (auto simp: f4_def buf_read_def)
      have "stream_inv D (Q + length got) f'"
        unfolding stream_inv_def u br using st(4,5) cap assms(3) res f3(4) Some
        by (auto simp: f4_def stream_inv_def)
      moreover have "stream_view D (Q + length got) f' = (D, Q)"
        using u by (simp add: stream_view_def)
      moreover have "same_file f f'" using f3 res Some by (auto simp: f4_def same_file_def)
      ultimately show ?thesis using st u res by (auto simp: RT_EOF_def)
    qed
  qed
qed

lemma getbyte_ok:
  assumes "rt_getbyte F w f = (w', f', c)" and "open_file w (f_h f)"
    and "stream_inv (data w (f_h f)) (fpos w (f_h f)) f"
    and "stream_view (data w (f_h f)) (fpos w (f_h f)) f = (D, Q)"
    and "f_mode f AND F_READ \<noteq> 0"
  shows "open_file w' (f_h f) \<and> stream_inv (data w' (f_h f)) (fpos w' (f_h f)) f' \<and> same_file f f' \<and>
    (f_err f' \<or> f_dir f' = DIR_READ \<and> f_ungot f' = - 1) \<and>
    (if c = RT_EOF
     then f_err f' \<or> f_eof f' \<and> ahead (data w (f_h f)) (fpos w (f_h f)) f = [] \<and>
       stream_view (data w' (f_h f)) (fpos w' (f_h f)) f' = (D, Q)
     else stream_view (data w' (f_h f)) (fpos w' (f_h f)) f' = (D, Q + 1) \<and>
       ahead (data w (f_h f)) (fpos w (f_h f)) f =
         word_of_int c # ahead (data w' (f_h f)) (fpos w' (f_h f)) f' \<and> 0 \<le> c \<and> c < 256)"
proof (cases "f_ungot f \<ge> 0")
  case True
  have res: "w' = w" "f' = f\<lparr>f_ungot := - 1\<rparr>" "c = f_ungot f"
    using assms(1,5) True by (auto simp: rt_getbyte_def)
  moreover have "0 \<le> c" "c < 256" "c \<noteq> RT_EOF"
    using res(3) True assms(3) by (auto simp: stream_inv_def RT_EOF_def)
  ultimately show ?thesis using pop_ungot(1,2,3,5,6) [OF assms(3,4) True] assms(2) by simp
next
  case False
  let ?h = "f_h f"
  have un: "f_ungot f = - 1" using False assms(3) by (auto simp: stream_inv_def)
  obtain w1 f1 r where s1: "(if f_dir f \<noteq> DIR_READ \<or> f_pos f \<ge> f_len f then rt_fill F w f else (w, f, 0)) = (w1, f1, r)"
    by (metis prod_cases3)
  have res: "(w', f', c) = (if r \<noteq> 0 then (w1, f1, RT_EOF)
      else (w1, f1\<lparr>f_pos := f_pos f1 + 1\<rparr>, uint (hd (buf_read f1 1))))"
    using assms(1,5) False s1 by (simp add: rt_getbyte_def split: if_splits)
  have ah: "ahead (data w ?h) (fpos w ?h) f = drop Q D"
    using assms(4) un by (simp add: ahead_def pushback_def)
  show ?thesis
  proof (cases "r = 0")
    case True
    have 1: "open_file w1 ?h" "stream_inv (data w1 ?h) (fpos w1 ?h) f1" "same_file f f1"
        "f_ungot f1 = - 1" "f_dir f1 = DIR_READ" "1 \<le> unread f1"
        "stream_view (data w1 ?h) (fpos w1 ?h) f1 = (D, Q)"
      using s1 fill_ok [of w f w1 f1 r, OF _ assms(2-4) _ un] True assms(2-4) un
      by (auto simp: unread_def RT_EOF_def split: if_splits)
    have r': "w' = w1" "f' = f1\<lparr>f_pos := f_pos f1 + 1\<rparr>" "c = uint (hd (buf_read f1 1))"
      using res True by auto
    note adv = advance [OF 1(2,5,6)] advance(4) [OF 1(2,5,6) 1(4,7)]
    have b: "buf_read f1 1 = take 1 (drop Q D)" "length (buf_read f1 1) = 1" using adv(5) by auto
    then have Q: "Q < length D" by (metis One_nat_def drop_all length_take list.size(3) not_le_imp_less
          min.bounded_iff nat_less_le take_Nil zero_less_one)
    have hd: "hd (buf_read f1 1) = D ! Q" using b Q by (simp add: hd_drop_conv_nth take_Suc)
    have un': "f_ungot f' = - 1" using r' 1(4) by simp
    have c: "0 \<le> c" "c < 256" "c \<noteq> RT_EOF" 
      unfolding r'(3) RT_EOF_def by (rule u8_range)+
    have view': "stream_view (data w' ?h) (fpos w' ?h) f' = (D, Q + 1)" using adv(5) r' by simp
    have "ahead (data w' ?h) (fpos w' ?h) f' = drop (Q + 1) D"
      unfolding ahead_def view' using un' by (simp add: pushback_def)
    then have "ahead (data w ?h) (fpos w ?h) f = word_of_int c # ahead (data w' ?h) (fpos w' ?h) f'"
      using ah Q r' hd by (simp add: Cons_nth_drop_Suc)
    moreover have "same_file f f'" using same_file_trans [OF 1(3) adv(3)] r' by simp
    moreover have "stream_inv (data w' ?h) (fpos w' ?h) f'" using adv(1) r' by simp
    ultimately show ?thesis using r'(1,2) 1(1,4,5) c view' by simp
  next
    case False
    then have "rt_fill F w f = (w1, f1, r)" "unread f = 0 \<or> f_dir f \<noteq> DIR_READ"
      using s1 by (auto simp: unread_def split: if_splits)
    from fill_ok [OF this(1) assms(2-4) this(2) un] False res ah show ?thesis
      by (auto simp: RT_EOF_def)
  qed
qed

lemma take_cat: "take n xs @ take m (drop n xs) = take (n + m) xs"
  by (simp add: take_add)

text \<open>
  The loop of \<open>fread\<close> starts with nothing unread unless it has nothing to do. It delivers
  the file's bytes in order and stops short only at the end of the file or on an error.
\<close>

lemma fread_loop_ok:
  "fread_loop F w f out got want = (w', f', out', got') \<Longrightarrow> open_file w (f_h f) \<Longrightarrow>
   stream_inv (data w (f_h f)) (fpos w (f_h f)) f \<Longrightarrow>
   stream_view (data w (f_h f)) (fpos w (f_h f)) f = (D, Q) \<Longrightarrow>
   f_dir f \<noteq> DIR_WRITE \<Longrightarrow> f_ungot f = - 1 \<Longrightarrow> (got < want \<longrightarrow> unread f = 0) \<Longrightarrow> got \<le> want \<Longrightarrow>
   \<exists>bs. out' = out @ bs \<and> got' = got + length bs \<and> got' \<le> want \<and>
     bs = take (length bs) (drop Q D) \<and>
     open_file w' (f_h f) \<and> stream_inv (data w' (f_h f)) (fpos w' (f_h f)) f' \<and>
     stream_view (data w' (f_h f)) (fpos w' (f_h f)) f' = (D, Q + length bs) \<and>
     same_file f f' \<and> f_ungot f' = - 1 \<and> (f_dir f = DIR_READ \<or> got < want \<longrightarrow> f_dir f' = DIR_READ) \<and>
     (got' < want \<longrightarrow> f_err f' \<or> f_eof f' \<and> length D \<le> Q + length bs)"
proof (induction "want - got" arbitrary: w f out got Q rule: less_induct)
  case less
  let ?h = "f_h f"
  note prems = less.prems
  have rec: "\<exists>bs. out' = out @ bs \<and> got' = got + length bs \<and> got' \<le> want \<and>
     bs = take (length bs) (drop Q D) \<and>
     open_file w' ?h \<and> stream_inv (data w' ?h) (fpos w' ?h) f' \<and>
     stream_view (data w' ?h) (fpos w' ?h) f' = (D, Q + length bs) \<and>
     same_file f f' \<and> f_ungot f' = - 1 \<and> (f_dir f = DIR_READ \<or> got < want \<longrightarrow> f_dir f' = DIR_READ) \<and>
     (got' < want \<longrightarrow> f_err f' \<or> f_eof f' \<and> length D \<le> Q + length bs)"
    if run: "fread_loop F w1 f1 (out @ cs) (got + length cs) want = (w', f', out', got')"
      and st: "open_file w1 ?h" "stream_inv (data w1 ?h) (fpos w1 ?h) f1"
        "stream_view (data w1 ?h) (fpos w1 ?h) f1 = (D, Q + length cs)"
        "f_dir f1 = DIR_READ" "f_ungot f1 = - 1" "same_file f f1"
      and cs: "cs = take (length cs) (drop Q D)" "cs \<noteq> []" "got + length cs \<le> want"
      and un: "got + length cs < want \<longrightarrow> unread f1 = 0" for w1 f1 cs
  proof -
    have h1: "f_h f1 = ?h" using st(6) by (simp add: same_file_def)
    have "want - (got + length cs) < want - got" using cs by (cases cs) auto
    from less.hyps [OF this run] st un cs(3) h1
    obtain bs where bs: "out' = (out @ cs) @ bs" "got' = got + length cs + length bs" "got' \<le> want"
        "bs = take (length bs) (drop (Q + length cs) D)" "open_file w' ?h"
        "stream_inv (data w' ?h) (fpos w' ?h) f'"
        "stream_view (data w' ?h) (fpos w' ?h) f' = (D, Q + length cs + length bs)"
        "same_file f1 f'" "f_ungot f' = - 1" "f_dir f' = DIR_READ"
        "got' < want \<longrightarrow> f_err f' \<or> f_eof f' \<and> length D \<le> Q + length cs + length bs"
      by auto
    have "cs @ bs = take (length cs) (drop Q D) @ take (length bs) (drop (length cs) (drop Q D))"
      using cs(1) bs(4) by (simp add: add.commute)
    then have all: "cs @ bs = take (length cs + length bs) (drop Q D)" unfolding take_cat .
    define cb where "cb = cs @ bs"
    have len: "length cb = length cs + length bs" by (simp add: cb_def)
    have "out' = out @ cb" using bs(1) by (simp add: cb_def)
    moreover have "cb = take (length cb) (drop Q D)" unfolding len unfolding cb_def by (rule all)
    moreover have "got' = got + length cb" "Q + length cs + length bs = Q + length cb"
      using bs(2) len by simp_all
    moreover note bs(3,5-11) same_file_trans [OF st(6) bs(8)]
    ultimately show ?thesis by metis
  qed
  show ?case
  proof (cases "got < want")
    case False
    with prems show ?thesis by (auto simp: fread_loop.simps)
  next
    case more: True
    then have un0: "unread f = 0" using prems(7) by simp
    show ?thesis
    proof (cases "want - got \<ge> RT_BUFSZ")
      case True
      define chunk where "chunk = (if want - got > 0x40000000 then 0x40000000 else want - got)"
      define f0 where "f0 = f\<lparr>f_dir := DIR_READ, f_len := 0, f_pos := 0\<rparr>"
      obtain w1 f1 bs where rd: "read_os F w f0 chunk = (w1, f1, bs)" by (metis prod_cases3)
      have DQ: "data w ?h = D" "fpos w ?h = Q"
        using prems(4,5,6) un0 by (auto simp: stream_view_def pushback_def split: dir.splits)
      have h0: "f_h f0 = ?h" "open_file w (f_h f0)" using prems(2) by (simp_all add: f0_def)
      have chunk: "0 < chunk" "chunk \<le> want - got" using more by (auto simp: chunk_def)
      have os: "open_file w1 ?h" "data w1 ?h = D" "fpos w1 ?h = Q + length bs" "length bs \<le> chunk"
          "bs = take (length bs) (drop Q D)" "bs = [] \<Longrightarrow> f_err f1 \<or> length D \<le> Q"
          "f1 = (if f_err f1 then f0\<lparr>f_err := True\<rparr> else f0)"
        using read_os_ok [OF rd h0(2) chunk(1), unfolded h0(1) DQ] by blast+
      have f1: "f_dir f1 = DIR_READ" "f_len f1 = 0" "f_pos f1 = 0" "f_ungot f1 = - 1"
          "f_buf f1 = f_buf f" "f_cap f1 = f_cap f" "same_file f f1"
        using os(7) prems(6) by (auto simp: f0_def same_file_def split: if_splits)
      have inv1: "stream_inv D q f1" and view1: "stream_view D q f1 = (D, q)"
        and inv1e: "stream_inv D q (f1\<lparr>f_eof := True\<rparr>)"
        and view1e: "stream_view D q (f1\<lparr>f_eof := True\<rparr>) = (D, q)" for q
        using prems(3) f1
        by (auto simp: stream_inv_def stream_view_def unread_def pushback_def buf_read_def)
      have eq: "fread_loop F w f out got want =
          (if bs = [] then (w1, f1\<lparr>f_eof := True\<rparr>, out, got)
           else fread_loop F w1 f1 (out @ bs) (got + length bs) want)"
        by (subst fread_loop.simps)
          (simp add: more True rd [unfolded chunk_def f0_def] Let_def)
      show ?thesis
      proof (cases "bs = []")
        case True
        with eq prems(1) os f1 inv1e view1e more show ?thesis
          by (intro exI [of _ "[]"]) (auto simp: same_file_def)
      next
        case False
        show ?thesis
          by (rule rec [of w1 f1 bs])
            (use eq prems(1) False os f1 inv1 view1 chunk in \<open>auto simp: unread_def\<close>)
      qed
    next
      case False
      obtain w1 f1 r where fl: "rt_fill F w f = (w1, f1, r)" by (metis prod_cases3)
      have "unread f = 0 \<or> f_dir f \<noteq> DIR_READ" using un0 by simp
      note filled = fill_ok [OF fl prems(2-4) this prems(6)]
      define tak where "tak = (if f_len f1 - f_pos f1 < want - got then f_len f1 - f_pos f1 else want - got)"
      have eq: "fread_loop F w f out got want =
          (if r \<noteq> 0 then (w1, f1, out, got)
           else fread_loop F w1 (f1\<lparr>f_pos := f_pos f1 + tak\<rparr>) (out @ buf_read f1 tak) (got + tak) want)"
        by (subst fread_loop.simps) (simp add: more False fl Let_def tak_def)
      show ?thesis
      proof (cases "r = 0")
        case False
        with eq prems(1,5) filled more show ?thesis by (intro exI [of _ "[]"]) (auto simp: RT_EOF_def)
      next
        case True
        have st: "open_file w1 ?h" "stream_inv (data w1 ?h) (fpos w1 ?h) f1" "same_file f f1"
            "f_ungot f1 = - 1" "f_dir f1 = DIR_READ" "0 < unread f1"
            "stream_view (data w1 ?h) (fpos w1 ?h) f1 = (D, Q)"
          using filled True prems(5) by (auto simp: RT_EOF_def)
        have tak: "tak \<le> unread f1" "0 < tak" "tak \<le> want - got"
            "got + tak < want \<Longrightarrow> unread f1 - tak = 0"
          using st(6) more by (auto simp: tak_def unread_def)
        note adv = advance(1-3) [OF st(2,5) tak(1)] advance(4) [OF st(2,5) tak(1) st(4,7)]
        have len: "length (buf_read f1 tak) = tak" using adv(4) by blast
        have sf: "same_file f (f1\<lparr>f_pos := f_pos f1 + tak\<rparr>)" by (rule same_file_trans [OF st(3) adv(3)])
        show ?thesis
          by (rule rec [of w1 "f1\<lparr>f_pos := f_pos f1 + tak\<rparr>" "buf_read f1 tak"])
            (use eq prems(1) True st tak adv len sf more in auto)
      qed
    qed
  qed
qed

lemma fread_ok:
  assumes "fread_stream F w f sz num = (w', f', bs, n)" and "open_file w (f_h f)"
    and "stream_inv (data w (f_h f)) (fpos w (f_h f)) f"
    and "stream_view (data w (f_h f)) (fpos w (f_h f)) f = (D, Q)"
    and "f_mode f AND F_READ \<noteq> 0" and "0 < unat (sz * num)"
  shows "open_file w' (f_h f) \<and> stream_inv (data w' (f_h f)) (fpos w' (f_h f)) f' \<and> same_file f f' \<and>
    n = length bs div unat sz \<and> length bs \<le> unat (sz * num) \<and>
    (f_dir f = DIR_WRITE \<and> f_err f' \<and> bs = [] \<or>
     stream_view (data w' (f_h f)) (fpos w' (f_h f)) f' = (D, Q + length bs) \<and>
     ahead (data w (f_h f)) (fpos w (f_h f)) f =
       bs @ ahead (data w' (f_h f)) (fpos w' (f_h f)) f' \<and>
     f_dir f' = DIR_READ \<and> f_ungot f' = - 1 \<and>
     (length bs < unat (sz * num) \<longrightarrow>
       f_err f' \<or> f_eof f' \<and> ahead (data w' (f_h f)) (fpos w' (f_h f)) f' = []))"
proof -
  let ?h = "f_h f" and ?want = "unat (sz * num)"
  define out0 where "out0 = (if f_ungot f \<ge> 0 then [word_of_int (f_ungot f)] else [] :: u8 list)"
  define f0 where "f0 = (if f_ungot f \<ge> 0 then f\<lparr>f_ungot := - 1\<rparr> else f)"
  obtain w1 f1 r where fl: "rt_flush_write F w f0 = (w1, f1, r)" by (metis prod_cases3)
  define tak where "tak = (if f_dir f1 = DIR_READ \<and> f_pos f1 < f_len f1
    then if f_len f1 - f_pos f1 < ?want - length out0 then f_len f1 - f_pos f1 else ?want - length out0
    else 0)"
  obtain w2 f2 out got where lp: "fread_loop F w1 (f1\<lparr>f_pos := f_pos f1 + tak\<rparr>)
      (out0 @ buf_read f1 tak) (length out0 + tak) ?want = (w2, f2, out, got)" by (metis prod_cases4)
  have "fread_stream F w f sz num = (if r = RT_EOF then (w1, f1, out0, length out0 div unat sz)
      else (w2, f2, out, got div unat sz))"
    unfolding fread_stream_def Let_def out0_def [symmetric] f0_def [symmetric] fl prod.case
      tak_def [symmetric] lp
    using assms(5,6) by simp
  then have run: "(w', f', bs, n) = (if r = RT_EOF then (w1, f1, out0, length out0 div unat sz)
      else (w2, f2, out, got div unat sz))" using assms(1) by simp
  have f0: "stream_inv (data w ?h) (fpos w ?h) f0" "f_ungot f0 = - 1" "f_h f0 = ?h" "f_dir f0 = f_dir f"
      "stream_view (data w ?h) (fpos w ?h) f0 = (D, Q + length out0)" "same_file f f0"
      "ahead (data w ?h) (fpos w ?h) f = out0 @ drop (Q + length out0) D"
      "f_dir f \<noteq> DIR_READ \<longrightarrow> out0 = []"
    using pop_ungot [OF assms(3,4)] assms(3,4) ahead_plain
    by (auto simp: f0_def out0_def stream_inv_def split: if_splits)
  have o0: "length out0 \<le> ?want" using assms(6) by (simp add: out0_def)
  note flushed = flush_write_ok [OF fl, unfolded f0(3,4), OF assms(2) f0(1)]
  show ?thesis
  proof (cases "r = RT_EOF")
    case True
    then have dir: "f_dir f = DIR_WRITE" "f1 = f0\<lparr>f_len := 0, f_err := True\<rparr>" "open_file w1 ?h"
      using flushed by (auto simp: RT_EOF_def split: if_splits)
    with True run f0 show ?thesis by (auto simp: stream_inv_def same_file_def)
  next
    case False
    have 1: "open_file w1 ?h" "stream_inv (data w1 ?h) (fpos w1 ?h) f1" "f_ungot f1 = - 1" "f_h f1 = ?h"
        "stream_view (data w1 ?h) (fpos w1 ?h) f1 = (D, Q + length out0)" "same_file f0 f1"
        "f_dir f1 \<noteq> DIR_WRITE" "f_dir f = DIR_READ \<longrightarrow> f_dir f1 = DIR_READ"
      using flushed False f0 assms(2) length_pending [OF f0(1)]
      by (auto simp: stream_inv_def stream_view_def same_file_def pushed_out_def split: if_splits)
    define f3 where "f3 = f1\<lparr>f_pos := f_pos f1 + tak\<rparr>"
    have tak: "f_dir f1 = DIR_READ \<Longrightarrow> tak \<le> unread f1" "tak \<le> ?want - length out0"
      by (simp_all add: tak_def unread_def)
    have 3: "stream_inv (data w1 ?h) (fpos w1 ?h) f3 \<and> same_file f1 f3 \<and>
        buf_read f1 tak = take tak (drop (Q + length out0) D) \<and> length (buf_read f1 tak) = tak \<and>
        stream_view (data w1 ?h) (fpos w1 ?h) f3 = (D, Q + length out0 + tak) \<and>
        (length out0 + tak < ?want \<longrightarrow> unread f3 = 0)"
    proof (cases "f_dir f1 = DIR_READ")
      case True
      note adv = advance(1-3) [OF 1(2) True tak(1) [OF True], folded f3_def]
        advance(4) [OF 1(2) True tak(1) [OF True] 1(3,5), folded f3_def]
      have "length out0 + tak < ?want \<Longrightarrow> unread f1 \<le> tak"
        using True o0 by (auto simp: tak_def unread_def split: if_splits)
      with adv show ?thesis by auto
    next
      case idle: False
      then have "tak = 0" "f3 = f1" "unread f1 = 0"
        using 1(2,7) by (auto simp: tak_def f3_def stream_inv_def unread_def split: dir.splits)
      with 1 show ?thesis by (simp add: buf_read_def)
    qed
    have dir3: "f_dir f3 \<noteq> DIR_WRITE" "f_ungot f3 = - 1" "f_h f3 = ?h"
      using 1 by (simp_all add: f3_def)
    have "length out0 + tak \<le> ?want" using tak(2) o0 by simp
    from fread_loop_ok [OF lp [folded f3_def], unfolded dir3(3), OF 1(1) _ _ dir3(1,2)] 3 this
    obtain cs where cs: "out = (out0 @ buf_read f1 tak) @ cs" "got = length out0 + tak + length cs"
        "got \<le> ?want" "cs = take (length cs) (drop (Q + length out0 + tak) D)" "open_file w2 ?h"
        "stream_inv (data w2 ?h) (fpos w2 ?h) f2"
        "stream_view (data w2 ?h) (fpos w2 ?h) f2 = (D, Q + length out0 + tak + length cs)"
        "same_file f3 f2" "f_ungot f2 = - 1"
        "f_dir f3 = DIR_READ \<or> length out0 + tak < ?want \<longrightarrow> f_dir f2 = DIR_READ"
        "got < ?want \<longrightarrow> f_err f2 \<or> f_eof f2 \<and> length D \<le> Q + length out0 + tak + length cs"
      by blast
    have "buf_read f1 tak @ cs =
        take tak (drop (Q + length out0) D) @ take (length cs) (drop tak (drop (Q + length out0) D))"
      using 3 cs(4) by (simp add: add.commute)
    then have mid: "buf_read f1 tak @ cs = take (tak + length cs) (drop (Q + length out0) D)"
      unfolding take_cat .
    have res: "w' = w2" "f' = f2" "bs = out" "n = got div unat sz" using run False by auto
    have "length (buf_read f1 tak) = tak" using 3 by blast
    then have len: "length out = got" using cs(1,2) by simp
    have ah': "ahead (data w2 ?h) (fpos w2 ?h) f2 = drop (Q + length out0 + tak + length cs) D"
      by (rule ahead_plain [OF cs(9,7)])
    define E where "E = drop (Q + length out0) D"
    have tail: "drop (Q + length out0 + tak + length cs) D = drop (tak + length cs) E"
      by (simp add: E_def add.commute add.left_commute)
    have "out = out0 @ take (tak + length cs) E" using cs(1) mid by (simp add: E_def)
    then have "ahead (data w ?h) (fpos w ?h) f = out @ ahead (data w2 ?h) (fpos w2 ?h) f2"
      unfolding ah' f0(7) tail E_def [symmetric] by simp
    moreover have "same_file f f2" using f0(6) 1(6) 3 cs(8) same_file_trans by blast
    moreover have "f_dir f3 = DIR_READ \<or> length out0 + tak < ?want"
      using assms(6) f0(8) 1(8) by (auto simp: f3_def tak_def)
    with cs(10) have "f_dir f2 = DIR_READ" by blast
    ultimately show ?thesis using cs(3,5,6,7,9,11) len ah' unfolding res by (auto simp: cs(2) add.assoc)
  qed
qed

end

end
