(* ===== verification/StdioFile.thy ===== *)
theory StdioFile
  imports StdioSpec
begin

text \<open>
  A stream is a file. A sequence of calls on a stream over any kernel that keeps the
  contract \<open>disk_file\<close> gives the answers of a plain file with a position and at most one
  pushed-back byte, as long as the error indicator stays clear. The contract is discharged
  for a disk of bounded size, on which the witnesses run.
\<close>

lemma u8_not_eof [simp]: "(- 1 :: int) \<le> uint (b :: u8)"
  by (rule order_trans [OF _ u8_range(1)]) simp

section \<open>Calls on a stream\<close>

datatype file_op =
  OpPut "u8 list" | OpGet | OpRead u64 u64 | OpUnget u8 | OpFlush | OpSeek int int | OpTell

type_synonym reply = "int \<times> u8 list"

fun exec_op :: "'w file_api \<Rightarrow> 'w \<Rightarrow> stream \<Rightarrow> file_op \<Rightarrow> 'w \<times> stream \<times> reply" where
  "exec_op F w f (OpPut p) = (let (w, f, ok) = rt_putbytes F w f p in (w, f, of_bool ok, []))"
| "exec_op F w f OpGet = (let (w, f, c) = rt_getbyte F w f in (w, f, c, []))"
| "exec_op F w f (OpRead sz num) =
     (let (w, f, bs, n) = fread_stream F w f sz num in (w, f, int n, bs))"
| "exec_op F w f (OpUnget b) = (let (f, r) = ungetc_stream (uint b) f in (w, f, r, []))"
| "exec_op F w f OpFlush = (let (w, f, r) = rt_flush_write F w f in (w, f, r, []))"
| "exec_op F w f (OpSeek off whence) = (let (w, f, r) = fseek_stream F w f off whence in (w, f, r, []))"
| "exec_op F w f OpTell = (let (w, f, r) = ftell_stream F w f in (w, f, r, []))"

fun exec_ops :: "'w file_api \<Rightarrow> 'w \<Rightarrow> stream \<Rightarrow> file_op list \<Rightarrow> 'w \<times> stream \<times> reply list" where
  "exec_ops F w f [] = (w, f, [])"
| "exec_ops F w f (x # xs) =
     (let (w, f, r) = exec_op F w f x; (w, f, rs) = exec_ops F w f xs in (w, f, r # rs))"

section \<open>The plain file\<close>

record afile =
  a_data :: "u8 list"
  a_pos :: nat
  a_push :: "u8 option"
  a_reading :: bool

definition a_ahead :: "afile \<Rightarrow> u8 list" where
  "a_ahead a =
     (case a_push a of None \<Rightarrow> drop (a_pos a) (a_data a) | Some b \<Rightarrow> b # drop (a_pos a + 1) (a_data a))"

text \<open>
  No answer is specified for a byte pushed back where nothing has been read, for a seek to
  before the start or with an offset within 4097 of the smallest \<open>long\<close>.
\<close>

fun spec_op :: "afile \<Rightarrow> file_op \<Rightarrow> (afile \<times> reply) option" where
  "spec_op a (OpPut p) =
     Some (\<lparr>a_data = splice (a_data a) (a_pos a) p, a_pos = a_pos a + length p, a_push = None,
            a_reading = False\<rparr>, 1, [])"
| "spec_op a OpGet =
     Some (case a_ahead a of
             [] \<Rightarrow> (a\<lparr>a_reading := True\<rparr>, - 1, [])
           | b # bs \<Rightarrow> (a\<lparr>a_pos := a_pos a + 1, a_push := None, a_reading := True\<rparr>, uint b, []))"
| "spec_op a (OpRead sz num) =
     Some (if unat (sz * num) = 0 then (a, 0, [])
           else let bs = take (unat (sz * num)) (a_ahead a)
                in (a\<lparr>a_pos := a_pos a + length bs, a_push := None, a_reading := True\<rparr>,
                    int (length bs div unat sz), bs))"
| "spec_op a (OpUnget b) =
     (if a_reading a \<and> a_push a = None \<and> 0 < a_pos a
      then Some (a\<lparr>a_pos := a_pos a - 1, a_push := Some b\<rparr>, uint b, []) else None)"
| "spec_op a OpFlush = Some (a, 0, [])"
| "spec_op a (OpSeek off whence) =
     (let t = (if whence = 0 then 0 else if whence = 1 then int (a_pos a)
               else int (length (a_data a))) + off
      in if whence \<in> {0, 1, 2} \<and> 0 \<le> t \<and> - (2 ^ 31) + 4097 \<le> off \<and> off < 2 ^ 31
         then Some (a\<lparr>a_pos := nat t, a_push := None, a_reading := False\<rparr>, 0, []) else None)"
| "spec_op a OpTell = Some (a, wrap_s32 (int (a_pos a)), [])"

fun spec_ops :: "afile \<Rightarrow> file_op list \<Rightarrow> (afile \<times> reply list) option" where
  "spec_ops a [] = Some (a, [])"
| "spec_ops a (x # xs) =
     do { (a, r) \<leftarrow> spec_op a x; (a, rs) \<leftarrow> spec_ops a xs; Some (a, r # rs) }"

text \<open>The file a stream stands for.\<close>

definition stream_sim :: "u8 list \<Rightarrow> nat \<Rightarrow> stream \<Rightarrow> afile \<Rightarrow> bool" where
  "stream_sim d q f a \<longleftrightarrow>
     stream_inv d q f \<and> stream_view d q f = (a_data a, a_pos a) \<and>
     f_ungot f = (case a_push a of None \<Rightarrow> - 1 | Some b \<Rightarrow> uint b) \<and>
     (a_reading a \<longrightarrow> f_dir f = DIR_READ)"

lemma sim_ahead: "stream_sim d q f a \<Longrightarrow> ahead d q f = a_ahead a"
  by (auto simp: stream_sim_def ahead_def a_ahead_def pushback_def u8_range split: option.splits)

section \<open>The error indicator is never cleared\<close>

lemma raw_write_err: "rt_raw_write F w f p = (w', f', ok) \<Longrightarrow> f_err f \<longrightarrow> f_err f'"
  by (auto simp: rt_raw_write_def split: prod.splits if_splits)

lemma flush_err: "rt_flush_write F w f = (w', f', r) \<Longrightarrow> f_err f \<longrightarrow> f_err f'"
  by (auto simp: rt_flush_write_def Let_def split: prod.splits if_splits dest: raw_write_err)

lemma flush_again_err: "flush_again F w f = (w', f', r) \<Longrightarrow> f_err f \<longrightarrow> f_err f'"
  by (auto simp: flush_again_def split: prod.splits if_splits dest: flush_err)

lemma buf_append_err [simp]: "f_err (buf_append f p) = f_err f"
  by (simp add: buf_append_def)

lemma line_loop_err: "line_loop F w f p i nl = (w', f', ok) \<Longrightarrow> f_err f \<longrightarrow> f_err f'"
proof (induction p arbitrary: w f i nl)
  case (Cons b p)
  from Cons.prems show ?case
    by (auto simp: Let_def split: prod.splits if_splits dest!: flush_again_err Cons.IH)
qed simp

lemma putbytes_err: "rt_putbytes F w f p = (w', f', ok) \<Longrightarrow> f_err f \<longrightarrow> f_err f'"
  by (auto simp: rt_putbytes_def rt_drop_read_def Let_def split: prod.splits if_splits
      dest!: raw_write_err line_loop_err flush_again_err)

lemma read_os_err: "read_os F w f n = (w', f', bs) \<Longrightarrow> f_err f \<longrightarrow> f_err f'"
  by (auto simp: read_os_def split: prod.splits if_splits)

lemma fill_err: "rt_fill F w f = (w', f', r) \<Longrightarrow> f_err f \<longrightarrow> f_err f'"
  by (auto simp: rt_fill_def Let_def split: prod.splits if_splits option.splits
      dest!: flush_err read_os_err)

lemma getbyte_err: "rt_getbyte F w f = (w', f', c) \<Longrightarrow> f_err f \<longrightarrow> f_err f'"
  by (auto simp: rt_getbyte_def split: prod.splits if_splits dest!: fill_err)

lemma fread_loop_err: "fread_loop F w f out got want = (w', f', out', got') \<Longrightarrow> f_err f \<longrightarrow> f_err f'"
proof (induction F w f out got want rule: fread_loop.induct)
  case (1 F w f out got want)
  show ?case
  proof (cases "got < want")
    case more: True
    show ?thesis
    proof (cases "want - got \<ge> RT_BUFSZ")
      case True
      with more 1(1) [OF more True refl] "1.prems" show ?thesis
        by (subst (asm) (2) fread_loop.simps)
          (auto simp: Let_def split: prod.splits if_splits dest!: read_os_err)
    next
      case False
      with more 1(2) [OF more False] "1.prems" show ?thesis
        by (subst (asm) (2) fread_loop.simps)
          (auto simp: Let_def split: prod.splits if_splits dest!: fill_err)
    qed
  qed (use "1.prems" in \<open>simp add: fread_loop.simps\<close>)
qed

lemma exec_op_err: "exec_op F w f x = (w', f', r) \<Longrightarrow> f_err f \<longrightarrow> f_err f'"
  by (cases x)
    (auto simp: fread_stream_def fseek_stream_def ftell_stream_def ungetc_stream_def Let_def
      split: prod.splits if_splits dest!: putbytes_err getbyte_err flush_err fread_loop_err)

lemma exec_ops_err: "exec_ops F w f xs = (w', f', rs) \<Longrightarrow> f_err f \<longrightarrow> f_err f'"
  by (induction xs arbitrary: w f rs) (auto split: prod.splits dest!: exec_op_err)

section \<open>Simulation\<close>

context disk_file begin

abbreviation sim :: "'w \<Rightarrow> stream \<Rightarrow> afile \<Rightarrow> bool" where
  "sim w f a \<equiv> open_file w (f_h f) \<and> stream_sim (data w (f_h f)) (fpos w (f_h f)) f a"

lemma sim_put:
  assumes "sim w f a" and "rt_putbytes F w f p = (w', f', ok)" and "\<not> f_err f'"
  shows "sim w' f' \<lparr>a_data = splice (a_data a) (a_pos a) p, a_pos = a_pos a + length p, a_push = None,
    a_reading = False\<rparr> \<and> ok"
proof -
  have inv: "open_file w (f_h f)" "stream_inv (data w (f_h f)) (fpos w (f_h f)) f"
      "stream_view (data w (f_h f)) (fpos w (f_h f)) f = (a_data a, a_pos a)"
    using assms(1) by (auto simp: stream_sim_def)
  have m: "f_mode f AND F_WRITE \<noteq> 0" using assms(2,3) by (auto simp: rt_putbytes_def)
  obtain w0 f0 where 0: "same_file f f0" "f_dir f0 = DIR_WRITE"
      "stream_inv (data w0 (f_h f)) (fpos w0 (f_h f)) f0"
      "stream_view (data w0 (f_h f)) (fpos w0 (f_h f)) f0 = (a_data a, a_pos a)"
      "open_file w' (f_h f)"
      "writes (data w0 (f_h f)) (fpos w0 (f_h f)) f0 p (data w' (f_h f)) (fpos w' (f_h f)) f' ok"
    using putbytes_writes [OF assms(2) inv m] by metis
  have ok: ok using 0(6) assms(3) by (cases ok) (auto simp: writes_def)
  have f': "stream_inv (data w' (f_h f)) (fpos w' (f_h f)) f'" "f_h f' = f_h f" "f_dir f' = DIR_WRITE"
    using 0(1,6) by (auto simp: writes_def same_file_def)
  then have "f_ungot f' = - 1" by (simp add: stream_inv_def)
  with f' 0(5) writes_view [OF 0(6) [unfolded ok [THEN eqTrueI]] 0(3,2,4)] ok show ?thesis
    by (simp add: stream_sim_def)
qed

lemma sim_get:
  assumes "sim w f a" and "rt_getbyte F w f = (w', f', c)" and "\<not> f_err f'"
    and spec: "spec_op a OpGet = Some (a', c', bs)"
  shows "sim w' f' a' \<and> c' = c \<and> bs = []"
proof -
  let ?h = "f_h f"
  have inv: "open_file w ?h" "stream_inv (data w ?h) (fpos w ?h) f"
      "stream_view (data w ?h) (fpos w ?h) f = (a_data a, a_pos a)"
    using assms(1) by (auto simp: stream_sim_def)
  have m: "f_mode f AND F_READ \<noteq> 0" using assms(2,3) by (auto simp: rt_getbyte_def)
  note got = getbyte_ok [OF assms(2) inv m]
  have st: "f_h f' = ?h" "open_file w' ?h" "stream_inv (data w' ?h) (fpos w' ?h) f'"
      "f_dir f' = DIR_READ" "f_ungot f' = - 1"
    using got assms(3) by (auto simp: same_file_def)
  have ah: "ahead (data w ?h) (fpos w ?h) f = a_ahead a" using assms(1) sim_ahead by blast
  show ?thesis
  proof (cases "c = RT_EOF")
    case True
    then have e: "a_ahead a = []" "stream_view (data w' ?h) (fpos w' ?h) f' = (a_data a, a_pos a)"
      using got ah assms(3) by auto
    then have "a_push a = None" by (auto simp: a_ahead_def split: option.splits)
    with e st spec True show ?thesis by (auto simp: stream_sim_def RT_EOF_def)
  next
    case False
    then have e: "stream_view (data w' ?h) (fpos w' ?h) f' = (a_data a, a_pos a + 1)"
        "a_ahead a = word_of_int c # ahead (data w' ?h) (fpos w' ?h) f'" "0 \<le> c" "c < 256"
      using got ah by auto
    have "uint (word_of_int c :: u8) = c" using e(3,4) by (simp add: unsigned_of_int take_bit_int_eq_self)
    with e st spec show ?thesis by (auto simp: stream_sim_def)
  qed
qed

lemma sim_read:
  assumes "sim w f a" and "fread_stream F w f sz num = (w', f', bs, n)" and "\<not> f_err f'"
    and spec: "spec_op a (OpRead sz num) = Some (a', n', bs')"
  shows "sim w' f' a' \<and> n' = int n \<and> bs' = bs"
proof (cases "unat (sz * num) = 0")
  case True
  with assms show ?thesis by (simp add: fread_stream_def Let_def)
next
  case False
  let ?h = "f_h f"
  have inv: "open_file w ?h" "stream_inv (data w ?h) (fpos w ?h) f"
      "stream_view (data w ?h) (fpos w ?h) f = (a_data a, a_pos a)"
    using assms(1) by (auto simp: stream_sim_def)
  have m: "f_mode f AND F_READ \<noteq> 0"
    using assms(2,3) False by (auto simp: fread_stream_def Let_def)
  have ah: "ahead (data w ?h) (fpos w ?h) f = a_ahead a" using assms(1) sim_ahead by blast
  have got: "f_h f' = ?h" "open_file w' ?h" "stream_inv (data w' ?h) (fpos w' ?h) f'"
      "f_dir f' = DIR_READ" "f_ungot f' = - 1" "n = length bs div unat sz"
      "length bs \<le> unat (sz * num)"
      "stream_view (data w' ?h) (fpos w' ?h) f' = (a_data a, a_pos a + length bs)"
      "a_ahead a = bs @ ahead (data w' ?h) (fpos w' ?h) f'"
      "length bs < unat (sz * num) \<longrightarrow> ahead (data w' ?h) (fpos w' ?h) f' = []"
    using fread_ok [OF assms(2) inv m] False assms(3) unfolding same_file_def ah by blast+
  have "bs = take (unat (sz * num)) (a_ahead a)"
    unfolding got(9) using got(7,10) by (cases "length bs = unat (sz * num)") auto
  then have "a' = a\<lparr>a_pos := a_pos a + length bs, a_push := None, a_reading := True\<rparr>"
    "n' = int (length bs div unat sz)" "bs' = bs" using spec False by (auto simp: Let_def simp del: length_take)
  with got(1-6,8) show ?thesis by (simp add: stream_sim_def)
qed

lemma sim_flush:
  assumes "sim w f a" and "rt_flush_write F w f = (w', f', r)" and "\<not> f_err f'"
  shows "sim w' f' a \<and> r = 0 \<and> f_h f' = f_h f \<and> f_dir f' \<noteq> DIR_WRITE \<and> data w' (f_h f) = a_data a"
proof -
  have inv: "open_file w (f_h f)" "stream_inv (data w (f_h f)) (fpos w (f_h f)) f"
    using assms(1) by (auto simp: stream_sim_def)
  note fl = flush_write_ok [OF assms(2) inv]
  show ?thesis
  proof (cases "f_dir f = DIR_WRITE")
    case True
    then have 1: "open_file w' (f_h f)" "f' = f\<lparr>f_len := 0, f_dir := DIR_IDLE\<rparr>" "r = 0"
        "pushed_out (data w (f_h f)) (fpos w (f_h f)) (pending f) (data w' (f_h f)) (fpos w' (f_h f)) []"
      using fl assms(3) by (auto split: if_splits)
    have "data w' (f_h f) = splice (data w (f_h f)) (fpos w (f_h f)) (pending f)"
      "fpos w' (f_h f) = fpos w (f_h f) + f_len f"
      using pushed_view [OF 1(4)] length_pending [OF inv(2)] by auto
    with 1 True assms(1) show ?thesis
      by (auto simp: stream_sim_def stream_inv_def stream_view_def)
  next
    case False
    with fl assms(1) show ?thesis by (auto simp: stream_sim_def stream_view_def split: dir.splits)
  qed
qed

lemma sim_seek:
  assumes "sim w f a" and "fseek_stream F w f off whence = (w', f', r)" and "\<not> f_err f'"
    and spec: "spec_op a (OpSeek off whence) = Some (a', r', bs)"
  shows "sim w' f' a' \<and> r' = r \<and> bs = []"
proof -
  let ?h = "f_h f"
  obtain w1 f1 r1 where fl: "rt_flush_write F w f = (w1, f1, r1)" by (metis prod_cases3)
  have "\<not> f_err f1"
    using assms(2,3) by (auto simp: fseek_stream_def fl Let_def split: prod.splits if_splits)
  note 1 = sim_flush [OF assms(1) fl this]
  then have inv1: "open_file w1 ?h" "stream_inv (data w1 ?h) (fpos w1 ?h) f1"
      "stream_view (data w1 ?h) (fpos w1 ?h) f1 = (a_data a, a_pos a)" "f_h f1 = ?h"
      "f_dir f1 \<noteq> DIR_WRITE" "r1 \<noteq> RT_EOF" "data w1 ?h = a_data a"
    by (auto simp: stream_sim_def RT_EOF_def)
  define t where "t = (if whence = 0 then 0 else if whence = 1 then int (a_pos a)
               else int (length (a_data a))) + off"
  have sp: "whence \<in> {0, 1, 2}" "0 \<le> t" "- (2 ^ 31) + 4097 \<le> off" "off < 2 ^ 31"
      "a' = a\<lparr>a_pos := nat t, a_push := None, a_reading := False\<rparr>" "r' = 0" "bs = []"
    using spec by (auto simp: Let_def t_def split: if_splits)
  define off' where "off' = (if whence = 1 \<and> f_dir f1 = DIR_READ
    then if f_ungot f1 \<ge> 0 then wrap_s32 (wrap_s32 (off - (int (f_len f1) - int (f_pos f1))) - 1)
         else wrap_s32 (off - (int (f_len f1) - int (f_pos f1)))
    else off)"
  have cap: "f_pos f1 \<le> f_len f1 \<and> f_len f1 \<le> 4096"
    using inv1(2) by (cases "f_buf f1") (auto simp: stream_inv_def RT_BUFSZ_def)
  have un: "int (f_len f1) - int (f_pos f1) = int (unread f1)" "unread f1 \<le> 4096"
    using cap by (auto simp: unread_def)
  have off': "off' = off - (if whence = 1 \<and> f_dir f1 = DIR_READ then int (unread f1 + pushback f1) else 0)"
    using sp(3,4) un(2) unfolding off'_def un(1)
    by (simp add: wrap_s32_id pushback_def)
  define f2 where "f2 = f1\<lparr>f_len := 0, f_pos := 0, f_ungot := - 1, f_dir := DIR_IDLE, f_eof := False\<rparr>"
  obtain w2 ok q where sk: "SetFilePointerEx F w1 ?h off' (word_of_int whence) = (w2, ok, q)"
    by (metis prod_cases3)
  have "f_h f2 = ?h" using inv1(4) by (simp add: f2_def)
  then have "fseek_stream F w f off whence = (w2, f2, if ok then 0 else - 1)"
    unfolding fseek_stream_def fl prod.case Let_def off'_def [symmetric] f2_def [symmetric]
    using inv1(6) sk by simp
  then have res: "w' = w2" "f' = f2" "r = (if ok then 0 else - 1)" using assms(2) by simp_all
  have pos: "fpos w1 ?h = a_pos a + (if f_dir f1 = DIR_READ then unread f1 + pushback f1 else 0)"
    using inv1(2,3,5) by (auto simp: stream_inv_def stream_view_def split: dir.splits)
  have "seek_base (length (data w1 ?h)) (fpos w1 ?h) (word_of_int whence) + off' = t"
    using sp(1) unfolding inv1(7) pos off' t_def by (auto simp: seek_base_def)
  moreover have "(word_of_int whence :: u32) \<le> 2" using sp(1) by auto
  ultimately have "open_file w2 ?h" "data w2 ?h = a_data a" "ok" "fpos w2 ?h = nat t"
    using seek_law [OF sk inv1(1)] sp(2) inv1(7) by (auto simp: Let_def)
  with sp res inv1(2,4) show ?thesis
    by (simp add: stream_sim_def f2_def stream_inv_def stream_view_def)
qed

lemma sim_tell:
  assumes "sim w f a" and "ftell_stream F w f = (w', f', r)"
  shows "sim w' f' a \<and> r = wrap_s32 (int (a_pos a)) \<and> f' = f"
proof -
  let ?h = "f_h f"
  obtain w1 ok q where sk: "SetFilePointerEx F w ?h 0 1 = (w1, ok, q)" by (metis prod_cases3)
  have inv: "open_file w ?h" "stream_inv (data w ?h) (fpos w ?h) f"
      "stream_view (data w ?h) (fpos w ?h) f = (a_data a, a_pos a)"
    using assms(1) by (auto simp: stream_sim_def)
  have s: "open_file w1 ?h" "data w1 ?h = data w ?h" "ok" "q = int (fpos w ?h)" "fpos w1 ?h = fpos w ?h"
    using seek_law [OF sk inv(1)] by (simp_all add: seek_base_def Let_def)
  have res: "w' = w1" "f' = f" "r = wrap_s32 (if f_dir f = DIR_READ
      then q - (int (f_len f) - int (f_pos f)) - (if f_ungot f \<ge> 0 then 1 else 0)
      else if f_dir f = DIR_WRITE then q + int (f_len f) else q)"
    using assms(2) sk s(3) by (auto simp: ftell_stream_def)
  have "int (a_pos a) = (if f_dir f = DIR_READ
      then q - (int (f_len f) - int (f_pos f)) - (if f_ungot f \<ge> 0 then 1 else 0)
      else if f_dir f = DIR_WRITE then q + int (f_len f) else q)"
    using inv(2,3) s(4)
    by (auto simp: stream_inv_def stream_view_def unread_def pushback_def of_nat_diff split: dir.splits)
  with res s assms(1) show ?thesis by simp
qed

lemma sim_unget:
  assumes "sim w f a" and "ungetc_stream (uint b) f = (f', r)"
    and spec: "spec_op a (OpUnget b) = Some (a', r', bs)"
  shows "sim w f' a' \<and> r' = r \<and> bs = []"
proof -
  let ?d = "data w (f_h f)" and ?q = "fpos w (f_h f)"
  have sp: "a_reading a" "a_push a = None" "0 < a_pos a"
      "a' = a\<lparr>a_pos := a_pos a - 1, a_push := Some b\<rparr>" "r' = uint b" "bs = []"
    using spec by (auto split: if_splits)
  have f: "stream_inv ?d ?q f" "f_ungot f = - 1" "f_dir f = DIR_READ" "?d = a_data a"
      "?q - unread f = a_pos a"
    using assms(1) sp(1,2) by (auto simp: stream_sim_def stream_view_def pushback_def)
  have t: "take_bit 8 (uint b) = uint b" using u8_range [of b] by (simp add: take_bit_int_eq_self)
  have res: "f' = f\<lparr>f_ungot := uint b, f_eof := False\<rparr>" "r = uint b"
    using assms(2) f(2) u8_range [of b] by (auto simp: ungetc_stream_def RT_EOF_def t)
  have u: "unread f' = unread f" "pushback f' = 1" "buf_read f' = buf_read f"
    using res by (simp_all add: unread_def pushback_def buf_read_def fun_eq_iff)
  have "unread f + 1 \<le> ?q" using f(5) sp(3) by simp
  then have "stream_inv ?d ?q f'"
    using f(1,3) u res(1) u8_range(2) [of b] by (simp add: stream_inv_def)
  moreover have "stream_view ?d ?q f' = (a_data a', a_pos a')"
    using f u sp(4) res(1) by (auto simp: stream_view_def)
  ultimately show ?thesis using assms(1) sp f(3) res by (simp add: stream_sim_def)
qed

lemma sim_op:
  assumes "sim w f a" and "exec_op F w f x = (w', f', r)" and "\<not> f_err f'"
    and "spec_op a x = Some (a', r')"
  shows "sim w' f' a' \<and> r' = r"
proof (cases x)
  case (OpPut p)
  then obtain ok where "rt_putbytes F w f p = (w', f', ok)" "r = (of_bool ok, [])"
    using assms(2) by (auto split: prod.splits)
  from sim_put [OF assms(1) this(1) assms(3)] this assms(4) OpPut show ?thesis by auto
next
  case OpGet
  then obtain c where "rt_getbyte F w f = (w', f', c)" "r = (c, [])"
    using assms(2) by (auto split: prod.splits)
  from sim_get [OF assms(1) this(1) assms(3), of a' "fst r'" "snd r'"] this assms(4) OpGet
  show ?thesis by (cases r') auto
next
  case (OpRead sz num)
  then obtain bs n where "fread_stream F w f sz num = (w', f', bs, n)" "r = (int n, bs)"
    using assms(2) by (auto split: prod.splits)
  from sim_read [OF assms(1) this(1) assms(3), of a' "fst r'" "snd r'"] this assms(4) OpRead
  show ?thesis by (cases r') auto
next
  case (OpUnget b)
  then obtain c where "ungetc_stream (uint b) f = (f', c)" "r = (c, [])" "w' = w"
    using assms(2) by (auto split: prod.splits)
  from sim_unget [OF assms(1) this(1), of a' "fst r'" "snd r'"] this assms(4) OpUnget
  show ?thesis by (cases r') auto
next
  case OpFlush
  then obtain c where "rt_flush_write F w f = (w', f', c)" "r = (c, [])"
    using assms(2) by (auto split: prod.splits)
  from sim_flush [OF assms(1) this(1) assms(3)] this assms(4) OpFlush show ?thesis by auto
next
  case (OpSeek off whence)
  then obtain c where "fseek_stream F w f off whence = (w', f', c)" "r = (c, [])"
    using assms(2) by (auto split: prod.splits)
  from sim_seek [OF assms(1) this(1) assms(3), of a' "fst r'" "snd r'"] this assms(4) OpSeek
  show ?thesis by (cases r') auto
next
  case OpTell
  then obtain c where "ftell_stream F w f = (w', f', c)" "r = (c, [])"
    using assms(2) by (auto split: prod.splits)
  from sim_tell [OF assms(1) this(1)] this assms(4) OpTell show ?thesis by auto
qed

lemma sim_ops:
  "sim w f a \<Longrightarrow> exec_ops F w f xs = (w', f', rs) \<Longrightarrow> \<not> f_err f' \<Longrightarrow>
   spec_ops a xs = Some (a', rs') \<Longrightarrow> sim w' f' a' \<and> rs' = rs"
proof (induction xs arbitrary: w f a rs rs')
  case (Cons x xs)
  obtain w1 f1 r1 where e1: "exec_op F w f x = (w1, f1, r1)" by (metis prod_cases3)
  obtain rs1 where e2: "exec_ops F w1 f1 xs = (w', f', rs1)" "rs = r1 # rs1"
    using Cons.prems(2) e1 by (auto split: prod.splits)
  obtain a1 r1' rs1' where s: "spec_op a x = Some (a1, r1')" "spec_ops a1 xs = Some (a', rs1')"
      "rs' = r1' # rs1'"
    using Cons.prems(4) by (auto simp: bind_eq_Some)
  have "\<not> f_err f1" using exec_ops_err [OF e2(1)] Cons.prems(3) by blast
  from sim_op [OF Cons.prems(1) e1 this s(1)] Cons.IH [OF _ e2(1) Cons.prems(3) s(2)] e2(2) s(3)
  show ?case by simp
qed simp

end

section \<open>The invariant whatever the kernel answers\<close>

lemma inv_err [simp]: "stream_inv d q (f\<lparr>f_err := b\<rparr>) = stream_inv d q f"
  by (simp add: stream_inv_def unread_def pushback_def buf_read_def cong: dir.case_cong)

text \<open>
  A byte may be pushed back where something has been read and not given back, and the origin
  of a seek is one of the three of the standard.
\<close>

definition legal_op :: "nat \<Rightarrow> stream \<Rightarrow> file_op \<Rightarrow> bool" where
  "legal_op q f x =
     (case x of OpUnget b \<Rightarrow> f_dir f = DIR_READ \<and> unread f < q
      | OpSeek off whence \<Rightarrow> whence \<in> {0, 1, 2} | _ \<Rightarrow> True)"

context disk_file begin

lemma inv_flush:
  assumes "rt_flush_write F w f = (w', f', r)" and "open_file w (f_h f)"
    and "stream_inv (data w (f_h f)) (fpos w (f_h f)) f"
  shows "open_file w' (f_h f) \<and> f_h f' = f_h f \<and> stream_inv (data w' (f_h f)) (fpos w' (f_h f)) f'"
  using flush_write_ok [OF assms] assms(2,3)
  by (auto simp: stream_inv_def unread_def pushback_def split: if_splits dir.splits)

lemma inv_put:
  assumes "rt_putbytes F w f p = (w', f', ok)" and "open_file w (f_h f)"
    and "stream_inv (data w (f_h f)) (fpos w (f_h f)) f"
  shows "open_file w' (f_h f) \<and> f_h f' = f_h f \<and> stream_inv (data w' (f_h f)) (fpos w' (f_h f)) f'"
proof (cases "f_mode f AND F_WRITE = 0")
  case True
  with assms show ?thesis by (auto simp: rt_putbytes_def)
next
  case False
  obtain D Q where view: "stream_view (data w (f_h f)) (fpos w (f_h f)) f = (D, Q)"
    by (cases "stream_view (data w (f_h f)) (fpos w (f_h f)) f")
  show ?thesis
    using putbytes_writes [OF assms view False] unfolding writes_def same_file_def by metis
qed

lemma inv_get:
  assumes "rt_getbyte F w f = (w', f', c)" and "open_file w (f_h f)"
    and "stream_inv (data w (f_h f)) (fpos w (f_h f)) f"
  shows "open_file w' (f_h f) \<and> f_h f' = f_h f \<and> stream_inv (data w' (f_h f)) (fpos w' (f_h f)) f'"
proof (cases "f_mode f AND F_READ = 0")
  case True
  with assms show ?thesis by (auto simp: rt_getbyte_def)
next
  case False
  obtain D Q where view: "stream_view (data w (f_h f)) (fpos w (f_h f)) f = (D, Q)"
    by (cases "stream_view (data w (f_h f)) (fpos w (f_h f)) f")
  show ?thesis using getbyte_ok [OF assms view False] by (simp add: same_file_def)
qed

lemma inv_read:
  assumes "fread_stream F w f sz num = (w', f', bs, n)" and "open_file w (f_h f)"
    and "stream_inv (data w (f_h f)) (fpos w (f_h f)) f"
  shows "open_file w' (f_h f) \<and> f_h f' = f_h f \<and> stream_inv (data w' (f_h f)) (fpos w' (f_h f)) f'"
proof (cases "unat (sz * num) = 0 \<or> f_mode f AND F_READ = 0")
  case True
  with assms show ?thesis by (auto simp: fread_stream_def Let_def split: if_splits)
next
  case False
  then have m: "f_mode f AND F_READ \<noteq> 0" and n: "0 < unat (sz * num)" by auto
  obtain D Q where view: "stream_view (data w (f_h f)) (fpos w (f_h f)) f = (D, Q)"
    by (cases "stream_view (data w (f_h f)) (fpos w (f_h f)) f")
  show ?thesis using fread_ok [OF assms view m n] by (simp add: same_file_def)
qed

lemma inv_seek:
  assumes "fseek_stream F w f off whence = (w', f', r)" and "open_file w (f_h f)"
    and "stream_inv (data w (f_h f)) (fpos w (f_h f)) f" and "whence \<in> {0, 1, 2}"
  shows "open_file w' (f_h f) \<and> f_h f' = f_h f \<and> stream_inv (data w' (f_h f)) (fpos w' (f_h f)) f'"
proof -
  obtain w1 f1 r1 where fl: "rt_flush_write F w f = (w1, f1, r1)" by (metis prod_cases3)
  note 1 = inv_flush [OF fl assms(2,3)]
  have idle: "stream_inv d q (f1\<lparr>f_len := 0, f_pos := 0, f_ungot := - 1, f_dir := DIR_IDLE, f_eof := False\<rparr>)"
    for d q using 1 by (auto simp: stream_inv_def)
  have m: "(word_of_int whence :: u32) \<le> 2" using assms(4) by auto
  have sk: "SetFilePointerEx F w1 (f_h f) d (word_of_int whence) = (w2, ok, q) \<Longrightarrow> open_file w2 (f_h f)"
    for d w2 ok q using seek_law [of w1 "f_h f"] 1 m by blast
  show ?thesis
    using assms(1) 1 idle sk by (auto simp: fseek_stream_def fl Let_def split: prod.splits if_splits)
qed

lemma inv_op:
  assumes "exec_op F w f x = (w', f', r)" and "open_file w (f_h f)"
    and "stream_inv (data w (f_h f)) (fpos w (f_h f)) f"
    and "legal_op (fpos w (f_h f)) f x"
  shows "open_file w' (f_h f') \<and> f_h f' = f_h f \<and> stream_inv (data w' (f_h f')) (fpos w' (f_h f')) f'"
proof (cases x)
  case (OpUnget b)
  then have u: "f_dir f = DIR_READ" "unread f < fpos w (f_h f)" using assms(4) by (simp_all add: legal_op_def)
  obtain c where c: "ungetc_stream (uint b) f = (f', c)" "w' = w"
    using assms(1) OpUnget by (auto split: prod.splits)
  have t: "take_bit 8 (uint b) = uint b" using u8_range [of b] by (simp add: take_bit_int_eq_self)
  have "f' = f \<or> f' = f\<lparr>f_ungot := uint b, f_eof := False\<rparr>"
    using c by (auto simp: ungetc_stream_def t split: if_splits)
  then show ?thesis
    using assms(2,3) u c u8_range(2) [of b]
    by (auto simp: stream_inv_def unread_def pushback_def buf_read_def)
next
  case OpTell
  obtain w1 ok q where sk: "SetFilePointerEx F w (f_h f) 0 1 = (w1, ok, q)" by (metis prod_cases3)
  have "open_file w1 (f_h f) \<and> data w1 (f_h f) = data w (f_h f) \<and> fpos w1 (f_h f) = fpos w (f_h f)"
    using seek_law [OF sk assms(2)] by (simp add: seek_base_def Let_def)
  moreover have "w' = w1" "f' = f" using assms(1) OpTell sk
    by (auto simp: ftell_stream_def split: if_splits)
  ultimately show ?thesis using assms(3) by simp
next
  case (OpPut p)
  then obtain ok where "rt_putbytes F w f p = (w', f', ok)" using assms(1) by (auto split: prod.splits)
  from inv_put [OF this assms(2,3)] show ?thesis by simp
next
  case OpGet
  then obtain c where "rt_getbyte F w f = (w', f', c)" using assms(1) by (auto split: prod.splits)
  from inv_get [OF this assms(2,3)] show ?thesis by simp
next
  case (OpRead sz num)
  then obtain bs n where "fread_stream F w f sz num = (w', f', bs, n)"
    using assms(1) by (auto split: prod.splits)
  from inv_read [OF this assms(2,3)] show ?thesis by simp
next
  case OpFlush
  then obtain c where "rt_flush_write F w f = (w', f', c)" using assms(1) by (auto split: prod.splits)
  from inv_flush [OF this assms(2,3)] show ?thesis by simp
next
  case (OpSeek off whence)
  then obtain c where "fseek_stream F w f off whence = (w', f', c)"
    using assms(1) by (auto split: prod.splits)
  moreover have "whence \<in> {0, 1, 2}" using assms(4) OpSeek by (simp add: legal_op_def)
  ultimately show ?thesis using inv_seek [OF _ assms(2,3)] by simp
qed

end

text \<open>The states a stream can get into by such calls.\<close>

inductive stream_reach ::
    "'w file_api \<Rightarrow> ('w \<Rightarrow> handle \<Rightarrow> nat) \<Rightarrow> 'w \<times> stream \<Rightarrow> 'w \<Rightarrow> stream \<Rightarrow> bool"
  for F :: "'w file_api" and fpos :: "'w \<Rightarrow> handle \<Rightarrow> nat" and s0 :: "'w \<times> stream" where
  start: "s0 = (w, f) \<Longrightarrow> stream_reach F fpos s0 w f"
| step: "stream_reach F fpos s0 w f \<Longrightarrow> legal_op (fpos w (f_h f)) f x \<Longrightarrow>
    exec_op F w f x = (w', f', r) \<Longrightarrow> stream_reach F fpos s0 w' f'"

lemma reach_inv:
  assumes "disk_file F open_file data fpos" and "stream_reach F fpos (w0, f0) w f"
    and "open_file w0 (f_h f0)" and "stream_inv (data w0 (f_h f0)) (fpos w0 (f_h f0)) f0"
  shows "open_file w (f_h f) \<and> stream_inv (data w (f_h f)) (fpos w (f_h f)) f"
  using assms(2)
proof induction
  case (start w f)
  with assms(3,4) show ?case by simp
next
  case (step w f x w' f' r)
  then show ?case using disk_file.inv_op [OF assms(1) step.hyps(3) _ _ step.hyps(2)] by blast
qed

section \<open>Lines\<close>

text \<open>What \<open>fgets\<close> takes with room for \<open>k\<close> characters.\<close>

fun line_of :: "nat \<Rightarrow> u8 list \<Rightarrow> u8 list" where
  "line_of 0 bs = []"
| "line_of (Suc k) [] = []"
| "line_of (Suc k) (b # bs) = (if b = 10 then [b] else b # line_of k bs)"

lemma fgets_loop_err: "fgets_loop F w f k out = (w', f', out') \<Longrightarrow> f_err f \<longrightarrow> f_err f'"
  by (induction k arbitrary: w f out) (auto simp: Let_def split: prod.splits if_splits dest!: getbyte_err)

lemma u8_of_int_10: "0 \<le> c \<Longrightarrow> c < 256 \<Longrightarrow> (word_of_int c :: u8) = 10 \<longleftrightarrow> c = 10"
proof
  assume c: "0 \<le> c" "c < 256" and 10: "(word_of_int c :: u8) = 10"
  have "uint (word_of_int c :: u8) = c" using c by (simp add: unsigned_of_int take_bit_int_eq_self)
  then show "c = 10" unfolding 10 by simp
qed simp

context disk_file begin

lemma fgets_loop_ok:
  "fgets_loop F w f k out = (w', f', out') \<Longrightarrow> open_file w (f_h f) \<Longrightarrow>
   stream_inv (data w (f_h f)) (fpos w (f_h f)) f \<Longrightarrow> \<not> f_err f' \<Longrightarrow>
   stream_view (data w (f_h f)) (fpos w (f_h f)) f = (D, Q) \<Longrightarrow>
   \<exists>bs. out' = out @ bs \<and> bs = line_of k (ahead (data w (f_h f)) (fpos w (f_h f)) f) \<and>
     open_file w' (f_h f) \<and> stream_inv (data w' (f_h f)) (fpos w' (f_h f)) f' \<and> same_file f f' \<and>
     stream_view (data w' (f_h f)) (fpos w' (f_h f)) f' = (D, Q + length bs) \<and>
     ahead (data w (f_h f)) (fpos w (f_h f)) f = bs @ ahead (data w' (f_h f)) (fpos w' (f_h f)) f'"
proof (induction k arbitrary: w f out Q)
  case (Suc k)
  let ?h = "f_h f"
  obtain w1 f1 c where gb: "rt_getbyte F w f = (w1, f1, c)" by (metis prod_cases3)
  have rest: "(w', f', out') = (if c = RT_EOF then (w1, f1, out)
      else if c = 10 then (w1, f1, out @ [word_of_int c])
      else fgets_loop F w1 f1 k (out @ [word_of_int c]))"
    using Suc.prems(1) by (simp add: gb)
  have e1: "\<not> f_err f1" using rest Suc.prems(4) fgets_loop_err [of F w1 f1 k _ w' f' out']
    by (auto split: if_splits)
  have m: "f_mode f AND F_READ \<noteq> 0" using gb e1 by (auto simp: rt_getbyte_def)
  note got = getbyte_ok [OF gb Suc.prems(2,3,5) m]
  have 1: "open_file w1 ?h" "stream_inv (data w1 ?h) (fpos w1 ?h) f1" "same_file f f1" "f_h f1 = ?h"
    using got by (auto simp: same_file_def)
  show ?case
  proof (cases "c = RT_EOF")
    case True
    then have "ahead (data w ?h) (fpos w ?h) f = []"
        "stream_view (data w1 ?h) (fpos w1 ?h) f1 = (D, Q)" using got e1 by auto
    moreover have "f_ungot f1 = - 1" using got e1 by simp
    moreover have "ahead (data w1 ?h) (fpos w1 ?h) f1 = []"
      using calculation Suc.prems(5) by (auto simp: ahead_def pushback_def split: if_splits)
    ultimately show ?thesis using rest True 1 by simp
  next
    case False
    define b :: u8 where "b = word_of_int c"
    have v: "stream_view (data w1 ?h) (fpos w1 ?h) f1 = (D, Q + 1)"
        "ahead (data w ?h) (fpos w ?h) f = b # ahead (data w1 ?h) (fpos w1 ?h) f1" "0 \<le> c" "c < 256"
      using got False by (auto simp: b_def)
    have nl: "b = 10 \<longleftrightarrow> c = 10" unfolding b_def using v(3,4) by (rule u8_of_int_10)
    show ?thesis
    proof (cases "c = 10")
      case True
      with rest False 1 v nl show ?thesis by (simp add: b_def [symmetric])
    next
      case more: False
      have "fgets_loop F w1 f1 k (out @ [b]) = (w', f', out')" using rest False more by (simp add: b_def)
      from Suc.IH [OF this, unfolded 1(4), OF 1(1,2) Suc.prems(4) v(1)] 1(3) same_file_trans v(2) nl more
      show ?thesis by fastforce
    qed
  qed
qed auto

end

section \<open>Line buffering\<close>

lemma find_nl_last:
  "i + length p \<le> 2 ^ 31 \<Longrightarrow> - 1 \<le> nl \<Longrightarrow> nl < int i \<Longrightarrow>
   (if 10 \<in> set p then int i \<le> find_nl p i nl \<and> find_nl p i nl < int (i + length p) else find_nl p i nl = nl) \<and>
   10 \<notin> set (drop (nat (find_nl p i nl + 1 - int i)) p)"
proof (induction p arbitrary: i nl)
  case (Cons b p)
  have w: "wrap_s32 (int i) = int i" using Cons.prems(1) by (simp add: wrap_s32_id)
  define n where "n = (if b = 10 then int i else nl)"
  have n: "- 1 \<le> n" "n < int (i + 1)" using Cons.prems by (auto simp: n_def)
  have eq: "find_nl (b # p) i nl = find_nl p (i + 1) n" by (simp add: n_def w)
  have IH: "(if 10 \<in> set p then int (i + 1) \<le> find_nl p (i + 1) n \<and> find_nl p (i + 1) n < int (i + 1 + length p)
      else find_nl p (i + 1) n = n) \<and> 10 \<notin> set (drop (nat (find_nl p (i + 1) n + 1 - int (i + 1))) p)"
    by (rule Cons.IH) (use Cons.prems(1) n in simp_all)
  show ?case
  proof (cases "10 \<in> set p")
    case True
    then have k: "int (i + 1) \<le> find_nl p (i + 1) n" "find_nl p (i + 1) n < int (i + 1 + length p)"
      using IH by auto
    then have "nat (find_nl p (i + 1) n + 1 - int i) = Suc (nat (find_nl p (i + 1) n + 1 - int (i + 1)))"
      by linarith
    with IH True k show ?thesis unfolding eq by auto
  next
    case False
    with IH have "find_nl p (i + 1) n = n" by simp
    with False Cons.prems show ?thesis unfolding eq by (auto simp: n_def)
  qed
qed simp

context disk_file begin

lemma line_loop_clean:
  "line_loop F w f p i nl = (w', f', True) \<Longrightarrow> open_file w (f_h f) \<Longrightarrow>
   stream_inv (data w (f_h f)) (fpos w (f_h f)) f \<Longrightarrow> f_dir f = DIR_WRITE \<Longrightarrow>
   f_bufmode f \<noteq> BUF_NONE \<Longrightarrow> f_buf f \<noteq> None \<Longrightarrow>
   - 1 \<le> nl \<Longrightarrow> nl < int (i + length p) \<Longrightarrow> 10 \<notin> set (drop (nat (nl + 1 - int i)) p) \<Longrightarrow>
   (nl < int i \<longrightarrow> 10 \<notin> set (pending f)) \<Longrightarrow> 10 \<notin> set (pending f')"
proof (induction p arbitrary: w f i)
  case (Cons b p)
  let ?h = "f_h f"
  have pend0: "f_len g = 0 \<Longrightarrow> pending g = []" for g by (simp add: pending_def)
  obtain w1 f1 ok1 where s1: "(if f_len f = f_cap f then flush_again F w f else (w, f, True)) = (w1, f1, ok1)"
    by (metis prod_cases3)
  have ok1: ok1 using Cons.prems(1) s1 by (auto simp: Let_def split: if_splits)
  have cap: "0 < f_cap f" using Cons.prems(3,6) by (auto simp: stream_inv_def RT_BUFSZ_def)
  have le: "f_len f \<le> f_cap f" using Cons.prems(3) by (simp add: stream_inv_def)
  have 1: "open_file w1 ?h" "writes (data w ?h) (fpos w ?h) f [] (data w1 ?h) (fpos w1 ?h) f1 True"
    "f_len f1 < f_cap f" "pending f1 = [] \<or> pending f1 = pending f"
    using s1 ok1 flush_again_ok [of w f w1 f1 ok1] Cons.prems(2-4) cap le pend0
    by (auto simp: writes_nothing split: if_splits)
  have st1: "stream_inv (data w1 ?h) (fpos w1 ?h) f1" "same_file f f1" "f_dir f1 = DIR_WRITE"
    using 1(2) by (auto simp: writes_def)
  define f2 where "f2 = buf_append f1 [b]"
  have 2: "writes (data w1 ?h) (fpos w1 ?h) f1 [b] (data w1 ?h) (fpos w1 ?h) f2 True"
    unfolding f2_def using Cons.prems(5,6) st1 1(3) by (intro writes_append) (auto simp: same_file_def)
  have st2: "stream_inv (data w1 ?h) (fpos w1 ?h) f2" "same_file f f2" "f_dir f2 = DIR_WRITE"
    using 2 same_file_trans [OF st1(2)] by (auto simp: writes_def)
  obtain b1 where b1: "f_buf f1 = Some b1" using st1(2) Cons.prems(6) by (auto simp: same_file_def)
  have p2: "pending f2 = pending f1 @ [b]"
    unfolding f2_def using st1(1,2) b1 1(3)
    by (intro buf_append_pending [of b1]) (auto simp: stream_inv_def same_file_def)
  obtain w3 f3 ok3 where s3: "(if nl \<ge> 0 \<and> int i = nl then flush_again F w1 f2 else (w1, f2, True)) = (w3, f3, ok3)"
    by (metis prod_cases3)
  have step: "line_loop F w f (b # p) i nl =
      (if ok3 then line_loop F w3 f3 p (i + 1) nl else (w3, f3, False))"
    by (simp only: line_loop.simps Let_def s1 prod.case ok1 f2_def [symmetric] s3
        not_True_eq_False if_False) simp
  have ok3: ok3 and run: "line_loop F w3 f3 p (i + 1) nl = (w', f', True)"
    using step Cons.prems(1) by (auto split: if_splits)
  have h2: "f_h f2 = ?h" using st2(2) by (simp add: same_file_def)
  have 3: "open_file w3 ?h" "stream_inv (data w3 ?h) (fpos w3 ?h) f3" "same_file f2 f3"
      "f_dir f3 = DIR_WRITE" "if int i = nl then pending f3 = [] else f3 = f2"
    using s3 flush_again_ok [of w1 f2 w3 f3 ok3] 1(1) h2 st2 pend0 Cons.prems(7)
    by (auto simp: writes_def split: if_splits)
  have f3: "f_h f3 = ?h" "f_bufmode f3 = f_bufmode f" "f_buf f3 = None \<longleftrightarrow> f_buf f = None"
    using same_file_trans [OF st2(2) 3(3)] by (auto simp: same_file_def)
  have clean: "10 \<notin> set (drop (nat (nl + 1 - int (i + 1))) p)"
  proof (cases "nl < int i")
    case False
    then have "nat (nl + 1 - int i) = Suc (nat (nl + 1 - int (i + 1)))" by linarith
    with Cons.prems(9) show ?thesis by simp
  qed (use Cons.prems(9) in simp)
  have pend: "nl < int (i + 1) \<longrightarrow> 10 \<notin> set (pending f3)"
    using Cons.prems(9,10) 1(4) p2 3(5) by (cases "nl < int i") auto
  from Cons.IH [OF run, unfolded f3, OF 3(1,2,4) Cons.prems(5,6,7) _ clean pend] Cons.prems(8)
  show ?case by simp
qed auto

lemma putbytes_clean:
  assumes "rt_putbytes F w f p = (w', f', True)" and "open_file w (f_h f)"
    and "stream_inv (data w (f_h f)) (fpos w (f_h f)) f"
    and "f_bufmode f = BUF_LINE" and "f_buf f \<noteq> None" and "length p \<le> 2 ^ 31"
    and "f_dir f = DIR_WRITE \<longrightarrow> 10 \<notin> set (pending f)"
  shows "10 \<notin> set (pending f')"
proof -
  let ?h = "f_h f"
  obtain D Q where view: "stream_view (data w ?h) (fpos w ?h) f = (D, Q)"
    by (cases "stream_view (data w ?h) (fpos w ?h) f")
  obtain w0 f1 where dr: "rt_drop_read F w f = (w0, f1)" by (cases "rt_drop_read F w f")
  define f0 where "f0 = f1\<lparr>f_dir := DIR_WRITE\<rparr>"
  note dropped = drop_read_ok [OF dr assms(2,3) view]
  have 0: "open_file w0 ?h" "stream_inv (data w0 ?h) (fpos w0 ?h) f0" "f_dir f0 = DIR_WRITE"
      "f_h f0 = ?h" "f_bufmode f0 = BUF_LINE" "f_buf f0 = f_buf f" "10 \<notin> set (pending f0)"
    using dropped assms(2,3,4,7)
    by (auto simp: f0_def stream_inv_def pending_def split: if_splits dir.splits)
  have run: "line_loop F w0 f0 p 0 (find_nl p 0 (- 1)) = (w', f', True)"
    using assms(1,5) 0 by (auto simp: rt_putbytes_def dr Let_def f0_def split: if_splits)
  define nl where "nl = find_nl p 0 (- 1)"
  have nl: "- 1 \<le> nl" "nl < int (0 + length p)" "10 \<notin> set (drop (nat (nl + 1 - int 0)) p)"
    using find_nl_last [of 0 p "- 1"] assms(6) unfolding nl_def by (auto split: if_splits)
  show ?thesis
    by (rule line_loop_clean [OF run [folded nl_def]]) (use 0 assms(5) nl in auto)
qed

lemma put_fails:
  assumes "rt_putbytes F w f p = (w', f', False)" and "open_file w (f_h f)"
    and "stream_inv (data w (f_h f)) (fpos w (f_h f)) f" and "f_dir f = DIR_WRITE"
    and "f_mode f AND F_WRITE \<noteq> 0"
  shows "f_err f' \<and> (\<exists>k\<le>length (pending f @ p).
    data w' (f_h f) = splice (data w (f_h f)) (fpos w (f_h f)) (take k (pending f @ p)))"
proof -
  obtain D Q where view: "stream_view (data w (f_h f)) (fpos w (f_h f)) f = (D, Q)"
    by (cases "stream_view (data w (f_h f)) (fpos w (f_h f)) f")
  have "writes (data w (f_h f)) (fpos w (f_h f)) f p (data w' (f_h f)) (fpos w' (f_h f)) f' False"
    using putbytes_writes [OF assms(1-3) view assms(5)] assms(4) by metis
  then show ?thesis by (auto simp: writes_def pushed_out_def)
qed

end

section \<open>A disk\<close>

text \<open>
  A kernel with one disk file (handle 100) and room for a bounded number of written bytes,
  and a console behind every other handle. It keeps the contract.
\<close>

record ram_disk =
  rd_data :: "u8 list"
  rd_exists :: bool
  rd_pos :: nat
  rd_room :: nat
  rd_console :: "u8 list"

definition ram_write :: "ram_disk \<Rightarrow> handle \<Rightarrow> u8 list \<Rightarrow> ram_disk \<times> bool \<times> nat" where
  "ram_write w h p =
     (if h = 100
      then let n = min (length p) (rd_room w)
           in (w\<lparr>rd_data := splice (rd_data w) (rd_pos w) (take n p), rd_pos := rd_pos w + n,
                 rd_room := rd_room w - n\<rparr>, p = [] \<or> n > 0, n)
      else (w\<lparr>rd_console := rd_console w @ p\<rparr>, True, length p))"

definition ram_read :: "ram_disk \<Rightarrow> handle \<Rightarrow> nat \<Rightarrow> ram_disk \<times> bool \<times> u8 list" where
  "ram_read w h k =
     (if h = 100
      then let bs = take k (drop (rd_pos w) (rd_data w))
           in (w\<lparr>rd_pos := rd_pos w + length bs\<rparr>, True, bs)
      else (w, False, []))"

definition ram_seek :: "ram_disk \<Rightarrow> handle \<Rightarrow> int \<Rightarrow> u32 \<Rightarrow> ram_disk \<times> bool \<times> int" where
  "ram_seek w h d method =
     (let t = seek_base (length (rd_data w)) (rd_pos w) method + d
      in if h \<noteq> 100 \<or> t < 0 then (w, False, 0) else (w\<lparr>rd_pos := nat t\<rparr>, True, t))"

definition ram_create :: "ram_disk \<Rightarrow> u32 \<Rightarrow> ram_disk \<times> handle" where
  "ram_create w disp =
     (if disp = 3 \<and> \<not> rd_exists w then (w, - 1)
      else (w\<lparr>rd_exists := True, rd_pos := 0,
              rd_data := (if disp = 2 \<or> \<not> rd_exists w then [] else rd_data w)\<rparr>, 100))"

definition ram_api :: "ram_disk file_api" where
  "ram_api = \<lparr>WriteFile = ram_write, ReadFile = ram_read, SetFilePointerEx = ram_seek,
     CreateFileA = (\<lambda>w path acc share disp flags. ram_create w disp), CloseHandle = (\<lambda>w h. w),
     GetLastError = (\<lambda>w. 6), GetStdHandle = (\<lambda>w n. ucast (- n)), GetFileType = (\<lambda>w h. if h = 100 then 1 else 2),
     DeleteFileA = (\<lambda>w path. (w\<lparr>rd_exists := False\<rparr>, rd_exists w)),
     MoveFileExA = (\<lambda>w old new flags. (w, rd_exists w)),
     GetFileAttributesA = (\<lambda>w path. if rd_exists w then 0x80 else 0xFFFFFFFF)\<rparr>"

interpretation ram: disk_file ram_api "\<lambda>w h. h = 100" "\<lambda>w h. rd_data w" "\<lambda>w h. rd_pos w"
proof
  fix h :: handle and p :: "u8 list" and w w' r n
  assume "WriteFile ram_api w h p = (w', r, n)" and "h = 100"
  then show "h = 100 \<and> n \<le> length p \<and> rd_data w' = splice (rd_data w) (rd_pos w) (take n p) \<and>
      rd_pos w' = rd_pos w + n"
    by (auto simp: ram_api_def ram_write_def Let_def)
next
  fix h :: handle and k w w' r bs
  assume "ReadFile ram_api w h k = (w', r, bs)" and "h = 100"
  then show "h = 100 \<and> rd_data w' = rd_data w \<and> length bs \<le> k \<and>
      bs = take (length bs) (drop (rd_pos w) (rd_data w)) \<and> rd_pos w' = rd_pos w + length bs \<and>
      (\<not> r \<longrightarrow> bs = [] \<and> GetLastError ram_api w' \<noteq> 109) \<and>
      (r \<and> bs = [] \<and> 0 < k \<longrightarrow> length (rd_data w) \<le> rd_pos w)"
    by (auto simp: ram_api_def ram_read_def Let_def min_def)
next
  fix h :: handle and d m w w' r q
  assume "SetFilePointerEx ram_api w h d m = (w', r, q)" and "h = 100" and "m \<le> (2 :: u32)"
  then show "h = 100 \<and> rd_data w' = rd_data w \<and>
      (let t = seek_base (length (rd_data w)) (rd_pos w) m + d
       in if t < 0 then \<not> r \<and> rd_pos w' = rd_pos w else r \<and> q = t \<and> rd_pos w' = nat t)"
    by (auto simp: ram_api_def ram_seek_def Let_def split: if_splits)
qed

lemma ram_api_simps [simp]:
  "WriteFile ram_api = ram_write" "ReadFile ram_api = ram_read" "SetFilePointerEx ram_api = ram_seek"
  "GetLastError ram_api w = 6" "GetFileType ram_api w h = (if h = 100 then 1 else 2)"
  "GetStdHandle ram_api w n = ucast (- n)" "CloseHandle ram_api w h = w"
  by (simp_all add: ram_api_def)

definition ram_stream :: "u32 \<Rightarrow> stream" where
  "ram_stream fmode =
     \<lparr>f_h = 100, f_mode = fmode, f_dir = DIR_IDLE, f_err = False, f_eof = False, f_bufmode = BUF_FULL,
      f_buf = Some (replicate RT_BUFSZ 0), f_bufp = 7, f_cap = RT_BUFSZ, f_len = 0, f_pos = 0,
      f_ungot = - 1, f_is_std = False, f_proc = 0\<rparr>"

definition ram_disk :: "u8 list \<Rightarrow> nat \<Rightarrow> ram_disk" where
  "ram_disk bs room = \<lparr>rd_data = bs, rd_exists = True, rd_pos = 0, rd_room = room, rd_console = []\<rparr>"

lemma ram_start: "stream_sim bs 0 (ram_stream m) \<lparr>a_data = bs, a_pos = 0, a_push = None, a_reading = False\<rparr>"
  by (simp add: stream_sim_def stream_inv_def stream_view_def ram_stream_def)

lemmas stream_ops = rt_putbytes_def rt_drop_read_def rt_flush_write_def flush_again_def rt_raw_write_def
  write_loop.simps pending_def buf_append_def read_os_def rt_fill_def buf_read_def rt_getbyte_def
  fread_loop.simps fread_stream_def fseek_stream_def ftell_stream_def ungetc_stream_def
  RT_EOF_def RT_BUFSZ_def F_READ_def F_WRITE_def F_APPEND_def

lemmas ram_ops = ram_write_def ram_read_def ram_seek_def ram_create_def ram_stream_def
  ram_disk_def seek_base_def splice_def

definition demo_ops :: "file_op list" where
  "demo_ops = [OpPut [104, 101, 108, 108, 111], OpTell, OpSeek 1 0, OpGet, OpUnget 69, OpRead 1 3,
     OpSeek (- 1) 1, OpPut [33, 33, 33], OpFlush]"

lemma demo_ops_run: "case exec_ops ram_api (ram_disk [] 100) (ram_stream 3) demo_ops of (w', f', rs) \<Rightarrow> \<not> f_err f'"
  by (simp add: demo_ops_def stream_ops ram_ops Let_def)

section \<open>Properties\<close>

text \<open>
  C25. A stream is a file: whatever sequence of writes, reads, pushed-back bytes, flushes,
  seeks and position queries is made on a stream over a kernel that keeps the contract of a
  disk file, if the error indicator is clear at the end then every answer, every byte read
  and the contents and position seen at the end are those of the plain file, whose bytes
  are written at its position at once.
\<close>

theorem stream_is_file:
  assumes "disk_file F open_file data fpos"
    and "open_file w (f_h f)" and "stream_sim (data w (f_h f)) (fpos w (f_h f)) f a"
    and "exec_ops F w f ops = (w', f', rs)" and "\<not> f_err f'"
    and "spec_ops a ops = Some (a', rs')"
  shows "rs = rs' \<and> open_file w' (f_h f') \<and> stream_sim (data w' (f_h f')) (fpos w' (f_h f')) f' a'"
  using disk_file.sim_ops [OF assms(1) _ assms(4,5,6)] assms(2,3) by simp

lemma stream_is_file_witness:
  "case exec_ops ram_api (ram_disk [] 100) (ram_stream 3) demo_ops of (w', f', rs) \<Rightarrow>
     rs = [(1, []), (5, []), (0, []), (101, []), (69, []), (3, [69, 108, 108]), (0, []), (1, []), (0, [])] \<and>
     stream_view (rd_data w') (rd_pos w') f' = ([104, 101, 108, 33, 33, 33], 6)"
proof -
  obtain w' f' rs where run: "exec_ops ram_api (ram_disk [] 100) (ram_stream 3) demo_ops = (w', f', rs)"
    by (metis prod_cases3)
  let ?a = "\<lparr>a_data = [], a_pos = 0, a_push = None, a_reading = False\<rparr>"
  have spec: "spec_ops ?a demo_ops = Some (\<lparr>a_data = [104, 101, 108, 33, 33, 33], a_pos = 6, a_push = None,
      a_reading = False\<rparr>, [(1, []), (5, []), (0, []), (101, []), (69, []), (3, [69, 108, 108]), (0, []),
      (1, []), (0, [])])"
    by (simp add: demo_ops_def splice_def a_ahead_def)
  have "\<not> f_err f'" using demo_ops_run by (simp add: run)
  moreover have "f_h (ram_stream 3) = 100"
    and "stream_sim (rd_data (ram_disk [] 100)) (rd_pos (ram_disk [] 100)) (ram_stream 3) ?a"
    using ram_start [of "[]" 3] by (simp_all add: ram_stream_def ram_disk_def)
  ultimately show ?thesis
    unfolding run using stream_is_file [OF ram.disk_file_axioms _ _ run _ spec]
    by (simp add: stream_sim_def)
qed



text \<open>
  C27. A write that fails loses no order: the error indicator is up and the file has a front
  part of the bytes that were due, the pending ones before the new ones, at their place.
\<close>

theorem failed_write_keeps_order:
  assumes "disk_file F open_file data fpos"
    and "rt_putbytes F w f p = (w', f', False)" and "open_file w (f_h f)"
    and "stream_inv (data w (f_h f)) (fpos w (f_h f)) f" and "f_dir f = DIR_WRITE"
    and "f_mode f AND F_WRITE \<noteq> 0"
  shows "f_err f' \<and> (\<exists>k\<le>length (pending f @ p).
    data w' (f_h f) = splice (data w (f_h f)) (fpos w (f_h f)) (take k (pending f @ p)))"
  using disk_file.put_fails [OF assms] .

definition full_stream :: stream where
  "full_stream = (ram_stream 2)\<lparr>f_dir := DIR_WRITE, f_bufmode := BUF_LINE,
     f_buf := Some ([1, 2] @ replicate 4094 0), f_len := 2\<rparr>"

lemma failed_write_keeps_order_witness:
  "case rt_putbytes ram_api (ram_disk [] 3) full_stream [3, 10, 4] of (w', f', ok) \<Rightarrow>
     \<not> ok \<and> f_err f' \<and> (\<exists>k. rd_data w' = take k [1, 2, 3, 10, 4])"
proof -
  obtain w' f' ok where run: "rt_putbytes ram_api (ram_disk [] 3) full_stream [3, 10, 4] = (w', f', ok)"
    by (metis prod_cases3)
  have nok: "\<not> ok"
    using run by (auto simp: full_stream_def stream_ops ram_ops Let_def)
  have h: "f_h full_stream = 100" "f_dir full_stream = DIR_WRITE" "pending full_stream = [1, 2]"
      "f_mode full_stream AND F_WRITE \<noteq> 0"
    by (simp_all add: full_stream_def ram_stream_def pending_def F_WRITE_def)
  have inv: "stream_inv [] 0 full_stream"
    by (simp add: full_stream_def ram_stream_def stream_inv_def RT_BUFSZ_def)
  have "f_err f' \<and> (\<exists>k\<le>length (pending full_stream @ [3, 10, 4]).
      rd_data w' = splice (rd_data (ram_disk [] 3)) (rd_pos (ram_disk [] 3)) (take k (pending full_stream @ [3, 10, 4])))"
    by (rule failed_write_keeps_order [OF ram.disk_file_axioms run [unfolded Eq_FalseI [OF nok]]])
      (use h inv in \<open>simp_all add: ram_disk_def\<close>)
  then show ?thesis unfolding run using nok by (auto simp: h ram_disk_def splice_def)
qed

text \<open>
  \<open>fgets\<close> stores the next line: everything up to and with the newline, but at most
  \<open>n - 1\<close> characters, ended by a zero; at the end of the file it returns null. The stream
  is left just behind what was taken.
\<close>

theorem fgets_takes_a_line:
  assumes "disk_file F open_file data fpos"
    and "fgets_stream F w f n = (w', f', res)" and "open_file w (f_h f)"
    and "stream_inv (data w (f_h f)) (fpos w (f_h f)) f" and "\<not> f_err f'" and "0 < n"
  shows "let bs = line_of (nat (n - 1)) (ahead (data w (f_h f)) (fpos w (f_h f)) f) in
    res = (if bs = [] then None else Some (bs @ [0])) \<and> length bs < nat n \<and>
    ahead (data w (f_h f)) (fpos w (f_h f)) f = bs @ ahead (data w' (f_h f)) (fpos w' (f_h f)) f'"
proof -
  obtain w1 f1 out where loop: "fgets_loop F w f (nat (n - 1)) [] = (w1, f1, out)" by (metis prod_cases3)
  have res: "w' = w1" "f' = f1" "res = (if out = [] then None else Some (out @ [0]))"
    using assms(2,6) by (auto simp: fgets_stream_def loop)
  obtain D Q where view: "stream_view (data w (f_h f)) (fpos w (f_h f)) f = (D, Q)"
    by (cases "stream_view (data w (f_h f)) (fpos w (f_h f)) f")
  have len: "length (line_of k bs) \<le> k" for k bs by (induction k bs rule: line_of.induct) auto
  have "nat (n - 1) < nat n" using assms(6) by simp
  then have short: "length (line_of (nat (n - 1)) bs) < nat n" for bs
    by (rule le_less_trans [OF len])
  have e1: "\<not> f_err f1" using assms(5) res(2) by simp
  obtain bs where bs: "out = [] @ bs"
      "bs = line_of (nat (n - 1)) (ahead (data w (f_h f)) (fpos w (f_h f)) f)"
      "ahead (data w (f_h f)) (fpos w (f_h f)) f = bs @ ahead (data w1 (f_h f)) (fpos w1 (f_h f)) f1"
    using disk_file.fgets_loop_ok [OF assms(1) loop assms(3,4) e1 view] by blast
  have "length bs < nat n" unfolding bs(2) by (rule short)
  with bs(1,3) show ?thesis unfolding res Let_def bs(2) [symmetric] by simp
qed

lemma fgets_loop_numeral: "fgets_loop F w f (numeral k) out =
    (let (w, f, c) = rt_getbyte F w f
      in if c = RT_EOF then (w, f, out)
         else if c = 10 then (w, f, out @ [word_of_int c])
         else fgets_loop F w f (pred_numeral k) (out @ [word_of_int c]))"
  by (simp only: numeral_eq_Suc fgets_loop.simps)

lemma line_of_numeral:
  "line_of (numeral k) (b # bs) = (if b = 10 then [b] else b # line_of (pred_numeral k) bs)"
  by (simp only: numeral_eq_Suc line_of.simps)

lemma demo_fgets_run:
  "case fgets_stream ram_api (ram_disk [97, 10, 98] 0) (ram_stream 1) 9 of (w', f', res) \<Rightarrow> \<not> f_err f'"
  by (simp add: fgets_stream_def fgets_loop_numeral stream_ops ram_ops Let_def)

lemma fgets_takes_a_line_witness:
  "case fgets_stream ram_api (ram_disk [97, 10, 98] 0) (ram_stream 1) 9 of (w', f', res) \<Rightarrow>
     res = Some [97, 10, 0] \<and> ahead (rd_data w') (rd_pos w') f' = [98]"
proof -
  obtain w' f' res where run:
      "fgets_stream ram_api (ram_disk [97, 10, 98] 0) (ram_stream 1) 9 = (w', f', res)"
    by (metis prod_cases3)
  have ne: "\<not> f_err f'" using demo_fgets_run by (simp add: run)
  have inv: "f_h (ram_stream 1) = 100"
      "stream_inv (rd_data (ram_disk [97, 10, 98] 0)) (rd_pos (ram_disk [97, 10, 98] 0)) (ram_stream 1)"
    by (simp_all add: ram_stream_def ram_disk_def stream_inv_def)
  have ah: "ahead (rd_data (ram_disk [97, 10, 98] 0)) (rd_pos (ram_disk [97, 10, 98] 0)) (ram_stream 1) = [97, 10, 98]"
    by (simp add: ram_stream_def ram_disk_def ahead_def stream_view_def pushback_def)
  have l: "line_of (nat (9 - 1)) [97, 10, 98] = [97, 10]" by (simp add: line_of_numeral)
  have "let bs = line_of (nat (9 - 1)) [97, 10, 98] in
      res = (if bs = [] then None else Some (bs @ [0])) \<and> length bs < nat 9 \<and>
      [97, 10, 98] = bs @ ahead (rd_data w') (rd_pos w') f'"
    using fgets_takes_a_line [OF ram.disk_file_axioms run inv(1,2) ne] unfolding ah by simp
  then show ?thesis unfolding run l by simp
qed



end
