(* ===== verification/StdioExit.thy ===== *)
theory StdioExit
  imports StdioApi StdioFile
begin

text \<open>
  The streams together: flushing all of them at the end of the program, over a kernel whose
  writes to one handle leave the other files alone, and two runs of library calls that show
  where the code departs from the C standard.
\<close>

section \<open>Several files\<close>

locale disk_files = disk_file F open_file data fpos
  for F :: "'w file_api" and open_file :: "'w \<Rightarrow> handle \<Rightarrow> bool"
    and data :: "'w \<Rightarrow> handle \<Rightarrow> u8 list" and fpos :: "'w \<Rightarrow> handle \<Rightarrow> nat" +
  assumes write_frame: "WriteFile F w h p = (w', r, n) \<Longrightarrow> k \<noteq> h \<Longrightarrow> open_file w k \<Longrightarrow>
      open_file w' k \<and> data w' k = data w k \<and> fpos w' k = fpos w k"
begin

lemma write_loop_frame:
  "write_loop F w h p = (w', ok) \<Longrightarrow> k \<noteq> h \<Longrightarrow> open_file w k \<Longrightarrow>
   open_file w' k \<and> data w' k = data w k \<and> fpos w' k = fpos w k"
proof (induction p arbitrary: w rule: length_induct)
  case (1 p)
  show ?case
  proof (cases "p = []")
    case True
    with 1 show ?thesis by (simp add: write_loop.simps)
  next
    case False
    obtain w1 r n where wr: "WriteFile F w h
        (take (if length p > 0x40000000 then 0x40000000 else length p) p) = (w1, r, n)"
      by (metis prod_cases3)
    have eq: "write_loop F w h p = (if \<not> r \<or> n = 0 then (w1, False) else write_loop F w1 h (drop n p))"
      by (subst write_loop.simps) (simp add: False wr del: One_nat_def)
    have f: "open_file w1 k \<and> data w1 k = data w k \<and> fpos w1 k = fpos w k"
      by (rule write_frame [OF wr "1.prems"(2,3)])
    show ?thesis
    proof (cases "\<not> r \<or> n = 0")
      case True
      with eq "1.prems"(1) f show ?thesis by auto
    next
      case go: False
      then have len: "length (drop n p) < length p" using False by simp
      have run: "write_loop F w1 h (drop n p) = (w', ok)" using eq go "1.prems"(1) by simp
      have "open_file w' k \<and> data w' k = data w1 k \<and> fpos w' k = fpos w1 k"
        using "1.IH" len run "1.prems"(2) f by blast
      with f show ?thesis by simp
    qed
  qed
qed

lemma flush_frame:
  assumes "rt_flush_write F w f = (w', f', r)" and "k \<noteq> f_h f" and "open_file w k"
  shows "open_file w' k \<and> data w' k = data w k \<and> fpos w' k = fpos w k \<and> f_h f' = f_h f"
  using assms write_loop_frame [of w "f_h f" "pending f" _ _ k]
  by (auto simp: rt_flush_write_def rt_raw_write_def Let_def split: prod.splits if_splits)

text \<open>What the kernel has after a flush that raised no error is what the program saw before.\<close>

lemma flush_view:
  assumes "rt_flush_write F w f = (w', f', r)" and "open_file w (f_h f)"
    and "stream_inv (data w (f_h f)) (fpos w (f_h f)) f"
  shows "open_file w' (f_h f) \<and> f_h f' = f_h f \<and>
    (f_err f' \<or> data w' (f_h f) = fst (stream_view (data w (f_h f)) (fpos w (f_h f)) f))"
proof (cases "f_dir f = DIR_WRITE")
  case True
  with flush_write_ok [OF assms] obtain Y where
      "pushed_out (data w (f_h f)) (fpos w (f_h f)) (pending f) (data w' (f_h f)) (fpos w' (f_h f)) Y"
      "r = 0 \<longrightarrow> Y = []" "open_file w' (f_h f)" "r \<noteq> 0 \<longrightarrow> f_err f'" "f_h f' = f_h f"
    by (auto split: if_splits)
  with True pushed_view [OF this(1)] show ?thesis
    by (cases "r = 0") (auto simp: stream_view_def)
next
  case False
  with flush_write_ok [OF assms] assms(2) show ?thesis
    by (auto simp: stream_view_def split: dir.splits)
qed

end

text \<open>The open streams of a state: on the heap, each with a file of its own.\<close>

definition streams_ok ::
    "('w \<Rightarrow> handle \<Rightarrow> bool) \<Rightarrow> ('w \<Rightarrow> handle \<Rightarrow> u8 list) \<Rightarrow> ('w \<Rightarrow> handle \<Rightarrow> nat) \<Rightarrow> 'w rt_io \<Rightarrow> u64 list \<Rightarrow> bool" where
  "streams_ok open_file data fpos s ps \<longleftrightarrow>
     distinct (map (\<lambda>p. f_h (the (io_heap s p))) ps) \<and>
     (\<forall>p\<in>set ps. \<exists>f. io_heap s p = Some f \<and> open_file (io_os s) (f_h f) \<and>
        stream_inv (data (io_os s) (f_h f)) (fpos (io_os s) (f_h f)) f)"

text \<open>Nothing due to the file of stream \<open>p\<close> is missing in the kernel, or its error is known.\<close>

definition delivered ::
    "('w \<Rightarrow> handle \<Rightarrow> u8 list) \<Rightarrow> ('w \<Rightarrow> handle \<Rightarrow> nat) \<Rightarrow> 'w rt_io \<Rightarrow> 'w rt_io \<Rightarrow> u64 \<Rightarrow> bool" where
  "delivered data fpos s s' p \<longleftrightarrow>
     (\<exists>f f'. io_heap s p = Some f \<and> io_heap s' p = Some f' \<and>
        (f_err f' \<or> data (io_os s') (f_h f) =
           fst (stream_view (data (io_os s) (f_h f)) (fpos (io_os s) (f_h f)) f)))"

context disk_files begin

lemma flush_chain_ok:
  "streams_ok open_file data fpos s ps \<Longrightarrow>
   (\<And>k. k \<in> K \<Longrightarrow> open_file (io_os s) k \<and> k \<notin> (\<lambda>p. f_h (the (io_heap s p))) ` set ps) \<Longrightarrow>
   \<exists>s'. flush_chain F s ps = Some s' \<and> (\<forall>p\<in>set ps. delivered data fpos s s' p) \<and>
     (\<forall>k\<in>K. data (io_os s') k = data (io_os s) k) \<and> (\<forall>p. p \<notin> set ps \<longrightarrow> io_heap s' p = io_heap s p)"
proof (induction ps arbitrary: s K)
  case (Cons p ps)
  obtain f where f: "io_heap s p = Some f" "open_file (io_os s) (f_h f)"
      "stream_inv (data (io_os s) (f_h f)) (fpos (io_os s) (f_h f)) f"
    using Cons.prems(1) by (auto simp: streams_ok_def)
  obtain w1 f1 r where fl: "rt_flush_write F (io_os s) f = (w1, f1, r)" by (metis prod_cases3)
  define s1 where "s1 = s\<lparr>io_os := w1, io_heap := (io_heap s)(p \<mapsto> f1)\<rparr>"
  have run: "flush_chain F s (p # ps) = flush_chain F s1 ps"
    using f(1) fl by (simp add: on_file_def deref_def store_def s1_def)
  note v = flush_view [OF fl f(2,3)] and fr = flush_frame [OF fl]
  have p: "p \<notin> set ps"
    using Cons.prems(1) by (auto simp: streams_ok_def dest!: distinct_map [THEN iffD1])
  have hs: "f_h f \<notin> (\<lambda>p. f_h (the (io_heap s p))) ` set ps"
    using Cons.prems(1) f(1) by (simp add: streams_ok_def)
  have heap1: "q \<in> set ps \<Longrightarrow> io_heap s1 q = io_heap s q" for q using p by (auto simp: s1_def)
  then have map1: "map (\<lambda>p. f_h (the (io_heap s1 p))) ps = map (\<lambda>p. f_h (the (io_heap s p))) ps"
    by simp
  have other: "g \<in> set ps \<Longrightarrow> io_heap s g = Some f' \<Longrightarrow> f_h f' \<noteq> f_h f" for g f'
    using hs by (metis image_eqI option.sel)
  have ok1: "streams_ok open_file data fpos s1 ps"
    unfolding streams_ok_def map1
  proof (intro conjI ballI)
    show "distinct (map (\<lambda>p. f_h (the (io_heap s p))) ps)"
      using Cons.prems(1) by (simp add: streams_ok_def)
    fix q assume q: "q \<in> set ps"
    then obtain g where g: "io_heap s q = Some g" "open_file (io_os s) (f_h g)"
        "stream_inv (data (io_os s) (f_h g)) (fpos (io_os s) (f_h g)) g"
      using Cons.prems(1) by (auto simp: streams_ok_def)
    with fr [OF other [OF q g(1)] g(2)] heap1 [OF q]
    show "\<exists>f. io_heap s1 q = Some f \<and> open_file (io_os s1) (f_h f) \<and>
        stream_inv (data (io_os s1) (f_h f)) (fpos (io_os s1) (f_h f)) f"
      by (simp add: s1_def)
  qed
  have K1: "open_file (io_os s1) k \<and> k \<notin> (\<lambda>p. f_h (the (io_heap s1 p))) ` set ps"
    if "k \<in> insert (f_h f) K" for k
  proof (cases "k = f_h f")
    case True
    then show ?thesis using v hs heap1 by (auto simp: s1_def image_iff)
  next
    case False
    then have "open_file (io_os s) k" "k \<notin> (\<lambda>p. f_h (the (io_heap s p))) ` set ps"
      using that Cons.prems(2) by auto
    with fr [OF False] heap1 show ?thesis by (auto simp: s1_def image_iff)
  qed
  obtain s' where s': "flush_chain F s1 ps = Some s'" "\<forall>q\<in>set ps. delivered data fpos s1 s' q"
      "\<forall>k\<in>insert (f_h f) K. data (io_os s') k = data (io_os s1) k"
      "\<forall>q. q \<notin> set ps \<longrightarrow> io_heap s' q = io_heap s1 q"
    using Cons.IH [OF ok1 K1] by blast
  have "delivered data fpos s s' p"
    unfolding delivered_def using f(1) s'(3,4) p v by (auto simp: s1_def)
  moreover have "delivered data fpos s s' q" if q: "q \<in> set ps" for q
  proof -
    obtain g where g: "io_heap s q = Some g" "open_file (io_os s) (f_h g)"
      using Cons.prems(1) q by (auto simp: streams_ok_def)
    with fr [OF other [OF q g(1)] g(2)] heap1 [OF q] s'(2) q show ?thesis
      unfolding delivered_def by (fastforce simp: s1_def)
  qed
  moreover have "data (io_os s') k = data (io_os s) k" if k: "k \<in> K" for k
  proof -
    have "k \<noteq> f_h f" "open_file (io_os s) k" using Cons.prems(2) [OF k] f(1) by auto
    with fr [OF this] s'(3) k show ?thesis by (simp add: s1_def)
  qed
  moreover have "io_heap s' q = io_heap s q" if "q \<notin> set (p # ps)" for q
    using that s'(4) by (simp add: s1_def)
  ultimately show ?case using run s'(1) by auto
qed simp

lemma std_flush_frame:
  assumes "on_file (rt_flush_write F) s fp = Some (s', r)" and "fp \<in> {FStdout, FStderr}"
    and "deref s fp = Some f" and "streams_ok open_file data fpos s ps"
    and "f_h f \<notin> (\<lambda>p. f_h (the (io_heap s p))) ` set ps"
  shows "streams_ok open_file data fpos s' ps \<and> io_heap s' = io_heap s \<and> io_open s' = io_open s \<and>
    (\<forall>p\<in>set ps. \<forall>q. delivered data fpos s' q p \<longrightarrow> delivered data fpos s q p) \<and>
    f_h (io_stdout s') = f_h (io_stdout s) \<and> f_h (io_stderr s') = f_h (io_stderr s)"
proof -
  obtain w1 f1 r1 where fl: "rt_flush_write F (io_os s) f = (w1, f1, r1)" by (metis prod_cases3)
  have s': "s' = store (s\<lparr>io_os := w1\<rparr>) fp f1" using assms(1,3) fl by (simp add: on_file_def)
  have heap: "io_heap s' = io_heap s" "io_os s' = w1" "io_open s' = io_open s"
    using assms(2) by (auto simp: s' store_def)
  have keep: "open_file w1 (f_h g) \<and> data w1 (f_h g) = data (io_os s) (f_h g) \<and>
      fpos w1 (f_h g) = fpos (io_os s) (f_h g)"
    if "p \<in> set ps" "io_heap s p = Some g" for p g
  proof -
    have "f_h g \<noteq> f_h f" using assms(5) that by (metis image_eqI option.sel)
    moreover have "open_file (io_os s) (f_h g)" using assms(4) that by (auto simp: streams_ok_def)
    ultimately show ?thesis using flush_frame [OF fl] by blast
  qed
  have "f_h f1 = f_h f"
    using fl by (auto simp: rt_flush_write_def rt_raw_write_def Let_def split: prod.splits if_splits)
  then have "f_h (io_stdout s') = f_h (io_stdout s) \<and> f_h (io_stderr s') = f_h (io_stderr s)"
    using assms(2,3) by (auto simp: s' store_def deref_def)
  moreover have "streams_ok open_file data fpos s' ps"
    using assms(4) keep unfolding streams_ok_def heap by force
  ultimately show ?thesis using heap keep unfolding delivered_def by auto
qed

lemma flush_all_ok:
  assumes "io_ready s" and "streams_ok open_file data fpos s (io_open s)"
    and "f_h (io_stdout s) \<notin> (\<lambda>p. f_h (the (io_heap s p))) ` set (io_open s)"
    and "f_h (io_stderr s) \<notin> (\<lambda>p. f_h (the (io_heap s p))) ` set (io_open s)"
  shows "\<exists>s'. stdio_flush_all F s = Some s' \<and> (\<forall>p\<in>set (io_open s). delivered data fpos s s' p)"
proof -
  obtain s1 r1 where 1: "on_file (rt_flush_write F) s FStdout = Some (s1, r1)"
    by (cases "rt_flush_write F (io_os s) (io_stdout s)") (simp add: on_file_def deref_def)
  note k1 = std_flush_frame [OF 1 _ _ assms(2,3)]
  have d1: "deref s FStdout = Some (io_stdout s)" by (simp add: deref_def)
  obtain s2 r2 where 2: "on_file (rt_flush_write F) s1 FStderr = Some (s2, r2)"
    by (cases "rt_flush_write F (io_os s1) (io_stderr s1)") (simp add: on_file_def deref_def)
  have st1: "streams_ok open_file data fpos s1 (io_open s)" "io_heap s1 = io_heap s" "io_open s1 = io_open s"
      "f_h (io_stderr s1) = f_h (io_stderr s)"
    using k1 [OF _ d1] by auto
  have d2: "deref s1 FStderr = Some (io_stderr s1)" by (simp add: deref_def)
  have "f_h (io_stderr s1) \<notin> (\<lambda>p. f_h (the (io_heap s1 p))) ` set (io_open s)"
    using assms(4) st1 by simp
  note k2 = std_flush_frame [OF 2 _ d2 st1(1) this]
  obtain s' where s': "flush_chain F s2 (io_open s) = Some s'"
      "\<forall>p\<in>set (io_open s). delivered data fpos s2 s' p"
    using flush_chain_ok [of s2 "io_open s" "{}"] k2 by auto
  have "stdio_flush_all F s = Some s'" using assms(1) 1 2 s'(1) k2 st1(3) by (simp add: stdio_flush_all_def)
  moreover have "delivered data fpos s s' p" if "p \<in> set (io_open s)" for p
    using k1 [OF _ d1] k2 s'(2) that by blast
  ultimately show ?thesis by blast
qed

end

interpretation ram_files: disk_files ram_api "\<lambda>w h. h = 100" "\<lambda>w h. rd_data w" "\<lambda>w h. rd_pos w"
proof
  fix h k :: handle and p :: "u8 list" and w w' r n
  assume "WriteFile ram_api w h p = (w', r, n)" and "k \<noteq> h" and "k = 100"
  then show "k = 100 \<and> rd_data w' = rd_data w \<and> rd_pos w' = rd_pos w"
    by (auto simp: ram_write_def)
qed

section \<open>A heap for the runs\<close>

definition ram_heap :: "ram_disk heap_api" where
  "ram_heap = \<lparr>HeapAlloc = (\<lambda>w flags n. (w, if n = FILE_SIZE then 0x1000 else 0x2000)),
     HeapReAlloc = (\<lambda>w flags p n. (w, p)), HeapFree = (\<lambda>w flags p. w)\<rparr>"

definition ram_proc :: "ram_disk proc_api" where
  "ram_proc = \<lparr>CreatePipe = (\<lambda>w inherit. (w, None)), SetHandleInformation = (\<lambda>w h mask flags. w),
     CreateProcessA = (\<lambda>w cmd si. (w, None)), WaitForSingleObject = (\<lambda>w h ms. w),
     GetExitCodeProcess = (\<lambda>w h. None), TerminateProcess = (\<lambda>w code. w)\<rparr>"

definition zero_stream :: stream where
  "zero_stream = \<lparr>f_h = 0, f_mode = 0, f_dir = DIR_IDLE, f_err = False, f_eof = False, f_bufmode = BUF_FULL,
     f_buf = None, f_bufp = 0, f_cap = 0, f_len = 0, f_pos = 0, f_ungot = 0, f_is_std = False, f_proc = 0\<rparr>"

definition ram_io :: "u8 list \<Rightarrow> ram_disk rt_io" where
  "ram_io bs = \<lparr>io_os = ram_disk bs 100, io_stdin = zero_stream, io_stdout = zero_stream,
     io_stderr = zero_stream, io_ready = False, io_heap = (\<lambda>_. None), io_open = []\<rparr>"

lemmas api_defs = fopen_def open_mode_def malloc_def ram_heap_def ram_proc_def new_stream_def
  rt_std_init_def on_file_def deref_def store_def fseek_def fwrite_def fflush_def fgetc_def
  fputc_def fputc_stream_def ram_io_def zero_stream_def

section \<open>Properties\<close>


definition exit_state :: "ram_disk rt_io" where
  "exit_state = (ram_io [])\<lparr>io_ready := True, io_heap := [0x1000 \<mapsto> full_stream], io_open := [0x1000]\<rparr>"


text \<open>A stream opened with \<open>a+\<close>, moved to the start and written to.\<close>

definition append_run :: "(ram_disk rt_io \<times> int) option" where
  "append_run =
     (let (s, f) = fopen ram_heap ram_api (ram_io [1, 2, 3]) (lit ''log'') (lit ''a+'')
      in do { (s, r) \<leftarrow> fseek ram_api s f 0 0; (s, n) \<leftarrow> fwrite ram_api s [9] 1 1 f;
              fflush ram_api s f })"

text \<open>
  \<open>F_APPEND\<close> is never looked at after \<open>fopen\<close>: on a stream opened with \<open>a+\<close>, a
  write after \<open>fseek(f, 0, SEEK_SET)\<close> overwrites the start of the file. The C standard
  sends every write of such a stream to the end.
\<close>

theorem append_mode_overwrites:
  "map_option (\<lambda>(s, r). rd_data (io_os s)) append_run = Some [9, 2, 3]"
  by (simp add: append_run_def api_defs stream_ops ram_ops ram_api_def Let_def FILE_SIZE_def)

text \<open>One byte read, a seek that fails, one byte read.\<close>

definition seek_run :: "(ram_disk rt_io \<times> int list) option" where
  "seek_run =
     (let (s, f) = fopen ram_heap ram_api (ram_io [1, 2, 3]) (lit ''log'') (lit ''r'')
      in do { (s, a) \<leftarrow> fgetc ram_api s f; (s, r) \<leftarrow> fseek ram_api s f (- 5) 1;
              (s, b) \<leftarrow> fgetc ram_api s f; Some (s, [a, r, b]) })"

text \<open>
  A seek that fails forgets the read-ahead without moving the kernel's position back:
  after one byte read and a failed \<open>fseek(f, -5, SEEK_CUR)\<close> the next read is at the end of
  the file, not at the second byte.
\<close>

theorem failed_seek_skips:
  "map_option snd seek_run = Some [1, - 1, - 1]"
  by (simp add: seek_run_def api_defs stream_ops ram_ops ram_api_def Let_def FILE_SIZE_def)

end
