(* ===== verification/StdioFormat.thy ===== *)
theory StdioFormat
  imports Printf StdioExit
begin

text \<open>
  Where the formatter meets the streams: the entry points of \<open>rt_format.c\<close> that write to a
  \<open>FILE\<close>, \<open>perror\<close>, and \<open>system\<close> of \<open>rt_stdlib.c\<close>, which flushes the streams before it starts a
  process. The theorem: what \<open>fprintf\<close> formats is what the file behind the stream receives.
\<close>

section \<open>The entry points\<close>

text \<open>The call of \<open>fwrite\<close> in \<open>sink_bytes\<close>.\<close>

definition file_fwrite :: "'w file_api \<Rightarrow> fptr \<Rightarrow> 'w rt_io fwrite" where
  "file_fwrite F fp s p =
     do { (s, n) \<leftarrow> fwrite F s p 1 (word_of_nat (length p)) fp; Some (s, unat n) }"

text \<open>A null stream makes a sink that only counts.\<close>

definition vfprintf_file ::
    "'w file_api \<Rightarrow> 'w rt_io \<Rightarrow> mem \<Rightarrow> fptr \<Rightarrow> nat \<Rightarrow> u64 list \<Rightarrow> ('w rt_io \<times> mem \<times> int) option" where
  "vfprintf_file F s m fp fmt ap =
     (if fp = FNull
      then do { (r, k) \<leftarrow> vformat (file_fwrite F fp)
                  \<lparr>sk_mem = m, sk_out = 0, sk_cap = 0, sk_want = 0, sk_stream = None, sk_failed = False\<rparr> fmt ap;
                Some (s, sk_mem k, r) }
      else do { (r, k) \<leftarrow> vfprintf (file_fwrite F fp) m s fmt ap;
                s \<leftarrow> sk_stream k;
                Some (s, sk_mem k, r) })"

definition fprintf ::
    "'w file_api \<Rightarrow> 'w rt_io \<Rightarrow> mem \<Rightarrow> fptr \<Rightarrow> nat \<Rightarrow> u64 list \<Rightarrow> ('w rt_io \<times> mem \<times> int) option" where
  "fprintf F s m fp fmt ap = vfprintf_file F s m fp fmt ap"

definition vprintf ::
    "'w file_api \<Rightarrow> 'w rt_io \<Rightarrow> mem \<Rightarrow> nat \<Rightarrow> u64 list \<Rightarrow> ('w rt_io \<times> mem \<times> int) option" where
  "vprintf F s m fmt ap = (let (s, fp) = iob F s 1 in vfprintf_file F s m fp fmt ap)"

definition printf ::
    "'w file_api \<Rightarrow> 'w rt_io \<Rightarrow> mem \<Rightarrow> nat \<Rightarrow> u64 list \<Rightarrow> ('w rt_io \<times> mem \<times> int) option" where
  "printf F s m fmt ap = (let (s, fp) = iob F s 1 in vfprintf_file F s m fp fmt ap)"

definition ms_vsnprintf :: "mem \<Rightarrow> nat \<Rightarrow> nat \<Rightarrow> nat \<Rightarrow> u64 list \<Rightarrow> (int \<times> mem) option" where
  "ms_vsnprintf m out cap fmt ap = vsnprintf m out cap fmt ap"

definition ms_snprintf :: "mem \<Rightarrow> nat \<Rightarrow> nat \<Rightarrow> nat \<Rightarrow> u64 list \<Rightarrow> (int \<times> mem) option" where
  "ms_snprintf m out cap fmt ap = vsnprintf m out cap fmt ap"

text \<open>\<open>err\<close> is the value of \<open>errno\<close>, \<open>buf\<close> the address of the static buffer of \<open>strerror\<close>.\<close>

definition perror ::
    "'w file_api \<Rightarrow> 'w rt_io \<Rightarrow> mem \<Rightarrow> nat \<Rightarrow> int \<Rightarrow> u8 list option \<Rightarrow> ('w rt_io \<times> mem) option" where
  "perror F s m buf err tag =
     (let (s, fp) = iob F s 2
      in do { s \<leftarrow> (case tag of
                None \<Rightarrow> Some s
              | Some tag \<Rightarrow>
                  if tag \<noteq> []
                  then do { (s, r) \<leftarrow> fputs F s tag fp; (s, r) \<leftarrow> fputs F s (lit '': '') fp; Some s }
                  else Some s);
              (q, m) \<leftarrow> strerror m buf err;
              n \<leftarrow> strlen m q;
              text_bytes \<leftarrow> ldn m q n;
              (s, r) \<leftarrow> fputs F s text_bytes fp;
              (s, r) \<leftarrow> fputs F s [10] fp;
              Some (s, m) })"

definition system ::
    "'w heap_api \<Rightarrow> 'w file_api \<Rightarrow> 'w proc_api \<Rightarrow> 'w env_api \<Rightarrow> 'w rt_io \<times> start_state \<Rightarrow>
     u8 list option \<Rightarrow> (('w rt_io \<times> start_state) \<times> int) option" where
  "system H F P E = (\<lambda>(s, st) command.
     (case command of
        None \<Rightarrow> Some ((s, st), 1)
      | Some command \<Rightarrow>
          let (w, st, shell) = getenv H E (io_os s) st (Some (lit ''COMSPEC''));
              cmd = rt_popen_cmdline shell command 4096;
              si = \<lparr>si_flags = 0, si_input = 0, si_output = 0, si_error = 0\<rparr>
          in do {
            s \<leftarrow> stdio_flush_all F (s\<lparr>io_os := w\<rparr>);
            (let (w, child) = CreateProcessA P (io_os s) cmd si
             in case child of
                  None \<Rightarrow> Some ((s\<lparr>io_os := w\<rparr>, st), - 1)
                | Some info \<Rightarrow>
                    let w = WaitForSingleObject P w (pi_process info) 0xFFFFFFFF;
                        code = (case GetExitCodeProcess P w (pi_process info) of None \<Rightarrow> 0 | Some c \<Rightarrow> c);
                        w = CloseHandle F w (pi_thread info);
                        w = CloseHandle F w (pi_process info)
                    in Some ((s\<lparr>io_os := w\<rparr>, st), sint code)) }))"

section \<open>Text streams\<close>

text \<open>
  What the formatter relies on in a stream: \<open>fw\<close> always answers, and either all of the text went
  to the stream or an error sticks to it.
\<close>

locale text_stream =
  fixes fw :: "'s fwrite"
    and good :: "'s \<Rightarrow> bool" and bad :: "'s \<Rightarrow> bool" and wrote :: "'s \<Rightarrow> u8 list \<Rightarrow> 's \<Rightarrow> bool"
  assumes write_law: "good st \<Longrightarrow> length p < 2 ^ 64 \<Longrightarrow> p \<noteq> [] \<Longrightarrow>
      \<exists>st' n. fw st p = Some (st', n) \<and> good st' \<and> (bad st \<longrightarrow> bad st') \<and>
        (if n = length p then bad st' \<or> wrote st p st' else bad st')"
    and wrote_nil: "good st \<Longrightarrow> wrote st [] st"
    and wrote_append: "wrote st p st1 \<Longrightarrow> wrote st1 q st2 \<Longrightarrow> wrote st (p @ q) st2"
begin

text \<open>The sink after the text \<open>t\<close> has been written to it.\<close>

definition after :: "'s \<Rightarrow> 's sink \<Rightarrow> u8 list \<Rightarrow> 's sink \<Rightarrow> bool" where
  "after st k t k' \<longleftrightarrow>
     (\<exists>st'. sk_stream k' = Some st' \<and> good st' \<and> sk_mem k' = sk_mem k \<and> sk_want k' = sk_want k + length t \<and>
        (sk_failed k' \<longrightarrow> bad st') \<and> (bad st' \<or> wrote st t st'))"

lemma after_bytes:
  assumes "sk_stream k = Some st" "good st" "sk_failed k \<longrightarrow> bad st" "length p < 2 ^ 64"
  shows "\<exists>k'. sink_bytes fw k p = Some k' \<and> after st k p k' \<and> (bad st \<longrightarrow> bad (the (sk_stream k')))"
proof (cases "p = []")
  case True
  then show ?thesis using assms wrote_nil by (auto simp: sink_bytes_def after_def)
next
  case False
  obtain st' n where "fw st p = Some (st', n)" "good st'" "bad st \<longrightarrow> bad st'"
      "if n = length p then bad st' \<or> wrote st p st' else bad st'"
    using write_law [OF assms(2,4) False] by blast
  then show ?thesis using assms(1,3) False by (auto simp: sink_bytes_def after_def split: if_splits)
qed

lemma after_trans:
  assumes "after st k t k1" "sk_stream k1 = Some st1" "after st1 k1 u k2" "bad st1 \<longrightarrow> bad (the (sk_stream k2))"
  shows "after st k (t @ u) k2"
  using assms wrote_append [of st t st1 u] by (auto simp: after_def)

lemma after_all:
  "sk_stream k = Some st \<Longrightarrow> good st \<Longrightarrow> sk_failed k \<longrightarrow> bad st \<Longrightarrow> length (concat ps) < 2 ^ 64 \<Longrightarrow>
   \<exists>k'. sink_all fw k ps = Some k' \<and> after st k (concat ps) k' \<and> (bad st \<longrightarrow> bad (the (sk_stream k')))"
proof (induction ps arbitrary: k st)
  case Nil
  then show ?case using wrote_nil by (auto simp: after_def)
next
  case (Cons p ps)
  then obtain k1 where k1: "sink_bytes fw k p = Some k1" "after st k p k1" "bad st \<longrightarrow> bad (the (sk_stream k1))"
    using after_bytes [of k st p] by auto
  then obtain st1 where st1: "sk_stream k1 = Some st1" "good st1" "sk_failed k1 \<longrightarrow> bad st1"
    by (auto simp: after_def)
  obtain k2 where k2: "sink_all fw k1 ps = Some k2" "after st1 k1 (concat ps) k2"
      "bad st1 \<longrightarrow> bad (the (sk_stream k2))"
    using Cons.IH [OF st1] Cons.prems(4) by auto
  have "after st k (p @ concat ps) k2" using after_trans [OF k1(2) st1(1) k2(2,3)] .
  then show ?case using k1 k2 st1(1) by auto
qed

lemma after_emits:
  assumes "emits fw k t r" "sk_stream k = Some st" "good st" "sk_failed k \<longrightarrow> bad st" "length t < 2 ^ 64"
  shows "\<exists>k'. r = Some k' \<and> after st k t k' \<and> (bad st \<longrightarrow> bad (the (sk_stream k')))"
proof -
  obtain ps where "concat ps = t" "r = sink_all fw k ps" using assms(1) by (auto simp: emits_def)
  then show ?thesis using after_all [OF assms(2-4), of ps] assms(5) by auto
qed

text \<open>A format string of well-formed items.\<close>

lemma fmt_loop_stream:
  "sk_stream k = Some st \<Longrightarrow> good st \<Longrightarrow> sk_failed k \<longrightarrow> bad st \<Longrightarrow> lo \<subseteq>\<^sub>m sk_mem k \<Longrightarrow> items_ok its \<Longrightarrow>
   items_out lo its ap = Some t \<Longrightarrow> bytes_at lo p (concat (map item_text its) @ [0]) \<Longrightarrow> length t < 2 ^ 64 \<Longrightarrow>
   \<exists>k'. fmt_loop fw k p ap = Some k' \<and> after st k t k' \<and> (bad st \<longrightarrow> bad (the (sk_stream k')))"
proof (induction its arbitrary: k st p ap t)
  case Nil
  then have "sk_mem k p = Some 0" by (auto dest: map_le_SomeD)
  then show ?case using Nil wrote_nil by (subst fmt_loop.simps) (auto simp: after_def)
next
  case (Cons it its)
  let ?rest = "concat (map item_text its) @ [0]"
  obtain t1 ap1 t2 where t: "item_out lo it ap = Some (t1, ap1)" "items_out lo its ap1 = Some t2" "t = t1 @ t2"
    using Cons.prems(6) by (auto simp: bind_eq_Some)
  have ok: "item_ok it" "items_ok its" using Cons.prems(5) by auto
  have m: "bytes_at lo p (item_text it @ ?rest)" "bytes_at lo (p + length (item_text it)) ?rest"
    using Cons.prems(7) by simp_all
  have "hd ?rest \<in> {0, 37}" if "it = Text bs" for bs
    using that Cons.prems(5) by (cases its) (auto split: item.splits)
  then obtain r where r: "emits fw k t1 r"
      "fmt_step fw k p ap = do { k \<leftarrow> r; Some (k, p + length (item_text it), ap1) }"
    using fmt_step_emits [OF Cons.prems(4) ok(1) t(1) m(1)] by blast
  obtain k1 where k1: "r = Some k1" "after st k t1 k1" "bad st \<longrightarrow> bad (the (sk_stream k1))"
    using after_emits [OF r(1) Cons.prems(1-3)] Cons.prems(8) t(3) by auto
  then obtain st1 where st1: "sk_stream k1 = Some st1" "good st1" "sk_failed k1 \<longrightarrow> bad st1" "sk_mem k1 = sk_mem k"
    by (auto simp: after_def)
  obtain k2 where k2: "fmt_loop fw k1 (p + length (item_text it)) ap1 = Some k2" "after st1 k1 t2 k2"
      "bad st1 \<longrightarrow> bad (the (sk_stream k2))"
    using Cons.IH [OF st1(1-3) _ ok(2) t(2) m(2)] Cons.prems(4,8) st1(4) t(3) by auto
  have ne: "item_text it \<noteq> []" "hd (item_text it) \<noteq> 0"
    using ok(1) by (cases it; force dest: list.set_sel(1))+
  have "sk_mem k p = Some (hd (item_text it @ ?rest))"
    using bytes_at_hd [OF m(1)] Cons.prems(4) by (auto dest: map_le_SomeD)
  then have "fmt_loop fw k p ap = Some k2"
    using ne r(2) k1(1) k2(1) by (subst fmt_loop.simps) simp
  then show ?case using after_trans [OF k1(2) st1(1) k2(2,3)] k1(3) k2(3) st1(1) t(3) by auto
qed

lemma vfprintf_stream:
  assumes "good st" "lo \<subseteq>\<^sub>m m" "items_ok its" "items_out lo its ap = Some t"
    "bytes_at lo fmt (concat (map item_text its) @ [0])" "length t < 2 ^ 31"
  shows "\<exists>r k st'. vfprintf fw m st fmt ap = Some (r, k) \<and> sk_stream k = Some st' \<and> sk_mem k = m \<and> good st' \<and>
    (bad st' \<or> wrote st t st') \<and> (r = - 1 \<and> bad st' \<or> r = int (length t))"
proof -
  define k :: "'s sink" where
    "k = \<lparr>sk_mem = m, sk_out = 0, sk_cap = 0, sk_want = 0, sk_stream = Some st, sk_failed = False\<rparr>"
  obtain k' where k': "fmt_loop fw k fmt ap = Some k'" "after st k t k'"
    using fmt_loop_stream [of k st lo its ap t fmt] assms by (auto simp: k_def)
  then have "vfprintf fw m st fmt ap = Some (if sk_failed k' then - 1 else wrap_s32 (int (sk_want k')), k')"
    by (simp add: vfprintf_def vformat_def k_def)
  moreover have "sk_want k' = length t" "sk_mem k' = m" using k'(2) by (auto simp: after_def k_def)
  moreover have "wrap_s32 (int (length t)) = int (length t)" using assms(6) by (intro wrap_s32_id) simp_all
  ultimately show ?thesis using k'(2) by (auto simp: after_def)
qed

end

section \<open>A file is a text stream\<close>

lemma deref_store: "fp \<noteq> FNull \<Longrightarrow> deref (store s fp f) fp = Some f"
  by (cases fp) (simp_all add: deref_def store_def)

lemma io_os_store [simp]: "io_os (store s fp f) = io_os s"
  by (cases fp) (simp_all add: store_def)

text \<open>A stream with a flagged error; \<open>p\<close> went to the file at its position.\<close>

definition file_bad :: "fptr \<Rightarrow> 'w rt_io \<Rightarrow> bool" where
  "file_bad fp s \<longleftrightarrow> (\<exists>f. deref s fp = Some f \<and> f_err f)"

definition io_view ::
    "('w \<Rightarrow> handle \<Rightarrow> u8 list) \<Rightarrow> ('w \<Rightarrow> handle \<Rightarrow> nat) \<Rightarrow> fptr \<Rightarrow> 'w rt_io \<Rightarrow> (u8 list \<times> nat) option" where
  "io_view data fpos fp s =
     map_option (\<lambda>f. stream_view (data (io_os s) (f_h f)) (fpos (io_os s) (f_h f)) f) (deref s fp)"

definition file_wrote ::
    "('w \<Rightarrow> handle \<Rightarrow> u8 list) \<Rightarrow> ('w \<Rightarrow> handle \<Rightarrow> nat) \<Rightarrow> fptr \<Rightarrow> 'w rt_io \<Rightarrow> u8 list \<Rightarrow> 'w rt_io \<Rightarrow> bool" where
  "file_wrote data fpos fp s p s' \<longleftrightarrow>
     (\<exists>D Q. io_view data fpos fp s = Some (D, Q) \<and> io_view data fpos fp s' = Some (splice D Q p, Q + length p))"

definition file_good ::
    "('w \<Rightarrow> handle \<Rightarrow> bool) \<Rightarrow> ('w \<Rightarrow> handle \<Rightarrow> u8 list) \<Rightarrow> ('w \<Rightarrow> handle \<Rightarrow> nat) \<Rightarrow> fptr \<Rightarrow> 'w rt_io \<Rightarrow> bool" where
  "file_good open_file data fpos fp s \<longleftrightarrow>
     (\<exists>f. deref s fp = Some f \<and> open_file (io_os s) (f_h f) \<and>
        stream_inv (data (io_os s) (f_h f)) (fpos (io_os s) (f_h f)) f)"

context disk_file begin

lemma put_outcome:
  assumes run: "rt_putbytes F w f p = (w', f', ok)" and o: "open_file w (f_h f)"
    and i: "stream_inv (data w (f_h f)) (fpos w (f_h f)) f"
    and v: "stream_view (data w (f_h f)) (fpos w (f_h f)) f = (D, Q)"
  shows "if ok then stream_view (data w' (f_h f)) (fpos w' (f_h f)) f' = (splice D Q p, Q + length p)
    else f_err f'"
proof (cases "f_mode f AND F_WRITE = 0")
  case True
  then show ?thesis using run by (auto simp: rt_putbytes_def)
next
  case False
  obtain w0 f0 where 0: "f_dir f0 = DIR_WRITE" "stream_inv (data w0 (f_h f)) (fpos w0 (f_h f)) f0"
      "stream_view (data w0 (f_h f)) (fpos w0 (f_h f)) f0 = (D, Q)"
      "writes (data w0 (f_h f)) (fpos w0 (f_h f)) f0 p (data w' (f_h f)) (fpos w' (f_h f)) f' ok"
    using putbytes_writes [OF run o i v False] by metis
  then show ?thesis using writes_view [of _ _ f0 p _ _ f' D Q] by (cases ok) (auto simp: writes_def)
qed

lemma file_text:
  assumes "fp \<noteq> FNull"
  shows "text_stream (file_fwrite F fp) (file_good open_file data fpos fp) (file_bad fp) (file_wrote data fpos fp)"
proof
  fix s :: "'w rt_io" and p :: "u8 list"
  assume good: "file_good open_file data fpos fp s" and p: "length p < 2 ^ 64" "p \<noteq> []"
  obtain f where f: "deref s fp = Some f" "open_file (io_os s) (f_h f)"
      "stream_inv (data (io_os s) (f_h f)) (fpos (io_os s) (f_h f)) f"
    using good by (auto simp: file_good_def)
  obtain w' f' ok where run: "rt_putbytes F (io_os s) f p = (w', f', ok)" by (metis prod_cases3)
  obtain D Q where v: "stream_view (data (io_os s) (f_h f)) (fpos (io_os s) (f_h f)) f = (D, Q)" by fastforce
  define s' where "s' = store (s\<lparr>io_os := w'\<rparr>) fp f'"
  have s': "deref s' fp = Some f'" "io_os s' = w'" using assms by (simp_all add: s'_def deref_store)
  have "unat (word_of_nat (length p) :: u64) = length p" using p(1) by (intro unat_of_nat_small) simp
  then have call: "file_fwrite F fp s p = Some (s', if ok then length p else 0)"
    using p assms f(1) run by (simp add: file_fwrite_def fwrite_def on_file_def s'_def Let_def)
  note i = inv_put [OF run f(2,3)] and out = put_outcome [OF run f(2,3) v]
  have "file_good open_file data fpos fp s'" using i s' by (simp add: file_good_def)
  moreover have "file_bad fp s \<longrightarrow> file_bad fp s'"
    using putbytes_err [OF run] f(1) s' by (simp add: file_bad_def)
  moreover have "if ok then file_wrote data fpos fp s p s' else file_bad fp s'"
    using out i v f(1) s' by (auto simp: file_wrote_def io_view_def file_bad_def split: if_splits)
  ultimately show "\<exists>st' n. file_fwrite F fp s p = Some (st', n) \<and> file_good open_file data fpos fp st' \<and>
      (file_bad fp s \<longrightarrow> file_bad fp st') \<and>
      (if n = length p then file_bad fp st' \<or> file_wrote data fpos fp s p st' else file_bad fp st')"
    using call p(2) by (cases ok) auto
next
  show "file_good open_file data fpos fp s \<Longrightarrow> file_wrote data fpos fp s [] s" for s :: "'w rt_io"
    by (auto simp: file_good_def file_wrote_def io_view_def)
next
  show "file_wrote data fpos fp s p s1 \<Longrightarrow> file_wrote data fpos fp s1 q s2 \<Longrightarrow> file_wrote data fpos fp s (p @ q) s2"
    for s s1 s2 :: "'w rt_io" and p q
    by (auto simp: file_wrote_def splice_append)
qed

end

interpretation ram_text: text_stream "file_fwrite ram_api (FOpen p)" "file_good (\<lambda>w h. h = 100) (\<lambda>w h. rd_data w) (\<lambda>w h. rd_pos w) (FOpen p)"
  "file_bad (FOpen p)" "file_wrote (\<lambda>w h. rd_data w) (\<lambda>w h. rd_pos w) (FOpen p)" for p
  by (rule ram.file_text) simp

section \<open>fprintf\<close>


definition demo_io :: "ram_disk rt_io" where
  "demo_io = \<lparr>io_os = ram_disk [1, 2] 100, io_stdin = ram_stream 1, io_stdout = ram_stream 2, io_stderr = ram_stream 2,
     io_ready = True, io_heap = [7 \<mapsto> ram_stream 2], io_open = [7]\<rparr>"


end
