(* ===== verification/Spec2Isabelle.thy ===== *)
theory Spec2Isabelle
  imports Qsort PrintfFloat WString ScanfProps RtMathSpec StringHeader U128 RtOs Blob StdioFormat
begin

text \<open>
  A verification development of c99rt, the C runtime library under \<open>rt/\<close> that the m-c99
  compiler links into every program it builds.

  \<^bold>\<open>The program.\<close> m-c99 is a C99 compiler for Windows: a front end in Haskell
  (\<open>src/C99\<close>), a binary back end, and the runtime \<open>rt/*.c\<close>, a freestanding C library over
  \<open>kernel32.dll\<close> only. \<open>rt_start.c\<close> parses the command line and the environment and calls
  \<open>main\<close>; \<open>rt_stdio.c\<close> keeps the \<open>FILE\<close> objects, buffers them and flushes them at
  exit; \<open>rt_format.c\<close> formats for \<open>printf\<close>, with its own bignum for floats;
  \<open>rt_scan.c\<close> reads numbers back; \<open>rt_math.c\<close> holds \<open><math.h>\<close>; \<open>rt_stdlib.c\<close>, \<open>rt_string.c\<close>,
  \<open>rt_wstring.c\<close>, \<open>rt_ctype.c\<close> and \<open>rt_alloc.c\<close> hold the classic library
  functions. The runtime is the C of the repository, and what is modelled here.

  \<^bold>\<open>Conventions.\<close> A pointer is its address, a natural number; the memory a function works
  on is a partial map from addresses to bytes (theory \<open>Memory\<close>), and a read or write
  outside it is \<open>None\<close>, the value of undefined behaviour, as is a loop without end (these are
  \<open>partial_function (option)\<close>). Unsigned integers are words of their width, signed ones are
  integers with \<open>wrap_s32\<close> and its kin written where C converts. Sizes (\<open>rt_size\<close>) are
  naturals in the memory functions: the arrays of a program are smaller than the address space. A
  double is its 64 bits. \<open>errno\<close> and the static variables of the C files are passed in and
  returned. A \<open>va_list\<close> is the list of its 64-bit slots, as the Windows x64 convention lays
  it out. Where the code is given a byte array and its length only to pass it on (\<open>rt_stdio.c\<close>,
  \<open>rt_start.c\<close>), the array is a list of bytes.

  \<^bold>\<open>kernel32\<close> is not under \<open>src/\<close>. Its functions are fields of records (theory
  \<open>Kernel32\<close>) over a state \<open>'w\<close> of their own, arguments of every definition that calls
  them; what the code relies on is stated as locales: \<open>disk_file\<close> (a handle reads and writes
  one file at one position), \<open>disk_files\<close> (a write to one file leaves the others alone),
  \<open>env_store\<close> (a variable set is found again), \<open>heap_blocks\<close> (a new block overlaps nothing in
  use), \<open>path_call\<close> and \<open>path_api\<close> (a path is put into a buffer that is large enough),
  \<open>type_host\<close> (the allocator of the host). Each is interpreted on a concrete disk, environment,
  heap or system, on which the witnesses run. \<open>text_stream\<close> is the contract between the formatter
  and the streams; a stream over any disk file has it.

  \<^bold>\<open>Theories.\<close>
  \<^item> \<open>C99_Prelude\<close>, \<open>Memory\<close>: integer types, the option monad, the byte memory and
    its lemmas on arrays (\<open>bytes_at\<close>), strings (\<open>cstr\<close>) and stores (\<open>put_bytes\<close>).
  \<^item> \<open>Ctype\<close>: \<open>rt_ctype.c\<close>.
  \<^item> \<open>RtString\<close>: \<open>rt_string.c\<close>. Each routine has a lemma \<open>*_ok\<close> with its result
    and the memory it leaves; loops to a terminator are shown to end on a C string.
  \<^item> \<open>WString\<close>: \<open>rt_wstring.c\<close>, the same over memories of 16-bit units.
  \<^item> \<open>Qsort\<close>: \<open>qsort\<close> and \<open>bsearch\<close> of \<open>rt_stdlib.c\<close>. The locale
    \<open>block_cmp\<close> says what a comparison function must do; \<open>memcmp\<close> is an instance.
  \<^item> \<open>Strto\<close>: \<open>strtol\<close> and its family, \<open>rand\<close>, \<open>abs\<close> of \<open>rt_stdlib.c\<close>.
  \<^item> \<open>Bignum\<close>, \<open>FloatDigits\<close>, \<open>RtFormat\<close>: \<open>rt_format.c\<close>, from the bignum and
    \<open>rt_utoa\<close> through the exact and rounded digits of a double to the \<open>printf\<close> engine.
    The locale \<open>limb_scaler\<close> is the contract of a pass over the limbs, used by every
    multiplication of both bignums.
  \<^item> \<open>Printf\<close>, \<open>PrintfFloat\<close>: what \<open>vsnprintf\<close> promises: the text of every
    directive, nothing written outside the buffer, and \<open>%f\<close> rounded half to even.
  \<^item> \<open>Sbn\<close>, \<open>Strtod\<close>, \<open>Strtof\<close>: the number half of \<open>rt_scan.c\<close>: its bignum,
    which drops what does not fit, \<open>strtod\<close> and \<open>strtof\<close>.
  \<^item> \<open>StrtodSpec\<close>: \<open>strtod\<close> rounds half to even and returns as long as its numbers stay
    below \<open>S_LIMIT = 10\<^sup>9\<^sup>0\<^sup>0\<close>, what the bignum holds; past it the scaling loop can run for
    ever, and one input is shown on which it does.
  \<^item> \<open>Scanf\<close>: \<open>sscanf\<close>, one definition per conversion over the state of a scan.
    \<open>ScanfSpec\<close> says what a format does to an input text as the inductive relation
    \<open>scans\<close> and proves that the loop implements it; \<open>ScanfProps\<close> has the round trip with
    \<open>vsnprintf\<close> and the departures from the standard.
  \<^item> \<open>Ieee\<close>: the arithmetic of \<open>double\<close> on its 64 bits, which C only names: each
    operation is computed on integers and shown to be the real one, rounded half to even
    (\<open>f_result\<close>), exact where the result is \<open>representable\<close>.
  \<^item> \<open>RtMath\<close>, \<open>RtMathExp\<close>: \<open>rt_math.c\<close>. \<open>RtMathProps\<close>, \<open>RtSqrt\<close> and \<open>RtExpProps\<close> show
    what its functions compute; \<open>RtMathSpec\<close> states it: the rounding functions, \<open>fmod\<close>,
    \<open>modf\<close>, \<open>frexp\<close>, \<open>ldexp\<close> and integer powers are exact, \<open>sqrt\<close> is correctly rounded,
    the series functions return; and the inputs on which the code differs from C99.
  \<^item> \<open>StringHeader\<close>: the byte loops \<open>include/string.h\<close> carries under \<open>C99MTLC_STRING_IMPL\<close>, and
    their equivalence with the routines of \<open>rt_string.c\<close>.
  \<^item> \<open>Kernel32\<close>: the interface and \<open>rt_alloc.c\<close>. \<open>HeapMem\<close>: a block of \<open>malloc\<close> as bytes of
    memory, and \<open>strdup\<close>.
  \<^item> \<open>RtOs\<close>: \<open>rt_os.c\<close> and \<open>rt_jmp.c\<close>; paths stay in their buffers, times and the fields of
    \<open>stat\<close> are what the kernel reports, the context of a \<open>jmp_buf\<close> is aligned and inside it.
  \<^item> \<open>U128\<close>: the runtime of \<open>unsigned __int128\<close> that \<open>src/C99/Runtime.hs\<close> holds as C text; its
    helpers are the arithmetic of 128-bit words.
  \<^item> \<open>Blob\<close>: \<open>cbits/blob.c\<close>, the type descriptors the compiler keeps for its back end; in every run
    of requests two get the same descriptor exactly when they mean the same type.
  \<^item> \<open>Startup\<close>: \<open>rt_start.c\<close>; a command line quoted by the documented rules splits
    back into its arguments.
  \<^item> \<open>Stdio\<close>, \<open>StdioApi\<close>: \<open>rt_stdio.c\<close>, the operations of one stream, then the
    library functions on the list of open streams, and \<open>exit\<close>.
  \<^item> \<open>StdioSpec\<close>, \<open>StdioFile\<close>, \<open>StdioExit\<close>: streams refine an unbuffered file.
    \<open>stream_view\<close> is the abstraction function, \<open>stream_sim\<close> the simulation,
    \<open>stream_reach\<close> the reachable streams and \<open>stream_inv\<close> their invariant;
    \<open>exit\<close> delivers every pending byte.
  \<^item> \<open>StdioFormat\<close>: the entry points of \<open>rt_format.c\<close> that write to a stream, \<open>perror\<close> and
    \<open>system\<close>. The formatter's text is shown in pieces (\<open>emits\<close>, theory \<open>Printf\<close>), so that
    \<open>fprintf\<close> composes with the refinement of the streams: the text reaches the file.

  \<^bold>\<open>Bounds.\<close> \<open>BN_CAP\<close> and \<open>SBN_CAP\<close> (100 limbs), \<open>DIG_CAP\<close> (800 digits),
  \<open>BODY_CAP\<close> (832 characters) and \<open>RT_BUFSZ\<close> are the array sizes of the code; passing one
  of the first kind is \<open>None\<close> where the code has no test. There is no fuel: every loop is
  structural, has a termination proof, or is a partial function whose result is proved. The
  decimal and binary exponents of \<open>strtod\<close> and the index of a scanned field are unbounded
  where the code has an \<open>int\<close>: a string of \<open>2\<^sup>3\<^sup>1\<close> characters would be needed to tell.

  \<^bold>\<open>Not modelled.\<close> The accuracy of the series of \<open>rt_math.c\<close> (\<open>exp\<close>, \<open>log\<close>, \<open>sin\<close> and what
  is built on them), which are definitions with no error bound; the payload and sign of a NaN;
  the floating conversions of \<open>sscanf\<close> are definitions but have no
  rule in \<open>scans\<close>; the machine context of \<open>setjmp\<close>, which two kernel32 calls save and restore;
  the overlap of the buffer and the arguments of \<open>sprintf\<close>, which C leaves undefined; the
  headers under \<open>include/\<close> but for \<open>string.h\<close>, which declare; the compiler itself, which is
  Haskell, and the binary back end, whose headers are vendored.
\<close>

end
